(* ===== verification/Prelude.thy ===== *)
theory Prelude
  imports Complex_Main "HOL-Library.Word"
begin

text \<open>
  What the component theories share: the names of the C integer types, the
  collections that carry the simplification rules of one component to the next,
  the integer logarithm and square root that the floating-point operations of
  DeviceFloat compute with, and a few facts on words and powers of two that the
  library does not state in the form needed here.
\<close>

unbundle bit_operations_syntax

section \<open>Machine types and rule collections\<close>

type_synonym u8 = "8 word"
type_synonym u16 = "16 word"
type_synonym u32 = "32 word"
type_synonym u64 = "64 word"

named_theorems fp_simps \<open>evaluation of floating-point operations on special values\<close>
named_theorems word_mask_simps \<open>masks and segments of a power-of-two width\<close>

section \<open>Binary logarithm and integer square root\<close>

text \<open>
  The position of the highest set bit of a positive number, by binary search on the
  exponent: comparisons with powers of two only, so that it evaluates on the
  thousand-bit integers of the double format.
\<close>

fun ilog2_from :: "nat \<Rightarrow> nat \<Rightarrow> nat \<Rightarrow> nat" where
  "ilog2_from n a 0 = a"
| "ilog2_from n a (Suc b) = ilog2_from n (if 2 ^ (a + 2 ^ b) \<le> n then a + 2 ^ b else a) b"

definition ilog2 :: "nat \<Rightarrow> nat" where
  "ilog2 n = ilog2_from n 0 (if n < 2 ^ 64 then 6 else if n < 2 ^ 4096 then 12 else n)"

lemma ilog2_from_bounds:
  "2 ^ a \<le> n \<Longrightarrow> n < 2 ^ (a + 2 ^ b) \<Longrightarrow>
   2 ^ ilog2_from n a b \<le> n \<and> n < 2 ^ Suc (ilog2_from n a b)"
proof (induction b arbitrary: a)
  case (Suc b)
  show ?case
  proof (cases "2 ^ (a + 2 ^ b) \<le> n")
    case True
    have "a + 2 ^ b + 2 ^ b = a + 2 ^ Suc b" by simp
    with True Suc show ?thesis by (simp only: ilog2_from.simps if_True)
  qed (use Suc in simp)
qed simp

lemma ilog2_bounds:
  assumes "0 < n"
  shows "2 ^ ilog2 n \<le> n \<and> n < 2 ^ Suc (ilog2 n)"
proof -
  have "n < 2 ^ (2 ^ n)"
    by (meson less_exp less_trans)
  moreover have "n < 2 ^ 64 \<Longrightarrow> n < 2 ^ (2 ^ 6)" "n < 2 ^ 4096 \<Longrightarrow> n < 2 ^ (2 ^ 12)" by simp_all
  ultimately have "n < 2 ^ (0 + 2 ^ (if n < 2 ^ 64 then 6 else if n < 2 ^ 4096 then 12 else n))"
    by (simp only: add_0 split: if_split) blast
  with assms show ?thesis unfolding ilog2_def by (intro ilog2_from_bounds) simp_all
qed

lemmas ilog2_le = ilog2_bounds [THEN conjunct1]
lemmas ilog2_gt = ilog2_bounds [THEN conjunct2]

lemma ilog2_unique:
  assumes "2 ^ k \<le> n" and "n < 2 ^ Suc k"
  shows "ilog2 n = k"
proof -
  have pos: "0 < n" using assms(1) by (metis gr0I not_one_le_zero one_le_power one_le_numeral order_trans)
  have "(2::nat) ^ ilog2 n < 2 ^ Suc k" and "(2::nat) ^ k < 2 ^ Suc (ilog2 n)"
    using ilog2_le [OF pos] ilog2_gt [OF pos] assms by linarith+
  then have "ilog2 n < Suc k" and "k < Suc (ilog2 n)"
    by (simp_all only: power_strict_increasing_iff one_less_numeral_iff semiring_norm)
  then show ?thesis by simp
qed

definition isqrt_step :: "nat \<Rightarrow> nat \<Rightarrow> nat" where
  "isqrt_step n s = (if (s + 1) * (s + 1) \<le> n then s + 1 else s)"

fun isqrt :: "nat \<Rightarrow> nat" where
  "isqrt n = (if n = 0 then 0 else isqrt_step n (2 * isqrt (n div 4)))"

declare isqrt.simps [simp del]

lemma isqrt_bounds: "isqrt n * isqrt n \<le> n \<and> n < (isqrt n + 1) * (isqrt n + 1)"
proof (induction n rule: isqrt.induct)
  case (1 n)
  show ?case
  proof (cases "n = 0")
    case True
    then show ?thesis by (simp add: isqrt.simps [of 0])
  next
    case False
    define t where "t = isqrt (n div 4)"
    have ih: "t * t \<le> n div 4" "n div 4 < (t + 1) * (t + 1)"
      using 1 False by (simp_all add: t_def)
    have lo: "4 * (t * t) \<le> n" using ih(1) by linarith
    have "n < 4 * ((t + 1) * (t + 1))" using ih(2) by linarith
    then have hi: "n < (2 * t + 2) * (2 * t + 2)" by (simp add: algebra_simps)
    show ?thesis
      using False lo hi
      by (simp add: isqrt.simps [of n] isqrt_step_def t_def [symmetric] algebra_simps)
  qed
qed

section \<open>Segments of a power-of-two width\<close>

lemma width_mask [word_mask_simps]: "(2 ^ k - 1 :: 'a::len word) = mask k"
  by (simp add: mask_eq_exp_minus_1)

lemma unat_and_mask [word_mask_simps]:
  fixes x :: "'a::len word"
  shows "unat (x AND mask k) = unat x mod 2 ^ k"
  by (simp only: take_bit_eq_mask [symmetric] unsigned_take_bit_eq) (simp only: take_bit_eq_mod)

lemma and_not_mask_add:
  fixes x y :: "'a::len word"
  shows "(x AND NOT (mask k)) OR (y AND mask k) = (x AND NOT (mask k)) + (y AND mask k)"
  by (rule disjunctive_add [symmetric]) (auto simp: bit_simps)

lemma and_not_mask_eq:
  fixes x :: "'a::len word"
  shows "x AND NOT (mask k) = x - (x AND mask k)"
proof -
  have "(x AND NOT (mask k)) + (x AND mask k) = x"
    unfolding and_not_mask_add [symmetric] by (rule bit_word_eqI) (auto simp: bit_simps)
  then show ?thesis by (simp add: eq_diff_eq)
qed

lemma unat_and_not_mask [word_mask_simps]:
  fixes x :: "'a::len word"
  shows "unat (x AND NOT (mask k)) = unat x div 2 ^ k * 2 ^ k"
proof -
  have "x AND mask k \<le> x" by (rule word_and_le2)
  then have "unat (x AND NOT (mask k)) = unat x - unat x mod 2 ^ k"
    by (simp only: and_not_mask_eq unat_sub unat_and_mask)
  then show ?thesis by (simp add: minus_mod_eq_div_mult)
qed

lemma unat_segment [word_mask_simps]:
  fixes x y :: "'a::len word"
  assumes "k < LENGTH('a)"
  shows "unat ((x AND NOT (mask k)) OR (y AND mask k)) = unat x div 2 ^ k * 2 ^ k + unat y mod 2 ^ k"
proof -
  have d: "(2 :: nat) ^ k dvd 2 ^ LENGTH('a)" using assms by (simp add: le_imp_power_dvd)
  have "unat x div 2 ^ k * 2 ^ k + unat y mod 2 ^ k < 2 ^ LENGTH('a)"
  proof -
    have "unat x div 2 ^ k < 2 ^ LENGTH('a) div 2 ^ k"
      using d unsigned_less [of x, where 'a = nat] by (simp add: less_mult_imp_div_less)
    then have "(unat x div 2 ^ k + 1) * 2 ^ k \<le> 2 ^ LENGTH('a) div 2 ^ k * 2 ^ k"
      by (intro mult_right_mono) simp_all
    also have "\<dots> = 2 ^ LENGTH('a)" using d by (rule dvd_div_mult_self)
    finally have "unat x div 2 ^ k * 2 ^ k + 2 ^ k \<le> 2 ^ LENGTH('a)" by simp
    moreover have "unat y mod 2 ^ k < 2 ^ k" by simp
    ultimately show ?thesis by linarith
  qed
  then show ?thesis
    by (simp only: and_not_mask_add unat_word_ariths unat_and_not_mask unat_and_mask mod_less)
qed

lemma or_mask_segment: "(x :: 'a::len word) OR mask k = (x AND NOT (mask k)) OR (mask k AND mask k)"
  by (rule bit_word_eqI) (auto simp: bit_simps)

lemma unat_or_mask [word_mask_simps]:
  fixes x :: "'a::len word"
  assumes "k < LENGTH('a)"
  shows "unat (x OR mask k) = unat x div 2 ^ k * 2 ^ k + (2 ^ k - 1)"
proof -
  have "(2 :: nat) ^ k < 2 ^ LENGTH('a)" using assms by (rule power_strict_increasing) simp
  then have "(2 :: nat) ^ k - 1 < 2 ^ LENGTH('a)" by linarith
  then have "unat (mask k :: 'a word) = 2 ^ k - 1"
    using unat_of_nat [of "mask k", where 'a = 'a] by (simp add: of_nat_mask_eq mask_eq_exp_minus_1)
  then show ?thesis using assms by (simp only: or_mask_segment unat_segment) simp
qed

lemma of_nat_unat_eqI: "unat (x :: 'a::len word) = n \<Longrightarrow> x = of_nat n"
  by auto

lemma segment_bound:
  fixes l w n :: nat
  assumes "l < n" and "w dvd n" and "r < w"
  shows "l div w * w + r < n"
proof -
  obtain c where c: "n = c * w" using assms(2) by (metis dvd_def mult.commute)
  have "l div w < c" using assms(1) c by (simp add: less_mult_imp_div_less)
  then have "(l div w + 1) * w \<le> c * w" by (intro mult_right_mono) simp_all
  with assms(3) c show ?thesis by simp
qed

section \<open>The first index with a property\<close>

lemma takeWhile_upt_first:
  assumes "\<exists>i<n. P i"
  defines "k \<equiv> length (takeWhile (\<lambda>i. \<not> P i) [0..<n])"
  shows "k < n" and "P k" and "\<And>i. i < k \<Longrightarrow> \<not> P i"
proof -
  have "k \<le> n" unfolding k_def using length_takeWhile_le [of _ "[0..<n]"] by simp
  moreover have "k \<noteq> n"
  proof
    assume "k = n"
    then have "takeWhile (\<lambda>i. \<not> P i) [0..<n] = [0..<n]"
      unfolding k_def by (metis takeWhile_eq_take take_all_iff length_upt minus_nat.diff_0 order_refl)
    then show False using assms(1) by (metis atLeastLessThan_iff set_takeWhileD set_upt zero_le)
  qed
  ultimately show lt: "k < n" by simp
  then show "P k"
    unfolding k_def using nth_length_takeWhile [of "\<lambda>i. \<not> P i" "[0..<n]"] by simp
  show "\<not> P i" if "i < k" for i
  proof -
    have "takeWhile (\<lambda>i. \<not> P i) [0..<n] ! i \<in> set (takeWhile (\<lambda>i. \<not> P i) [0..<n])"
      using that unfolding k_def by (rule nth_mem)
    moreover have "takeWhile (\<lambda>i. \<not> P i) [0..<n] ! i = i"
      using that lt unfolding k_def by (simp add: takeWhile_nth)
    ultimately show ?thesis by (metis set_takeWhileD)
  qed
qed

end
