(* ===== verification/DeviceFloat.thy ===== *)
theory DeviceFloat
  imports Prelude
begin

text \<open>
  The IEEE 754 binary formats the device headers compute in: the meaning of the
  C operators on float and double and of the functions the compiler lowers to one
  instruction (fma, rint, trunc, sqrt). A value is a sign, a significand and an
  exponent, canonical for its format; every operation is the exact result
  rounded once, to nearest with ties to even. Everything computes on integers,
  so a call of the device library on a concrete argument is evaluated by the
  simplifier.
\<close>

section \<open>Formats and values\<close>

record fmt =
  prec :: nat
  ebits :: nat

definition binary32 :: fmt where "binary32 = \<lparr>prec = 24, ebits = 8\<rparr>"
definition binary64 :: fmt where "binary64 = \<lparr>prec = 53, ebits = 11\<rparr>"

definition bias :: "fmt \<Rightarrow> int" where
  "bias F = 2 ^ (ebits F - 1) - 1"

text \<open>The exponent of the last significand bit: least (subnormals) and greatest.\<close>

definition emin :: "fmt \<Rightarrow> int" where
  "emin F = 2 - bias F - int (prec F)"

definition emax :: "fmt \<Rightarrow> int" where
  "emax F = bias F - int (prec F) + 1"

datatype fp = FNaN | FInf bool | FFin bool nat int

definition wf_fmt :: "fmt \<Rightarrow> bool" where
  "wf_fmt F \<longleftrightarrow> 2 \<le> prec F \<and> 2 \<le> ebits F"

fun wf_fp :: "fmt \<Rightarrow> fp \<Rightarrow> bool" where
  "wf_fp F FNaN = True"
| "wf_fp F (FInf s) = True"
| "wf_fp F (FFin s m e) =
     (m < 2 ^ prec F \<and> emin F \<le> e \<and> e \<le> emax F \<and>
      (2 ^ (prec F - 1) \<le> m \<or> e = emin F))"

definition fp_zero :: "fmt \<Rightarrow> bool \<Rightarrow> fp" where
  "fp_zero F s = FFin s 0 (emin F)"

section \<open>Rounding\<close>

text \<open>The floor of the binary logarithm of n / d.\<close>

definition qlog2_at :: "nat \<Rightarrow> nat \<Rightarrow> int \<Rightarrow> int" where
  "qlog2_at n d a = (if d * 2 ^ nat a \<le> n * 2 ^ nat (- a) then a else a - 1)"

definition qlog2 :: "nat \<Rightarrow> nat \<Rightarrow> int" where
  "qlog2 n d = qlog2_at n d (int (ilog2 n) - int (ilog2 d))"

text \<open>The finite value q * 2^e after rounding, carrying into the next binade or overflowing.\<close>

definition fp_pack :: "fmt \<Rightarrow> bool \<Rightarrow> nat \<Rightarrow> int \<Rightarrow> fp" where
  "fp_pack F s q e =
     (if q = 2 ^ prec F then (if emax F < e + 1 then FInf s else FFin s (2 ^ (prec F - 1)) (e + 1))
      else if emax F < e then FInf s else FFin s q e)"

text \<open>N / D to the nearest integer, ties to the even one.\<close>

definition rne_adjust :: "nat \<Rightarrow> nat \<Rightarrow> nat \<Rightarrow> nat" where
  "rne_adjust q r D = (if D < 2 * r \<or> (2 * r = D \<and> odd q) then q + 1 else q)"

definition div_rne :: "nat \<Rightarrow> nat \<Rightarrow> nat" where
  "div_rne N D = rne_adjust (N div D) (N mod D) D"

text \<open>n / d * 2^k to the nearest value of the format, ties to the even significand.\<close>

definition fp_round_at :: "fmt \<Rightarrow> bool \<Rightarrow> nat \<Rightarrow> nat \<Rightarrow> int \<Rightarrow> int \<Rightarrow> fp" where
  "fp_round_at F s n d k e = fp_pack F s (div_rne (n * 2 ^ nat (k - e)) (d * 2 ^ nat (e - k))) e"

definition fp_round :: "fmt \<Rightarrow> bool \<Rightarrow> nat \<Rightarrow> nat \<Rightarrow> int \<Rightarrow> fp" where
  "fp_round F s n d k =
     (if n = 0 then fp_zero F s
      else fp_round_at F s n d k (max (emin F) (qlog2 n d + k - int (prec F) + 1)))"

text \<open>An exact signed dyadic M * 2^k; the sign of an exact zero is given.\<close>

definition fp_round_int :: "fmt \<Rightarrow> bool \<Rightarrow> int \<Rightarrow> int \<Rightarrow> fp" where
  "fp_round_int F z M k =
     (if M = 0 then fp_zero F z else fp_round F (M < 0) (nat \<bar>M\<bar>) 1 k)"

section \<open>Operations\<close>

fun fp_neg :: "fp \<Rightarrow> fp" where
  "fp_neg FNaN = FNaN"
| "fp_neg (FInf s) = FInf (\<not> s)"
| "fp_neg (FFin s m e) = FFin (\<not> s) m e"

definition smant :: "bool \<Rightarrow> nat \<Rightarrow> int" where
  "smant s m = (if s then - int m else int m)"

text \<open>The integer significand of the exact sum of two signed dyadics, at the least exponent.\<close>

definition dy_add :: "int \<Rightarrow> int \<Rightarrow> int \<Rightarrow> int \<Rightarrow> int" where
  "dy_add M e N f = M * 2 ^ nat (e - min e f) + N * 2 ^ nat (f - min e f)"

fun fp_add :: "fmt \<Rightarrow> fp \<Rightarrow> fp \<Rightarrow> fp" where
  "fp_add F FNaN y = FNaN"
| "fp_add F x FNaN = FNaN"
| "fp_add F (FInf s) (FInf t) = (if s = t then FInf s else FNaN)"
| "fp_add F (FInf s) y = FInf s"
| "fp_add F x (FInf t) = FInf t"
| "fp_add F (FFin s m e) (FFin t n f) =
     fp_round_int F (s \<and> t) (dy_add (smant s m) e (smant t n) f) (min e f)"

definition fp_sub :: "fmt \<Rightarrow> fp \<Rightarrow> fp \<Rightarrow> fp" where
  "fp_sub F x y = fp_add F x (fp_neg y)"

fun fp_mul :: "fmt \<Rightarrow> fp \<Rightarrow> fp \<Rightarrow> fp" where
  "fp_mul F FNaN y = FNaN"
| "fp_mul F x FNaN = FNaN"
| "fp_mul F (FInf s) (FInf t) = FInf (s \<noteq> t)"
| "fp_mul F (FInf s) (FFin t n f) = (if n = 0 then FNaN else FInf (s \<noteq> t))"
| "fp_mul F (FFin s m e) (FInf t) = (if m = 0 then FNaN else FInf (s \<noteq> t))"
| "fp_mul F (FFin s m e) (FFin t n f) = fp_round F (s \<noteq> t) (m * n) 1 (e + f)"

fun fp_div :: "fmt \<Rightarrow> fp \<Rightarrow> fp \<Rightarrow> fp" where
  "fp_div F FNaN y = FNaN"
| "fp_div F x FNaN = FNaN"
| "fp_div F (FInf s) (FInf t) = FNaN"
| "fp_div F (FInf s) (FFin t n f) = FInf (s \<noteq> t)"
| "fp_div F (FFin s m e) (FInf t) = fp_zero F (s \<noteq> t)"
| "fp_div F (FFin s m e) (FFin t n f) =
     (if n = 0 then (if m = 0 then FNaN else FInf (s \<noteq> t))
      else fp_round F (s \<noteq> t) m n (e - f))"

text \<open>The product is exact and the sum is rounded once.\<close>

fun fp_fma :: "fmt \<Rightarrow> fp \<Rightarrow> fp \<Rightarrow> fp \<Rightarrow> fp" where
  "fp_fma F (FFin s m e) (FFin t n f) (FFin u l g) =
     fp_round_int F ((s \<noteq> t) \<and> u)
       (dy_add (smant (s \<noteq> t) (m * n)) (e + f) (smant u l) g) (min (e + f) g)"
| "fp_fma F (FFin s m e) (FFin t n f) z = z"
| "fp_fma F x y z = fp_add F (fp_mul F x y) z"

fun fp_lt :: "fp \<Rightarrow> fp \<Rightarrow> bool" where
  "fp_lt FNaN y = False"
| "fp_lt x FNaN = False"
| "fp_lt (FInf s) (FInf t) = (s \<and> \<not> t)"
| "fp_lt (FInf s) (FFin t n f) = s"
| "fp_lt (FFin s m e) (FInf t) = (\<not> t)"
| "fp_lt (FFin s m e) (FFin t n f) = (dy_add (smant s m) e (- smant t n) f < 0)"

fun fp_eq :: "fp \<Rightarrow> fp \<Rightarrow> bool" where
  "fp_eq FNaN y = False"
| "fp_eq x FNaN = False"
| "fp_eq (FInf s) (FInf t) = (s = t)"
| "fp_eq (FFin s m e) (FFin t n f) = (dy_add (smant s m) e (- smant t n) f = 0)"
| "fp_eq x y = False"

text \<open>Round to an integral value: to nearest even (rint), and toward zero (trunc).\<close>

fun fp_rint :: "fmt \<Rightarrow> fp \<Rightarrow> fp" where
  "fp_rint F (FFin s m e) =
     (if 0 \<le> e then FFin s m e else fp_round F s (div_rne m (2 ^ nat (- e))) 1 0)"
| "fp_rint F x = x"

fun fp_trunc :: "fmt \<Rightarrow> fp \<Rightarrow> fp" where
  "fp_trunc F (FFin s m e) =
     (if 0 \<le> e then FFin s m e else fp_round F s (m div 2 ^ nat (- e)) 1 0)"
| "fp_trunc F x = x"

text \<open>
  The square root: the significand is scaled by an even power of two until its
  integer root has two bits more than the format, and a sticky bit says whether the
  root is exact; rounding that is rounding the exact root.
\<close>

definition sqrt_sticky :: "nat \<Rightarrow> nat \<Rightarrow> nat" where
  "sqrt_sticky M q = 2 * q + (if q * q = M then 0 else 1)"

definition sqrt_shift :: "fmt \<Rightarrow> int \<Rightarrow> nat" where
  "sqrt_shift F e = 2 * prec F + 4 + nat ((e - 2 * int (prec F) - 4) mod 2)"

fun fp_sqrt :: "fmt \<Rightarrow> fp \<Rightarrow> fp" where
  "fp_sqrt F FNaN = FNaN"
| "fp_sqrt F (FInf s) = (if s then FNaN else FInf False)"
| "fp_sqrt F (FFin s m e) =
     (if m = 0 then FFin s m e else if s then FNaN else
      fp_round F False
        (sqrt_sticky (m * 2 ^ sqrt_shift F e) (isqrt (m * 2 ^ sqrt_shift F e))) 2
        ((e - int (sqrt_shift F e)) div 2))"

text \<open>
  Conversions. To int the hardware truncates, sends NaN to 0 and clamps at the ends
  of the range, where the language leaves the result undefined.
\<close>

definition clamp32 :: "int \<Rightarrow> int" where
  "clamp32 i = max (- (2 ^ 31)) (min (2 ^ 31 - 1) i)"

fun fp_to_int :: "fp \<Rightarrow> int" where
  "fp_to_int FNaN = 0"
| "fp_to_int (FInf s) = (if s then - (2 ^ 31) else 2 ^ 31 - 1)"
| "fp_to_int (FFin s m e) =
     clamp32 (smant s (if 0 \<le> e then m * 2 ^ nat e else m div 2 ^ nat (- e)))"

definition fp_of_int :: "fmt \<Rightarrow> int \<Rightarrow> fp" where
  "fp_of_int F i = fp_round_int F False i 0"

text \<open>A decimal literal: the digits M and the power of ten k.\<close>

definition fp_dec :: "fmt \<Rightarrow> int \<Rightarrow> int \<Rightarrow> fp" where
  "fp_dec F M k =
     fp_round F (M < 0) (nat \<bar>M\<bar> * 10 ^ nat k) (10 ^ nat (- k)) 0"

section \<open>Bit patterns\<close>

fun fp_to_bits :: "fmt \<Rightarrow> fp \<Rightarrow> nat" where
  "fp_to_bits F FNaN =
     (2 ^ ebits F - 1) * 2 ^ (prec F - 1) + 2 ^ (prec F - 2)"
| "fp_to_bits F (FInf s) =
     (if s then 2 ^ (ebits F + prec F - 1) else 0) + (2 ^ ebits F - 1) * 2 ^ (prec F - 1)"
| "fp_to_bits F (FFin s m e) =
     (if s then 2 ^ (ebits F + prec F - 1) else 0) +
     (if m < 2 ^ (prec F - 1) then m
      else nat (e - emin F + 1) * 2 ^ (prec F - 1) + (m - 2 ^ (prec F - 1)))"

definition fp_of_bits :: "fmt \<Rightarrow> nat \<Rightarrow> fp" where
  "fp_of_bits F b =
     (let frac = b mod 2 ^ (prec F - 1);
          ex = b div 2 ^ (prec F - 1) mod 2 ^ ebits F;
          s = odd (b div 2 ^ (ebits F + prec F - 1))
      in if ex = 2 ^ ebits F - 1 then (if frac = 0 then FInf s else FNaN)
         else if ex = 0 then FFin s frac (emin F)
         else FFin s (2 ^ (prec F - 1) + frac) (emin F + int ex - 1))"

section \<open>Evaluation on numerals\<close>

lemma ilog2_from_numeral [fp_simps]:
  "ilog2_from n a (numeral k) =
     ilog2_from n (if 2 ^ (a + 2 ^ pred_numeral k) \<le> n then a + 2 ^ pred_numeral k else a)
       (pred_numeral k)"
  by (simp add: numeral_eq_Suc)

lemma format_constants [fp_simps]:
  "prec binary32 = 24" "ebits binary32 = 8" "emin binary32 = -149" "emax binary32 = 104"
  "prec binary64 = 53" "ebits binary64 = 11" "emin binary64 = -1074" "emax binary64 = 971"
  by (simp_all add: binary32_def binary64_def bias_def emin_def emax_def)

lemmas [fp_simps] =
  fp_zero_def qlog2_def qlog2_at_def
  fp_pack_def rne_adjust_def div_rne_def fp_round_at_def fp_round_def fp_round_int_def
  smant_def dy_add_def fp_sub_def sqrt_sticky_def sqrt_shift_def clamp32_def fp_of_int_def
  fp_dec_def fp_of_bits_def ilog2_def isqrt_step_def isqrt.simps Let_def

section \<open>NaN and negation\<close>

lemma fp_nan_right [simp]:
  "fp_add F x FNaN = FNaN" "fp_sub F x FNaN = FNaN" "fp_mul F x FNaN = FNaN" "fp_div F x FNaN = FNaN"
  "fp_fma F x FNaN z = FNaN" "fp_fma F x y FNaN = FNaN"
  "\<not> fp_lt x FNaN" "\<not> fp_eq x FNaN"
  by (cases x; cases y; simp add: fp_sub_def)+

lemma fp_neg_neg [simp]: "fp_neg (fp_neg x) = x"
  by (cases x) simp_all

lemma fp_neg_eq_nan [simp]: "fp_neg x = FNaN \<longleftrightarrow> x = FNaN"
  by (cases x) simp_all

fun fp_val :: "fp \<Rightarrow> real" where
  "fp_val (FFin s m e) = real_of_int (smant s m) * 2 powi e"
| "fp_val x = 0"

lemma fp_val_neg [simp]: "fp_val (fp_neg x) = - fp_val x"
  by (cases x) (simp_all add: smant_def)

section \<open>The reference: rounding a real number\<close>

lemma two_powr_int: "2 powr real_of_int k = (2 :: real) powi k"
  by (simp add: powr_real_of_int')

lemma floor_log2_iff:
  fixes x :: real
  assumes "0 < x"
  shows "\<lfloor>log 2 x\<rfloor> = E \<longleftrightarrow> 2 powi E \<le> x \<and> x < 2 powi (E + 1)"
  using floor_log_eq_powr_iff [OF assms, of 2 E] two_powr_int [of E] two_powr_int [of "E + 1"]
  by simp

lemma floor_log2_eqI:
  fixes x :: real
  assumes "2 powi E \<le> x" and "x < 2 powi (E + 1)"
  shows "\<lfloor>log 2 x\<rfloor> = E"
proof -
  have "0 < x" using assms(1) by (meson less_le_trans zero_less_numeral zero_less_power_int)
  then show ?thesis using assms by (simp add: floor_log2_iff)
qed

lemma real_powi_nat_diff:
  "real (2 ^ nat a) / real (2 ^ nat (- a)) = 2 powi a"
proof (cases "0 \<le> a")
  case True
  then show ?thesis by (simp add: power_int_def)
next
  case False
  then show ?thesis by (simp add: power_int_def field_simps)
qed

lemma real_ilog2:
  assumes "0 < n"
  shows "2 powi int (ilog2 n) \<le> real n" and "real n < 2 powi (int (ilog2 n) + 1)"
proof -
  have "real (2 ^ ilog2 n) \<le> real n" "real n < real (2 ^ Suc (ilog2 n))"
    using ilog2_bounds [OF assms] by (simp_all only: of_nat_le_iff of_nat_less_iff)
  then show "2 powi int (ilog2 n) \<le> real n" and "real n < 2 powi (int (ilog2 n) + 1)"
    by (simp_all add: power_int_add)
qed

lemma qlog2_correct:
  assumes "0 < n" and "0 < d"
  shows "qlog2 n d = \<lfloor>log 2 (real n / real d)\<rfloor>"
proof -
  define a where "a = int (ilog2 n) - int (ilog2 d)"
  define x where "x = real n / real d"
  note n = real_ilog2 [OF assms(1)] and d = real_ilog2 [OF assms(2)]
  have hi: "x < 2 powi (a + 1)"
  proof -
    have "x \<le> real n / 2 powi int (ilog2 d)"
      unfolding x_def using d(1) assms by (intro divide_left_mono) simp_all
    also have "\<dots> < 2 powi (int (ilog2 n) + 1) / 2 powi int (ilog2 d)"
      using n(2) by (intro divide_strict_right_mono) auto
    also have "\<dots> = 2 powi (a + 1)"
      by (simp add: a_def power_int_add power_int_diff)
    finally show ?thesis .
  qed
  have lo: "2 powi (a - 1) \<le> x"
  proof -
    have "(2 :: real) powi (a - 1) = 2 powi int (ilog2 n) / 2 powi (int (ilog2 d) + 1)"
      by (simp add: a_def power_int_add power_int_diff)
    also have "\<dots> \<le> real n / 2 powi (int (ilog2 d) + 1)"
      using n(1) by (intro divide_right_mono) auto
    also have "\<dots> \<le> x"
      unfolding x_def using d(2) assms by (intro divide_left_mono) (auto intro!: mult_pos_pos)
    finally show ?thesis .
  qed
  have cmp: "d * 2 ^ nat a \<le> n * 2 ^ nat (- a) \<longleftrightarrow> 2 powi a \<le> x"
  proof -
    have "d * 2 ^ nat a \<le> n * 2 ^ nat (- a) \<longleftrightarrow> real d * real (2 ^ nat a) \<le> real n * real (2 ^ nat (- a))"
      by (metis of_nat_le_iff of_nat_mult)
    also have "\<dots> \<longleftrightarrow> real (2 ^ nat a) / real (2 ^ nat (- a)) \<le> x"
      using assms by (simp add: x_def field_simps)
    finally show ?thesis by (simp only: real_powi_nat_diff)
  qed
  show ?thesis
  proof (cases "2 powi a \<le> x")
    case True
    then show ?thesis
      using floor_log2_eqI [of a x] hi cmp by (simp add: qlog2_def qlog2_at_def flip: a_def x_def)
  next
    case False
    then show ?thesis
      using floor_log2_eqI [of "a - 1" x] lo cmp by (simp add: qlog2_def qlog2_at_def flip: a_def x_def)
  qed
qed

text \<open>Round to nearest, ties to even, of a nonnegative real.\<close>

definition rne :: "real \<Rightarrow> nat" where
  "rne y = (let q = nat \<lfloor>y\<rfloor>; r = y - real q in
     if 1 / 2 < r \<or> (r = 1 / 2 \<and> odd q) then q + 1 else q)"

definition fp_exp_of :: "fmt \<Rightarrow> real \<Rightarrow> int" where
  "fp_exp_of F x = max (emin F) (\<lfloor>log 2 x\<rfloor> - int (prec F) + 1)"

definition fp_round_real :: "fmt \<Rightarrow> bool \<Rightarrow> real \<Rightarrow> fp" where
  "fp_round_real F s x =
     (if x = 0 then fp_zero F s
      else fp_pack F s (rne (x / 2 powi fp_exp_of F x)) (fp_exp_of F x))"

lemma rne_div:
  assumes "0 < D"
  shows "rne (real N / real D) = div_rne N D"
proof -
  have q: "nat \<lfloor>real N / real D\<rfloor> = N div D"
    by (simp add: floor_divide_of_nat_eq)
  have split: "real N = real (N div D) * real D + real (N mod D)"
    by (metis div_mult_mod_eq of_nat_add of_nat_mult)
  have r: "real N / real D - real (N div D) = real (N mod D) / real D"
    using assms by (subst split) (simp add: field_simps)
  have "1 / 2 < real (N mod D) / real D \<longleftrightarrow> D < 2 * (N mod D)"
  proof -
    have "1 / 2 < real (N mod D) / real D \<longleftrightarrow> real D < real (2 * (N mod D))"
      using assms by (simp add: field_simps)
    then show ?thesis by (simp only: of_nat_less_iff)
  qed
  moreover have "real (N mod D) / real D = 1 / 2 \<longleftrightarrow> 2 * (N mod D) = D"
  proof -
    have "real (N mod D) / real D = 1 / 2 \<longleftrightarrow> real (2 * (N mod D)) = real D"
      using assms by (auto simp: field_simps)
    then show ?thesis by (simp only: of_nat_eq_iff)
  qed
  ultimately show ?thesis by (simp only: rne_def div_rne_def rne_adjust_def Let_def q r)
qed

theorem fp_round_real_eq:
  assumes "0 < d"
  shows "fp_round F s n d k = fp_round_real F s (real n / real d * 2 powi k)"
proof (cases "n = 0")
  case True
  then show ?thesis by (simp add: fp_round_def fp_round_real_def)
next
  case False
  define x where "x = real n / real d * 2 powi k"
  have pos: "0 < x" using False assms by (simp add: x_def)
  have lg: "\<lfloor>log 2 x\<rfloor> = qlog2 n d + k"
  proof -
    have "log 2 x = log 2 (real n / real d) + log 2 (2 powr real_of_int k)"
      using False assms unfolding x_def two_powr_int [symmetric]
      by (subst log_mult) simp_all
    then show ?thesis using False assms by (simp add: qlog2_correct)
  qed
  define e where "e = fp_exp_of F x"
  have e: "e = max (emin F) (qlog2 n d + k - int (prec F) + 1)"
    by (simp add: e_def fp_exp_of_def lg)
  have "x / 2 powi e = real n / real d * 2 powi (k - e)"
    by (simp add: x_def power_int_diff)
  also have "\<dots> = real (n * 2 ^ nat (k - e)) / real (d * 2 ^ nat (e - k))"
    using real_powi_nat_diff [of "k - e"] by (simp add: field_simps)
  finally have y: "x / 2 powi e = \<dots>" .
  have "0 < d * 2 ^ nat (e - k)" using assms by simp
  from rne_div [OF this, of "n * 2 ^ nat (k - e)"] have
    "fp_round F s n d k = fp_pack F s (rne (x / 2 powi e)) e"
    using False by (simp add: fp_round_def fp_round_at_def y flip: e)
  then show ?thesis
    using pos unfolding x_def [symmetric] by (simp add: fp_round_real_def e_def)
qed

lemma floor_log2_bounds:
  fixes x :: real
  assumes "0 < x"
  shows "2 powi \<lfloor>log 2 x\<rfloor> \<le> x" and "x < 2 powi (\<lfloor>log 2 x\<rfloor> + 1)"
  using floor_log2_iff [OF assms, of "\<lfloor>log 2 x\<rfloor>"] by simp_all

lemma power_int_less_imp_less_two:
  assumes "(2 :: real) powi a < 2 powi b"
  shows "a < b"
proof (rule ccontr)
  assume "\<not> a < b"
  then have "(2 :: real) powi b \<le> 2 powi a" by (intro power_int_increasing) simp_all
  with assms show False by simp
qed

lemma rne_of_nat [simp]: "rne (real m) = m"
  by (simp add: rne_def)

lemma rne_nearest:
  assumes "0 \<le> y"
  shows "\<bar>real (rne y) - y\<bar> \<le> 1 / 2"
proof -
  have "real (nat \<lfloor>y\<rfloor>) \<le> y" "y < real (nat \<lfloor>y\<rfloor>) + 1" using assms by linarith+
  then show ?thesis unfolding rne_def Let_def by (auto simp only: of_nat_add of_nat_1 split: if_split)
qed

lemma rne_le: "y \<le> real m \<Longrightarrow> rne y \<le> m"
proof (cases "0 \<le> y")
  case True
  assume le: "y \<le> real m"
  have "real (rne y) \<le> y + 1 / 2" using rne_nearest [OF True] by linarith
  with le have "real (rne y) < real m + 1" by linarith
  then show ?thesis by linarith
next
  case False
  then have "\<lfloor>y\<rfloor> \<le> 0" "y < 0" by linarith+
  then show ?thesis by (simp add: rne_def)
qed

lemma rne_ge:
  assumes "real m \<le> y"
  shows "m \<le> rne y"
proof -
  have "y - 1 / 2 \<le> real (rne y)" using rne_nearest [of y] assms by linarith
  with assms have "real m < real (rne y) + 1" by linarith
  then show ?thesis by linarith
qed

lemma fp_exp_of_upper:
  assumes "0 < x"
  shows "x / 2 powi fp_exp_of F x < 2 ^ prec F"
proof -
  have "x < 2 powi (\<lfloor>log 2 x\<rfloor> + 1)" using floor_log2_bounds [OF assms] by simp
  also have "\<dots> \<le> 2 powi (fp_exp_of F x + int (prec F))"
    by (rule power_int_increasing) (simp_all add: fp_exp_of_def)
  finally show ?thesis by (simp add: power_int_add field_simps)
qed

lemma fp_exp_of_lower:
  assumes "0 < x" and "emin F < fp_exp_of F x" and "1 \<le> prec F"
  shows "2 ^ (prec F - 1) \<le> x / 2 powi fp_exp_of F x"
proof -
  have e: "fp_exp_of F x = \<lfloor>log 2 x\<rfloor> - int (prec F - 1)"
    using assms(2,3) by (auto simp: fp_exp_of_def max_def split: if_splits)
  have "2 powi \<lfloor>log 2 x\<rfloor> \<le> x" using floor_log2_bounds [OF assms(1)] by simp
  then show ?thesis by (simp add: e power_int_diff field_simps)
qed

lemma emin_le_fp_exp_of [simp]: "emin F \<le> fp_exp_of F x"
  by (simp add: fp_exp_of_def)

lemma emin_le_emax: "wf_fmt F \<Longrightarrow> emin F \<le> emax F"
proof -
  assume "wf_fmt F"
  then have "(2 :: int) ^ 1 \<le> 2 ^ (ebits F - 1)"
    by (intro power_increasing) (auto simp: wf_fmt_def)
  then show ?thesis by (simp add: emin_def emax_def bias_def)
qed

lemma fp_pack_wf:
  assumes "wf_fmt F" and "q \<le> 2 ^ prec F" and "emin F \<le> e" and "2 ^ (prec F - 1) \<le> q \<or> e = emin F"
  shows "wf_fp F (fp_pack F s q e)"
  using assms by (auto simp: fp_pack_def wf_fmt_def)

theorem fp_round_real_wf:
  assumes "wf_fmt F" and "0 \<le> x"
  shows "wf_fp F (fp_round_real F s x)"
proof (cases "x = 0")
  case True
  with emin_le_emax [OF assms(1)] show ?thesis by (simp add: fp_round_real_def fp_zero_def)
next
  case False
  with assms have pos: "0 < x" by simp
  define e where "e = fp_exp_of F x"
  have "rne (x / 2 powi e) \<le> 2 ^ prec F"
    using fp_exp_of_upper [OF pos, of F] by (intro rne_le) (simp add: e_def)
  moreover have "2 ^ (prec F - 1) \<le> rne (x / 2 powi e) \<or> e = emin F"
    using fp_exp_of_lower [OF pos, of F] assms(1)
    by (cases "e = emin F") (auto intro!: rne_ge simp: e_def wf_fmt_def order.strict_iff_order)
  ultimately have "wf_fp F (fp_pack F s (rne (x / 2 powi e)) e)"
    using assms(1) by (intro fp_pack_wf) (simp_all add: e_def)
  with False show ?thesis by (simp add: fp_round_real_def e_def)
qed

lemma fp_round_wf: "wf_fmt F \<Longrightarrow> 0 < d \<Longrightarrow> wf_fp F (fp_round F s n d k)"
  by (simp add: fp_round_real_eq fp_round_real_wf)

text \<open>Scaling a value of the format up by a power of two loses no bits: it overflows or is exact.\<close>

lemma fp_round_real_scale:
  assumes wf: "wf_fp F (FFin s m e)" and "0 < m" and "0 \<le> j"
  defines "x \<equiv> real m * 2 powi (e + j)"
  obtains q where "real q * 2 powi fp_exp_of F x = x" and "q < 2 ^ prec F"
    and "fp_round_real F t x = (if emax F < fp_exp_of F x then FInf t else FFin t q (fp_exp_of F x))"
    and "fp_exp_of F x \<le> e + j"
proof -
  define e' where "e' = fp_exp_of F x"
  have pos: "0 < x" using assms(2) by (simp add: x_def)
  have "real m < real (2 ^ prec F)" using wf by (simp only: of_nat_less_iff) simp
  then have "x < 2 powi (e + j + int (prec F))"
    by (simp add: x_def power_int_add)
  with floor_log2_bounds(1) [OF pos] have "(2 :: real) powi \<lfloor>log 2 x\<rfloor> < 2 powi (e + j + int (prec F))"
    by linarith
  then have "\<lfloor>log 2 x\<rfloor> < e + j + int (prec F)"
    by (rule power_int_less_imp_less_two)
  then have le: "e' \<le> e + j" using wf assms(3) by (simp add: e'_def fp_exp_of_def)
  define q where "q = m * 2 ^ nat (e + j - e')"
  have "real q = real m * 2 powi (e + j - e')"
    using le by (simp add: q_def power_int_nonneg_exp)
  then have q: "x / 2 powi e' = real q" by (simp add: x_def power_int_diff)
  have lt: "q < 2 ^ prec F"
    using fp_exp_of_upper [OF pos, of F] q by (simp flip: e'_def)
  show ?thesis
  proof (rule that [of q])
    show "real q * 2 powi fp_exp_of F x = x"
      unfolding e'_def [symmetric] q [symmetric] by simp
    show "fp_round_real F t x = (if emax F < fp_exp_of F x then FInf t else FFin t q (fp_exp_of F x))"
      using pos q lt by (simp add: fp_round_real_def fp_pack_def flip: e'_def)
  qed (use lt le in \<open>simp_all add: e'_def\<close>)
qed

theorem fp_round_real_exact:
  assumes wf: "wf_fp F (FFin s m e)"
  shows "fp_round_real F t (real m * 2 powi e) = FFin t m e"
proof (cases "m = 0")
  case True
  with wf show ?thesis by (simp add: fp_round_real_def fp_zero_def)
next
  case False
  define x where "x = real m * 2 powi e"
  have pos: "0 < x" using False by (simp add: x_def)
  obtain q where q: "real q * 2 powi fp_exp_of F x = x" "q < 2 ^ prec F" "fp_exp_of F x \<le> e"
    and r: "fp_round_real F t x = (if emax F < fp_exp_of F x then FInf t else FFin t q (fp_exp_of F x))"
    using fp_round_real_scale [OF wf _ order_refl, of t thesis] False by (simp add: x_def)
  have "e \<le> fp_exp_of F x"
  proof (rule ccontr)
    assume "\<not> ?thesis"
    then have lt: "fp_exp_of F x + 1 \<le> e" by simp
    with wf have "2 ^ (prec F - 1) \<le> m" by (auto simp: not_less [symmetric] fp_exp_of_def)
    then have "real (2 ^ (prec F - 1)) \<le> real m" by (simp only: of_nat_le_iff)
    then have "2 ^ (prec F - 1) * 2 powi (fp_exp_of F x + 1) \<le> x"
      using lt unfolding x_def by (intro mult_mono power_int_increasing) simp_all
    then have "2 ^ (prec F - 1) * 2 \<le> x / 2 powi fp_exp_of F x"
      by (simp add: power_int_add field_simps)
    moreover have "0 < prec F" using wf False by (cases "prec F") auto
    ultimately have "2 ^ prec F \<le> x / 2 powi fp_exp_of F x"
      by (cases "prec F") simp_all
    with fp_exp_of_upper [OF pos, of F] show False by simp
  qed
  with q(3) have "fp_exp_of F x = e" by simp
  with q(1) r wf show ?thesis by (simp add: x_def)
qed

text \<open>Integers of at most the precision are exact.\<close>

lemma scale_up: "0 < n \<Longrightarrow> n < 2 ^ Suc k \<Longrightarrow> \<exists>j\<le>k. 2 ^ k \<le> n * 2 ^ j \<and> n * 2 ^ j < (2::nat) ^ Suc k"
proof (induction k arbitrary: n)
  case (Suc k)
  show ?case
  proof (cases "2 ^ Suc k \<le> n")
    case False
    then obtain j where "j \<le> k" "2 ^ k \<le> n * 2 ^ j" "n * 2 ^ j < 2 ^ Suc k" using Suc.IH [of n] Suc.prems by auto
    then show ?thesis by (intro exI [of _ "Suc j"]) simp
  qed (use Suc.prems in \<open>intro exI [of _ 0], simp\<close>)
qed simp

lemma fp_of_int_exact:
  assumes "0 < n" and "n < 2 ^ prec F" and "emin F \<le> 1 - int (prec F)" and "0 \<le> emax F"
  obtains m e where "fp_of_int F (int n) = FFin False m e" and "wf_fp F (FFin False m e)"
    and "1 - int (prec F) \<le> e" and "e \<le> 0" and "m = n * 2 ^ nat (- e)" and "fp_val (FFin False m e) = real n"
proof -
  obtain k where k: "prec F = Suc k" using assms(1,2) by (cases "prec F") auto
  obtain j where j: "j \<le> k" "2 ^ k \<le> n * 2 ^ j" "n * 2 ^ j < 2 ^ Suc k" using scale_up [of n k] assms(1,2) k by auto
  have v: "real (n * 2 ^ j) * 2 powi (- int j) = real n" by (simp add: power_int_minus)
  have wf: "wf_fp F (FFin False (n * 2 ^ j) (- int j))" using j assms(3,4) k by simp
  have "fp_round_real F False (real n) = FFin False (n * 2 ^ j) (- int j)"
    using fp_round_real_exact [OF wf, of False] unfolding v .
  moreover have "fp_of_int F (int n) = fp_round_real F False (real n)"
    using assms by (simp add: fp_of_int_def fp_round_int_def fp_round_real_eq)
  moreover have "fp_val (FFin False (n * 2 ^ j) (- int j)) = real n" using v by (simp add: smant_def)
  moreover have "1 - int (prec F) \<le> - int j" "- int j \<le> 0" "n * 2 ^ j = n * 2 ^ nat (- (- int j))"
    using j(1) k by simp_all
  ultimately show ?thesis using wf by (intro that [of "n * 2 ^ j" "- int j"]) (simp_all only:)
qed

section \<open>Multiplication by a power of two\<close>

definition fp_pow2 :: "fmt \<Rightarrow> int \<Rightarrow> fp" where
  "fp_pow2 F j = FFin False (2 ^ (prec F - 1)) (j - int (prec F - 1))"

fun fp_scale :: "fmt \<Rightarrow> fp \<Rightarrow> int \<Rightarrow> fp" where
  "fp_scale F (FFin s m e) j = fp_round_real F s (real m * 2 powi (e + j))"
| "fp_scale F x j = x"

text \<open>Multiplying by a representable power of two is one correctly rounded scaling.\<close>

lemma fp_mul_pow2: "fp_mul F x (fp_pow2 F j) = fp_scale F x j"
proof (cases x)
  case (FFin s m e)
  have "(2 :: real) powi (j - int (prec F - 1)) = 2 powi j / 2 ^ (prec F - 1)"
    by (simp add: power_int_diff)
  with FFin show ?thesis
    by (simp add: fp_pow2_def fp_round_real_eq power_int_add)
qed (simp_all add: fp_pow2_def)

text \<open>Scaling up in two steps is scaling up once.\<close>

lemma fp_exp_of_mono: "0 < x \<Longrightarrow> x \<le> y \<Longrightarrow> fp_exp_of F x \<le> fp_exp_of F y"
proof -
  assume "0 < x" "x \<le> y"
  then have "\<lfloor>log 2 x\<rfloor> \<le> \<lfloor>log 2 y\<rfloor>" by (intro floor_mono) simp
  then show ?thesis by (simp add: fp_exp_of_def)
qed

lemma fp_scale_scale:
  assumes wf: "wf_fp F x" and "0 \<le> i" and "0 \<le> j"
  shows "fp_scale F (fp_scale F x i) j = fp_scale F x (i + j)"
proof (cases x)
  case (FFin s m e)
  show ?thesis
  proof (cases "m = 0")
    case True
    then show ?thesis by (simp add: FFin fp_round_real_def fp_zero_def)
  next
    case False
    define y where "y = real m * 2 powi (e + i)"
    define z where "z = real m * 2 powi (e + (i + j))"
    have pos: "0 < y" and yz: "y \<le> z"
      using False assms(3) by (auto simp: y_def z_def intro!: power_int_increasing)
    have "0 < m" using False by simp
    from fp_round_real_scale [OF wf [unfolded FFin] this assms(2), of s]
    obtain q where q: "real q * 2 powi fp_exp_of F y = y"
      and r: "fp_round_real F s y = (if emax F < fp_exp_of F y then FInf s else FFin s q (fp_exp_of F y))"
      by (metis y_def)
    have "0 \<le> i + j" using assms by simp
    from fp_round_real_scale [OF wf [unfolded FFin] \<open>0 < m\<close> this, of s]
    obtain p where
      rz: "fp_round_real F s z = (if emax F < fp_exp_of F z then FInf s else FFin s p (fp_exp_of F z))"
      by (metis z_def)
    show ?thesis
    proof (cases "emax F < fp_exp_of F y")
      case True
      with fp_exp_of_mono [OF pos yz, of F] have "emax F < fp_exp_of F z" by simp
      with True r rz show ?thesis by (simp add: FFin flip: y_def z_def)
    next
      case False
      have "real q * 2 powi (fp_exp_of F y + j) = z"
        using q by (simp add: y_def z_def power_int_add add.assoc [symmetric])
      with False r show ?thesis by (simp add: FFin flip: y_def z_def)
    qed
  qed
qed simp_all

section \<open>Bit patterns of powers of two\<close>

lemma wf_formats [simp]: "wf_fmt binary32" "wf_fmt binary64"
  by (simp_all add: wf_fmt_def fp_simps)

text \<open>The union's bits (e + bias) << (prec - 1) are the power of two 2^e.\<close>

lemma fp_of_bits_pow2:
  assumes "wf_fmt F" and "1 - bias F \<le> e" and "e \<le> bias F" and "b = nat (e + bias F) * 2 ^ (prec F - 1)"
  shows "fp_of_bits F b = fp_pow2 F e"
proof -
  define E where "E = nat (e + bias F)"
  have E: "int E = e + bias F" using assms(2) by (simp add: E_def)
  have pb: "(2 :: int) ^ ebits F = 2 * 2 ^ (ebits F - 1)"
    using assms(1) by (cases "ebits F") (simp_all add: wf_fmt_def)
  have "int E < 2 ^ ebits F - 1" using assms(3) E pb by (simp add: bias_def)
  then have lt: "E < 2 ^ ebits F - 1" by (simp add: of_nat_diff flip: of_nat_less_iff [where 'a = int])
  then have lt': "E < 2 ^ ebits F" by linarith
  have pos: "0 < E" using assms(2) E by linarith
  have dv: "b div 2 ^ (prec F - 1) = E" and md: "b mod 2 ^ (prec F - 1) = 0"
    using assms(4) by (simp_all add: E_def)
  have "b div 2 ^ (ebits F + prec F - 1) = E div 2 ^ ebits F"
  proof -
    have "ebits F + prec F - 1 = (prec F - 1) + ebits F" using assms(1) by (simp add: wf_fmt_def)
    then show ?thesis by (simp only: power_add div_mult2_eq dv)
  qed
  with lt' have sg: "b div 2 ^ (ebits F + prec F - 1) = 0" by simp
  have "emin F + int E - 1 = e - int (prec F - 1)"
    using assms(1) E by (simp add: emin_def wf_fmt_def)
  with dv md sg lt lt' pos show ?thesis
    by (simp add: fp_of_bits_def fp_pow2_def Let_def)
qed

lemma unat_shifted_exponent:
  assumes "0 \<le> i" and "i * 2 ^ k < 2 ^ LENGTH('w)"
  shows "unat (push_bit k (word_of_int i :: 'w::len word)) = nat i * 2 ^ k"
proof -
  have "push_bit k (word_of_int i :: 'w word) = word_of_int (i * 2 ^ k)"
    by (simp add: push_bit_eq_mult)
  then have "uint (push_bit k (word_of_int i :: 'w word)) = (i * 2 ^ k) mod 2 ^ LENGTH('w)"
    by (simp only: uint_word_of_int)
  moreover have "0 \<le> i * 2 ^ k" using assms(1) by simp
  ultimately have "uint (push_bit k (word_of_int i :: 'w word)) = i * 2 ^ k"
    using assms(2) by simp
  then show ?thesis
    using assms(1) by (simp only: unat_eq_nat_uint nat_mult_distrib nat_power_eq) simp
qed

end
