(* ===== verification/DeviceMath.thy ===== *)
theory DeviceMath
  imports DeviceFloat
begin

text \<open>
  The device math library of include/cuda/__vcx_devicelib_math.h (the HIP copy of
  the file is the same text). Every function is written over a record of the
  arithmetic it uses: the C operators, fma, rint, trunc and sqrt, the literals and
  the bit pattern that the unions read and write. The library runs on
  \<open>f32\<close> and \<open>f64\<close>, the IEEE instances of DeviceFloat; the
  interface the proofs rest on is the locale \<open>fp_laws\<close>, interpreted on both.
\<close>

section \<open>The arithmetic the library is written over\<close>

record ('f, 'w) fpops =
  f_add :: "'f \<Rightarrow> 'f \<Rightarrow> 'f"
  f_sub :: "'f \<Rightarrow> 'f \<Rightarrow> 'f"
  f_mul :: "'f \<Rightarrow> 'f \<Rightarrow> 'f"
  f_div :: "'f \<Rightarrow> 'f \<Rightarrow> 'f"
  f_fma :: "'f \<Rightarrow> 'f \<Rightarrow> 'f \<Rightarrow> 'f"
  f_neg :: "'f \<Rightarrow> 'f"
  f_lt :: "'f \<Rightarrow> 'f \<Rightarrow> bool"
  f_eq :: "'f \<Rightarrow> 'f \<Rightarrow> bool"
  f_rint :: "'f \<Rightarrow> 'f"
  f_trunc :: "'f \<Rightarrow> 'f"
  f_sqrt :: "'f \<Rightarrow> 'f"
  f_dec :: "int \<Rightarrow> int \<Rightarrow> 'f"
  f_of_int :: "int \<Rightarrow> 'f"
  f_to_int :: "'f \<Rightarrow> int"
  f_bits :: "'f \<Rightarrow> 'w"
  f_of_bits :: "'w \<Rightarrow> 'f"
  f_inf :: "'f"
  f_nan :: "'f"

type_synonym 'f floatops = "('f, u32) fpops"
type_synonym 'f doubleops = "('f, u64) fpops"

definition ieee_ops :: "fmt \<Rightarrow> (fp, 'w::len word) fpops" where
  "ieee_ops F = \<lparr>f_add = fp_add F, f_sub = fp_sub F, f_mul = fp_mul F, f_div = fp_div F,
     f_fma = fp_fma F, f_neg = fp_neg, f_lt = fp_lt, f_eq = fp_eq, f_rint = fp_rint F,
     f_trunc = fp_trunc F, f_sqrt = fp_sqrt F, f_dec = fp_dec F, f_of_int = fp_of_int F,
     f_to_int = fp_to_int, f_bits = (\<lambda>x. of_nat (fp_to_bits F x)),
     f_of_bits = (\<lambda>w. fp_of_bits F (unat w)), f_inf = FInf False, f_nan = FNaN\<rparr>"

definition f32 :: "fp floatops" where "f32 = ieee_ops binary32"
definition f64 :: "fp doubleops" where "f64 = ieee_ops binary64"

lemma ops_select [fp_simps]:
  "f_add f32 = fp_add binary32"
  "f_sub f32 = fp_sub binary32"
  "f_mul f32 = fp_mul binary32"
  "f_div f32 = fp_div binary32"
  "f_fma f32 = fp_fma binary32"
  "f_neg f32 = fp_neg"
  "f_lt f32 = fp_lt"
  "f_eq f32 = fp_eq"
  "f_rint f32 = fp_rint binary32"
  "f_trunc f32 = fp_trunc binary32"
  "f_sqrt f32 = fp_sqrt binary32"
  "f_dec f32 = fp_dec binary32"
  "f_of_int f32 = fp_of_int binary32"
  "f_to_int f32 = fp_to_int"
  "f_bits f32 x = of_nat (fp_to_bits binary32 x)"
  "f_of_bits f32 w = fp_of_bits binary32 (unat w)"
  "f_inf f32 = FInf False"
  "f_nan f32 = FNaN"
  "f_add f64 = fp_add binary64"
  "f_sub f64 = fp_sub binary64"
  "f_mul f64 = fp_mul binary64"
  "f_div f64 = fp_div binary64"
  "f_fma f64 = fp_fma binary64"
  "f_neg f64 = fp_neg"
  "f_lt f64 = fp_lt"
  "f_eq f64 = fp_eq"
  "f_rint f64 = fp_rint binary64"
  "f_trunc f64 = fp_trunc binary64"
  "f_sqrt f64 = fp_sqrt binary64"
  "f_dec f64 = fp_dec binary64"
  "f_of_int f64 = fp_of_int binary64"
  "f_to_int f64 = fp_to_int"
  "f_bits f64 x = of_nat (fp_to_bits binary64 x)"
  "f_of_bits f64 v = fp_of_bits binary64 (unat v)"
  "f_inf f64 = FInf False"
  "f_nan f64 = FNaN"
  by (simp_all add: f32_def f64_def ieee_ops_def)

text \<open>The statement sequence \<open>p = c0; p = fma(p, r, c1); ...\<close>.\<close>

definition horner :: "('f, 'w) fpops \<Rightarrow> 'f \<Rightarrow> 'f \<Rightarrow> 'f list \<Rightarrow> 'f" where
  "horner A r c0 cs = foldl (\<lambda>p c. f_fma A p r c) c0 cs"

text \<open>The constant \<open>n.0 / d.0\<close> of the polynomials.\<close>

definition ratio :: "('f, 'w) fpops \<Rightarrow> int \<Rightarrow> int \<Rightarrow> 'f" where
  "ratio A n d = f_div A (f_dec A n 0) (f_dec A d 0)"

lemmas [fp_simps] = horner_def ratio_def

section \<open>float\<close>

definition vcx_ldexpf :: "'f floatops \<Rightarrow> 'f \<Rightarrow> int \<Rightarrow> 'f" where
  "vcx_ldexpf A x e =
     (let (x, e) = (if 127 < e then (f_mul A x (f_dec A 17014118346046923 22), e - 127) else (x, e));
          (x, e) = (if e < -126 then (f_mul A x (f_dec A 11754943508222875 (-54)), e + 126) else (x, e));
          e = (if 127 < e then 127 else e);
          e = (if e < -126 then -126 else e);
          s = f_of_bits A (push_bit 23 (word_of_int (e + 127)))
      in f_mul A x s)"

definition vcx_expf :: "'f floatops \<Rightarrow> 'f \<Rightarrow> 'f" where
  "vcx_expf A x =
     (if f_lt A (f_dec A 8872283 (-5)) x then f_inf A
      else if f_lt A x (f_dec A (-10397) (-2)) then f_dec A 0 0
      else let k = f_rint A (f_mul A x (f_dec A 144269504088896341 (-17)));
               r = f_fma A k (f_dec A (-693145751953125) (-15)) x;
               r = f_fma A k (f_dec A (-1428606765330187) (-21)) r;
               p = horner A r (ratio A 1 720)
                     [ratio A 1 120, ratio A 1 24, ratio A 1 6, f_dec A 5 (-1), f_dec A 1 0, f_dec A 1 0]
           in vcx_ldexpf A p (f_to_int A k))"

definition vcx_exp2f :: "'f floatops \<Rightarrow> 'f \<Rightarrow> 'f" where
  "vcx_exp2f A x =
     (if f_lt A (f_dec A 128 0) x then f_inf A
      else if f_lt A x (f_dec A (-150) 0) then f_dec A 0 0
      else let k = f_rint A x;
               r = f_mul A (f_sub A x k) (f_dec A 693147180559945309 (-18));
               p = horner A r (ratio A 1 720)
                     [ratio A 1 120, ratio A 1 24, ratio A 1 6, f_dec A 5 (-1), f_dec A 1 0, f_dec A 1 0]
           in vcx_ldexpf A p (f_to_int A k))"

definition vcx_exp10f :: "'f floatops \<Rightarrow> 'f \<Rightarrow> 'f" where
  "vcx_exp10f A x = vcx_expf A (f_mul A x (f_dec A 2302585092994046 (-15)))"

definition vcx_logf :: "'f floatops \<Rightarrow> 'f \<Rightarrow> 'f" where
  "vcx_logf A x =
     (if f_lt A x (f_dec A 0 0) \<or> \<not> f_eq A x x then f_nan A
      else if f_eq A x (f_dec A 0 0) then f_neg A (f_inf A)
      else if f_eq A x (f_inf A) then x
      else let (v, e) = (if f_bits A x < 0x00800000
                         then (f_bits A (f_mul A x (f_dec A 8388608 0)), -23) else (f_bits A x, 0));
               e = e + (uint (drop_bit 23 v) - 127);
               m = f_of_bits A ((v AND 0x007fffff) OR 0x3f800000);
               (m, e) = (if f_lt A (f_dec A 141421356 (-8)) m then (f_mul A m (f_dec A 5 (-1)), e + 1)
                         else (m, e));
               s = f_div A (f_sub A m (f_dec A 1 0)) (f_add A m (f_dec A 1 0));
               z = f_mul A s s;
               p = horner A z (ratio A 1 9) [ratio A 1 7, ratio A 1 5, ratio A 1 3, f_dec A 1 0]
           in f_fma A (f_of_int A e) (f_dec A 693147180559945309 (-18))
                (f_mul A (f_mul A (f_dec A 2 0) s) p))"

definition vcx_log2f :: "'f floatops \<Rightarrow> 'f \<Rightarrow> 'f" where
  "vcx_log2f A x = f_mul A (vcx_logf A x) (f_dec A 144269504088896341 (-17))"

definition vcx_log10f :: "'f floatops \<Rightarrow> 'f \<Rightarrow> 'f" where
  "vcx_log10f A x = f_mul A (vcx_logf A x) (f_dec A 434294481903251828 (-18))"

text \<open>The reduced argument, and the quadrant the C code stores through its pointer.\<close>

definition vcx_sincosf_reduce :: "'f floatops \<Rightarrow> 'f \<Rightarrow> 'f \<times> int" where
  "vcx_sincosf_reduce A x =
     (let j = f_rint A (f_mul A x (f_dec A 636619772367581343 (-18)));
          r = f_fma A j (f_dec A (-15703125) (-7)) x;
          r = f_fma A j (f_dec A (-4837512969970703125) (-22)) r;
          r = f_fma A j (f_dec A (-7549789948768648) (-23)) r
      in (r, f_to_int A j AND 3))"

definition vcx_sinf_poly :: "'f floatops \<Rightarrow> 'f \<Rightarrow> 'f" where
  "vcx_sinf_poly A r =
     (let z = f_mul A r r;
          p = horner A z (f_dec A (-19515295891) (-14))
                [f_dec A 83321608736 (-13), f_dec A (-16666654611) (-11)]
      in f_fma A (f_mul A p z) r r)"

definition vcx_cosf_poly :: "'f floatops \<Rightarrow> 'f \<Rightarrow> 'f" where
  "vcx_cosf_poly A r =
     (let z = f_mul A r r;
          p = horner A z (f_dec A 2443315711809948 (-20))
                [f_dec A (-1388731625493765) (-18), f_dec A 4166664568298827 (-17)]
      in f_fma A (f_mul A p z) z (f_fma A (f_dec A (-5) (-1)) z (f_dec A 1 0)))"

definition vcx_sinf :: "'f floatops \<Rightarrow> 'f \<Rightarrow> 'f" where
  "vcx_sinf A x =
     (if \<not> f_eq A x x \<or> f_eq A x (f_inf A) \<or> f_eq A x (f_neg A (f_inf A)) then f_nan A
      else let (r, q) = vcx_sincosf_reduce A x;
               s = (if q AND 1 \<noteq> 0 then vcx_cosf_poly A r else vcx_sinf_poly A r)
           in if q AND 2 \<noteq> 0 then f_neg A s else s)"

definition vcx_cosf :: "'f floatops \<Rightarrow> 'f \<Rightarrow> 'f" where
  "vcx_cosf A x =
     (if \<not> f_eq A x x \<or> f_eq A x (f_inf A) \<or> f_eq A x (f_neg A (f_inf A)) then f_nan A
      else let (r, q) = vcx_sincosf_reduce A x;
               c = (if q AND 1 \<noteq> 0 then vcx_sinf_poly A r else vcx_cosf_poly A r)
           in if (q + 1) AND 2 \<noteq> 0 then f_neg A c else c)"

definition vcx_tanf :: "'f floatops \<Rightarrow> 'f \<Rightarrow> 'f" where
  "vcx_tanf A x = f_div A (vcx_sinf A x) (vcx_cosf A x)"

definition vcx_sincosf :: "'f floatops \<Rightarrow> 'f \<Rightarrow> 'f \<times> 'f" where
  "vcx_sincosf A x = (vcx_sinf A x, vcx_cosf A x)"

definition vcx_fmodf :: "'f floatops \<Rightarrow> 'f \<Rightarrow> 'f \<Rightarrow> 'f" where
  "vcx_fmodf A a b =
     (if f_eq A b (f_dec A 0 0) \<or> \<not> f_eq A a a \<or> \<not> f_eq A b b then f_nan A
      else let q = f_trunc A (f_div A a b) in f_fma A (f_neg A q) b a)"

definition vcx_powf :: "'f floatops \<Rightarrow> 'f \<Rightarrow> 'f \<Rightarrow> 'f" where
  "vcx_powf A a b =
     (if f_eq A b (f_dec A 0 0) then f_dec A 1 0
      else if f_eq A a (f_dec A 1 0) then f_dec A 1 0
      else if \<not> f_eq A a a \<or> \<not> f_eq A b b then f_add A a b
      else if f_eq A a (f_dec A 0 0) then (if f_lt A b (f_dec A 0 0) then f_inf A else f_dec A 0 0)
      else if f_lt A a (f_dec A 0 0) then
        (let bi = f_rint A b in
         if \<not> f_eq A bi b then f_nan A
         else let r = vcx_expf A (f_mul A b (vcx_logf A (f_neg A a)))
              in if \<not> f_eq A (vcx_fmodf A bi (f_dec A 2 0)) (f_dec A 0 0) then f_neg A r else r)
      else vcx_expf A (f_mul A b (vcx_logf A a)))"

definition vcx_sinhf :: "'f floatops \<Rightarrow> 'f \<Rightarrow> 'f" where
  "vcx_sinhf A x =
     (let e = vcx_expf A x in f_mul A (f_dec A 5 (-1)) (f_sub A e (f_div A (f_dec A 1 0) e)))"

definition vcx_coshf :: "'f floatops \<Rightarrow> 'f \<Rightarrow> 'f" where
  "vcx_coshf A x =
     (let e = vcx_expf A x in f_mul A (f_dec A 5 (-1)) (f_add A e (f_div A (f_dec A 1 0) e)))"

definition vcx_tanhf :: "'f floatops \<Rightarrow> 'f \<Rightarrow> 'f" where
  "vcx_tanhf A x =
     (if f_lt A (f_dec A 9 0) x then f_dec A 1 0
      else if f_lt A x (f_dec A (-9) 0) then f_dec A (-1) 0
      else let e = vcx_expf A (f_mul A (f_dec A 2 0) x)
           in f_div A (f_sub A e (f_dec A 1 0)) (f_add A e (f_dec A 1 0)))"

definition vcx_atanf :: "'f floatops \<Rightarrow> 'f \<Rightarrow> 'f" where
  "vcx_atanf A x =
     (let (x, sign) = (if f_lt A x (f_dec A 0 0) then (f_neg A x, f_dec A (-1) 0) else (x, f_dec A 1 0));
          (x, add) =
            (if f_lt A (f_dec A 2414213562373095 (-15)) x
             then (f_div A (f_dec A (-1) 0) x, f_dec A 15707963267948966 (-16))
             else if f_lt A (f_dec A 4142135623730950 (-16)) x
             then (f_div A (f_sub A x (f_dec A 1 0)) (f_add A x (f_dec A 1 0)), f_dec A 7853981633974483 (-16))
             else (x, f_dec A 0 0));
          z = f_mul A x x;
          p = horner A z (f_dec A 805374449538 (-13))
                [f_dec A (-138776856032) (-12), f_dec A 199777106478 (-12), f_dec A (-333329491539) (-12)]
      in f_mul A sign (f_add A (f_fma A (f_mul A p z) x x) add))"

definition vcx_atan2f :: "'f floatops \<Rightarrow> 'f \<Rightarrow> 'f \<Rightarrow> 'f" where
  "vcx_atan2f A y x =
     (if f_lt A (f_dec A 0 0) x then vcx_atanf A (f_div A y x)
      else if f_lt A x (f_dec A 0 0) then
        f_add A (vcx_atanf A (f_div A y x))
          (if f_lt A y (f_dec A 0 0) then f_dec A (-314159265358979) (-14) else f_dec A 314159265358979 (-14))
      else if f_lt A (f_dec A 0 0) y then f_dec A 15707963267948966 (-16)
      else if f_lt A y (f_dec A 0 0) then f_dec A (-15707963267948966) (-16)
      else f_dec A 0 0)"

definition vcx_asinf :: "'f floatops \<Rightarrow> 'f \<Rightarrow> 'f" where
  "vcx_asinf A x = vcx_atan2f A x (f_sqrt A (f_fma A (f_neg A x) x (f_dec A 1 0)))"

definition vcx_acosf :: "'f floatops \<Rightarrow> 'f \<Rightarrow> 'f" where
  "vcx_acosf A x = vcx_atan2f A (f_sqrt A (f_fma A (f_neg A x) x (f_dec A 1 0))) x"

section \<open>double\<close>

definition vcx_ldexp :: "'f doubleops \<Rightarrow> 'f \<Rightarrow> int \<Rightarrow> 'f" where
  "vcx_ldexp A x e =
     (let (x, e) = (if 1023 < e then (f_mul A x (f_dec A 898846567431158 293), e - 1023) else (x, e));
          (x, e) = (if e < -1022 then (f_mul A x (f_dec A 22250738585072014 (-324)), e + 1022) else (x, e));
          e = (if 1023 < e then 1023 else e);
          e = (if e < -1022 then -1022 else e);
          s = f_of_bits A (push_bit 52 (word_of_int (e + 1023)))
      in f_mul A x s)"

definition vcx_exp :: "'f doubleops \<Rightarrow> 'f \<Rightarrow> 'f" where
  "vcx_exp A x =
     (if f_lt A (f_dec A 709782712893384 (-12)) x then f_inf A
      else if f_lt A x (f_dec A (-7452) (-1)) then f_dec A 0 0
      else let k = f_rint A (f_mul A x (f_dec A 14426950408889634074 (-19)));
               r = f_fma A k (f_dec A (-693147180369123816490) (-21)) x;
               r = f_fma A k (f_dec A (-190821492927058770002) (-30)) r;
               p = horner A r (ratio A 1 479001600)
                     [ratio A 1 39916800, ratio A 1 3628800, ratio A 1 362880, ratio A 1 40320,
                      ratio A 1 5040, ratio A 1 720, ratio A 1 120, ratio A 1 24, ratio A 1 6,
                      f_dec A 5 (-1), f_dec A 1 0, f_dec A 1 0]
           in vcx_ldexp A p (f_to_int A k))"

definition vcx_exp2 :: "'f doubleops \<Rightarrow> 'f \<Rightarrow> 'f" where
  "vcx_exp2 A x = vcx_exp A (f_mul A x (f_dec A 69314718055994530942 (-20)))"

definition vcx_exp10 :: "'f doubleops \<Rightarrow> 'f \<Rightarrow> 'f" where
  "vcx_exp10 A x = vcx_exp A (f_mul A x (f_dec A 230258509299404568402 (-20)))"

definition vcx_log :: "'f doubleops \<Rightarrow> 'f \<Rightarrow> 'f" where
  "vcx_log A x =
     (if f_lt A x (f_dec A 0 0) \<or> \<not> f_eq A x x then f_nan A
      else if f_eq A x (f_dec A 0 0) then f_neg A (f_inf A)
      else if f_eq A x (f_inf A) then x
      else let (v, e) = (if f_bits A x < 0x0010000000000000
                         then (f_bits A (f_mul A x (f_dec A 18014398509481984 0)), -54) else (f_bits A x, 0));
               e = e + (uint (drop_bit 52 v) - 1023);
               m = f_of_bits A ((v AND 0x000fffffffffffff) OR 0x3ff0000000000000);
               (m, e) = (if f_lt A (f_dec A 14142135623730951 (-16)) m then (f_mul A m (f_dec A 5 (-1)), e + 1)
                         else (m, e));
               s = f_div A (f_sub A m (f_dec A 1 0)) (f_add A m (f_dec A 1 0));
               z = f_mul A s s;
               p = horner A z (ratio A 1 21)
                     [ratio A 1 19, ratio A 1 17, ratio A 1 15, ratio A 1 13, ratio A 1 11, ratio A 1 9,
                      ratio A 1 7, ratio A 1 5, ratio A 1 3, f_dec A 1 0]
           in f_fma A (f_of_int A e) (f_dec A 69314718055994530942 (-20))
                (f_mul A (f_mul A (f_dec A 2 0) s) p))"

definition vcx_log2 :: "'f doubleops \<Rightarrow> 'f \<Rightarrow> 'f" where
  "vcx_log2 A x = f_mul A (vcx_log A x) (f_dec A 14426950408889634074 (-19))"

definition vcx_log10 :: "'f doubleops \<Rightarrow> 'f \<Rightarrow> 'f" where
  "vcx_log10 A x = f_mul A (vcx_log A x) (f_dec A 43429448190325182765 (-20))"

definition vcx_sincos_reduce :: "'f doubleops \<Rightarrow> 'f \<Rightarrow> 'f \<times> int" where
  "vcx_sincos_reduce A x =
     (let j = f_rint A (f_mul A x (f_dec A 63661977236758134308 (-20)));
          r = f_fma A j (f_dec A (-157079632673412561417) (-20)) x;
          r = f_fma A j (f_dec A (-607710050650619224932) (-31)) r;
          r = f_fma A j (f_dec A (-202226624879595063154) (-41)) r
      in (r, f_to_int A j AND 3))"

definition vcx_sin_poly :: "'f doubleops \<Rightarrow> 'f \<Rightarrow> 'f" where
  "vcx_sin_poly A r =
     (let z = f_mul A r r;
          p = horner A z (ratio A (-1) 355687428096000)
                [ratio A 1 1307674368000, ratio A (-1) 6227020800, ratio A 1 39916800,
                 ratio A (-1) 362880, ratio A 1 5040, ratio A (-1) 120, ratio A 1 6]
      in f_fma A (f_mul A (f_neg A p) z) r r)"

definition vcx_cos_poly :: "'f doubleops \<Rightarrow> 'f \<Rightarrow> 'f" where
  "vcx_cos_poly A r =
     (let z = f_mul A r r;
          p = horner A z (ratio A 1 20922789888000)
                [ratio A (-1) 87178291200, ratio A 1 479001600, ratio A (-1) 3628800,
                 ratio A 1 40320, ratio A (-1) 720, ratio A 1 24, f_dec A (-5) (-1)]
      in f_fma A p z (f_dec A 1 0))"

definition vcx_sin :: "'f doubleops \<Rightarrow> 'f \<Rightarrow> 'f" where
  "vcx_sin A x =
     (if \<not> f_eq A x x \<or> f_eq A x (f_inf A) \<or> f_eq A x (f_neg A (f_inf A)) then f_nan A
      else let (r, q) = vcx_sincos_reduce A x;
               s = (if q AND 1 \<noteq> 0 then vcx_cos_poly A r else vcx_sin_poly A r)
           in if q AND 2 \<noteq> 0 then f_neg A s else s)"

definition vcx_cos :: "'f doubleops \<Rightarrow> 'f \<Rightarrow> 'f" where
  "vcx_cos A x =
     (if \<not> f_eq A x x \<or> f_eq A x (f_inf A) \<or> f_eq A x (f_neg A (f_inf A)) then f_nan A
      else let (r, q) = vcx_sincos_reduce A x;
               c = (if q AND 1 \<noteq> 0 then vcx_sin_poly A r else vcx_cos_poly A r)
           in if (q + 1) AND 2 \<noteq> 0 then f_neg A c else c)"

definition vcx_tan :: "'f doubleops \<Rightarrow> 'f \<Rightarrow> 'f" where
  "vcx_tan A x = f_div A (vcx_sin A x) (vcx_cos A x)"

definition vcx_sincos :: "'f doubleops \<Rightarrow> 'f \<Rightarrow> 'f \<times> 'f" where
  "vcx_sincos A x = (vcx_sin A x, vcx_cos A x)"

definition vcx_fmod :: "'f doubleops \<Rightarrow> 'f \<Rightarrow> 'f \<Rightarrow> 'f" where
  "vcx_fmod A a b =
     (if f_eq A b (f_dec A 0 0) \<or> \<not> f_eq A a a \<or> \<not> f_eq A b b then f_nan A
      else let q = f_trunc A (f_div A a b) in f_fma A (f_neg A q) b a)"

definition vcx_pow :: "'f doubleops \<Rightarrow> 'f \<Rightarrow> 'f \<Rightarrow> 'f" where
  "vcx_pow A a b =
     (if f_eq A b (f_dec A 0 0) then f_dec A 1 0
      else if f_eq A a (f_dec A 1 0) then f_dec A 1 0
      else if \<not> f_eq A a a \<or> \<not> f_eq A b b then f_add A a b
      else if f_eq A a (f_dec A 0 0) then (if f_lt A b (f_dec A 0 0) then f_inf A else f_dec A 0 0)
      else if f_lt A a (f_dec A 0 0) then
        (let bi = f_rint A b in
         if \<not> f_eq A bi b then f_nan A
         else let r = vcx_exp A (f_mul A b (vcx_log A (f_neg A a)))
              in if \<not> f_eq A (vcx_fmod A bi (f_dec A 2 0)) (f_dec A 0 0) then f_neg A r else r)
      else vcx_exp A (f_mul A b (vcx_log A a)))"

definition vcx_sinh :: "'f doubleops \<Rightarrow> 'f \<Rightarrow> 'f" where
  "vcx_sinh A x =
     (let e = vcx_exp A x in f_mul A (f_dec A 5 (-1)) (f_sub A e (f_div A (f_dec A 1 0) e)))"

definition vcx_cosh :: "'f doubleops \<Rightarrow> 'f \<Rightarrow> 'f" where
  "vcx_cosh A x =
     (let e = vcx_exp A x in f_mul A (f_dec A 5 (-1)) (f_add A e (f_div A (f_dec A 1 0) e)))"

definition vcx_tanh :: "'f doubleops \<Rightarrow> 'f \<Rightarrow> 'f" where
  "vcx_tanh A x =
     (if f_lt A (f_dec A 20 0) x then f_dec A 1 0
      else if f_lt A x (f_dec A (-20) 0) then f_dec A (-1) 0
      else let e = vcx_exp A (f_mul A (f_dec A 2 0) x)
           in f_div A (f_sub A e (f_dec A 1 0)) (f_add A e (f_dec A 1 0)))"

definition vcx_atan :: "'f doubleops \<Rightarrow> 'f \<Rightarrow> 'f" where
  "vcx_atan A x =
     (let (x, sign) = (if f_lt A x (f_dec A 0 0) then (f_neg A x, f_dec A (-1) 0) else (x, f_dec A 1 0));
          (x, add) =
            (if f_lt A (f_dec A 24142135623730950488 (-19)) x
             then (f_div A (f_dec A (-1) 0) x, f_dec A 15707963267948966192 (-19))
             else if f_lt A (f_dec A 41421356237309504880 (-20)) x
             then (f_div A (f_sub A x (f_dec A 1 0)) (f_add A x (f_dec A 1 0)), f_dec A 78539816339744830962 (-20))
             else (x, f_dec A 0 0));
          z = f_mul A x x;
          p = horner A z (ratio A (-1) 27)
                [ratio A 1 25, ratio A (-1) 23, ratio A 1 21, ratio A (-1) 19, ratio A 1 17,
                 ratio A (-1) 15, ratio A 1 13, ratio A (-1) 11, ratio A 1 9, ratio A (-1) 7,
                 ratio A 1 5, ratio A (-1) 3]
      in f_mul A sign (f_add A (f_fma A (f_mul A p z) x x) add))"

definition vcx_atan2 :: "'f doubleops \<Rightarrow> 'f \<Rightarrow> 'f \<Rightarrow> 'f" where
  "vcx_atan2 A y x =
     (if f_lt A (f_dec A 0 0) x then vcx_atan A (f_div A y x)
      else if f_lt A x (f_dec A 0 0) then
        f_add A (vcx_atan A (f_div A y x))
          (if f_lt A y (f_dec A 0 0) then f_dec A (-314159265358979323846) (-20)
           else f_dec A 314159265358979323846 (-20))
      else if f_lt A (f_dec A 0 0) y then f_dec A 15707963267948966192 (-19)
      else if f_lt A y (f_dec A 0 0) then f_dec A (-15707963267948966192) (-19)
      else f_dec A 0 0)"

definition vcx_asin :: "'f doubleops \<Rightarrow> 'f \<Rightarrow> 'f" where
  "vcx_asin A x = vcx_atan2 A x (f_sqrt A (f_fma A (f_neg A x) x (f_dec A 1 0)))"

definition vcx_acos :: "'f doubleops \<Rightarrow> 'f \<Rightarrow> 'f" where
  "vcx_acos A x = vcx_atan2 A (f_sqrt A (f_fma A (f_neg A x) x (f_dec A 1 0))) x"

section \<open>The interface to the arithmetic: NaN laws\<close>

text \<open>
  A NaN operand makes every operation NaN and every comparison false. The library
  relies on nothing else to hand a NaN argument through to its result.
\<close>

locale fp_laws =
  fixes A :: "('f, 'w) fpops"
  assumes nan_add [simp]: "f_add A (f_nan A) y = f_nan A" "f_add A x (f_nan A) = f_nan A"
    and nan_sub [simp]: "f_sub A (f_nan A) y = f_nan A" "f_sub A x (f_nan A) = f_nan A"
    and nan_mul [simp]: "f_mul A (f_nan A) y = f_nan A" "f_mul A x (f_nan A) = f_nan A"
    and nan_div [simp]: "f_div A (f_nan A) y = f_nan A" "f_div A x (f_nan A) = f_nan A"
    and nan_fma [simp]: "f_fma A (f_nan A) y z = f_nan A" "f_fma A x (f_nan A) z = f_nan A"
      "f_fma A x y (f_nan A) = f_nan A"
    and nan_unary [simp]: "f_neg A (f_nan A) = f_nan A" "f_rint A (f_nan A) = f_nan A"
      "f_trunc A (f_nan A) = f_nan A" "f_sqrt A (f_nan A) = f_nan A"
    and nan_lt [simp]: "\<not> f_lt A (f_nan A) y" "\<not> f_lt A x (f_nan A)"
    and nan_eq [simp]: "\<not> f_eq A (f_nan A) y" "\<not> f_eq A x (f_nan A)"
begin

lemma horner_nan [simp]: "horner A (f_nan A) c (d # cs) = f_nan A"
proof -
  have "foldl (\<lambda>p c. f_fma A p (f_nan A) c) (f_nan A) cs = f_nan A"
    by (induction cs) simp_all
  then show ?thesis by (simp add: horner_def)
qed

end

locale float_laws = fp_laws A for A :: "'f floatops"
begin

lemma ldexpf_nan [simp]: "vcx_ldexpf A (f_nan A) e = f_nan A"
  by (simp add: vcx_ldexpf_def Let_def)

lemma exp_log_nan [simp]:
  "vcx_expf A (f_nan A) = f_nan A" "vcx_exp2f A (f_nan A) = f_nan A"
  "vcx_exp10f A (f_nan A) = f_nan A" "vcx_logf A (f_nan A) = f_nan A"
  "vcx_log2f A (f_nan A) = f_nan A" "vcx_log10f A (f_nan A) = f_nan A"
  by (simp_all add: vcx_expf_def vcx_exp2f_def vcx_exp10f_def vcx_logf_def vcx_log2f_def
      vcx_log10f_def Let_def)

lemma trig_nan [simp]:
  "vcx_sinf A (f_nan A) = f_nan A" "vcx_cosf A (f_nan A) = f_nan A" "vcx_tanf A (f_nan A) = f_nan A"
  "vcx_sinhf A (f_nan A) = f_nan A" "vcx_coshf A (f_nan A) = f_nan A" "vcx_tanhf A (f_nan A) = f_nan A"
  "vcx_atanf A (f_nan A) = f_nan A"
  by (simp_all add: vcx_sinf_def vcx_cosf_def vcx_tanf_def vcx_sinhf_def vcx_coshf_def
      vcx_tanhf_def vcx_atanf_def Let_def)

lemma fmod_pow_nan [simp]:
  "vcx_fmodf A (f_nan A) b = f_nan A" "vcx_fmodf A a (f_nan A) = f_nan A"
  "\<not> f_eq A b (f_dec A 0 0) \<Longrightarrow> vcx_powf A (f_nan A) b = f_nan A"
  "\<not> f_eq A a (f_dec A 1 0) \<Longrightarrow> vcx_powf A a (f_nan A) = f_nan A"
  by (simp_all add: vcx_fmodf_def vcx_powf_def)

end

locale double_laws = fp_laws A for A :: "'f doubleops"
begin

lemma ldexp_nan [simp]: "vcx_ldexp A (f_nan A) e = f_nan A"
  by (simp add: vcx_ldexp_def Let_def)

lemma exp_log_nan [simp]:
  "vcx_exp A (f_nan A) = f_nan A" "vcx_exp2 A (f_nan A) = f_nan A"
  "vcx_exp10 A (f_nan A) = f_nan A" "vcx_log A (f_nan A) = f_nan A"
  "vcx_log2 A (f_nan A) = f_nan A" "vcx_log10 A (f_nan A) = f_nan A"
  by (simp_all add: vcx_exp_def vcx_exp2_def vcx_exp10_def vcx_log_def vcx_log2_def
      vcx_log10_def Let_def)

lemma trig_nan [simp]:
  "vcx_sin A (f_nan A) = f_nan A" "vcx_cos A (f_nan A) = f_nan A" "vcx_tan A (f_nan A) = f_nan A"
  "vcx_sinh A (f_nan A) = f_nan A" "vcx_cosh A (f_nan A) = f_nan A" "vcx_tanh A (f_nan A) = f_nan A"
  "vcx_atan A (f_nan A) = f_nan A"
  by (simp_all add: vcx_sin_def vcx_cos_def vcx_tan_def vcx_sinh_def vcx_cosh_def
      vcx_tanh_def vcx_atan_def Let_def)

lemma fmod_pow_nan [simp]:
  "vcx_fmod A (f_nan A) b = f_nan A" "vcx_fmod A a (f_nan A) = f_nan A"
  "\<not> f_eq A b (f_dec A 0 0) \<Longrightarrow> vcx_pow A (f_nan A) b = f_nan A"
  "\<not> f_eq A a (f_dec A 1 0) \<Longrightarrow> vcx_pow A a (f_nan A) = f_nan A"
  by (simp_all add: vcx_fmod_def vcx_pow_def)

end

interpretation f32: float_laws f32
  by unfold_locales (simp_all add: fp_simps)

interpretation f64: double_laws f64
  by unfold_locales (simp_all add: fp_simps)

section \<open>Scaling by a power of two\<close>

lemma f32_scale_bits:
  assumes "-126 \<le> e" and "e \<le> 127"
  shows "fp_of_bits binary32 (unat (push_bit 23 (word_of_int (e + 127) :: u32))) = fp_pow2 binary32 e"
proof -
  have "unat (push_bit 23 (word_of_int (e + 127) :: u32)) = nat (e + 127) * 2 ^ 23"
    using assms by (intro unat_shifted_exponent) simp_all
  then show ?thesis
    using assms by (intro fp_of_bits_pow2) (simp_all add: bias_def fp_simps)
qed

lemma f64_scale_bits:
  assumes "-1022 \<le> e" and "e \<le> 1023"
  shows "fp_of_bits binary64 (unat (push_bit 52 (word_of_int (e + 1023) :: u64))) = fp_pow2 binary64 e"
proof -
  have "unat (push_bit 52 (word_of_int (e + 1023) :: u64)) = nat (e + 1023) * 2 ^ 52"
    using assms by (intro unat_shifted_exponent) simp_all
  then show ?thesis
    using assms by (intro fp_of_bits_pow2) (simp_all add: bias_def fp_simps)
qed

lemma f32_two_pow_127: "fp_dec binary32 17014118346046923 22 = fp_pow2 binary32 127"
  by (simp add: fp_simps fp_pow2_def)

lemma f64_two_pow_1023: "fp_dec binary64 898846567431158 293 = fp_pow2 binary64 1023"
  by (simp add: fp_simps fp_pow2_def)

text \<open>
  C10. For every float x and every exponent from -126 to 254, \<open>__vcx_ldexpf\<close> returns
  x * 2^e rounded once: the two-step scaling above 127 loses nothing, and the
  power of two assembled in the union's bits is exact. This is the range the
  comment in the code claims on the positive side.
\<close>

theorem ldexpf_correct:
  assumes "wf_fp binary32 x" and "-126 \<le> e" and "e \<le> 254"
  shows "vcx_ldexpf f32 x e = fp_scale binary32 x e"
proof (cases "127 < e")
  case True
  then have "vcx_ldexpf f32 x e = fp_scale binary32 (fp_scale binary32 x 127) (e - 127)"
    using assms by (simp add: vcx_ldexpf_def ops_select f32_two_pow_127 fp_mul_pow2 Let_def f32_scale_bits
        del: of_int_add of_int_diff)
  also have "\<dots> = fp_scale binary32 x e"
    using True assms by (simp add: fp_scale_scale)
  finally show ?thesis .
next
  case False
  then show ?thesis
    using assms by (simp add: vcx_ldexpf_def ops_select fp_mul_pow2 Let_def f32_scale_bits
        del: of_int_add of_int_diff)
qed

theorem ldexpf_correct_witness:
  "wf_fp binary32 (FFin False 1 (-149)) \<and> (-126 :: int) \<le> 254 \<and>
   vcx_ldexpf f32 (FFin False 1 (-149)) 254 = fp_scale binary32 (FFin False 1 (-149)) 254"
  using ldexpf_correct [of "FFin False 1 (-149)" 254] by (simp add: fp_simps)

text \<open>
  For every double x and every exponent from -1022 to 2046, \<open>__vcx_ldexp\<close>
  returns x * 2^e rounded once.
\<close>

theorem ldexp_correct:
  assumes "wf_fp binary64 x" and "-1022 \<le> e" and "e \<le> 2046"
  shows "vcx_ldexp f64 x e = fp_scale binary64 x e"
proof (cases "1023 < e")
  case True
  then have "vcx_ldexp f64 x e = fp_scale binary64 (fp_scale binary64 x 1023) (e - 1023)"
    using assms by (simp add: vcx_ldexp_def ops_select f64_two_pow_1023 fp_mul_pow2 Let_def f64_scale_bits
        del: of_int_add of_int_diff)
  also have "\<dots> = fp_scale binary64 x e"
    using True assms by (simp add: fp_scale_scale)
  finally show ?thesis .
next
  case False
  then show ?thesis
    using assms by (simp add: vcx_ldexp_def ops_select fp_mul_pow2 Let_def f64_scale_bits
        del: of_int_add of_int_diff)
qed

theorem ldexp_correct_witness:
  "wf_fp binary64 (FFin True 3 (-1074)) \<and> (-1022 :: int) \<le> 1500 \<and>
   vcx_ldexp f64 (FFin True 3 (-1074)) 1500 = fp_scale binary64 (FFin True 3 (-1074)) 1500"
  using ldexp_correct [of "FFin True 3 (-1074)" 1500] by (simp add: fp_simps)

section \<open>NaN arguments\<close>

text \<open>
  A NaN argument gives a NaN result in every function of the float library that
  has one argument, in fmod on either side, and in pow except where C defines
  pow to be 1.
\<close>

theorem float_nan_propagates:
  "vcx_ldexpf f32 FNaN e = FNaN \<and> vcx_expf f32 FNaN = FNaN \<and> vcx_exp2f f32 FNaN = FNaN \<and>
   vcx_exp10f f32 FNaN = FNaN \<and> vcx_logf f32 FNaN = FNaN \<and> vcx_log2f f32 FNaN = FNaN \<and>
   vcx_log10f f32 FNaN = FNaN \<and> vcx_sincosf f32 FNaN = (FNaN, FNaN) \<and> vcx_tanf f32 FNaN = FNaN \<and>
   vcx_sinhf f32 FNaN = FNaN \<and> vcx_coshf f32 FNaN = FNaN \<and> vcx_tanhf f32 FNaN = FNaN \<and>
   vcx_atanf f32 FNaN = FNaN \<and> vcx_fmodf f32 FNaN b = FNaN \<and> vcx_fmodf f32 a FNaN = FNaN \<and>
   vcx_powf f32 FNaN b = (if fp_eq b (fp_zero binary32 False) then fp_dec binary32 1 0 else FNaN) \<and>
   vcx_powf f32 a FNaN = (if fp_eq a (fp_dec binary32 1 0) then fp_dec binary32 1 0 else FNaN)"
proof -
  have z: "fp_dec binary32 0 0 = fp_zero binary32 False" by (simp add: fp_simps)
  show ?thesis
    using f32.ldexpf_nan [of e] f32.exp_log_nan f32.trig_nan f32.fmod_pow_nan
    by (simp add: ops_select vcx_sincosf_def z) (simp add: vcx_powf_def ops_select z)
qed

section \<open>Argument reduction and the quadrant\<close>

lemma and3_cases:
  fixes q :: int
  assumes "j AND 3 = q"
  obtains k where "q = 0" "j = 4 * k" | k where "q = 1" "j = 4 * k + 1"
    | k where "q = 2" "j = 4 * k + 2" | k where "q = 3" "j = 4 * k + 3"
proof -
  have "j AND 3 = j mod 4" 
    using take_bit_eq_mask [of 2 j] take_bit_eq_mod [of 2 j] by (simp add: mask_eq_exp_minus_1)
  with assms have "j = 4 * (j div 4) + q" "0 \<le> q" "q < 4" by (auto simp: mult_div_mod_eq)
  then show ?thesis using that by (smt (verit))
qed

lemma sin_cos_quadrant:
  fixes y :: real
  shows "sin (y + real_of_int (4 * k + i) * (pi / 2)) = sin (y + real_of_int i * (pi / 2))"
    and "cos (y + real_of_int (4 * k + i) * (pi / 2)) = cos (y + real_of_int i * (pi / 2))"
proof -
  have "y + real_of_int (4 * k + i) * (pi / 2) = (y + real_of_int i * (pi / 2)) + 2 * pi * real_of_int k"
    by (simp add: algebra_simps)
  then show "sin (y + real_of_int (4 * k + i) * (pi / 2)) = sin (y + real_of_int i * (pi / 2))"
    and "cos (y + real_of_int (4 * k + i) * (pi / 2)) = cos (y + real_of_int i * (pi / 2))"
    by (simp_all only: sin_add cos_add sin_int_2pin cos_int_2pin) simp_all
qed

lemma sin_cos_turns:
  fixes y :: real
  shows "sin (y + pi / 2) = cos y" "cos (y + pi / 2) = - sin y"
    "sin (y + 2 * (pi / 2)) = - sin y" "cos (y + 2 * (pi / 2)) = - cos y"
    "sin (y + 3 * pi / 2) = - cos y" "cos (y + 3 * pi / 2) = sin y"
proof -
  have 3: "y + 3 * pi / 2 = (y + pi / 2) + pi" by simp
  show "sin (y + 3 * pi / 2) = - cos y" "cos (y + 3 * pi / 2) = sin y"
    unfolding 3 sin_periodic_pi cos_periodic_pi by (simp_all add: sin_add cos_add)
qed (simp_all add: sin_add cos_add)

locale fp_value =
  fixes A :: "('f, 'w) fpops" and v :: "'f \<Rightarrow> real"
  assumes v_neg [simp]: "v (f_neg A x) = - v x"
begin

lemma sin_select:
  assumes "j AND 3 = q"
  shows "\<bar>v (if q AND 2 \<noteq> 0 then f_neg A (if q AND 1 \<noteq> 0 then C else S) else if q AND 1 \<noteq> 0 then C else S)
     - sin (y + real_of_int j * (pi / 2))\<bar> \<le> max \<bar>v S - sin y\<bar> \<bar>v C - cos y\<bar>"
  using assms
proof (cases rule: and3_cases)
  case (1 k) then show ?thesis using sin_cos_quadrant(1) [of y k 0] by simp
next
  case (2 k) then show ?thesis using sin_cos_quadrant(1) [of y k 1] by (simp add: sin_cos_turns)
next
  case (3 k) then show ?thesis using sin_cos_quadrant(1) [of y k 2] by (simp add: sin_cos_turns)
next
  case (4 k) then show ?thesis using sin_cos_quadrant(1) [of y k 3] by (simp add: sin_cos_turns)
qed

lemma cos_select:
  assumes "j AND 3 = q"
  shows "\<bar>v (if (q + 1) AND 2 \<noteq> 0 then f_neg A (if q AND 1 \<noteq> 0 then S else C) else if q AND 1 \<noteq> 0 then S else C)
     - cos (y + real_of_int j * (pi / 2))\<bar> \<le> max \<bar>v S - sin y\<bar> \<bar>v C - cos y\<bar>"
  using assms
proof (cases rule: and3_cases)
  case (1 k) then show ?thesis using sin_cos_quadrant(2) [of y k 0] by simp
next
  case (2 k) then show ?thesis using sin_cos_quadrant(2) [of y k 1] by (simp add: sin_cos_turns)
next
  case (3 k) then show ?thesis using sin_cos_quadrant(2) [of y k 2] by (simp add: sin_cos_turns)
next
  case (4 k) then show ?thesis using sin_cos_quadrant(2) [of y k 3] by (simp add: sin_cos_turns)
qed

end

interpretation v32: fp_value f32 fp_val
  by unfold_locales (simp add: ops_select)

interpretation v64: fp_value f64 fp_val
  by unfold_locales (simp add: ops_select)

lemma dy_add_self [simp]: "dy_add M e (- M) e = 0"
  by (simp add: dy_add_def)

text \<open>
  The quadrant logic of sinf and cosf: whatever the polynomials' errors are on the
  reduced argument, choosing the polynomial and the sign by the two low bits of j
  approximates sin and cos of y + j*pi/2 with no more than those errors, for every
  real y. So a reduction x = y + j*pi/2 makes the results approximate sin x and cos x.
\<close>

theorem sinf_cosf_quadrant:
  assumes "vcx_sincosf_reduce f32 (FFin s m e) = (r, q)" and "j AND 3 = q"
  shows "\<bar>fp_val (vcx_sinf f32 (FFin s m e)) - sin (y + real_of_int j * (pi / 2))\<bar>
           \<le> max \<bar>fp_val (vcx_sinf_poly f32 r) - sin y\<bar> \<bar>fp_val (vcx_cosf_poly f32 r) - cos y\<bar>
       \<and> \<bar>fp_val (vcx_cosf f32 (FFin s m e)) - cos (y + real_of_int j * (pi / 2))\<bar>
           \<le> max \<bar>fp_val (vcx_sinf_poly f32 r) - sin y\<bar> \<bar>fp_val (vcx_cosf_poly f32 r) - cos y\<bar>"
  using v32.sin_select [OF assms(2)] v32.cos_select [OF assms(2)]
  by (simp add: vcx_sinf_def vcx_cosf_def ops_select assms(1) Let_def)

theorem sinf_cosf_quadrant_witness:
  "vcx_sincosf_reduce f32 (FFin False 8388608 (-22)) = (FFin False 14401685 (-25), 1) \<and>
   (5 :: int) AND 3 = 1 \<and>
   \<bar>fp_val (vcx_sinf f32 (FFin False 8388608 (-22))) - sin (1 + real_of_int 5 * (pi / 2))\<bar>
     \<le> max \<bar>fp_val (vcx_sinf_poly f32 (FFin False 14401685 (-25))) - sin 1\<bar>
           \<bar>fp_val (vcx_cosf_poly f32 (FFin False 14401685 (-25))) - cos 1\<bar>"
proof -
  have "vcx_sincosf_reduce f32 (FFin False 8388608 (-22)) = (FFin False 14401685 (-25), 1)"
    by (simp add: fp_simps vcx_sincosf_reduce_def cong: let_weak_cong)
  moreover have "(5 :: int) AND 3 = 1" by simp
  ultimately show ?thesis using sinf_cosf_quadrant by blast
qed

text \<open>The same for the double functions sin and cos.\<close>

theorem sin_cos_quadrant_double:
  assumes "vcx_sincos_reduce f64 (FFin s m e) = (r, q)" and "j AND 3 = q"
  shows "\<bar>fp_val (vcx_sin f64 (FFin s m e)) - sin (y + real_of_int j * (pi / 2))\<bar>
           \<le> max \<bar>fp_val (vcx_sin_poly f64 r) - sin y\<bar> \<bar>fp_val (vcx_cos_poly f64 r) - cos y\<bar>
       \<and> \<bar>fp_val (vcx_cos f64 (FFin s m e)) - cos (y + real_of_int j * (pi / 2))\<bar>
           \<le> max \<bar>fp_val (vcx_sin_poly f64 r) - sin y\<bar> \<bar>fp_val (vcx_cos_poly f64 r) - cos y\<bar>"
  using v64.sin_select [OF assms(2)] v64.cos_select [OF assms(2)]
  by (simp add: vcx_sin_def vcx_cos_def ops_select assms(1) Let_def)

theorem sin_cos_quadrant_double_witness:
  "vcx_sincos_reduce f64 (FFin False 4503599627370496 (-51)) = (FFin False 7731846010850207 (-54), 1) \<and>
   (1 :: int) AND 3 = 1 \<and>
   \<bar>fp_val (vcx_cos f64 (FFin False 4503599627370496 (-51))) - cos (0 + real_of_int 1 * (pi / 2))\<bar>
     \<le> max \<bar>fp_val (vcx_sin_poly f64 (FFin False 7731846010850207 (-54))) - sin 0\<bar>
           \<bar>fp_val (vcx_cos_poly f64 (FFin False 7731846010850207 (-54))) - cos 0\<bar>"
proof -
  have "vcx_sincos_reduce f64 (FFin False 4503599627370496 (-51)) = (FFin False 7731846010850207 (-54), 1)"
    by (simp add: fp_simps vcx_sincos_reduce_def cong: let_weak_cong)
  moreover have "(1 :: int) AND 3 = 1" by simp
  ultimately show ?thesis using sin_cos_quadrant_double by blast
qed

section \<open>The double polynomials over exact arithmetic\<close>

text \<open>
  The third instance of the arithmetic is the real numbers: what the polynomials
  would compute without rounding. The reals have no bit patterns, infinities or NaN,
  and the polynomial functions use none.
\<close>

definition exact_ops :: "(real, 'w::zero) fpops" where
  "exact_ops = \<lparr>f_add = (+), f_sub = (-), f_mul = (*), f_div = (/),
     f_fma = (\<lambda>x y z. x * y + z), f_neg = uminus, f_lt = (<), f_eq = (=),
     f_rint = (\<lambda>x. of_int (round x)),
     f_trunc = (\<lambda>x. of_int (if 0 \<le> x then \<lfloor>x\<rfloor> else \<lceil>x\<rceil>)), f_sqrt = sqrt,
     f_dec = (\<lambda>m k. real_of_int m * 10 powi k), f_of_int = real_of_int, f_to_int = floor,
     f_bits = (\<lambda>_. 0), f_of_bits = (\<lambda>_. 0), f_inf = 0, f_nan = 0\<rparr>"

lemma sin_poly_taylor: "vcx_sin_poly exact_ops r = (\<Sum>m<19. sin_coeff m * r ^ m)"
  by (simp add: vcx_sin_poly_def exact_ops_def horner_def ratio_def sin_coeff_def
      lessThan_nat_numeral lessThan_Suc fact_numeral power_int_minus)
    (simp add: field_simps power_numeral_reduce)

lemma cos_poly_taylor: "vcx_cos_poly exact_ops r = (\<Sum>m<18. cos_coeff m * r ^ m)"
  by (simp add: vcx_cos_poly_def exact_ops_def horner_def ratio_def cos_coeff_def
      lessThan_nat_numeral lessThan_Suc fact_numeral power_int_minus)
    (simp add: field_simps power_numeral_reduce)

lemma cos_taylor_bound:
  fixes x :: real
  shows "\<bar>cos x - (\<Sum>m<n. cos_coeff m * x ^ m)\<bar> \<le> \<bar>x\<bar> ^ n / fact n"
proof -
  obtain t where "cos x = (\<Sum>m<n. cos_coeff m * x ^ m) + (cos (t + 1 / 2 * real n * pi) / fact n) * x ^ n"
    using Maclaurin_cos_expansion [of x n] by blast
  then have "\<bar>cos x - (\<Sum>m<n. cos_coeff m * x ^ m)\<bar> = \<bar>cos (t + 1 / 2 * real n * pi)\<bar> * (\<bar>x\<bar> ^ n / fact n)"
    by (simp add: abs_mult power_abs)
  also have "\<dots> \<le> 1 * (\<bar>x\<bar> ^ n / fact n)"
    by (intro mult_right_mono) simp_all
  finally show ?thesis by simp
qed

lemma poly_truncation:
  "\<bar>vcx_sin_poly exact_ops r - sin r\<bar> \<le> \<bar>r\<bar> ^ 19 / fact 19" "\<bar>vcx_cos_poly exact_ops r - cos r\<bar> \<le> \<bar>r\<bar> ^ 18 / fact 18"
  using Maclaurin_sin_bound [of r 19] cos_taylor_bound [of r 18]
  unfolding sin_poly_taylor cos_poly_taylor
  by (simp_all only: abs_minus_commute divide_inverse mult.commute)

section \<open>The operations as rounded real operations\<close>

lemma dy_add_real: "real_of_int (dy_add M e N f) * 2 powi min e f = real_of_int M * 2 powi e + real_of_int N * 2 powi f"
proof -
  have "(2 :: real) ^ nat (e - min e f) * 2 powi min e f = 2 powi e" "(2 :: real) ^ nat (f - min e f) * 2 powi min e f = 2 powi f"
    by (simp_all add: min_def power_int_diff flip: power_int_nonneg_exp)
  then show ?thesis unfolding dy_add_def by (simp add: distrib_right mult.assoc)
qed

lemma smant_sign_mult: "smant (s \<noteq> t) (m * n) = smant s m * smant t n"
  by (simp add: smant_def)

lemma fp_round_int_real:
  "fp_round_int F z M k = (if M = 0 then fp_zero F z else fp_round_real F (M < 0) \<bar>real_of_int M * 2 powi k\<bar>)"
  by (simp add: fp_round_int_def fp_round_real_eq abs_mult)

definition fp_finite :: "fp \<Rightarrow> bool" where
  "fp_finite x \<longleftrightarrow> (\<exists>s m e. x = FFin s m e)"

lemma fp_finite_FFin [simp]: "fp_finite (FFin s m e)"
  by (simp add: fp_finite_def)

lemma fp_fma_real:
  assumes "fp_finite x" and "fp_finite y" and "fp_finite z"
  shows "\<exists>b. fp_fma F x y z = (let v = fp_val x * fp_val y + fp_val z in
     if v = 0 then fp_zero F b else fp_round_real F (v < 0) \<bar>v\<bar>)"
proof -
  obtain s m e t n f u l g where x: "x = FFin s m e" and y: "y = FFin t n f" and z: "z = FFin u l g"
    using assms by (auto simp: fp_finite_def)
  define M where "M = dy_add (smant (s \<noteq> t) (m * n)) (e + f) (smant u l) g"
  have v: "real_of_int M * 2 powi min (e + f) g = fp_val x * fp_val y + fp_val z"
    unfolding M_def dy_add_real smant_sign_mult x y z by (simp add: power_int_add)
  have "(M = 0 \<longleftrightarrow> real_of_int M * c = 0) \<and> (M < 0 \<longleftrightarrow> real_of_int M * c < 0)" if "0 < c" for c
    using that by (auto simp: mult_less_0_iff)
  then have "(M = 0 \<longleftrightarrow> fp_val x * fp_val y + fp_val z = 0) \<and> (M < 0 \<longleftrightarrow> fp_val x * fp_val y + fp_val z < 0)"
    unfolding v [symmetric] by simp
  then have "fp_fma F x y z = (let v = fp_val x * fp_val y + fp_val z in
     if v = 0 then fp_zero F ((s \<noteq> t) \<and> u) else fp_round_real F (v < 0) \<bar>v\<bar>)"
    unfolding x y z fp_fma.simps fp_round_int_real M_def [symmetric] by (simp add: Let_def flip: v x y z)
  then show ?thesis by blast
qed

lemma abs_fp_val: "\<bar>fp_val (FFin s m e)\<bar> = real m * 2 powi e"
  by (simp add: smant_def abs_mult)

lemma fp_mul_real:
  "fp_mul F (FFin s m e) (FFin t n f) = fp_round_real F (s \<noteq> t) \<bar>fp_val (FFin s m e) * fp_val (FFin t n f)\<bar>"
  unfolding abs_mult abs_fp_val by (simp add: fp_round_real_eq power_int_add mult_ac)

lemma fp_div_real:
  "n \<noteq> 0 \<Longrightarrow> fp_div F (FFin s m e) (FFin t n f) = fp_round_real F (s \<noteq> t) \<bar>fp_val (FFin s m e) / fp_val (FFin t n f)\<bar>"
  unfolding abs_divide abs_fp_val by (simp add: fp_round_real_eq power_int_diff mult_ac)

section \<open>Where the library departs from C\<close>

text \<open>Rounding a real: infinite when it is too large, and not zero from the least value on.\<close>

lemma fp_round_real_overflow:
  assumes "2 powi (emax F + int (prec F)) \<le> x"
  shows "fp_round_real F s x = FInf s"
proof -
  have pos: "0 < x" using assms by (meson less_le_trans zero_less_numeral zero_less_power_int)
  have "(2 :: real) powi (emax F + int (prec F)) < 2 powi (\<lfloor>log 2 x\<rfloor> + 1)" using assms floor_log2_bounds(2) [OF pos] by linarith
  then have "emax F + int (prec F) < \<lfloor>log 2 x\<rfloor> + 1" by (rule power_int_less_imp_less_two)
  then have "emax F < fp_exp_of F x" by (simp add: fp_exp_of_def)
  with pos show ?thesis by (simp add: fp_round_real_def fp_pack_def)
qed

lemma fp_round_real_nonzero:
  assumes "wf_fmt F" and "2 powi emin F \<le> x"
  shows "fp_round_real F s x = FInf s \<or> (\<exists>m e. 0 < m \<and> fp_round_real F s x = FFin s m e)"
proof -
  have pos: "0 < x" using assms(2) by (meson less_le_trans zero_less_numeral zero_less_power_int)
  have "1 \<le> rne (x / 2 powi fp_exp_of F x)"
  proof (cases "fp_exp_of F x = emin F")
    case True
    then show ?thesis using assms(2) by (intro rne_ge) (simp add: field_simps)
  next
    case False
    then have "emin F < fp_exp_of F x" using emin_le_fp_exp_of [of F x] by linarith
    then have "2 ^ (prec F - 1) \<le> x / 2 powi fp_exp_of F x" using assms(1) by (intro fp_exp_of_lower pos) (simp_all add: wf_fmt_def)
    moreover have "(1 :: real) \<le> 2 ^ (prec F - 1)" by simp
    ultimately show ?thesis by (intro rne_ge) linarith
  qed
  with pos show ?thesis by (auto simp: fp_round_real_def fp_pack_def)
qed

text \<open>A truncated value is integral.\<close>

lemma fp_val_pack: "\<bar>fp_val (fp_pack F s q e)\<bar> = real q * 2 powi e \<or> fp_pack F s q e = FInf s" if "0 < prec F"
proof -
  have "(2 :: real) ^ (prec F - 1) * 2 = 2 ^ prec F" using that by (cases "prec F") simp_all
  then show ?thesis by (simp add: fp_pack_def abs_fp_val power_int_add del: fp_val.simps)
qed

lemma fp_round_nat_integral:
  assumes "wf_fmt F"
  shows "\<bar>fp_val (fp_round F s N 1 0)\<bar> \<in> \<int>"
proof (cases "N = 0")
  case False
  define e where "e = fp_exp_of F (real N)"
  define q where "q = rne (real N / 2 powi e)"
  have "real q * 2 powi e \<in> \<int>"
  proof (cases "0 \<le> e")
    case True
    then have "real q * 2 powi e = real (q * 2 ^ nat e)" by (simp add: power_int_def)
    then show ?thesis by (simp only: Ints_of_nat)
  next
    case False
    then have p: "2 powi e = 1 / (2 :: real) ^ nat (- e)" using real_powi_nat_diff [of e] by simp
    then have "real N / 2 powi e = real (N * 2 ^ nat (- e))" by simp
    then have "q = N * 2 ^ nat (- e)" unfolding q_def by (simp only: rne_of_nat)
    then have "real q * 2 powi e = real N" by (simp add: p)
    then show ?thesis by simp
  qed
  moreover have "fp_round F s N 1 0 = fp_pack F s q e" using False by (simp add: fp_round_real_eq fp_round_real_def q_def e_def)
  ultimately show ?thesis using fp_val_pack [of F s q e] assms by (auto simp: wf_fmt_def)
qed (simp add: fp_round_def fp_zero_def smant_def)

lemma fp_trunc_integral:
  assumes "wf_fmt F"
  shows "\<bar>fp_val (fp_trunc F x)\<bar> \<in> \<int>"
proof (cases x)
  case (FFin s m e)
  show ?thesis
  proof (cases "0 \<le> e")
    case True
    then have "\<bar>fp_val (fp_trunc F x)\<bar> = real (m * 2 ^ nat e)"
      using abs_fp_val [of s m e] by (simp add: FFin power_int_def del: fp_val.simps)
    then show ?thesis by (simp only: Ints_of_nat)
  qed (use fp_round_nat_integral [OF assms] FFin in \<open>simp del: fp_val.simps\<close>)
qed simp_all

text \<open>A combination of two values of the format by an integer is no smaller than the least value.\<close>

lemma multiple_of_least:
  assumes "wf_fp F (FFin s m e)" and "wf_fp F (FFin t n f)" and "Q \<in> \<int>"
    and "fp_val (FFin s m e) - Q * fp_val (FFin t n f) \<noteq> 0"
  shows "2 powi emin F \<le> \<bar>fp_val (FFin s m e) - Q * fp_val (FFin t n f)\<bar>"
proof -
  obtain N :: int where N: "Q = real_of_int N" using assms(3) by (auto elim: Ints_cases)
  have p: "(2 :: real) powi g = real_of_int (2 ^ nat (g - emin F)) * 2 powi emin F" if "emin F \<le> g" for g
    using that by (simp add: power_int_diff flip: power_int_nonneg_exp)
  have "fp_val (FFin b k g) = real_of_int (smant b k * 2 ^ nat (g - emin F)) * 2 powi emin F" if "emin F \<le> g" for b k g
    unfolding fp_val.simps p [OF that] by simp
  then have v: "fp_val (FFin s m e) = real_of_int (smant s m * 2 ^ nat (e - emin F)) * 2 powi emin F"
      "fp_val (FFin t n f) = real_of_int (smant t n * 2 ^ nat (f - emin F)) * 2 powi emin F"
    using assms(1,2) by (simp_all only: wf_fp.simps)
  define Z where "Z = smant s m * 2 ^ nat (e - emin F) - N * smant t n * 2 ^ nat (f - emin F)"
  have Z: "fp_val (FFin s m e) - Q * fp_val (FFin t n f) = real_of_int Z * 2 powi emin F"
    unfolding v N Z_def by (simp add: left_diff_distrib)
  with assms(4) have "1 \<le> \<bar>Z\<bar>" by (auto simp del: fp_val.simps)
  then have "1 \<le> \<bar>real_of_int Z\<bar>" by linarith
  then show ?thesis unfolding Z by (simp add: abs_mult)
qed

lemma fp_eq_zero: "n \<noteq> 0 \<Longrightarrow> \<not> fp_eq (FFin t n f) (fp_dec binary32 0 0)"
proof -
  assume "n \<noteq> 0"
  then have "real_of_int (dy_add (smant t n) f 0 (emin binary32)) * 2 powi min f (emin binary32) \<noteq> 0"
    unfolding dy_add_real by (simp add: smant_def)
  then show ?thesis by (auto simp: fp_dec_def fp_round_def fp_zero_def smant_def)
qed

lemma fmodf_unfold:
  "n \<noteq> 0 \<Longrightarrow> vcx_fmodf f32 (FFin s m e) (FFin t n f) =
     fp_fma binary32 (fp_neg (fp_trunc binary32 (fp_div binary32 (FFin s m e) (FFin t n f)))) (FFin t n f) (FFin s m e)"
  using fp_eq_zero [of n t f] by (simp add: vcx_fmodf_def ops_select Let_def del: fp_div.simps fp_fma.simps)

text \<open>
  C17. Where fmodf departs from C, whose result has the sign of the first argument and a
  magnitude below the second. For every finite first argument and an infinite second one the
  result is NaN, where C returns the first argument. When the quotient of two finite arguments is
  2^128 or more, the result is infinite. And when the truncated quotient exceeds the exact one,
  because the quotient was rounded up to an integer before it was truncated, the result of two
  positive arguments is negative; 1.0f and 0.1f are such arguments.
\<close>
theorem fmodf_departs:
  assumes "x = FFin s m e" and "y = FFin t n f" and "wf_fp binary32 x" and "wf_fp binary32 y" and "n \<noteq> 0"
  shows "vcx_fmodf f32 x (FInf u) = FNaN \<and>
    (2 ^ 128 \<le> \<bar>fp_val x / fp_val y\<bar> \<longrightarrow> (\<exists>b. vcx_fmodf f32 x y = FInf b)) \<and>
    (0 < fp_val x \<and> 0 < fp_val y \<and> (\<exists>k q. fp_trunc binary32 (fp_div binary32 x y) = FFin False q k) \<and>
      fp_val x / fp_val y < fp_val (fp_trunc binary32 (fp_div binary32 x y)) \<longrightarrow>
      fp_lt (vcx_fmodf f32 x y) (fp_dec binary32 0 0))"
proof (intro conjI impI)
  show "vcx_fmodf f32 x (FInf u) = FNaN"
    by (simp add: assms(1) vcx_fmodf_def ops_select Let_def fp_dec_def fp_round_def fp_zero_def emin_def bias_def binary32_def)
  {
    assume "2 ^ 128 \<le> \<bar>fp_val x / fp_val y\<bar>"
    then have "fp_div binary32 x y = FInf (s \<noteq> t)"
      unfolding assms(1,2) fp_div_real [OF assms(5)]
      by (intro fp_round_real_overflow) (simp add: emax_def bias_def binary32_def power_int_def del: fp_val.simps)
    then show "\<exists>b. vcx_fmodf f32 x y = FInf b"
      unfolding assms(1,2) fmodf_unfold [OF assms(5)] using assms(5) by auto
  }
  assume a: "0 < fp_val x \<and> 0 < fp_val y \<and> (\<exists>k q. fp_trunc binary32 (fp_div binary32 x y) = FFin False q k) \<and>
      fp_val x / fp_val y < fp_val (fp_trunc binary32 (fp_div binary32 x y))"
  define T where "T = fp_trunc binary32 (fp_div binary32 x y)"
  define v where "v = fp_val x - fp_val T * fp_val y"
  from a obtain k q where T: "T = FFin False q k" by (auto simp: T_def)
  have int: "fp_val T \<in> \<int>" using fp_trunc_integral [OF wf_formats(1), of "fp_div binary32 x y"] unfolding T_def [symmetric] T by (simp add: smant_def)
  have neg: "v < 0" using a unfolding T_def [symmetric] v_def by (auto simp: pos_divide_less_eq)
  then have big: "2 powi emin binary32 \<le> \<bar>v\<bar>"
    using multiple_of_least [OF assms(3,4) [unfolded assms(1,2)] int] by (simp add: v_def assms(1,2) del: fp_val.simps)
  obtain b where "vcx_fmodf f32 x y = (let v = fp_val (fp_neg T) * fp_val y + fp_val x in
      if v = 0 then fp_zero binary32 b else fp_round_real binary32 (v < 0) \<bar>v\<bar>)"
    using fp_fma_real [of "fp_neg T" y x binary32] unfolding assms(1,2) fmodf_unfold [OF assms(5)] T_def [unfolded assms(1,2), symmetric]
    by (auto simp: T)
  moreover have "fp_val (fp_neg T) * fp_val y + fp_val x = v" by (simp add: v_def)
  ultimately have "vcx_fmodf f32 x y = fp_round_real binary32 True \<bar>v\<bar>" using neg by (simp add: Let_def)
  with fp_round_real_nonzero [OF wf_formats(1) big, of True] show "fp_lt (vcx_fmodf f32 x y) (fp_dec binary32 0 0)"
    by (auto simp: fp_dec_def fp_round_def fp_zero_def dy_add_def smant_def)
qed

theorem fmodf_departs_witness:
  "vcx_fmodf f32 (fp_dec binary32 1 0) (FInf True) = FNaN \<and>
   fp_lt (vcx_fmodf f32 (fp_dec binary32 1 0) (fp_dec binary32 1 (-1))) (fp_dec binary32 0 0)"
proof -
  have x: "fp_dec binary32 1 0 = FFin False 8388608 (-23)" and y: "fp_dec binary32 1 (-1) = FFin False 13421773 (-27)"
    by (simp_all add: fp_simps)
  have q: "fp_trunc binary32 (fp_div binary32 (FFin False 8388608 (-23)) (FFin False 13421773 (-27))) = FFin False 10485760 (-20)"
    by (simp add: fp_simps)
  have "wf_fp binary32 (FFin False 8388608 (-23))" "wf_fp binary32 (FFin False 13421773 (-27))" by (simp_all add: fp_simps)
  from fmodf_departs [OF refl refl this, of True] show ?thesis
    unfolding x y q by (simp add: smant_def power_int_def power_one_over)
qed

text \<open>
  asinf of 2 is pi/2 and not NaN: the square root of the negative 1 - x*x is NaN, and
  atan2f(y, NaN) with positive y falls through its comparisons with x to the branch
  for x = 0. In general atan2f of a NaN second argument is decided by the sign of
  y alone.
\<close>

theorem atan2f_nan_departs:
  "vcx_asinf f32 (fp_dec binary32 2 0) = fp_dec binary32 15707963267948966 (-16) \<and>
   vcx_atan2f f32 y FNaN =
     (if fp_lt (fp_dec binary32 0 0) y then fp_dec binary32 15707963267948966 (-16)
      else if fp_lt y (fp_dec binary32 0 0) then fp_dec binary32 (-15707963267948966) (-16)
      else fp_dec binary32 0 0)"
proof
  show "vcx_asinf f32 (fp_dec binary32 2 0) = fp_dec binary32 15707963267948966 (-16)"
    by (simp add: fp_simps vcx_asinf_def vcx_atan2f_def cong: let_weak_cong)
qed (simp add: vcx_atan2f_def ops_select)

end
