(* ===== verification/DeviceTrig.thy ===== *)
theory DeviceTrig
  imports DeviceMath
begin

text \<open>
  The accuracy of the double sine and cosine of \<open>__vcx_devicelib_math.h\<close> with every rounding
  counted: how far a value of the format is from the real number it stands for, through the
  products and fused operations of the polynomials, the quadrants and the reduction.
\<close>

section \<open>Approximations\<close>

definition approx :: "fp \<Rightarrow> real \<Rightarrow> real \<Rightarrow> bool" where
  "approx x v d \<longleftrightarrow> fp_finite x \<and> \<bar>fp_val x - v\<bar> \<le> d"

lemma round_error:
  assumes "0 \<le> x" and "x \<le> 2 powi k" and "-1000 \<le> k" and "k \<le> 1000"
  shows "fp_finite (fp_round_real binary64 s x) \<and> \<bar>\<bar>fp_val (fp_round_real binary64 s x)\<bar> - x\<bar> \<le> 2 powi (k - 54)
    \<and> (if s then fp_val (fp_round_real binary64 s x) \<le> 0 else 0 \<le> fp_val (fp_round_real binary64 s x))"
proof -
  define e where "e = fp_exp_of binary64 x"
  consider "x = 0" | "x = 2 powi k" | "0 < x" "x < 2 powi k" using assms(1,2) by linarith
  then show ?thesis
  proof cases
    case 1
    then show ?thesis by (simp add: fp_round_real_def fp_zero_def smant_def)
  next
    case 2
    have "wf_fp binary64 (FFin s (2 ^ 52) (k - 52))" using assms(3,4) by (simp add: binary64_def emin_def emax_def bias_def)
    from fp_round_real_exact [OF this, of s] have "fp_round_real binary64 s x = FFin s (2 ^ 52) (k - 52)"
      by (simp add: 2 power_int_diff)
    then show ?thesis by (cases s) (simp_all add: 2 smant_def power_int_diff)
  next
    case 3
    have "(2 :: real) powi \<lfloor>log 2 x\<rfloor> < 2 powi k" using floor_log2_bounds(1) [OF 3(1)] 3(2) by linarith
    then have "\<lfloor>log 2 x\<rfloor> < k" by (rule power_int_less_imp_less_two)
    then have e: "e \<le> k - 53" using assms(3) by (simp add: e_def fp_exp_of_def binary64_def emin_def bias_def)
    define q where "q = rne (x / 2 powi e)"
    have r: "fp_round_real binary64 s x = fp_pack binary64 s q e" using 3(1) by (simp add: fp_round_real_def q_def e_def)
    have "\<bar>real q - x / 2 powi e\<bar> \<le> 1 / 2" unfolding q_def by (rule rne_nearest) (use 3(1) in simp)
    then have "\<bar>real q - x / 2 powi e\<bar> * 2 powi e \<le> 1 / 2 * 2 powi e" by (rule mult_right_mono) simp
    moreover have "real q * 2 powi e - x = (real q - x / 2 powi e) * 2 powi e" by (simp add: left_diff_distrib)
    ultimately have "\<bar>real q * 2 powi e - x\<bar> \<le> 1 / 2 * 2 powi e" by (simp only: abs_mult abs_of_nonneg zero_le_power_int zero_le_numeral)
    also have "\<dots> \<le> 1 / 2 * 2 powi (k - 53)" using e by (intro mult_left_mono power_int_increasing) simp_all
    also have "\<dots> = 2 powi (k - 54)" by (simp add: power_int_diff)
    finally have close: "\<bar>real q * 2 powi e - x\<bar> \<le> 2 powi (k - 54)" .
    have emax: "emax binary64 = 971" "prec binary64 = 53" by (simp_all add: emax_def bias_def binary64_def)
    have "\<exists>m f. fp_pack binary64 s q e = FFin s m f \<and> real m * 2 powi f = real q * 2 powi e"
      using e assms(4) by (cases "q = 2 ^ 53") (simp_all add: fp_pack_def emax power_int_add)
    then obtain m f where p: "fp_pack binary64 s q e = FFin s m f" "real m * 2 powi f = real q * 2 powi e" by blast
    then have abs: "\<bar>fp_val (fp_pack binary64 s q e)\<bar> = real q * 2 powi e" by (simp add: abs_fp_val del: fp_val.simps)
    have "fp_finite (fp_pack binary64 s q e)" "if s then fp_val (fp_pack binary64 s q e) \<le> 0 else 0 \<le> fp_val (fp_pack binary64 s q e)"
      unfolding p(1) by (simp_all add: smant_def)
    with close show ?thesis unfolding r abs by blast
  qed
qed

lemma approx_rounded:
  assumes "\<bar>v\<bar> \<le> 2 powi k" and "-1000 \<le> k" and "k \<le> 1000" and "s = (v < 0) \<or> v = 0"
  shows "approx (fp_round_real binary64 s \<bar>v\<bar>) v (2 powi (k - 54))"
proof -
  note e = round_error [of "\<bar>v\<bar>" k s, OF _ assms(1-3)]
  show ?thesis using e assms(4) unfolding approx_def by (cases s) auto
qed

lemma approx_weaken: "approx x v d \<Longrightarrow> d \<le> d' \<Longrightarrow> approx x v d'"
  by (simp add: approx_def)

lemma approx_trans: "approx x v d \<Longrightarrow> \<bar>v - w\<bar> \<le> d' \<Longrightarrow> approx x w (d + d')"
  by (auto simp: approx_def)

text \<open>A fused operation and a product of approximations, with bounds on the exact values.\<close>

lemma product_error:
  fixes a b A B :: real
  assumes "\<bar>a - A\<bar> \<le> d" and "\<bar>b - B\<bar> \<le> d'" and "\<bar>A\<bar> \<le> K" and "\<bar>B\<bar> \<le> 1"
  shows "\<bar>a * b - A * B\<bar> \<le> d * (1 + d') + K * d'"
proof -
  have "a * b - A * B = (a - A) * b + A * (b - B)" by (simp add: algebra_simps)
  then have "\<bar>a * b - A * B\<bar> \<le> \<bar>a - A\<bar> * \<bar>b\<bar> + \<bar>A\<bar> * \<bar>b - B\<bar>" by (metis abs_mult abs_triangle_ineq)
  moreover have "\<bar>a - A\<bar> * \<bar>b\<bar> \<le> d * (1 + d')" using assms by (intro mult_mono) linarith+
  moreover have "\<bar>A\<bar> * \<bar>b - B\<bar> \<le> K * d'" using assms by (intro mult_mono) linarith+
  ultimately show ?thesis by linarith
qed

lemma approx_fma:
  assumes p: "approx p P d" and z: "approx z Z d'" and c: "approx c C d''" and b: "\<bar>P\<bar> \<le> K" "\<bar>Z\<bar> \<le> 1" "\<bar>C\<bar> \<le> L"
    and k: "d * (1 + d') + K * d' + d'' + K + L \<le> 2 powi k" "-1000 \<le> k" "k \<le> 1000"
  shows "approx (fp_fma binary64 p z c) (P * Z + C) (d * (1 + d') + K * d' + d'' + 2 powi (k - 54)) \<and> \<bar>P * Z + C\<bar> \<le> K + L"
proof -
  define v where "v = fp_val p * fp_val z + fp_val c"
  have "\<bar>P\<bar> * \<bar>Z\<bar> \<le> K * 1" using b(1,2) by (intro mult_mono) linarith+
  then have exact: "\<bar>P * Z + C\<bar> \<le> K + L" using b(3) unfolding abs_mult [symmetric] by linarith
  have "\<bar>fp_val p * fp_val z - P * Z\<bar> \<le> d * (1 + d') + K * d'"
    using p z b(1,2) by (intro product_error) (simp_all add: approx_def)
  then have close: "\<bar>v - (P * Z + C)\<bar> \<le> d * (1 + d') + K * d' + d''" using c unfolding v_def approx_def by linarith
  then have "\<bar>v\<bar> \<le> 2 powi k" using exact k(1) by linarith
  moreover obtain b where "fp_fma binary64 p z c = (if v = 0 then fp_zero binary64 b else fp_round_real binary64 (v < 0) \<bar>v\<bar>)"
    using fp_fma_real [of p z c binary64] p z c unfolding approx_def v_def Let_def by blast
  then have "fp_fma binary64 p z c = fp_round_real binary64 (if v = 0 then b else v < 0) \<bar>v\<bar>" by (simp add: fp_round_real_def)
  ultimately have "approx (fp_fma binary64 p z c) v (2 powi (k - 54))" using approx_rounded [of v k] k(2,3) by simp
  from approx_trans [OF this close] exact show ?thesis by (simp add: add_ac)
qed

lemma approx_mul:
  assumes p: "approx p P d" and z: "approx z Z d'" and b: "\<bar>P\<bar> \<le> K" "\<bar>Z\<bar> \<le> 1"
    and k: "d * (1 + d') + K * d' + K \<le> 2 powi k" "-1000 \<le> k" "k \<le> 1000"
  shows "approx (fp_mul binary64 p z) (P * Z) (d * (1 + d') + K * d' + 2 powi (k - 54)) \<and> \<bar>P * Z\<bar> \<le> K"
proof -
  have "\<bar>P\<bar> * \<bar>Z\<bar> \<le> K * 1" using b by (intro mult_mono) linarith+
  then have exact: "\<bar>P * Z\<bar> \<le> K" unfolding abs_mult by linarith
  have close: "\<bar>fp_val p * fp_val z - P * Z\<bar> \<le> d * (1 + d') + K * d'"
    using p z b by (intro product_error) (simp_all add: approx_def)
  then have v: "\<bar>fp_val p * fp_val z\<bar> \<le> 2 powi k" using exact k(1) by linarith
  obtain s m e t n f where pz: "p = FFin s m e" "z = FFin t n f" using p z by (auto simp: approx_def fp_finite_def)
  have "\<not> (2 :: real) powi g < 0" for g by (simp add: not_less)
  then have "(s \<noteq> t) = (fp_val p * fp_val z < 0) \<or> fp_val p * fp_val z = 0"
    by (auto simp: pz smant_def mult_less_0_iff zero_less_mult_iff)
  from approx_trans [OF approx_rounded [OF v k(2,3) this] close] exact show ?thesis
    unfolding pz fp_mul_real by (simp add: add_ac del: fp_val.simps)
qed

section \<open>The polynomials\<close>

text \<open>The low terms together: small coefficients, and an error that grows by a fixed amount with each.\<close>

lemma approx_horner:
  assumes "approx z Z (2 powi - 54)" and "\<bar>Z\<bar> \<le> 1" and "list_all2 (\<lambda>c C. approx c C (2 powi - 65)) cs Cs"
    and "approx p P d" and "0 \<le> d" and "\<bar>P\<bar> + (\<Sum>C\<leftarrow>Cs. \<bar>C\<bar>) \<le> 2 powi - 12" and "d + real (length cs) * (3 * 2 powi - 65) \<le> 2 powi - 13"
  shows "approx (foldl (\<lambda>p c. fp_fma binary64 p z c) p cs) (foldl (\<lambda>P C. P * Z + C) P Cs) (d + real (length cs) * (3 * 2 powi - 65))
    \<and> \<bar>foldl (\<lambda>P C. P * Z + C) P Cs\<bar> \<le> 2 powi - 12"
  using assms(3-)
proof (induction cs Cs arbitrary: p P d rule: list_all2_induct)
  case (Cons c cs C Cs)
  have small: "(2 :: real) powi - 12 = 1 / 4096" "(2 :: real) powi - 13 = 1 / 8192" "(2 :: real) powi - 11 = 1 / 2048" "(2 :: real) powi - 54 = 1 / 2 ^ 54"
      "(2 :: real) powi - 65 = 1 / 2 ^ 65" "(2 :: real) powi (- 11 - 54) = 1 / 2 ^ 65"
    by (simp_all add: power_int_def power_one_over)
  have sum: "0 \<le> (\<Sum>C\<leftarrow>Cs. \<bar>C\<bar>)" by (rule sum_list_nonneg) auto
  have "0 \<le> real (length (c # cs)) * (3 * 2 powi - 65)" by simp
  then have d: "0 \<le> d" "d \<le> 1 / 8192" using Cons.prems(2,4) unfolding small by linarith+
  have P: "\<bar>P\<bar> + \<bar>C\<bar> \<le> 1 / 4096" "\<bar>P\<bar> \<le> 1 / 4096" using Cons.prems(3) sum by (simp_all add: small)
  have "approx (fp_fma binary64 p z c) (P * Z + C) (d * (1 + 2 powi - 54) + \<bar>P\<bar> * 2 powi - 54 + 2 powi - 65 + 2 powi (- 11 - 54)) \<and>
      \<bar>P * Z + C\<bar> \<le> \<bar>P\<bar> + \<bar>C\<bar>"
    by (rule approx_fma [OF Cons.prems(1) assms(1) Cons.hyps(1) order_refl assms(2) order_refl]) (use d P in \<open>simp_all add: small\<close>)
  moreover have "d * (1 + 2 powi - 54) + \<bar>P\<bar> * 2 powi - 54 + 2 powi - 65 + 2 powi (- 11 - 54) \<le> d + 3 * 2 powi - 65"
    using d P by (simp add: small)
  ultimately have step: "approx (fp_fma binary64 p z c) (P * Z + C) (d + 3 * 2 powi - 65)" using approx_weaken by blast
  have "\<bar>P\<bar> * \<bar>Z\<bar> \<le> \<bar>P\<bar> * 1" using assms(2) by (intro mult_left_mono) simp_all
  then have "\<bar>P * Z + C\<bar> + (\<Sum>C\<leftarrow>Cs. \<bar>C\<bar>) \<le> 2 powi - 12"
    using Cons.prems(3) unfolding abs_mult [symmetric] list.map sum_list.Cons by linarith
  moreover have eq: "d + 3 * u + real (length cs) * (3 * u) = d + real (length (c # cs)) * (3 * u)" for u :: real by (simp add: algebra_simps)
  moreover have "0 \<le> d + 3 * 2 powi - 65" using d by simp
  ultimately show ?case using Cons.IH [OF step] Cons.prems(4) unfolding eq foldl.simps by blast
qed simp_all

lemma approx_neg: "approx x v d \<Longrightarrow> approx (fp_neg x) (- v) d"
proof -
  assume a: "approx x v d"
  then have "fp_finite (fp_neg x)" by (cases x) (auto simp: approx_def fp_finite_def)
  with a show ?thesis by (simp add: approx_def abs_minus_commute)
qed

lemma approx_self: "fp_finite x \<Longrightarrow> approx x (fp_val x) 0"
  by (simp add: approx_def)

lemma approx_square:
  assumes "fp_finite r" and "\<bar>fp_val r\<bar> \<le> 1"
  shows "approx (fp_mul binary64 r r) (fp_val r * fp_val r) (2 powi - 54)" "\<bar>fp_val r * fp_val r\<bar> \<le> 1"
  using approx_mul [OF approx_self [OF assms(1)] approx_self [OF assms(1)] assms(2,2), of 0] by simp_all

lemma sin_constants:
  "approx (ratio f64 (-1) 355687428096000) (-1 / 355687428096000) (2 powi - 65)"
  "approx (ratio f64 1 1307674368000) (1 / 1307674368000) (2 powi - 65)"
  "approx (ratio f64 (-1) 6227020800) (-1 / 6227020800) (2 powi - 65)"
  "approx (ratio f64 1 39916800) (1 / 39916800) (2 powi - 65)"
  "approx (ratio f64 (-1) 362880) (-1 / 362880) (2 powi - 65)"
  "approx (ratio f64 1 5040) (1 / 5040) (2 powi - 65)"
  "approx (ratio f64 (-1) 120) (-1 / 120) (2 powi - 60)"
  "approx (ratio f64 1 6) (1 / 6) (2 powi - 56)"
  by (simp_all add: approx_def fp_simps power_int_def power_one_over)

lemma cos_constants:
  "approx (ratio f64 1 20922789888000) (1 / 20922789888000) (2 powi - 65)"
  "approx (ratio f64 (-1) 87178291200) (-1 / 87178291200) (2 powi - 65)"
  "approx (ratio f64 1 479001600) (1 / 479001600) (2 powi - 65)"
  "approx (ratio f64 (-1) 3628800) (-1 / 3628800) (2 powi - 65)"
  "approx (ratio f64 1 40320) (1 / 40320) (2 powi - 65)"
  "approx (ratio f64 (-1) 720) (-1 / 720) (2 powi - 62)"
  "approx (ratio f64 1 24) (1 / 24) (2 powi - 58)"
  "approx (fp_dec binary64 (-5) (-1)) (-1 / 2) 0"
  "approx (fp_dec binary64 1 0) 1 0"
  by (simp_all add: approx_def fp_simps power_int_def power_one_over)

lemma small_powers:
  "(2 :: real) powi - 6 = 1 / 64" "(2 :: real) powi - 12 = 1 / 4096" "(2 :: real) powi - 13 = 1 / 8192" "(2 :: real) powi - 2 = 1 / 4"
  "(2 :: real) powi - 9 = 1 / 512" "(2 :: real) powi - 4 = 1 / 16"
  "(2 :: real) powi - 52 = 1 / 2 ^ 52" "(2 :: real) powi - 54 = 1 / 2 ^ 54" "(2 :: real) powi - 55 = 1 / 2 ^ 55"
  "(2 :: real) powi - 56 = 1 / 2 ^ 56" "(2 :: real) powi - 58 = 1 / 2 ^ 58" "(2 :: real) powi - 59 = 1 / 2 ^ 59"
  "(2 :: real) powi - 60 = 1 / 2 ^ 60" "(2 :: real) powi - 61 = 1 / 2 ^ 61" "(2 :: real) powi - 62 = 1 / 2 ^ 62"
  "(2 :: real) powi - 65 = 1 / 2 ^ 65" "(2 :: real) powi - 63 = 1 / 2 ^ 63" "(2 :: real) powi - 57 = 1 / 2 ^ 57" "(2 :: real) powi - 53 = 1 / 2 ^ 53"
  by (simp_all add: power_int_def power_one_over)

lemma sin_poly_rounding:
  assumes "fp_finite r" and "\<bar>fp_val r\<bar> \<le> 1"
  shows "approx (vcx_sin_poly f64 r) (vcx_sin_poly exact_ops (fp_val r)) (2 powi - 52)"
proof -
  define z Z where "z = fp_mul binary64 r r" and "Z = fp_val r * fp_val r"
  note sq = approx_square [OF assms, folded z_def Z_def]
  define p5 where "p5 = foldl (\<lambda>p c. fp_fma binary64 p z c) (ratio f64 (-1) 355687428096000)
      [ratio f64 1 1307674368000, ratio f64 (-1) 6227020800, ratio f64 1 39916800, ratio f64 (-1) 362880, ratio f64 1 5040]"
  define P5 where "P5 = foldl (\<lambda>P C. P * Z + C) (-1 / 355687428096000 :: real)
      [1 / 1307674368000, -1 / 6227020800, 1 / 39916800, -1 / 362880, 1 / 5040]"
  have cs: "list_all2 (\<lambda>c C. approx c C (2 powi - 65))
      [ratio f64 1 1307674368000, ratio f64 (-1) 6227020800, ratio f64 1 39916800, ratio f64 (-1) 362880, ratio f64 1 5040]
      [1 / 1307674368000, -1 / 6227020800, 1 / 39916800, -1 / 362880, 1 / 5040]"
    by (simp only: list.rel_inject list.rel_intros(1) sin_constants simp_thms)
  have 5: "approx p5 P5 (2 powi - 61)" "\<bar>P5\<bar> \<le> 1 / 4096"
    using approx_horner [OF sq cs sin_constants(1), folded p5_def P5_def] by (simp_all add: small_powers)
  have 6: "approx (fp_fma binary64 p5 z (ratio f64 (-1) 120)) (P5 * Z + -1 / 120) (2 powi - 58)" "\<bar>P5 * Z + -1 / 120\<bar> \<le> 1 / 4096 + 1 / 120"
    using approx_fma [OF 5(1) sq(1) sin_constants(7) 5(2) sq(2), of "1 / 120" "- 6"]
    by (auto simp: small_powers elim!: approx_weaken)
  define p7 P7 where "p7 = fp_fma binary64 (fp_fma binary64 p5 z (ratio f64 (-1) 120)) z (ratio f64 1 6)"
    and "P7 = (P5 * Z + -1 / 120) * Z + 1 / 6"
  have 7: "approx p7 P7 (5 * 2 powi - 57)" "\<bar>P7\<bar> \<le> 1 / 5"
    using approx_fma [OF 6(1) sq(1) sin_constants(8) 6(2) sq(2), of "1 / 6" "- 2", folded p7_def P7_def]
    by (auto simp: small_powers elim!: approx_weaken)
  have 8: "approx (fp_mul binary64 (fp_neg p7) z) (- P7 * Z) (5 * 2 powi - 56)" "\<bar>- P7 * Z\<bar> \<le> 1 / 5"
    using approx_mul [OF approx_neg [OF 7(1)] sq(1) _ sq(2), of "1 / 5" "- 2"] 7(2)
    by (auto simp: small_powers elim!: approx_weaken)
  have "approx (fp_fma binary64 (fp_mul binary64 (fp_neg p7) z) r r) (- P7 * Z * fp_val r + fp_val r) (2 powi - 52)"
    using approx_fma [OF 8(1) approx_self [OF assms(1)] approx_self [OF assms(1)] 8(2) assms(2,2), of 1]
    by (auto simp: small_powers elim!: approx_weaken)
  moreover have "vcx_sin_poly f64 r = fp_fma binary64 (fp_mul binary64 (fp_neg p7) z) r r"
    by (simp add: vcx_sin_poly_def horner_def ops_select Let_def p7_def p5_def z_def del: fp_fma.simps fp_mul.simps)
  moreover have "vcx_sin_poly exact_ops (fp_val r) = - P7 * Z * fp_val r + fp_val r"
    by (simp add: vcx_sin_poly_def horner_def exact_ops_def ratio_def Let_def P7_def P5_def Z_def del: minus_add_distrib)
  ultimately show ?thesis by simp
qed

lemma cos_poly_rounding:
  assumes "fp_finite r" and "\<bar>fp_val r\<bar> \<le> 1"
  shows "approx (vcx_cos_poly f64 r) (vcx_cos_poly exact_ops (fp_val r)) (2 powi - 52)"
proof -
  define z Z where "z = fp_mul binary64 r r" and "Z = fp_val r * fp_val r"
  note sq = approx_square [OF assms, folded z_def Z_def]
  define p4 where "p4 = foldl (\<lambda>p c. fp_fma binary64 p z c) (ratio f64 1 20922789888000)
      [ratio f64 (-1) 87178291200, ratio f64 1 479001600, ratio f64 (-1) 3628800, ratio f64 1 40320]"
  define P4 where "P4 = foldl (\<lambda>P C. P * Z + C) (1 / 20922789888000 :: real)
      [-1 / 87178291200, 1 / 479001600, -1 / 3628800, 1 / 40320]"
  have cs: "list_all2 (\<lambda>c C. approx c C (2 powi - 65))
      [ratio f64 (-1) 87178291200, ratio f64 1 479001600, ratio f64 (-1) 3628800, ratio f64 1 40320]
      [-1 / 87178291200, 1 / 479001600, -1 / 3628800, 1 / 40320]"
    by (simp only: list.rel_inject list.rel_intros(1) cos_constants simp_thms)
  have 4: "approx p4 P4 (2 powi - 61)" "\<bar>P4\<bar> \<le> 1 / 4096"
    using approx_horner [OF sq cs cos_constants(1), folded p4_def P4_def] by (auto simp: small_powers elim!: approx_weaken)
  have 5: "approx (fp_fma binary64 p4 z (ratio f64 (-1) 720)) (P4 * Z + -1 / 720) (2 powi - 59)" "\<bar>P4 * Z + -1 / 720\<bar> \<le> 1 / 4096 + 1 / 720"
    using approx_fma [OF 4(1) sq(1) cos_constants(6) 4(2) sq(2), of "1 / 720" "- 9"]
    by (auto simp: small_powers elim!: approx_weaken)
  define p6 P6 where "p6 = fp_fma binary64 (fp_fma binary64 p4 z (ratio f64 (-1) 720)) z (ratio f64 1 24)"
    and "P6 = (P4 * Z + -1 / 720) * Z + 1 / 24"
  have 6: "approx p6 P6 (3 * 2 powi - 58)" "\<bar>P6\<bar> \<le> 1 / 4096 + 1 / 720 + 1 / 24"
    using approx_fma [OF 5(1) sq(1) cos_constants(7) 5(2) sq(2), of "1 / 24" "- 4", folded p6_def P6_def]
    by (auto simp: small_powers elim!: approx_weaken)
  have 7: "approx (fp_fma binary64 p6 z (fp_dec binary64 (-5) (-1))) (P6 * Z + -1 / 2) (5 * 2 powi - 56)" "\<bar>P6 * Z + -1 / 2\<bar> \<le> 5 / 9"
    using approx_fma [OF 6(1) sq(1) cos_constants(8) 6(2) sq(2), of "1 / 2" 0]
    by (auto simp: small_powers elim!: approx_weaken)
  have "approx (fp_fma binary64 (fp_fma binary64 p6 z (fp_dec binary64 (-5) (-1))) z (fp_dec binary64 1 0)) ((P6 * Z + -1 / 2) * Z + 1) (2 powi - 52)"
    using approx_fma [OF 7(1) sq(1) cos_constants(9) 7(2) sq(2), of 1 1]
    by (auto simp: small_powers elim!: approx_weaken)
  moreover have "vcx_cos_poly f64 r = fp_fma binary64 (fp_fma binary64 p6 z (fp_dec binary64 (-5) (-1))) z (fp_dec binary64 1 0)"
    by (simp add: vcx_cos_poly_def horner_def ops_select Let_def p6_def p4_def z_def del: fp_fma.simps fp_mul.simps)
  moreover have "vcx_cos_poly exact_ops (fp_val r) = (P6 * Z + -1 / 2) * Z + 1"
    by (simp add: vcx_cos_poly_def horner_def exact_ops_def ratio_def Let_def P6_def P4_def Z_def power_int_minus)
  ultimately show ?thesis by simp
qed

section \<open>Properties\<close>

lemma sin_cos_lipschitz: "\<bar>sin x - sin y\<bar> \<le> \<bar>x - y\<bar>" "\<bar>cos x - cos y\<bar> \<le> \<bar>x - y\<bar>" for x y :: real
proof -
  have h: "\<bar>sin ((x - y) / 2)\<bar> \<le> \<bar>x - y\<bar> / 2" using abs_sin_x_le_abs_x [of "(x - y) / 2"] by simp
  have "\<bar>sin x - sin y\<bar> = 2 * (\<bar>sin ((x - y) / 2)\<bar> * \<bar>cos ((x + y) / 2)\<bar>)" by (simp add: sin_diff_sin abs_mult)
  also have "\<dots> \<le> 2 * (\<bar>x - y\<bar> / 2 * 1)" using h by (intro mult_left_mono mult_mono) simp_all
  finally show "\<bar>sin x - sin y\<bar> \<le> \<bar>x - y\<bar>" by simp
  have "\<bar>cos x - cos y\<bar> = 2 * (\<bar>sin ((x - y) / 2)\<bar> * \<bar>sin ((x + y) / 2)\<bar>)"
    by (simp add: cos_diff_cos abs_mult) (metis abs_minus_cancel minus_diff_eq minus_divide_left sin_minus)
  also have "\<dots> \<le> 2 * (\<bar>x - y\<bar> / 2 * 1)" using h by (intro mult_left_mono mult_mono) simp_all
  finally show "\<bar>cos x - cos y\<bar> \<le> \<bar>x - y\<bar>" by simp
qed

text \<open>The polynomials against the functions; the truncation error of the sine is the smaller one.\<close>

lemma poly_accuracy:
  assumes "fp_finite r" and "\<bar>fp_val r\<bar> \<le> 1"
  shows "max \<bar>fp_val (vcx_sin_poly f64 r) - sin (fp_val r)\<bar> \<bar>fp_val (vcx_cos_poly f64 r) - cos (fp_val r)\<bar>
    \<le> 2 powi - 52 + \<bar>fp_val r\<bar> ^ 18 / fact 18"
proof -
  have "\<bar>fp_val r\<bar> ^ 19 / fact 19 \<le> \<bar>fp_val r\<bar> ^ 18 / fact 18"
    using assms(2) by (intro frac_le power_decreasing fact_mono) simp_all
  then show ?thesis
    using sin_poly_rounding [OF assms] cos_poly_rounding [OF assms] poly_truncation [of "fp_val r"] unfolding approx_def by linarith
qed

text \<open>
  C15. The accuracy of the double sine and cosine, with every rounding counted: for every finite
  x whose reduced argument r is finite and in [-1, 1], and every integer j that is the quadrant
  modulo 4, the results are within 2^-52 + |r|^18/18! + |x - (r + j*pi/2)| of the sine and the
  cosine of x: the rounding errors of the constants, products and fused operations of the Horner
  scheme add up to no more than 2^-52, the next two terms bound the error of the Taylor
  polynomials, the quadrant adds nothing, and what is left is the error of the reduction.
\<close>
theorem sin_cos_accuracy:
  assumes "vcx_sincos_reduce f64 (FFin s m e) = (r, q)" and "fp_finite r" and "\<bar>fp_val r\<bar> \<le> 1" and "j AND 3 = q"
  shows "\<bar>fp_val (vcx_sin f64 (FFin s m e)) - sin (fp_val (FFin s m e))\<bar>
      \<le> 2 powi - 52 + \<bar>fp_val r\<bar> ^ 18 / fact 18 + \<bar>fp_val (FFin s m e) - (fp_val r + real_of_int j * (pi / 2))\<bar> \<and>
    \<bar>fp_val (vcx_cos f64 (FFin s m e)) - cos (fp_val (FFin s m e))\<bar>
      \<le> 2 powi - 52 + \<bar>fp_val r\<bar> ^ 18 / fact 18 + \<bar>fp_val (FFin s m e) - (fp_val r + real_of_int j * (pi / 2))\<bar>"
proof -
  define y where "y = fp_val r + real_of_int j * (pi / 2)"
  define x where "x = fp_val (FFin s m e)"
  have "\<bar>fp_val (vcx_sin f64 (FFin s m e)) - sin y\<bar> \<le> 2 powi - 52 + \<bar>fp_val r\<bar> ^ 18 / fact 18"
      "\<bar>fp_val (vcx_cos f64 (FFin s m e)) - cos y\<bar> \<le> 2 powi - 52 + \<bar>fp_val r\<bar> ^ 18 / fact 18"
    using sin_cos_quadrant_double [OF assms(1,4), of "fp_val r"] poly_accuracy [OF assms(2,3)] unfolding y_def by linarith+
  moreover have "\<bar>sin x - sin y\<bar> \<le> \<bar>x - y\<bar>" "\<bar>cos x - cos y\<bar> \<le> \<bar>x - y\<bar>" by (rule sin_cos_lipschitz)+
  ultimately show ?thesis unfolding x_def [symmetric] y_def [symmetric] by linarith
qed

theorem sin_cos_accuracy_witness:
  "vcx_sincos_reduce f64 (FFin False 4503599627370496 (-51)) = (FFin False 7731846010850207 (-54), 1) \<and>
   \<bar>fp_val (vcx_sin f64 (FFin False 4503599627370496 (-51))) - sin 2\<bar>
     \<le> 2 powi - 52 + \<bar>7731846010850207 * 2 powi - 54\<bar> ^ 18 / fact 18 + \<bar>2 - (7731846010850207 * 2 powi - 54 + pi / 2)\<bar>"
proof -
  have r: "vcx_sincos_reduce f64 (FFin False 4503599627370496 (-51)) = (FFin False 7731846010850207 (-54), 1)"
    by (simp add: fp_simps vcx_sincos_reduce_def cong: let_weak_cong)
  have v: "fp_val (FFin False 4503599627370496 (-51)) = 2" "fp_val (FFin False 7731846010850207 (-54)) = 7731846010850207 * 2 powi - 54"
    by (simp_all add: smant_def power_int_def power_one_over)
  have "\<bar>fp_val (FFin False 7731846010850207 (-54))\<bar> \<le> 1" by (simp add: smant_def power_int_def power_one_over)
  with r sin_cos_accuracy [OF r _ this, of 1] show ?thesis unfolding v by simp
qed

end
