(* ===== verification/DeviceWarp.thy ===== *)
theory DeviceWarp
  imports Prelude
begin

text \<open>
  The warp primitives of include/cuda/__vcx_cuda_warp.h and of
  include/hip/__vcx_hip_runtime_wrapper.h: the lane arithmetic of the shuffles, the
  shuffles of 32- and 64-bit values, the votes and the bit-counting intrinsics. What
  the hardware does between lanes (\<open>__nvvm_shfl_sync_idx_i32\<close>,
  \<open>__builtin_amdgcn_ds_bpermute\<close>, \<open>__builtin_amdgcn_uicmp\<close>) is a parameter, with
  its documented law as a hypothesis. A value every lane holds is a function from
  lanes.
\<close>

section \<open>The lane a shuffle reads from\<close>

definition shfl_idx_lane :: "u32 \<Rightarrow> u32 \<Rightarrow> u32 \<Rightarrow> u32" where
  "shfl_idx_lane lane srcLane width =
     (lane AND NOT (width - 1)) OR (srcLane AND (width - 1))"

definition shfl_up_lane :: "u32 \<Rightarrow> u32 \<Rightarrow> u32 \<Rightarrow> u32" where
  "shfl_up_lane lane delta width =
     (let base = lane AND NOT (width - 1)
      in if lane - delta < base \<or> lane < delta then lane else lane - delta)"

definition shfl_down_lane :: "u32 \<Rightarrow> u32 \<Rightarrow> u32 \<Rightarrow> u32" where
  "shfl_down_lane lane delta width =
     (let top = lane OR (width - 1)
      in if top < lane + delta then lane else lane + delta)"

definition shfl_xor_lane :: "u32 \<Rightarrow> u32 \<Rightarrow> u32 \<Rightarrow> u32" where
  "shfl_xor_lane lane laneMask width =
     (let j = lane XOR laneMask in if (lane OR (width - 1)) < j then lane else j)"

section \<open>CUDA shuffles\<close>

text \<open>
  \<open>shfl mask vals j c\<close> is \<open>__nvvm_shfl_sync_idx_i32(mask, val, j, c)\<close> where lane l
  passed \<open>vals l\<close>; the macro's conversions are the casts in and out of int.
\<close>

type_synonym shfl_builtin = "u32 \<Rightarrow> (u32 \<Rightarrow> u32) \<Rightarrow> u32 \<Rightarrow> u32 \<Rightarrow> u32"

definition shfl_int :: "shfl_builtin \<Rightarrow> ('t \<Rightarrow> u32) \<Rightarrow> (u32 \<Rightarrow> 't) \<Rightarrow> u32 \<Rightarrow> (u32 \<Rightarrow> 't) \<Rightarrow> u32 \<Rightarrow> 't" where
  "shfl_int shfl conv_in conv_out wmask var j = conv_out (shfl wmask (\<lambda>l. conv_in (var l)) j 0x1f)"

definition shfl_sync where
  "shfl_sync shfl ci co wmask var lane srcLane width =
     shfl_int shfl ci co wmask var (shfl_idx_lane lane srcLane width)"

definition shfl_up_sync where
  "shfl_up_sync shfl ci co wmask var lane delta width =
     shfl_int shfl ci co wmask var (shfl_up_lane lane delta width)"

definition shfl_down_sync where
  "shfl_down_sync shfl ci co wmask var lane delta width =
     shfl_int shfl ci co wmask var (shfl_down_lane lane delta width)"

definition shfl_xor_sync where
  "shfl_xor_sync shfl ci co wmask var lane laneMask width =
     shfl_int shfl ci co wmask var (shfl_xor_lane lane laneMask width)"

text \<open>A 64-bit value moves as two halves.\<close>

definition shfl_64 :: "shfl_builtin \<Rightarrow> ('t \<Rightarrow> u64) \<Rightarrow> (u64 \<Rightarrow> 't) \<Rightarrow> u32 \<Rightarrow> (u32 \<Rightarrow> 't) \<Rightarrow> u32 \<Rightarrow> 't" where
  "shfl_64 shfl conv_in conv_out wmask var j =
     (let lo = shfl wmask (\<lambda>l. ucast (conv_in (var l))) j 0x1f;
          hi = shfl wmask (\<lambda>l. ucast (drop_bit 32 (conv_in (var l)))) j 0x1f
      in conv_out (push_bit 32 (ucast hi) OR ucast lo))"

section \<open>HIP shuffles and votes\<close>

text \<open>\<open>bperm addr vals\<close> is \<open>__builtin_amdgcn_ds_bpermute(addr, val)\<close>.\<close>

type_synonym bpermute_builtin = "u32 \<Rightarrow> (u32 \<Rightarrow> u32) \<Rightarrow> u32"

definition hip_shfl :: "bpermute_builtin \<Rightarrow> (u32 \<Rightarrow> u32) \<Rightarrow> u32 \<Rightarrow> u32 \<Rightarrow> u32 \<Rightarrow> u32" where
  "hip_shfl bperm var lane srcLane width =
     (let j = (lane AND NOT (width - 1)) OR (srcLane AND (width - 1))
      in bperm (push_bit 2 j) var)"

definition hip_shfl_up :: "bpermute_builtin \<Rightarrow> (u32 \<Rightarrow> u32) \<Rightarrow> u32 \<Rightarrow> u32 \<Rightarrow> u32 \<Rightarrow> u32" where
  "hip_shfl_up bperm var lane delta width =
     (let base = lane AND NOT (width - 1);
          j = (if lane - delta < base \<or> lane < delta then lane else lane - delta)
      in bperm (push_bit 2 j) var)"

definition hip_shfl_down :: "bpermute_builtin \<Rightarrow> (u32 \<Rightarrow> u32) \<Rightarrow> u32 \<Rightarrow> u32 \<Rightarrow> u32 \<Rightarrow> u32" where
  "hip_shfl_down bperm var lane delta width =
     (let top = lane OR (width - 1);
          j = (if top < lane + delta then lane else lane + delta)
      in bperm (push_bit 2 j) var)"

definition hip_shfl_xor :: "bpermute_builtin \<Rightarrow> (u32 \<Rightarrow> u32) \<Rightarrow> u32 \<Rightarrow> u32 \<Rightarrow> u32 \<Rightarrow> u32" where
  "hip_shfl_xor bperm var lane laneMask width =
     (let j = lane XOR laneMask;
          j = (if (lane OR (width - 1)) < j then lane else j)
      in bperm (push_bit 2 j) var)"

text \<open>
  The float forms move the bits of the value through a union; \<open>bits\<close> and
  \<open>of_bits\<close> are its two views.
\<close>

definition hip_shfl_float where
  "hip_shfl_float bits of_bits bperm var lane srcLane width =
     of_bits (hip_shfl bperm (\<lambda>l. bits (var l)) lane srcLane width)"

definition hip_shfl_down_float where
  "hip_shfl_down_float bits of_bits bperm var lane delta width =
     of_bits (hip_shfl_down bperm (\<lambda>l. bits (var l)) lane delta width)"

definition hip_shfl_xor_float where
  "hip_shfl_xor_float bits of_bits bperm var lane laneMask width =
     of_bits (hip_shfl_xor bperm (\<lambda>l. bits (var l)) lane laneMask width)"

text \<open>
  \<open>uicmp preds b p\<close> is \<open>__builtin_amdgcn_uicmp(pred, b, p)\<close>, the mask of the active
  lanes where the comparison holds; predicate 33 is "not equal".
\<close>

type_synonym uicmp_builtin = "(nat \<Rightarrow> u32) \<Rightarrow> u32 \<Rightarrow> u32 \<Rightarrow> u64"

definition hip_ballot :: "uicmp_builtin \<Rightarrow> (nat \<Rightarrow> u32) \<Rightarrow> u64" where
  "hip_ballot uicmp pred = uicmp pred 0 33"

definition hip_all :: "uicmp_builtin \<Rightarrow> u64 \<Rightarrow> (nat \<Rightarrow> u32) \<Rightarrow> bool" where
  "hip_all uicmp exec pred \<longleftrightarrow> uicmp pred 0 33 = exec"

definition hip_any :: "uicmp_builtin \<Rightarrow> (nat \<Rightarrow> u32) \<Rightarrow> bool" where
  "hip_any uicmp pred \<longleftrightarrow> uicmp pred 0 33 \<noteq> 0"

section \<open>Counting bits\<close>

text \<open>The compiler's bit-counting builtins; clz and ctz are undefined at 0.\<close>

definition builtin_popcount :: "'w::len word \<Rightarrow> nat" where
  "builtin_popcount x = length (filter (bit x) [0..<LENGTH('w)])"

definition builtin_clz :: "'w::len word \<Rightarrow> nat" where
  "builtin_clz x = length (takeWhile (\<lambda>i. \<not> bit x i) (rev [0..<LENGTH('w)]))"

definition builtin_ctz :: "'w::len word \<Rightarrow> nat" where
  "builtin_ctz x = length (takeWhile (\<lambda>i. \<not> bit x i) [0..<LENGTH('w)])"

definition popc :: "u32 \<Rightarrow> nat" where "popc x = builtin_popcount x"
definition popcll :: "u64 \<Rightarrow> nat" where "popcll x = builtin_popcount x"
definition clz :: "u32 \<Rightarrow> nat" where "clz x = (if x = 0 then 32 else builtin_clz x)"
definition clzll :: "u64 \<Rightarrow> nat" where "clzll x = (if x = 0 then 64 else builtin_clz x)"
definition ffs :: "u32 \<Rightarrow> nat" where "ffs x = (if x = 0 then 0 else builtin_ctz x + 1)"
definition ffsll :: "u64 \<Rightarrow> nat" where "ffsll x = (if x = 0 then 0 else builtin_ctz x + 1)"

section \<open>The lane arithmetic against its specification\<close>

text \<open>
  The specification, on natural numbers: lanes fall into segments of w; idx names a lane
  of the reader's segment, up and down move within it and stay put where they would leave it,
  and xor stays put where it would reach a later segment; it may reach an earlier one.
\<close>

definition spec_idx :: "nat \<Rightarrow> nat \<Rightarrow> nat \<Rightarrow> nat" where
  "spec_idx w l s = l div w * w + s mod w"

definition spec_up :: "nat \<Rightarrow> nat \<Rightarrow> nat \<Rightarrow> nat" where
  "spec_up w l d = (if d \<le> l mod w then l - d else l)"

definition spec_down :: "nat \<Rightarrow> nat \<Rightarrow> nat \<Rightarrow> nat" where
  "spec_down w l d = (if l mod w + d < w then l + d else l)"

definition spec_xor :: "nat \<Rightarrow> nat \<Rightarrow> nat \<Rightarrow> nat" where
  "spec_xor w l m = (if (l XOR m) div w \<le> l div w then l XOR m else l)"

lemma spec_lanes_bound:
  assumes "l < n" and "w dvd n" and "0 < w"
  shows "spec_idx w l s < n" and "spec_up w l d < n" and "spec_down w l d < n"
proof -
  show "spec_idx w l s < n" using segment_bound [OF assms(1,2)] assms(3) by (simp add: spec_idx_def)
  show "spec_up w l d < n" using assms(1) by (auto simp: spec_up_def)
  show "spec_down w l d < n"
  proof (cases "l mod w + d < w")
    case True
    with segment_bound [OF assms(1,2) True] show ?thesis
      using div_mult_mod_eq [of l w] by (simp add: spec_down_def)
  qed (use assms(1) in \<open>simp add: spec_down_def\<close>)
qed

lemma shfl_idx_lane_spec:
  assumes "k < 32"
  shows "unat (shfl_idx_lane lane src (2 ^ k)) = spec_idx (2 ^ k) (unat lane) (unat src)"
  using assms by (simp add: shfl_idx_lane_def spec_idx_def word_mask_simps)

lemma mod_le_iff_seg: "(d :: nat) \<le> l \<Longrightarrow> l div w * w \<le> l - d \<longleftrightarrow> d \<le> l mod w"
  using div_mult_mod_eq [of l w] by linarith

lemma shfl_up_lane_spec:
  "unat (shfl_up_lane lane delta (2 ^ k)) =
     spec_up (2 ^ k) (unat lane) (unat delta)"
proof (cases "lane < delta")
  case True
  then have "unat lane mod 2 ^ k < unat delta"
    by (metis less_le_trans mod_less_eq_dividend not_le word_less_nat_alt order_le_less_trans)
  with True show ?thesis by (simp add: spec_up_def shfl_up_lane_def Let_def)
next
  case False
  then have le: "unat delta \<le> unat lane" and sub: "unat (lane - delta) = unat lane - unat delta"
    by (simp_all add: word_le_nat_alt not_less unat_sub)
  show ?thesis using False le
    by (simp add: spec_up_def shfl_up_lane_def Let_def word_mask_simps word_less_nat_alt sub not_less mod_le_iff_seg
        flip: not_le)
qed

lemma shfl_down_lane_spec:
  assumes "k < 32" and "unat lane + unat delta < 2 ^ 32"
  shows "unat (shfl_down_lane lane delta (2 ^ k)) =
     spec_down (2 ^ k) (unat lane) (unat delta)"
proof -
  have add: "unat (lane + delta) = unat lane + unat delta"
    using assms(2) by (simp add: unat_word_ariths)
  have "unat lane div 2 ^ k * 2 ^ k + (2 ^ k - 1) < unat lane + unat delta \<longleftrightarrow>
        \<not> unat lane mod 2 ^ k + unat delta < 2 ^ k"
    using div_mult_mod_eq [of "unat lane" "2 ^ k"] zero_less_power [of "2 :: nat" k] by linarith
  then show ?thesis
    using assms(1) by (simp add: spec_down_def shfl_down_lane_def Let_def width_mask word_less_nat_alt add unat_or_mask)
qed

lemma above_segment: "0 < w \<Longrightarrow> (l :: nat) div w * w + (w - 1) < j \<longleftrightarrow> l div w < j div w"
proof -
  assume "0 < w"
  then have "l div w + 1 \<le> j div w \<longleftrightarrow> (l div w + 1) * w \<le> j" by (rule less_eq_div_iff_mult_less_eq)
  with \<open>0 < w\<close> show ?thesis by auto
qed

lemma shfl_xor_lane_spec:
  assumes "k < 32"
  shows "unat (shfl_xor_lane lane laneMask (2 ^ k)) = spec_xor (2 ^ k) (unat lane) (unat laneMask)"
proof -
  have x: "unat (lane XOR laneMask) = unat lane XOR unat laneMask" by (simp add: unsigned_xor_eq)
  have "lane OR (2 ^ k - 1) < lane XOR laneMask \<longleftrightarrow> unat lane div 2 ^ k < (unat lane XOR unat laneMask) div 2 ^ k"
    using assms above_segment [of "2 ^ k" "unat lane" "unat lane XOR unat laneMask"]
    by (simp add: word_less_nat_alt width_mask unat_or_mask x)
  then show ?thesis by (simp add: shfl_xor_lane_def spec_xor_def Let_def x not_less)
qed

text \<open>Masks below the width stay in the segment.\<close>

lemma spec_xor_segment:
  assumes "m < 2 ^ k"
  shows "spec_xor (2 ^ k) l m = l XOR m" and "(l XOR m) div 2 ^ k = l div 2 ^ k"
proof -
  have "drop_bit k m = 0" using assms by (simp add: drop_bit_eq_div)
  then have "drop_bit k (l XOR m) = drop_bit k l" by (simp add: drop_bit_xor)
  then show "spec_xor (2 ^ k) l m = l XOR m" "(l XOR m) div 2 ^ k = l div 2 ^ k"
    by (simp_all add: spec_xor_def drop_bit_eq_div)
qed



section \<open>What a shuffle returns\<close>

text \<open>The documented behaviour of the builtins.\<close>

definition shfl_idx_law :: "shfl_builtin \<Rightarrow> bool" where
  "shfl_idx_law shfl \<longleftrightarrow> (\<forall>wmask vals j. j < 32 \<longrightarrow> shfl wmask vals j 0x1f = vals j)"

definition bpermute_law :: "nat \<Rightarrow> bpermute_builtin \<Rightarrow> bool" where
  "bpermute_law ws bperm \<longleftrightarrow>
     (\<forall>addr vals. bperm addr vals = vals (of_nat (unat (drop_bit 2 addr) mod ws)))"

definition uicmp_ne_law :: "u64 \<Rightarrow> uicmp_builtin \<Rightarrow> bool" where
  "uicmp_ne_law exec uicmp \<longleftrightarrow>
     (\<forall>pred n. bit (uicmp pred 0 33) n \<longleftrightarrow> bit exec n \<and> pred n \<noteq> 0)"

lemma pow2_dvd_wave: "k \<le> j \<Longrightarrow> (2 :: nat) ^ k dvd 2 ^ j"
  by (rule le_imp_power_dvd)

lemma shfl_int_lane:
  assumes "shfl_idx_law shfl" and "\<And>x. co (ci x) = x" and "unat j = n" and "n < 32"
  shows "shfl_int shfl ci co wmask var j = var (of_nat n)"
proof -
  have "j < 32" using assms(3,4) by (simp add: word_less_nat_alt)
  with assms show ?thesis by (auto simp: shfl_int_def shfl_idx_law_def)
qed

lemma shfl_down_lane_wrapped:
  assumes "k < 32" and "2 ^ 32 \<le> unat lane + unat delta"
  shows "unat (shfl_down_lane lane delta (2 ^ k)) = unat lane + unat delta - 2 ^ 32"
    and "unat lane + unat delta - 2 ^ 32 < unat lane" and "spec_down (2 ^ k) (unat lane) (unat delta) = unat lane"
proof -
  have d: "unat delta < 2 ^ 32" and l: "unat lane < 2 ^ 32" using unsigned_less [of delta] unsigned_less [of lane] by simp_all
  then show less: "unat lane + unat delta - 2 ^ 32 < unat lane" using assms(2) by linarith
  have "(unat lane + unat delta) mod 2 ^ 32 = unat lane + unat delta - 2 ^ 32"
    using d l assms(2) by (simp add: mod_if)
  then have add: "unat (lane + delta) = unat lane + unat delta - 2 ^ 32" by (simp add: unat_word_ariths)
  have "unat lane mod 2 ^ k < 2 ^ k" by simp
  then have "unat lane \<le> unat lane div 2 ^ k * 2 ^ k + (2 ^ k - 1)" using div_mult_mod_eq [of "unat lane" "2 ^ k"] by linarith
  then have "unat lane \<le> unat (lane OR (2 ^ k - 1))" 
    using assms(1) unat_or_mask [of k lane] by (simp add: width_mask)
  with add less show "unat (shfl_down_lane lane delta (2 ^ k)) = unat lane + unat delta - 2 ^ 32"
    by (simp add: shfl_down_lane_def Let_def word_less_nat_alt)
  have "unat lane div 2 ^ k < 2 ^ (32 - k)" using l assms(1) by (simp add: less_mult_imp_div_less flip: power_add)
  then have "(unat lane div 2 ^ k + 1) * 2 ^ k \<le> 2 ^ (32 - k) * 2 ^ k" by (intro mult_right_mono) simp_all
  then have "unat lane div 2 ^ k * 2 ^ k + 2 ^ k \<le> 2 ^ 32" using assms(1) by (simp flip: power_add)
  then show "spec_down (2 ^ k) (unat lane) (unat delta) = unat lane"
    using assms(2) div_mult_mod_eq [of "unat lane" "2 ^ k"] by (auto simp: spec_down_def)
qed

text \<open>
  C16. The comment says down reads its own value where the delta leaves the segment. With every
  delta for which lane + delta wraps around 2^32 the delta leaves the segment, of any width, but
  the wrapped sum passes the test against the top of the segment: the shuffle returns the value of
  the lower lane lane + delta - 2^32 in place of its own. Every lower lane of the warp, those of
  the other segments included, is read so by some delta.
\<close>
theorem shfl_down_wraps:
  assumes "shfl_idx_law shfl" and "\<forall>x. co (ci x) = x" and "k \<le> 5" and "unat lane < 32"
  shows "(2 ^ 32 \<le> unat lane + unat delta \<longrightarrow>
      spec_down (2 ^ k) (unat lane) (unat delta) = unat lane \<and> unat lane + unat delta - 2 ^ 32 < unat lane \<and>
      shfl_down_sync shfl ci co wmask var lane delta (2 ^ k) = var (of_nat (unat lane + unat delta - 2 ^ 32))) \<and>
    (\<forall>low<unat lane. \<exists>delta. spec_down (2 ^ k) (unat lane) (unat delta) = unat lane \<and>
      shfl_down_sync shfl ci co wmask var lane delta (2 ^ k) = var (of_nat low))"
proof -
  have wrap: "spec_down (2 ^ k) (unat lane) (unat delta) = unat lane \<and> unat lane + unat delta - 2 ^ 32 < unat lane \<and>
      shfl_down_sync shfl ci co wmask var lane delta (2 ^ k) = var (of_nat (unat lane + unat delta - 2 ^ 32))"
    if "2 ^ 32 \<le> unat lane + unat delta" for delta
  proof -
    have k: "k < 32" using assms(3) by simp
    note w = shfl_down_lane_wrapped [OF k that]
    have "co (ci x) = x" for x using assms(2) by blast
    then have "shfl_down_sync shfl ci co wmask var lane delta (2 ^ k) = var (of_nat (unat lane + unat delta - 2 ^ 32))"
      unfolding shfl_down_sync_def by (rule shfl_int_lane [OF assms(1) _ w(1)]) (use w(2) assms(4) in linarith)
    with w show ?thesis by blast
  qed
  moreover have "\<exists>delta. spec_down (2 ^ k) (unat lane) (unat delta) = unat lane \<and>
      shfl_down_sync shfl ci co wmask var lane delta (2 ^ k) = var (of_nat low)" if low: "low < unat lane" for low
  proof -
    define delta :: u32 where "delta = of_nat (2 ^ 32 + low - unat lane)"
    have "unat delta = 2 ^ 32 + low - unat lane" using low by (simp add: delta_def unsigned_of_nat take_bit_nat_eq_self)
    then have "unat lane + unat delta = 2 ^ 32 + low" using assms(4) by simp
    with wrap [of delta] show ?thesis by (intro exI [of _ delta]) simp
  qed
  ultimately show ?thesis by blast
qed

theorem shfl_down_wraps_witness:
  "shfl_down_sync (\<lambda>wmask vals j c. vals j) id id 0xffffffff (\<lambda>l. l * l) 5 0xffffffff (2 ^ 5) = 16 \<and>
   spec_down (2 ^ 5) 5 (unat (0xffffffff :: u32)) = 5"
proof -
  have "shfl_idx_law (\<lambda>wmask vals j c. vals j)" by (simp add: shfl_idx_law_def)
  from shfl_down_wraps [OF this, where co = id and ci = id and k = 5 and lane = 5 and delta = "0xffffffff"
      and wmask = "0xffffffff" and var = "\<lambda>l. l * l"]
  show ?thesis by simp
qed

text \<open>
  A CUDA shuffle of a 32-bit value returns, bit for bit, what the specified lane
  passed, for every width from 1 to 32 and every lane of the warp; the conversions of
  the macro only have to be inverse to each other.
\<close>

theorem shfl_sync_refines:
  assumes law: "shfl_idx_law shfl" and conv: "\<And>x. co (ci x) = x" and k: "k \<le> 5" and l: "unat lane < 32"
    and d: "unat delta < 2 ^ 31"
  shows "shfl_sync shfl ci co wmask var lane src (2 ^ k)
           = var (of_nat (spec_idx (2 ^ k) (unat lane) (unat src)))
     \<and> shfl_up_sync shfl ci co wmask var lane delta (2 ^ k)
           = var (of_nat (spec_up (2 ^ k) (unat lane) (unat delta)))
     \<and> shfl_down_sync shfl ci co wmask var lane delta (2 ^ k)
           = var (of_nat (spec_down (2 ^ k) (unat lane) (unat delta)))"
proof -
  have "(2 :: nat) ^ k dvd 32" using pow2_dvd_wave [OF k] by simp
  note bnd = spec_lanes_bound [OF l this]
  have nowrap: "unat lane + unat delta < 2 ^ 32" using l d by simp
  show ?thesis
    unfolding shfl_sync_def shfl_up_sync_def shfl_down_sync_def
    using k nowrap bnd
    by (simp add: shfl_int_lane [OF law conv] shfl_idx_lane_spec shfl_up_lane_spec shfl_down_lane_spec)
qed

theorem shfl_sync_refines_witness:
  "shfl_up_sync (\<lambda>wmask vals j c. vals j) id id 0xffffffff (\<lambda>l. l * l) 6 2 (2 ^ 2) = 16"
proof -
  have "shfl_idx_law (\<lambda>wmask vals j c. vals j)" by (simp add: shfl_idx_law_def)
  from shfl_sync_refines [OF this, of id id 2 6 2 _ "\<lambda>l. l * l" 0]
  show ?thesis by (simp add: spec_up_def)
qed

text \<open>
  A 64-bit shuffle moves two halves and puts the same 64-bit value together again.
\<close>

theorem shfl_64_value:
  assumes "shfl_idx_law shfl" and "j < 32" and "\<And>x. co (ci x) = x"
  shows "shfl_64 shfl ci co wmask var j = var j"
proof -
  have "push_bit 32 (ucast (ucast (drop_bit 32 v) :: u32) :: u64) OR ucast (ucast v :: u32) = v" for v :: u64
    by (rule bit_word_eqI) (auto simp: bit_simps)
  with assms show ?thesis by (simp add: shfl_64_def shfl_idx_law_def Let_def)
qed

theorem shfl_64_value_witness:
  "shfl_64 (\<lambda>wmask vals j c. vals j) id id 0 (\<lambda>l. 0x123456789abcdef0 + ucast l) 7 = 0x123456789abcdef7"
  using shfl_64_value [of "\<lambda>wmask vals j c. vals j" 7 id id 0 "\<lambda>l. 0x123456789abcdef0 + ucast l"]
  by (simp add: shfl_idx_law_def)

lemma hip_shuffles_same_lane:
  "hip_shfl bperm var lane s w = bperm (push_bit 2 (shfl_idx_lane lane s w)) var"
  "hip_shfl_up bperm var lane d w = bperm (push_bit 2 (shfl_up_lane lane d w)) var"
  "hip_shfl_down bperm var lane d w = bperm (push_bit 2 (shfl_down_lane lane d w)) var"
  "hip_shfl_xor bperm var lane d w = bperm (push_bit 2 (shfl_xor_lane lane d w)) var"
  by (simp_all add: hip_shfl_def shfl_idx_lane_def hip_shfl_up_def shfl_up_lane_def
      hip_shfl_down_def shfl_down_lane_def hip_shfl_xor_def shfl_xor_lane_def Let_def)

lemma bpermute_lane:
  assumes "bpermute_law ws bperm" and "unat j < ws" and "ws \<le> 2 ^ 30"
  shows "bperm (push_bit 2 j) var = var (of_nat (unat j))"
proof -
  have "unat (push_bit 2 j) = 4 * unat j"
    using assms by (simp add: push_bit_eq_mult unat_word_ariths)
  then have "unat (drop_bit 2 (push_bit 2 j)) = unat j"
    by (simp add: drop_bit_eq_div unat_div)
  with assms show ?thesis by (simp add: bpermute_law_def)
qed

text \<open>
  A HIP shuffle on a wavefront of 32 or 64 lanes returns what the specified lane holds:
  the byte address j << 2 handed to bpermute names the lane the CUDA arithmetic names.
\<close>

theorem hip_shfl_refines:
  assumes law: "bpermute_law (2 ^ n) bperm" and n: "n \<le> 6" and k: "k \<le> n"
    and l: "unat lane < 2 ^ n" and d: "unat delta < 2 ^ 31"
  shows "hip_shfl bperm var lane src (2 ^ k) = var (of_nat (spec_idx (2 ^ k) (unat lane) (unat src)))
     \<and> hip_shfl_up bperm var lane delta (2 ^ k) = var (of_nat (spec_up (2 ^ k) (unat lane) (unat delta)))
     \<and> hip_shfl_down bperm var lane delta (2 ^ k) = var (of_nat (spec_down (2 ^ k) (unat lane) (unat delta)))"
proof -
  note bnd = spec_lanes_bound [OF l pow2_dvd_wave [OF k]]
  have ws: "(2 :: nat) ^ n \<le> 2 ^ 6" using n by (rule power_increasing) simp
  then have nowrap: "unat lane + unat delta < 2 ^ 32" using l d by simp
  have ws': "(2 :: nat) ^ n \<le> 2 ^ 30" using ws by simp
  show ?thesis
    unfolding hip_shuffles_same_lane using n k nowrap bnd
    by (simp add: bpermute_lane [OF law _ ws'] shfl_idx_lane_spec shfl_up_lane_spec shfl_down_lane_spec)
qed

theorem hip_shfl_refines_witness:
  "hip_shfl_down (\<lambda>addr vals. vals (of_nat (unat (drop_bit 2 addr) mod 2 ^ 6))) (\<lambda>l. l + 100) 40 5 (2 ^ 4) = 145"
proof -
  have "bpermute_law (2 ^ 6) (\<lambda>addr vals. vals (of_nat (unat (drop_bit 2 addr) mod 2 ^ 6)))"
    by (simp add: bpermute_law_def)
  from hip_shfl_refines [OF this, of 4 40 5 "\<lambda>l. l + 100" 0]
  show ?thesis by (simp add: spec_down_def)
qed

text \<open>
  The HIP votes: all holds exactly when every active lane's predicate is nonzero, any
  exactly when some active lane's is.
\<close>

theorem hip_votes:
  assumes "uicmp_ne_law exec uicmp"
  shows "(hip_all uicmp exec pred \<longleftrightarrow> (\<forall>n<64. bit exec n \<longrightarrow> pred n \<noteq> 0)) \<and>
         (hip_any uicmp pred \<longleftrightarrow> (\<exists>n<64. bit exec n \<and> pred n \<noteq> 0))"
  using assms
  by (auto simp: hip_all_def hip_any_def uicmp_ne_law_def bit_eq_iff dest: bit_imp_le_length)

theorem hip_votes_witness:
  "hip_all (\<lambda>pred b p. 0x5 AND horner_sum of_bool 2 (map (\<lambda>n. pred n \<noteq> b) [0..<64])) 0x5 (\<lambda>n. of_nat (2 - n))
     = False \<and>
   hip_any (\<lambda>pred b p. 0x5 AND horner_sum of_bool 2 (map (\<lambda>n. pred n \<noteq> b) [0..<64])) (\<lambda>n. of_nat (2 - n))"
proof -
  have "uicmp_ne_law 0x5 (\<lambda>pred b p. 0x5 AND horner_sum of_bool 2 (map (\<lambda>n. pred n \<noteq> b) [0..<64]))"
    by (auto simp: uicmp_ne_law_def bit_and_iff bit_horner_sum_bit_word_iff dest: bit_imp_le_length)
  note votes = hip_votes [OF this, of "\<lambda>n. of_nat (2 - n)"]
  have "bit (0x5 :: u64) 0" "bit (0x5 :: u64) 2" by simp_all
  then have "\<not> (\<forall>n<64. bit (0x5 :: u64) n \<longrightarrow> (of_nat (2 - n) :: u32) \<noteq> 0)"
    and "\<exists>n<64. bit (0x5 :: u64) n \<and> (of_nat (2 - n) :: u32) \<noteq> 0"
    by (force intro: exI [of _ 0] dest: spec [of _ 2])+
  with votes show ?thesis by simp
qed

section \<open>Counting bits\<close>

lemma bit_exists: "x \<noteq> 0 \<Longrightarrow> \<exists>i<LENGTH('w). bit (x :: 'w::len word) i"
  by (metis bit_0_eq bit_word_eqI bot_apply bot_bool_def)

lemma builtin_ctz_spec:
  fixes x :: "'w::len word"
  assumes "x \<noteq> 0"
  shows "builtin_ctz x < LENGTH('w)" and "bit x (builtin_ctz x)" and "i < builtin_ctz x \<Longrightarrow> \<not> bit x i"
  using takeWhile_upt_first [OF bit_exists [OF assms]] by (simp_all add: builtin_ctz_def)

lemma builtin_clz_ctz:
  "builtin_clz (x :: 'w::len word) =
     length (takeWhile (\<lambda>i. \<not> bit x (LENGTH('w) - 1 - i)) [0..<LENGTH('w)])"
proof -
  have "rev [0..<LENGTH('w)] = map (\<lambda>i. LENGTH('w) - 1 - i) [0..<LENGTH('w)]"
    by (rule nth_equalityI) (simp_all add: rev_nth)
  then show ?thesis by (simp add: builtin_clz_def takeWhile_map comp_def)
qed

lemma builtin_clz_spec:
  fixes x :: "'w::len word"
  assumes "x \<noteq> 0"
  shows "builtin_clz x < LENGTH('w)" and "bit x (LENGTH('w) - 1 - builtin_clz x)"
    and "LENGTH('w) - 1 - builtin_clz x < i \<Longrightarrow> \<not> bit x i"
proof -
  have "\<exists>i<LENGTH('w). bit x (LENGTH('w) - 1 - i)"
    using bit_exists [OF assms] by (metis Suc_pred' diff_Suc_1 diff_diff_cancel diff_less_Suc len_gt_0 less_Suc_eq_le)
  note first = takeWhile_upt_first [OF this, folded builtin_clz_ctz]
  show "builtin_clz x < LENGTH('w)" and "bit x (LENGTH('w) - 1 - builtin_clz x)" by (rule first)+
  assume i: "LENGTH('w) - 1 - builtin_clz x < i"
  show "\<not> bit x i"
  proof (cases "i < LENGTH('w)")
    case True
    with i have "LENGTH('w) - 1 - i < builtin_clz x" by linarith
    from first(3) [OF this] True show ?thesis by simp
  qed (auto dest: bit_imp_le_length)
qed

lemma builtin_popcount_card: "builtin_popcount (x :: 'w::len word) = card {i. bit x i}"
proof -
  have "builtin_popcount x = card (set (filter (bit x) [0..<LENGTH('w)]))"
    by (simp add: builtin_popcount_def distinct_card del: set_filter)
  also have "set (filter (bit x) [0..<LENGTH('w)]) = {i. bit x i}"
    by (auto dest: bit_imp_le_length)
  finally show ?thesis .
qed

text \<open>
  The bit-counting intrinsics: clz is 32 exactly at 0 and otherwise leaves the highest set bit
  at 31 - clz with nothing above it; ffs is 0 exactly at 0 and otherwise one more than the
  position of the lowest set bit; popc is the number of set bits.
\<close>

theorem bit_counts:
  "(if x = 0 then clz x = 32 \<and> ffs x = 0
    else clz x < 32 \<and> bit x (31 - clz x) \<and> Max {i. bit x i} = 31 - clz x \<and>
         0 < ffs x \<and> ffs x \<le> 32 \<and> Min {i. bit x i} = ffs x - 1) \<and>
   popc x = card {i. bit x i}"
proof (cases "x = 0")
  case False
  note ctz = builtin_ctz_spec [OF False] and lz = builtin_clz_spec [OF False]
  have fin: "finite {i. bit x i}"
    by (rule finite_subset [of _ "{..<32}"]) (auto dest: bit_imp_le_length)
  have "Max {i. bit x i} = 31 - builtin_clz x"
    using lz by (intro Max_eqI fin) (auto simp: not_less [symmetric])
  moreover have "Min {i. bit x i} = builtin_ctz x"
    using ctz by (intro Min_eqI fin) (auto simp: not_less [symmetric])
  ultimately show ?thesis
    using False ctz lz by (simp add: clz_def ffs_def popc_def builtin_popcount_card)
qed (simp add: clz_def ffs_def popc_def builtin_popcount_card)

end
