(* ===== verification/DeviceAtomics.thy ===== *)
theory DeviceAtomics
  imports Prelude
begin

text \<open>
  The device atomics of include/cuda/__vcx_cuda_atomics.h and
  include/hip/hip/__vcx_hip_atomics.h, and the reducing barriers of the two runtime
  wrappers. A single-instruction atomic is a function from the value of the cell to the
  value returned and the value stored. The compare-and-swap loops of atomicInc and
  atomicDec, and the barrier reduction, are step relations whose steps are the
  single atomic accesses, so that every interleaving of the threads is a run. What the
  loops need of a compare-and-swap is the locale cas_op, which CUDA's and HIP's both meet.
\<close>

section \<open>Single-instruction atomics\<close>

type_synonym 'w rmw = "'w \<Rightarrow> 'w \<times> 'w"

text \<open>The atom instructions on a 32- or 64-bit cell.\<close>

definition atom_add_gen :: "'w::len word \<Rightarrow> 'w word rmw" where "atom_add_gen v old = (old, old + v)"
definition atom_xchg_gen :: "'w::len word \<Rightarrow> 'w word rmw" where "atom_xchg_gen v old = (old, v)"
definition atom_min_gen :: "'w::len word \<Rightarrow> 'w word rmw" where
  "atom_min_gen v old = (old, if sint v < sint old then v else old)"
definition atom_min_gen_u :: "'w::len word \<Rightarrow> 'w word rmw" where "atom_min_gen_u v old = (old, min old v)"
definition atom_max_gen :: "'w::len word \<Rightarrow> 'w word rmw" where
  "atom_max_gen v old = (old, if sint old < sint v then v else old)"
definition atom_max_gen_u :: "'w::len word \<Rightarrow> 'w word rmw" where "atom_max_gen_u v old = (old, max old v)"
definition atom_and_gen :: "'w::len word \<Rightarrow> 'w word rmw" where "atom_and_gen v old = (old, old AND v)"
definition atom_or_gen :: "'w::len word \<Rightarrow> 'w word rmw" where "atom_or_gen v old = (old, old OR v)"
definition atom_xor_gen :: "'w::len word \<Rightarrow> 'w word rmw" where "atom_xor_gen v old = (old, old XOR v)"
definition atom_cas_gen :: "'w::len word \<Rightarrow> 'w word \<Rightarrow> 'w word rmw" where
  "atom_cas_gen cmp v old = (old, if old = cmp then v else old)"

text \<open>
  The CUDA functions. The signed and unsigned overloads cast to int or long long and back,
  which is the identity on the bits; subtraction adds the negated value.
\<close>

definition atomicAdd :: "'w::len word \<Rightarrow> 'w word rmw" where "atomicAdd v = atom_add_gen v"
definition atomicSub :: "'w::len word \<Rightarrow> 'w word rmw" where "atomicSub v = atom_add_gen (- v)"
definition atomicExch :: "'w::len word \<Rightarrow> 'w word rmw" where "atomicExch v = atom_xchg_gen v"
definition atomicMin_i :: "'w::len word \<Rightarrow> 'w word rmw" where "atomicMin_i v = atom_min_gen v"
definition atomicMin_u :: "'w::len word \<Rightarrow> 'w word rmw" where "atomicMin_u v = atom_min_gen_u v"
definition atomicMax_i :: "'w::len word \<Rightarrow> 'w word rmw" where "atomicMax_i v = atom_max_gen v"
definition atomicMax_u :: "'w::len word \<Rightarrow> 'w word rmw" where "atomicMax_u v = atom_max_gen_u v"
definition atomicAnd :: "'w::len word \<Rightarrow> 'w word rmw" where "atomicAnd v = atom_and_gen v"
definition atomicOr :: "'w::len word \<Rightarrow> 'w word rmw" where "atomicOr v = atom_or_gen v"
definition atomicXor :: "'w::len word \<Rightarrow> 'w word rmw" where "atomicXor v = atom_xor_gen v"
definition atomicCAS :: "'w::len word \<Rightarrow> 'w word \<Rightarrow> 'w word rmw" where "atomicCAS cmp v = atom_cas_gen cmp v"

text \<open>
  HIP's compare-and-swap returns its own copy of the expected value, which the
  compare-exchange builtin overwrites with the cell's value on failure.
\<close>

definition hip_compare_exchange :: "'w::len word \<Rightarrow> 'w word \<Rightarrow> 'w word \<Rightarrow> bool \<times> 'w word \<times> 'w word" where
  "hip_compare_exchange cmp v old = (if old = cmp then (True, cmp, v) else (False, old, old))"

definition hip_atomicCAS :: "'w::len word \<Rightarrow> 'w word \<Rightarrow> 'w word rmw" where
  "hip_atomicCAS cmp v old =
     (case hip_compare_exchange cmp v old of (ok, cmp', stored) \<Rightarrow> (cmp', stored))"

section \<open>The compare-and-swap loops\<close>

text \<open>The value atomicInc and atomicDec store when they see s.\<close>

definition inc_next :: "u32 \<Rightarrow> u32 \<Rightarrow> u32" where
  "inc_next v s = (if v \<le> s then 0 else s + 1)"

definition dec_next :: "u32 \<Rightarrow> u32 \<Rightarrow> u32" where
  "dec_next v s = (if s = 0 \<or> v < s then v else s - 1)"

text \<open>
  A thread in the loop: it has not read the cell yet, it is about to swap with the value it
  saw, or it has returned. One step is one access: the volatile read, or the
  compare-and-swap with the test of the loop.
\<close>

datatype cas_pc = Load | Swap u32 | Ret u32

fun cas_step :: "(u32 \<Rightarrow> u32 \<Rightarrow> u32 rmw) \<Rightarrow> (u32 \<Rightarrow> u32) \<Rightarrow> cas_pc \<Rightarrow> u32 \<Rightarrow> cas_pc \<times> u32" where
  "cas_step cas f Load c = (Swap c, c)"
| "cas_step cas f (Swap seen) c =
     (case cas seen (f seen) c of (old, c') \<Rightarrow> (if old \<noteq> seen then Swap old else Ret old, c'))"
| "cas_step cas f (Ret r) c = (Ret r, c)"

definition atomicInc :: "u32 \<Rightarrow> cas_pc \<Rightarrow> u32 \<Rightarrow> cas_pc \<times> u32" where
  "atomicInc v = cas_step atomicCAS (inc_next v)"

definition atomicDec :: "u32 \<Rightarrow> cas_pc \<Rightarrow> u32 \<Rightarrow> cas_pc \<times> u32" where
  "atomicDec v = cas_step atomicCAS (dec_next v)"

definition hip_atomicInc :: "u32 \<Rightarrow> cas_pc \<Rightarrow> u32 \<Rightarrow> cas_pc \<times> u32" where
  "hip_atomicInc v = cas_step hip_atomicCAS (inc_next v)"

definition hip_atomicDec :: "u32 \<Rightarrow> cas_pc \<Rightarrow> u32 \<Rightarrow> cas_pc \<times> u32" where
  "hip_atomicDec v = cas_step hip_atomicCAS (dec_next v)"

text \<open>Threads 0 to n - 1 run the loop on one cell; the log holds what was returned, latest first.\<close>

record cas_sys =
  cell :: u32
  pcs :: "nat \<Rightarrow> cas_pc"
  log :: "u32 list"

definition cas_init :: "u32 \<Rightarrow> cas_sys" where
  "cas_init c = \<lparr>cell = c, pcs = (\<lambda>_. Load), log = []\<rparr>"

definition running :: "cas_pc \<Rightarrow> bool" where
  "running p \<longleftrightarrow> (case p of Ret _ \<Rightarrow> False | _ \<Rightarrow> True)"

inductive sys_step :: "(cas_pc \<Rightarrow> u32 \<Rightarrow> cas_pc \<times> u32) \<Rightarrow> nat \<Rightarrow> cas_sys \<Rightarrow> cas_sys \<Rightarrow> bool"
  for body :: "cas_pc \<Rightarrow> u32 \<Rightarrow> cas_pc \<times> u32" and n :: nat where
  thread: "t < n \<Longrightarrow> running (pcs s t) \<Longrightarrow> body (pcs s t) (cell s) = (p, c) \<Longrightarrow>
     sys_step body n s (s\<lparr>cell := c, pcs := (pcs s)(t := p),
        log := (case p of Ret r \<Rightarrow> r # log s | _ \<Rightarrow> log s)\<rparr>)"

inductive_cases sys_stepE: "sys_step body n s s'"

section \<open>The reducing barrier\<close>

text \<open>
  \<open>__vcx_sync_reduce(p, op)\<close>: every thread's position is its program counter. Even
  positions are waits at the four barriers, odd ones the code between them: 1 the
  reset by thread 0, 3 the atomic update, 5 the read of the result; 7 is after the last
  barrier. A barrier releases when all threads of the block wait at it.
\<close>

record sync_state =
  sync_word :: u32
  spc :: "nat \<Rightarrow> nat"
  sres :: "nat \<Rightarrow> u32"

definition sync_reset :: "nat \<Rightarrow> nat \<Rightarrow> u32 \<Rightarrow> u32" where
  "sync_reset op t w = (if t = 0 then (if op = 1 then 1 else 0) else w)"

definition sync_update :: "nat \<Rightarrow> bool \<Rightarrow> u32 \<Rightarrow> u32" where
  "sync_update op p w =
     (if op = 0 then (if p then snd (atomicAdd 1 w) else w)
      else if op = 1 then (if \<not> p then snd (atomicAnd 0 w) else w)
      else if p then snd (atomicOr 1 w) else w)"

inductive sync_reduce :: "nat \<Rightarrow> (nat \<Rightarrow> bool) \<Rightarrow> nat \<Rightarrow> sync_state \<Rightarrow> sync_state \<Rightarrow> bool"
  for n :: nat and p :: "nat \<Rightarrow> bool" and op :: nat where
  barrier: "\<forall>t<n. spc s t = c \<Longrightarrow> even c \<Longrightarrow> c < 7 \<Longrightarrow>
     sync_reduce n p op s (s\<lparr>spc := (\<lambda>t. if t < n then c + 1 else spc s t)\<rparr>)"
| reset: "t < n \<Longrightarrow> spc s t = 1 \<Longrightarrow>
     sync_reduce n p op s (s\<lparr>sync_word := sync_reset op t (sync_word s), spc := (spc s)(t := 2)\<rparr>)"
| update: "t < n \<Longrightarrow> spc s t = 3 \<Longrightarrow>
     sync_reduce n p op s (s\<lparr>sync_word := sync_update op (p t) (sync_word s), spc := (spc s)(t := 4)\<rparr>)"
| read: "t < n \<Longrightarrow> spc s t = 5 \<Longrightarrow>
     sync_reduce n p op s (s\<lparr>sres := (sres s)(t := sync_word s), spc := (spc s)(t := 6)\<rparr>)"

definition sync_start :: "u32 \<Rightarrow> sync_state" where
  "sync_start w = \<lparr>sync_word = w, spc = (\<lambda>_. 0), sres = (\<lambda>_. 0)\<rparr>"

text \<open>The three entry points.\<close>

definition syncthreads_count :: "nat \<Rightarrow> (nat \<Rightarrow> bool) \<Rightarrow> sync_state \<Rightarrow> sync_state \<Rightarrow> bool" where
  "syncthreads_count n p = sync_reduce n p 0"

definition syncthreads_and :: "nat \<Rightarrow> (nat \<Rightarrow> bool) \<Rightarrow> sync_state \<Rightarrow> sync_state \<Rightarrow> bool" where
  "syncthreads_and n p = sync_reduce n p 1"

definition syncthreads_or :: "nat \<Rightarrow> (nat \<Rightarrow> bool) \<Rightarrow> sync_state \<Rightarrow> sync_state \<Rightarrow> bool" where
  "syncthreads_or n p = sync_reduce n p 2"

section \<open>The loops are linearizable and lock-free\<close>

lemma running_simps [simp]: "running Load" "running (Swap x)" "\<not> running (Ret r)"
  by (simp_all add: running_def)

definition returned :: "nat \<Rightarrow> cas_sys \<Rightarrow> nat set" where
  "returned n s = {t. t < n \<and> \<not> running (pcs s t)}"

lemma finite_returned [simp]: "finite (returned n s)"
  by (simp add: returned_def)

lemma card_returned_le: "card (returned n s) \<le> n"
  using card_mono [of "{..<n}" "returned n s"] by (auto simp: returned_def)

lemma card_returned_all: "\<forall>t<n. \<not> running (pcs s t) \<Longrightarrow> card (returned n s) = n"
proof -
  assume "\<forall>t<n. \<not> running (pcs s t)"
  then have "returned n s = {..<n}" by (auto simp: returned_def)
  then show ?thesis by simp
qed

text \<open>
  The cell is the k-th iterate of the loop's function for the k threads that have returned,
  and the values they returned are the iterates before it, in the order of their swaps.
\<close>

definition cas_inv :: "(u32 \<Rightarrow> u32) \<Rightarrow> nat \<Rightarrow> u32 \<Rightarrow> cas_sys \<Rightarrow> bool" where
  "cas_inv f n c0 s \<longleftrightarrow>
     length (log s) = card (returned n s) \<and>
     cell s = (f ^^ length (log s)) c0 \<and>
     rev (log s) = map (\<lambda>i. (f ^^ i) c0) [0..<length (log s)]"

definition cas_weight :: "u32 \<Rightarrow> cas_pc \<Rightarrow> nat" where
  "cas_weight c p = (case p of Load \<Rightarrow> 2 | Swap x \<Rightarrow> if x = c then 1 else 2 | Ret _ \<Rightarrow> 0)"

lemma cas_inv_init: "cas_inv f n c (cas_init c)"
  by (simp add: cas_inv_def cas_init_def returned_def)

lemma sys_step_progress:
  "(\<exists>s'. sys_step body n s s') \<longleftrightarrow> (\<exists>t<n. running (pcs s t))"
  by (metis prod.collapse sys_step.cases sys_step.intros)

locale cas_op =
  fixes cas :: "u32 \<Rightarrow> u32 \<Rightarrow> u32 rmw"
  assumes cas_law: "cas cmp v old = (old, if old = cmp then v else old)"
begin

lemma cas_step_Swap: "cas_step cas f (Swap seen) c = (if c = seen then (Ret c, f c) else (Swap c, c))"
  by (simp add: cas_law)

lemma cas_step_cases:
  assumes "running (pcs s t)" and "cas_step cas f (pcs s t) (cell s) = (p, c)"
  obtains (again) "p = Swap (cell s)" "c = cell s" "pcs s t \<noteq> Swap (cell s)"
  | (swapped) "pcs s t = Swap (cell s)" "p = Ret (cell s)" "c = f (cell s)"
proof (cases "pcs s t")
  case Load
  from assms(2) have "(Swap (cell s), cell s) = (p, c)" unfolding Load cas_step.simps .
  then have "p = Swap (cell s)" "c = cell s" by blast+
  with Load show ?thesis by (intro again) simp_all
next
  case (Swap x)
  with assms(2) have "(if cell s = x then (Ret (cell s), f (cell s)) else (Swap (cell s), cell s)) = (p, c)"
    by (simp only: cas_step_Swap)
  then have "cell s = x \<and> p = Ret (cell s) \<and> c = f (cell s) \<or> cell s \<noteq> x \<and> p = Swap (cell s) \<and> c = cell s"
    by (cases "cell s = x") (simp_all only: if_True if_False prod.inject simp_thms, blast+)
  with Swap that show ?thesis by (metis cas_pc.inject(1))
next
  case (Ret r)
  with assms(1) show ?thesis by simp
qed

lemma cas_inv_step:
  assumes "sys_step (cas_step cas f) n s s'" and "cas_inv f n c0 s"
  shows "cas_inv f n c0 s'"
  using assms(1)
proof (cases rule: sys_step.cases)
  case (thread t p c)
  from thread(3,4) show ?thesis
  proof (cases rule: cas_step_cases)
    case again
    then have "returned n s' = returned n s"
      using thread(1,3) by (auto simp: returned_def)
    with again thread(1) assms(2) show ?thesis by (simp add: cas_inv_def)
  next
    case swapped
    then have "returned n s' = insert t (returned n s)" and "t \<notin> returned n s"
      using thread by (auto simp: returned_def)
    then have "card (returned n s') = Suc (card (returned n s))" by simp
    with swapped thread(1) assms(2) show ?thesis by (simp add: cas_inv_def)
  qed
qed

lemma cas_inv_reachable: "(sys_step (cas_step cas f) n)\<^sup>*\<^sup>* (cas_init c) s \<Longrightarrow> cas_inv f n c s"
  by (induction rule: rtranclp_induct) (auto simp: cas_inv_init intro: cas_inv_step)

lemma sys_step_decreases:
  assumes "sys_step (cas_step cas f) n s s'"
  shows "(s', s) \<in> measures [\<lambda>s. n - card (returned n s), \<lambda>s. \<Sum>t<n. cas_weight (cell s) (pcs s t)]"
  using assms
proof (cases rule: sys_step.cases)
  case (thread t p c)
  from thread(3,4) show ?thesis
  proof (cases rule: cas_step_cases)
    case swapped
    then have "returned n s' = insert t (returned n s)" and "t \<notin> returned n s"
      using thread by (auto simp: returned_def)
    then have "card (returned n s') = Suc (card (returned n s))" by simp
    with card_returned_le [of n s'] have "n - card (returned n s') < n - card (returned n s)" by linarith
    then show ?thesis by simp
  next
    case again
    then have "returned n s' = returned n s"
      using thread(1,3) by (auto simp: returned_def)
    moreover have "(\<Sum>t<n. cas_weight (cell s') (pcs s' t)) < (\<Sum>t<n. cas_weight (cell s) (pcs s t))"
    proof (rule sum_strict_mono_ex1)
      show "\<forall>u\<in>{..<n}. cas_weight (cell s') (pcs s' u) \<le> cas_weight (cell s) (pcs s u)"
        using again thread by (auto simp: cas_weight_def split: cas_pc.splits)
      have "cas_weight (cell s') (pcs s' t) = 1" using again thread by (simp add: cas_weight_def)
      moreover have "cas_weight (cell s) (pcs s t) = 2"
        using thread(3) again(3) by (cases "pcs s t") (simp_all add: cas_weight_def)
      ultimately show "\<exists>u\<in>{..<n}. cas_weight (cell s') (pcs s' u) < cas_weight (cell s) (pcs s u)"
        using thread(2) by (intro bexI [of _ t]) simp_all
    qed simp
    ultimately show ?thesis by simp
  qed
qed

lemma sys_step_wf: "wf {(s', s). sys_step (cas_step cas f) n s s'}"
  by (rule wf_subset [OF wf_measures]) (use sys_step_decreases in blast)

lemma all_returned:
  assumes "(sys_step (cas_step cas f) n)\<^sup>*\<^sup>* (cas_init c) s" and "\<forall>t<n. \<not> running (pcs s t)"
  shows "cell s = (f ^^ n) c" and "rev (log s) = map (\<lambda>i. (f ^^ i) c) [0..<n]"
  using cas_inv_reachable [OF assms(1)] card_returned_all [OF assms(2)] by (simp_all add: cas_inv_def)

end

lemma hip_atomicCAS_cuda: "hip_atomicCAS = atomicCAS"
  by (intro ext) (simp add: hip_atomicCAS_def hip_compare_exchange_def atomicCAS_def atom_cas_gen_def)

interpretation cuda_cas: cas_op "atomicCAS"
  by unfold_locales (simp add: atomicCAS_def atom_cas_gen_def)

interpretation hip_cas: cas_op "hip_atomicCAS"
  by unfold_locales (simp add: hip_atomicCAS_def hip_compare_exchange_def)

section \<open>What the loops count\<close>

lemma inc_next_mod: "c \<le> v \<Longrightarrow> unat (inc_next v c) = (unat c + 1) mod (unat v + 1)"
proof (cases "c = v")
  case True
  then show ?thesis by (simp add: inc_next_def)
next
  case False
  assume "c \<le> v"
  with False have "unat c < unat v" by (metis order_le_neq_trans word_less_nat_alt)
  moreover from this have "unat (c + 1) = unat c + 1" by unat_arith
  ultimately show ?thesis by (simp add: inc_next_def word_le_nat_alt)
qed

lemma dec_next_mod: "c \<le> v \<Longrightarrow> unat (dec_next v c) = (unat c + unat v) mod (unat v + 1)"
proof (cases "c = 0")
  case True
  then show ?thesis by (simp add: dec_next_def)
next
  case False
  assume "c \<le> v"
  then have le: "unat c \<le> unat v" by (simp add: word_le_nat_alt)
  from False have "0 < unat c" by (simp add: unat_gt_0)
  then have "unat c + unat v = (unat c - 1) + (unat v + 1)" by simp
  then have "(unat c + unat v) mod (unat v + 1) = (unat c - 1) mod (unat v + 1)"
    by (metis mod_add_self2)
  moreover have "unat (c - 1) = unat c - 1" using False by unat_arith
  ultimately show ?thesis using False le \<open>c \<le> v\<close> by (auto simp: dec_next_def not_less [symmetric])
qed

lemma inc_next_le: "inc_next v c \<le> v"
proof (cases "v \<le> c")
  case False
  then have "c + 1 \<le> v" by unat_arith
  with False show ?thesis by (simp add: inc_next_def)
qed (simp add: inc_next_def)

lemma dec_next_le: "dec_next v c \<le> v"
  by (simp add: dec_next_def) unat_arith

lemma inc_next_iterate: "c \<le> v \<Longrightarrow> unat ((inc_next v ^^ k) c) = (unat c + k) mod (unat v + 1)"
proof (induction k)
  case 0
  then show ?case by (simp add: word_le_nat_alt)
next
  case (Suc k)
  have "(inc_next v ^^ k) c \<le> v" using Suc.prems by (cases k) (simp_all add: inc_next_le)
  from inc_next_mod [OF this] Suc show ?case by (simp add: mod_simps)
qed

lemma dec_next_iterate: "c \<le> v \<Longrightarrow> unat ((dec_next v ^^ k) c) = (unat c + k * unat v) mod (unat v + 1)"
proof (induction k)
  case 0
  then show ?case by (simp add: word_le_nat_alt)
next
  case (Suc k)
  have "(dec_next v ^^ k) c \<le> v" using Suc.prems by (cases k) (simp_all add: dec_next_le)
  from dec_next_mod [OF this] Suc show ?case by (simp add: mod_simps ac_simps)
qed

section \<open>The barrier's reduction over any interleaving\<close>

text \<open>The reduction of the predicates of the threads in D.\<close>

definition reduction :: "nat \<Rightarrow> (nat \<Rightarrow> bool) \<Rightarrow> nat set \<Rightarrow> u32" where
  "reduction op p D =
     (if op = 0 then of_nat (card {t \<in> D. p t})
      else if op = 1 then (if \<forall>t\<in>D. p t then 1 else 0)
      else if \<exists>t\<in>D. p t then 1 else 0)"

lemma sync_update_reduction:
  assumes "finite D" and "t \<notin> D"
  shows "sync_update op (p t) (reduction op p D) = reduction op p (insert t D)"
proof (cases "p t")
  case True
  have "{u \<in> insert t D. p u} = insert t {u \<in> D. p u}" using True by auto
  with assms have "card {u \<in> insert t D. p u} = Suc (card {u \<in> D. p u})" by simp
  with True show ?thesis
    by (simp add: reduction_def sync_update_def atomicAdd_def atom_add_gen_def atomicOr_def atom_or_gen_def)
next
  case False
  then have "{u \<in> insert t D. p u} = {u \<in> D. p u}" by auto
  with False show ?thesis
    by (auto simp: reduction_def sync_update_def atomicAnd_def atom_and_gen_def)
qed

text \<open>The phases of a run: waiting for the first barrier, reset, update, read, done.\<close>

definition phase0 :: "nat \<Rightarrow> sync_state \<Rightarrow> bool" where
  "phase0 n s \<longleftrightarrow> (\<forall>t<n. spc s t = 0)"

definition phase1 :: "nat \<Rightarrow> (nat \<Rightarrow> bool) \<Rightarrow> nat \<Rightarrow> sync_state \<Rightarrow> bool" where
  "phase1 n p op s \<longleftrightarrow> (\<forall>t<n. spc s t = 1 \<or> spc s t = 2) \<and> (spc s 0 = 2 \<longrightarrow> sync_word s = reduction op p {})"

definition phase2 :: "nat \<Rightarrow> (nat \<Rightarrow> bool) \<Rightarrow> nat \<Rightarrow> sync_state \<Rightarrow> bool" where
  "phase2 n p op s \<longleftrightarrow> (\<forall>t<n. spc s t = 3 \<or> spc s t = 4) \<and> sync_word s = reduction op p {t. t < n \<and> spc s t = 4}"

definition phase3 :: "nat \<Rightarrow> (nat \<Rightarrow> bool) \<Rightarrow> nat \<Rightarrow> sync_state \<Rightarrow> bool" where
  "phase3 n p op s \<longleftrightarrow> (\<forall>t<n. spc s t = 5 \<or> spc s t = 6 \<and> sres s t = reduction op p {..<n}) \<and>
     sync_word s = reduction op p {..<n}"

definition phase4 :: "nat \<Rightarrow> (nat \<Rightarrow> bool) \<Rightarrow> nat \<Rightarrow> sync_state \<Rightarrow> bool" where
  "phase4 n p op s \<longleftrightarrow> (\<forall>t<n. spc s t = 7 \<and> sres s t = reduction op p {..<n})"

lemma sync_reset_reduction: "sync_reset op 0 w = reduction op p {}"
  by (simp add: sync_reset_def reduction_def)

lemma phase0_step:
  assumes "sync_reduce n p op s s'" and "0 < n" and ph: "phase0 n s"
  shows "phase1 n p op s'"
  using assms(1)
proof (cases rule: sync_reduce.cases)
  case (barrier c)
  with ph assms(2) have "c = 0" by (auto simp: phase0_def)
  with barrier assms(2) show ?thesis by (simp add: phase1_def)
qed (use ph in \<open>auto simp: phase0_def\<close>)

lemma phase1_step:
  assumes "sync_reduce n p op s s'" and "0 < n" and ph: "phase1 n p op s"
  shows "phase1 n p op s' \<or> phase2 n p op s'"
  using assms(1)
proof (cases rule: sync_reduce.cases)
  case (barrier c)
  with ph assms(2) have "c = 2" by (auto simp: phase1_def)
  with barrier assms(2) ph show ?thesis by (simp add: phase1_def phase2_def)
next
  case (reset t)
  show ?thesis
  proof (cases "t = 0")
    case True
    with reset ph show ?thesis by (simp add: phase1_def sync_reset_reduction)
  next
    case False
    with reset ph show ?thesis by (simp add: phase1_def sync_reset_def)
  qed
next
  case (update t)
  with ph show ?thesis by (auto simp: phase1_def)
next
  case (read t)
  with ph show ?thesis by (auto simp: phase1_def)
qed

lemma phase2_step:
  assumes "sync_reduce n p op s s'" and "0 < n" and ph: "phase2 n p op s"
  shows "phase2 n p op s' \<or> phase3 n p op s'"
  using assms(1)
proof (cases rule: sync_reduce.cases)
  case (barrier c)
  with ph assms(2) have "c = 4" by (auto simp: phase2_def)
  then have "{t. t < n \<and> spc s t = 4} = {..<n}" using barrier(2) by auto
  with \<open>c = 4\<close> barrier ph show ?thesis by (simp add: phase2_def phase3_def)
next
  case (reset t)
  with ph show ?thesis by (auto simp: phase2_def)
next
  case (update t)
  have "{u. u < n \<and> spc s' u = 4} = insert t {u. u < n \<and> spc s u = 4}"
    using update by auto
  moreover have "t \<notin> {u. u < n \<and> spc s u = 4}" using update by simp
  ultimately have "sync_word s' = reduction op p {u. u < n \<and> spc s' u = 4}"
    using sync_update_reduction [of "{u. u < n \<and> spc s u = 4}" t op p] update ph by (simp add: phase2_def)
  moreover have "\<forall>t<n. spc s' t = 3 \<or> spc s' t = 4" using update ph by (simp add: phase2_def)
  ultimately show ?thesis by (simp add: phase2_def)
next
  case (read t)
  with ph show ?thesis by (auto simp: phase2_def)
qed

lemma phase3_step:
  assumes "sync_reduce n p op s s'" and "0 < n" and ph: "phase3 n p op s"
  shows "phase3 n p op s' \<or> phase4 n p op s'"
  using assms(1)
proof (cases rule: sync_reduce.cases)
  case (barrier c)
  with ph assms(2) have "c = 6" by (auto simp: phase3_def)
  with barrier ph show ?thesis by (auto simp: phase3_def phase4_def)
next
  case (reset t)
  with ph show ?thesis by (auto simp: phase3_def)
next
  case (update t)
  with ph show ?thesis by (auto simp: phase3_def)
next
  case (read t)
  with ph show ?thesis by (simp add: phase3_def)
qed

lemma phase4_final:
  assumes "sync_reduce n p op s s'" and "0 < n" and "phase4 n p op s"
  shows False
  using assms(1)
proof (cases rule: sync_reduce.cases)
  case (barrier c)
  then show ?thesis using assms(2,3) by (auto simp: phase4_def)
qed (use assms(3) in \<open>auto simp: phase4_def\<close>)

definition sync_inv :: "nat \<Rightarrow> (nat \<Rightarrow> bool) \<Rightarrow> nat \<Rightarrow> sync_state \<Rightarrow> bool" where
  "sync_inv n p op s \<longleftrightarrow> phase0 n s \<or> phase1 n p op s \<or> phase2 n p op s \<or> phase3 n p op s \<or> phase4 n p op s"

lemma sync_inv_reachable:
  assumes "(sync_reduce n p op)\<^sup>*\<^sup>* (sync_start w) s" and "0 < n"
  shows "sync_inv n p op s"
  using assms(1)
proof (induction rule: rtranclp_induct)
  case base
  show ?case by (simp add: sync_inv_def phase0_def sync_start_def)
next
  case (step s s')
  note next_phase = phase0_step [OF step.hyps(2) assms(2)] phase1_step [OF step.hyps(2) assms(2)]
    phase2_step [OF step.hyps(2) assms(2)] phase3_step [OF step.hyps(2) assms(2)]
    phase4_final [OF step.hyps(2) assms(2)]
  from step.IH show ?case unfolding sync_inv_def by (elim disjE) (auto dest: next_phase)
qed

lemma sync_inv_done:
  assumes "sync_inv n p op s" and "\<forall>t<n. spc s t = 7" and "0 < n" and "t < n"
  shows "sres s t = reduction op p {..<n}"
proof -
  have "spc s 0 = 7" using assms by simp
  with assms show ?thesis
    by (auto simp: sync_inv_def phase0_def phase1_def phase2_def phase3_def phase4_def)
qed

lemma sync_step_decreases:
  assumes "sync_reduce n p op s s'" and "0 < n"
  shows "(\<Sum>t<n. 7 - spc s' t) < (\<Sum>t<n. 7 - spc s t)"
  using assms(1)
proof (cases rule: sync_reduce.cases)
  case (barrier c)
  then show ?thesis using assms(2) by (intro sum_strict_mono) auto
qed (rule sum_strict_mono_ex1; auto intro!: bexI)+

lemma sync_wf: "0 < n \<Longrightarrow> wf {(s', s). sync_reduce n p op s s'}"
  by (rule wf_subset [OF wf_measure [of "\<lambda>s. \<Sum>t<n. 7 - spc s t"]]) (auto dest: sync_step_decreases)

lemma sync_progress:
  assumes "sync_inv n p op s" and "\<not> (\<forall>t<n. spc s t = 7)"
  shows "\<exists>s'. sync_reduce n p op s s'"
proof (cases "\<exists>t<n. spc s t = 1 \<or> spc s t = 3 \<or> spc s t = 5")
  case True
  then show ?thesis by (blast intro: sync_reduce.intros)
next
  case False
  then have "\<exists>c\<in>{0, 2, 4, 6}. \<forall>t<n. spc s t = c"
    using assms unfolding sync_inv_def phase0_def phase1_def phase2_def phase3_def phase4_def by blast
  then obtain c where "c \<in> {0, 2, 4, 6}" and all: "\<forall>t<n. spc s t = c" by blast
  then have "even c" "c < 7" by auto
  with all show ?thesis by (blast intro: sync_reduce.barrier)
qed
lemma sync_completes:
  assumes "0 < n"
  shows "\<exists>s. (sync_reduce n p op)\<^sup>*\<^sup>* (sync_start w) s \<and> (\<forall>t<n. spc s t = 7)"
proof -
  let ?R = "{s. (sync_reduce n p op)\<^sup>*\<^sup>* (sync_start w) s}"
  obtain s where s: "s \<in> ?R" and least: "\<And>s'. (s', s) \<in> {(s', s). sync_reduce n p op s s'} \<Longrightarrow> s' \<notin> ?R"
    using wfE_min [OF sync_wf [OF assms], of "sync_start w" ?R] by blast
  then have "\<nexists>s'. sync_reduce n p op s s'" by (auto dest: rtranclp.rtrancl_into_rtrancl)
  with s sync_progress sync_inv_reachable assms show ?thesis by blast
qed

section \<open>Properties\<close>

text \<open>One scheduled step of thread t, for concrete runs.\<close>

definition sys_exec :: "(cas_pc \<Rightarrow> u32 \<Rightarrow> cas_pc \<times> u32) \<Rightarrow> nat \<Rightarrow> cas_sys \<Rightarrow> cas_sys" where
  "sys_exec body t s =
     (case body (pcs s t) (cell s) of (p, c) \<Rightarrow>
       s\<lparr>cell := c, pcs := (pcs s)(t := p), log := (case p of Ret r \<Rightarrow> r # log s | _ \<Rightarrow> log s)\<rparr>)"

lemma sys_exec_step: "t < n \<Longrightarrow> running (pcs s t) \<Longrightarrow> sys_step body n s (sys_exec body t s)"
  by (auto simp: sys_exec_def intro: sys_step.thread split: prod.split)

text \<open>
  C9. Linearizability of atomicInc and atomicDec, CUDA's and HIP's: in every reachable state
  of n threads that run the loop on one cell, the cell has been stepped exactly once for each
  thread that has returned, and the values returned are, in the order of the successful
  swaps, the successive values of the cell. No step is lost or made twice, whatever swaps
  failed on the way.
\<close>

theorem atomic_loops_linearizable:
  assumes "(body, f) \<in> {(atomicInc v, inc_next v), (atomicDec v, dec_next v),
      (hip_atomicInc v, inc_next v), (hip_atomicDec v, dec_next v)}"
    and "(sys_step body n)\<^sup>*\<^sup>* (cas_init c) s"
  shows "length (log s) = card {t. t < n \<and> \<not> running (pcs s t)} \<and>
    cell s = (f ^^ length (log s)) c \<and>
    rev (log s) = map (\<lambda>i. (f ^^ i) c) [0..<length (log s)]"
proof -
  have "body = cas_step atomicCAS f \<or> body = cas_step hip_atomicCAS f"
    using assms(1) by (auto simp: atomicInc_def atomicDec_def hip_atomicInc_def hip_atomicDec_def)
  then have "cas_inv f n c s"
    using assms(2) cuda_cas.cas_inv_reachable hip_cas.cas_inv_reachable by auto
  then show ?thesis by (simp add: cas_inv_def returned_def)
qed

text \<open>
  A run of two threads in which both read 5, the first swaps, the second's swap fails and is
  retried.
\<close>

definition contended_run :: "cas_sys" where
  "contended_run = fold (sys_exec (atomicInc 5)) [0, 1, 0, 1, 1] (cas_init 5)"

lemmas contended_simps = sys_exec_def atomicInc_def inc_next_def atomicCAS_def atom_cas_gen_def cas_init_def

lemma contended_run_reachable: "(sys_step (atomicInc 5) 2)\<^sup>*\<^sup>* (cas_init 5) contended_run"
proof -
  let ?e = "sys_exec (atomicInc 5)"
  have "sys_step (atomicInc 5) 2 (cas_init 5) (?e 0 (cas_init 5))"
    by (rule sys_exec_step) (simp_all add: contended_simps)
  moreover have "sys_step (atomicInc 5) 2 (?e 0 (cas_init 5)) (?e 1 (?e 0 (cas_init 5)))"
    by (rule sys_exec_step) (simp_all add: contended_simps)
  moreover have "sys_step (atomicInc 5) 2 (?e 1 (?e 0 (cas_init 5))) (?e 0 (?e 1 (?e 0 (cas_init 5))))"
    by (rule sys_exec_step) (simp_all add: contended_simps)
  moreover have "sys_step (atomicInc 5) 2 (?e 0 (?e 1 (?e 0 (cas_init 5)))) (?e 1 (?e 0 (?e 1 (?e 0 (cas_init 5)))))"
    by (rule sys_exec_step) (simp_all add: contended_simps)
  moreover have "sys_step (atomicInc 5) 2 (?e 1 (?e 0 (?e 1 (?e 0 (cas_init 5))))) contended_run"
    unfolding contended_run_def fold.simps o_def id_def
    by (rule sys_exec_step) (simp_all add: contended_simps)
  ultimately show ?thesis by (meson converse_rtranclp_into_rtranclp rtranclp.rtrancl_refl)
qed

theorem atomic_loops_linearizable_witness:
  "log contended_run = [0, 5] \<and> cell contended_run = (inc_next 5 ^^ 2) 5"
proof -
  have log: "log contended_run = [0, 5]" by (simp add: contended_run_def contended_simps)
  have "cell contended_run = (inc_next 5 ^^ length (log contended_run)) 5"
    using atomic_loops_linearizable [OF _ contended_run_reachable, of "inc_next 5" 5] by blast
  with log show ?thesis by (simp only: list.size) (simp add: numeral_2_eq_2)
qed

text \<open>
  C13. Lock-freedom and termination of the loops: no infinite interleaving exists, and a state
  in which no step is possible is one in which every thread has returned.
\<close>

theorem atomic_loops_terminate:
  assumes "body \<in> {atomicInc v, atomicDec v, hip_atomicInc v, hip_atomicDec v}"
  shows "wf {(s', s). sys_step body n s s'} \<and>
    (\<forall>s. (\<nexists>s'. sys_step body n s s') \<longleftrightarrow> (\<forall>t<n. \<not> running (pcs s t)))"
proof (intro conjI allI)
  have "\<exists>f. body = cas_step atomicCAS f \<or> body = cas_step hip_atomicCAS f"
    using assms by (auto simp: atomicInc_def atomicDec_def hip_atomicInc_def hip_atomicDec_def)
  then show "wf {(s', s). sys_step body n s s'}"
    using cuda_cas.sys_step_wf hip_cas.sys_step_wf by auto
next
  fix s
  show "(\<nexists>s'. sys_step body n s s') \<longleftrightarrow> (\<forall>t<n. \<not> running (pcs s t))"
    using sys_step_progress [of body n s] by blast
qed

theorem atomic_loops_terminate_witness:
  "wf {(s', s). sys_step (hip_atomicDec 7) 3 s s'}"
  using atomic_loops_terminate [of "hip_atomicDec 7" 7 3] by simp

text \<open>
  n calls of atomicInc with limit v on a cell that holds c at most v, in any
  interleaving, leave c + n modulo v + 1, and return the residues c, c + 1, ... in the order
  of their swaps; n calls of atomicDec leave c - n modulo v + 1. An increment is undone by a
  decrement with the same limit.
\<close>

theorem atomicInc_atomicDec_modular:
  assumes "c \<le> v" and "\<forall>t<n. \<not> running (pcs s t)"
  shows "((sys_step (atomicInc v) n)\<^sup>*\<^sup>* (cas_init c) s \<longrightarrow>
           unat (cell s) = (unat c + n) mod (unat v + 1) \<and>
           map unat (rev (log s)) = map (\<lambda>i. (unat c + i) mod (unat v + 1)) [0..<n]) \<and>
    ((sys_step (atomicDec v) n)\<^sup>*\<^sup>* (cas_init c) s \<longrightarrow>
           int (unat (cell s)) = (int (unat c) - int n) mod (int (unat v) + 1)) \<and>
    dec_next v (inc_next v c) = c"
proof (intro conjI [of "_ \<longrightarrow> _"] impI)
  assume "(sys_step (atomicInc v) n)\<^sup>*\<^sup>* (cas_init c) s"
  from cuda_cas.all_returned [OF this [unfolded atomicInc_def] assms(2)] inc_next_iterate [OF assms(1)]
  show "unat (cell s) = (unat c + n) mod (unat v + 1) \<and>
      map unat (rev (log s)) = map (\<lambda>i. (unat c + i) mod (unat v + 1)) [0..<n]"
    by simp
next
  assume "(sys_step (atomicDec v) n)\<^sup>*\<^sup>* (cas_init c) s"
  from cuda_cas.all_returned(1) [OF this [unfolded atomicDec_def] assms(2)] dec_next_iterate [OF assms(1)]
  have "int (unat (cell s)) = (int (unat c) + int n * int (unat v)) mod (int (unat v) + 1)"
    by (simp add: zmod_int ac_simps)
  also have "int (unat c) + int n * int (unat v) = (int (unat c) - int n) + int n * (int (unat v) + 1)"
    by (simp add: algebra_simps)
  finally show "int (unat (cell s)) = (int (unat c) - int n) mod (int (unat v) + 1)" by simp
next
  have "unat (dec_next v (inc_next v c)) = ((unat c + 1) mod (unat v + 1) + unat v) mod (unat v + 1)"
    by (simp add: dec_next_mod inc_next_le inc_next_mod assms(1))
  also have "\<dots> = (unat c + (unat v + 1)) mod (unat v + 1)" by (simp add: mod_simps ac_simps)
  also have "\<dots> = unat c" using assms(1) by (simp add: word_le_nat_alt del: add_Suc_right)
  finally show "dec_next v (inc_next v c) = c" by (rule word_unat_eq_iff [THEN iffD2])
qed

theorem atomicInc_atomicDec_modular_witness:
  "unat (cell contended_run) = (unat (5::u32) + 2) mod (unat (5::u32) + 1)"
proof -
  have "\<forall>t<2. \<not> running (pcs contended_run t)"
    by (auto simp: contended_run_def contended_simps less_2_cases_iff)
  from atomicInc_atomicDec_modular [OF _ this, of 5 5] contended_run_reachable show ?thesis by simp
qed

text \<open>
  C12. The reducing barriers: whatever the shared word held and however the n threads of the
  block interleave, once every thread has passed the last barrier each of them has been given
  the number of threads whose predicate holds (count, modulo the word), whether all hold
  (and), whether any holds (or).
\<close>

theorem syncthreads_reduce_correct:
  assumes "0 < n" and "\<forall>t<n. spc s t = 7" and "t < n"
  shows "((syncthreads_count n p)\<^sup>*\<^sup>* (sync_start w) s \<longrightarrow> sres s t = of_nat (card {u. u < n \<and> p u})) \<and>
    ((syncthreads_and n p)\<^sup>*\<^sup>* (sync_start w) s \<longrightarrow> sres s t = (if \<forall>u<n. p u then 1 else 0)) \<and>
    ((syncthreads_or n p)\<^sup>*\<^sup>* (sync_start w) s \<longrightarrow> sres s t = (if \<exists>u<n. p u then 1 else 0))"
  unfolding syncthreads_count_def syncthreads_and_def syncthreads_or_def
  by (intro conjI impI;
      drule sync_inv_reachable [OF _ assms(1)], drule sync_inv_done [OF _ assms(2,1,3)],
      auto simp: reduction_def)

theorem syncthreads_reduce_correct_witness:
  "\<exists>s. (syncthreads_count 2 (\<lambda>t. t = 0))\<^sup>*\<^sup>* (sync_start 9) s \<and> (\<forall>t<2. spc s t = 7) \<and> sres s 1 = 1"
proof -
  obtain s where s: "(syncthreads_count 2 (\<lambda>t. t = 0))\<^sup>*\<^sup>* (sync_start 9) s" "\<forall>t<2. spc s t = 7"
    using sync_completes [of 2] unfolding syncthreads_count_def by fastforce
  have "{u. u < 2 \<and> u = 0} = {0::nat}" by auto
  with syncthreads_reduce_correct [OF _ s(2), of 1 "\<lambda>t. t = 0" 9] s(1) have "sres s 1 = 1" by simp
  with s show ?thesis by blast
qed

text \<open>
  C14. The reducing barriers neither loop nor deadlock: every interleaving of the threads is
  finite, and a reachable state with no further step is one in which every thread has
  passed the last barrier.
\<close>

theorem syncthreads_reduce_terminates:
  assumes "0 < n"
  shows "wf {(s', s). sync_reduce n p op s s'} \<and>
    (\<forall>s. (sync_reduce n p op)\<^sup>*\<^sup>* (sync_start w) s \<longrightarrow>
           (\<nexists>s'. sync_reduce n p op s s') \<longleftrightarrow> (\<forall>t<n. spc s t = 7))"
proof (intro conjI allI impI)
  show "wf {(s', s). sync_reduce n p op s s'}" by (rule sync_wf [OF assms])
next
  fix s
  assume "(sync_reduce n p op)\<^sup>*\<^sup>* (sync_start w) s"
  then have inv: "sync_inv n p op s" by (rule sync_inv_reachable [OF _ assms])
  have "sync_reduce n p op s s' \<Longrightarrow> \<not> (\<forall>t<n. spc s t = 7)" for s'
    by (erule sync_reduce.cases) (use assms in auto)
  with sync_progress [OF inv] show "(\<nexists>s'. sync_reduce n p op s s') \<longleftrightarrow> (\<forall>t<n. spc s t = 7)"
    by blast
qed

theorem syncthreads_reduce_terminates_witness:
  "wf {(s', s). sync_reduce 64 even 1 s s'}"
  using syncthreads_reduce_terminates [of 64 even 1] by simp

end
