(* ===== verification/CxxInts.thy ===== *)
theory CxxInts
  imports Prelude "HOL-Library.Signed_Division" "HOL-Library.Monad_Syntax"
begin

text \<open>
  C++ integer arithmetic as the library headers rely on it. A value of a signed or unsigned
  type is an int. Unsigned arithmetic wraps: its results are reduced by \<open>wrap_unsigned\<close>. A
  conversion to a signed type is \<open>wrap_signed\<close>. Signed arithmetic that overflows is undefined
  behaviour: its results pass through \<open>checked\<close>, and None is the undefined outcome, so that a
  proof that an operation returns Some also shows that no intermediate result overflows. Where
  the types of the operands rule an overflow out, the plain operation is written. Division
  truncates towards zero (sdiv, smod of the library).
\<close>

definition in_signed :: "nat \<Rightarrow> int \<Rightarrow> bool" where
  "in_signed w x \<longleftrightarrow> - (2 ^ (w - 1)) \<le> x \<and> x < 2 ^ (w - 1)"

definition checked :: "nat \<Rightarrow> int \<Rightarrow> int option" where
  "checked w x = (if in_signed w x then Some x else None)"

definition wrap_unsigned :: "nat \<Rightarrow> int \<Rightarrow> int" where
  "wrap_unsigned w x = x mod 2 ^ w"

definition wrap_signed :: "nat \<Rightarrow> int \<Rightarrow> int" where
  "wrap_signed w x = (x + 2 ^ (w - 1)) mod 2 ^ w - 2 ^ (w - 1)"

abbreviation int32 :: "int \<Rightarrow> int option" where
  "int32 \<equiv> checked 32"

abbreviation uint32 :: "int \<Rightarrow> int" where
  "uint32 \<equiv> wrap_unsigned 32"

abbreviation sint32 :: "int \<Rightarrow> int" where
  "sint32 \<equiv> wrap_signed 32"

lemma checked_Some: "in_signed w x \<Longrightarrow> checked w x = Some x"
  by (simp add: checked_def)

lemma checked_eq_Some [simp]: "checked w x = Some y \<longleftrightarrow> y = x \<and> in_signed w x"
  by (auto simp: checked_def)

lemma wrap_unsigned_id: "0 \<le> x \<Longrightarrow> x < 2 ^ w \<Longrightarrow> wrap_unsigned w x = x"
  by (simp add: wrap_unsigned_def)

lemma wrap_unsigned_bounds: "0 \<le> wrap_unsigned w x \<and> wrap_unsigned w x < 2 ^ w"
  by (simp add: wrap_unsigned_def)

lemma wrap_signed_id: "0 < w \<Longrightarrow> in_signed w x \<Longrightarrow> wrap_signed w x = x"
proof -
  assume w: "0 < w" and x: "in_signed w x"
  have "(2::int) ^ w = 2 ^ (w - 1) + 2 ^ (w - 1)" using w by (cases w) simp_all
  with x show ?thesis by (simp add: in_signed_def wrap_signed_def)
qed

lemma in_signed_mono: "in_signed v y \<Longrightarrow> v \<le> w \<Longrightarrow> in_signed w y"
proof -
  assume "in_signed v y" "v \<le> w"
  moreover have "(2::int) ^ (v - 1) \<le> 2 ^ (w - 1)" using \<open>v \<le> w\<close> by (intro power_increasing) simp_all
  ultimately show ?thesis unfolding in_signed_def by linarith
qed

lemma uint_u8 [simp]: "uint (word_of_int x :: u8) = x mod 256"
  by (simp add: unsigned_of_int take_bit_eq_mod)

lemma sint_s16 [simp]: "sint (word_of_int x :: 16 word) = wrap_signed 16 x"
  by (simp add: signed_of_int signed_take_bit_eq_take_bit_shift take_bit_eq_mod wrap_signed_def)

lemma sint_s16_bounds: "- 32768 \<le> sint (x :: 16 word) \<and> sint (x :: 16 word) < 32768"
  using sint_greater_eq [of x] sint_less [of x] by simp

lemma uint_u8_bounds: "0 \<le> uint (x :: u8) \<and> uint x < 256"
  using unsigned_less [of x, where 'a = int] by simp

lemma mod_neg_small: "- d \<le> x \<Longrightarrow> x < 0 \<Longrightarrow> x mod d = x + (d::int)"
  using mod_pos_pos_trivial [of "x + d" d] by simp

text \<open>A truncating division of a numerator moved down by d - 1 when negative is a floor division.\<close>

lemma sdiv_floor:
  assumes "0 < (d::int)" and k: "k = d - 1"
  shows "(if 0 \<le> z then z else z - k) sdiv d = z div d"
proof (cases "0 \<le> z")
  case True
  with assms show ?thesis by (simp add: signed_divide_int_def sgn_if)
next
  case False
  then have "(z - (d - 1)) sdiv d = - ((d - 1 - z) div d)"
    using assms by (simp add: signed_divide_int_def sgn_if)
  also have "\<dots> = z div d"
  proof -
    define q r where "q = z div d" and "r = z mod d"
    have z: "z = q * d + r" "0 \<le> r" "r < d" using assms by (simp_all add: q_def r_def)
    have "(d - 1 - z) div d = - q"
      using assms z by (intro int_div_pos_eq [where r = "d - 1 - r"]) (simp_all add: algebra_simps)
    then show ?thesis by (simp add: q_def)
  qed
  finally show ?thesis using False k by simp
qed

end
