(* ===== verification/OffloadFatbin.thy ===== *)
theory OffloadFatbin
  imports CxxInts
begin

text \<open>
  The containers device images travel in: the writers \<open>Fatbin\<close> and \<open>Bundle\<close> of
  offload/fatbin.go and the reader \<open>findImage\<close> of \<open>runtime/cuda/vcx_cudart.cpp\<close>. A container
  is a list of bytes and a pointer into it an offset; addresses do not wrap. A read outside the
  container and a search that does not end are the value None of the outer option.
\<close>

section \<open>Little-endian numbers\<close>

type_synonym bytes = "u8 list"

definition put_le :: "nat \<Rightarrow> nat \<Rightarrow> bytes" where
  "put_le n v = map (\<lambda>i. word_of_nat (v div 256 ^ i)) [0..<n]"

primrec le_value :: "bytes \<Rightarrow> nat" where
  "le_value [] = 0"
| "le_value (b # bs) = unat b + 256 * le_value bs"

definition get_le :: "bytes \<Rightarrow> nat \<Rightarrow> nat \<Rightarrow> nat option" where
  "get_le d off n = (if off + n \<le> length d then Some (le_value (take n (drop off d))) else None)"

section \<open>offload/fatbin.go, the fat binary\<close>

datatype image_kind = PTX | ELF

record image =
  Kind :: image_kind
  Arch :: string
  SM :: int
  ISAMajor :: int
  ISAMinor :: int
  Data :: bytes
  Host :: string

definition uintn :: "nat \<Rightarrow> int \<Rightarrow> nat" where
  "uintn w x = nat (x mod 2 ^ w)"

definition image_payload :: "image \<Rightarrow> bytes" where
  "image_payload im = (if Kind im = PTX then Data im @ [0] else Data im)"

definition image_flags :: "image \<Rightarrow> nat" where
  "image_flags im =
     1 OR (if Host im = ''linux'' then 0x10 else if Host im = ''macos'' \<or> Host im = ''darwin'' then 0x20 else 0x40)"

text \<open>Rounding up to a multiple of k, and appending zero bytes until the length is one.\<close>

definition round_up :: "nat \<Rightarrow> nat \<Rightarrow> nat" where
  "round_up k n = (n + (k - 1)) div k * k"

definition pad_zero :: "nat \<Rightarrow> bytes \<Rightarrow> bytes" where
  "pad_zero k b = b @ replicate ((k - length b mod k) mod k) 0"

text \<open>The eighty bytes of an entry, in the order of their offsets: 0, 2, 4, 8, 16, 20, 24, 26, 28, 32, 36, 40, 48, 56, 64.\<close>

definition fatbin_entry :: "image \<Rightarrow> bytes" where
  "fatbin_entry im =
     put_le 2 (if Kind im = PTX then 1 else 2) @ put_le 2 0x0101 @ put_le 4 80 @
     put_le 8 (round_up 8 (length (image_payload im))) @ put_le 4 0 @ put_le 4 64 @
     put_le 2 (uintn 16 (ISAMinor im)) @ put_le 2 (uintn 16 (ISAMajor im)) @ put_le 4 (uintn 32 (SM im)) @
     put_le 4 0 @ put_le 4 0 @ put_le 8 (image_flags im) @ put_le 8 0 @ put_le 8 0 @ put_le 4 0x48 @ replicate 12 0"

definition append_image :: "image \<Rightarrow> bytes \<Rightarrow> bytes" where
  "append_image im body = pad_zero 8 (body @ fatbin_entry im @ image_payload im)"

definition Fatbin :: "image list \<Rightarrow> bytes" where
  "Fatbin images =
     (let body = fold append_image images []
      in put_le 4 0xBA55ED50 @ put_le 2 1 @ put_le 2 16 @ put_le 8 (length body) @ body)"

section \<open>\<open>vcx_cudart.cpp\<close>, findImage\<close>

record FatbinEntry =
  fe_kind :: nat
  fe_headerSize :: nat
  fe_size :: nat
  fe_arch :: nat

text \<open>The fields of the 64-byte struct that the search reads, at their offsets.\<close>

definition read_entry :: "bytes \<Rightarrow> nat \<Rightarrow> FatbinEntry option" where
  "read_entry d p =
     do { k \<leftarrow> get_le d p 2; h \<leftarrow> get_le d (p + 4) 4; s \<leftarrow> get_le d (p + 8) 8; a \<leftarrow> get_le d (p + 28) 4;
          Some \<lparr>fe_kind = k, fe_headerSize = h, fe_size = s, fe_arch = a\<rparr> }"

definition better :: "nat \<Rightarrow> FatbinEntry \<Rightarrow> nat option \<Rightarrow> nat \<Rightarrow> bool" where
  "better sm e best bestArch \<longleftrightarrow> fe_kind e = 1 \<and> fe_arch e \<le> sm \<and> (best = None \<or> bestArch < fe_arch e)"

partial_function (option) find_loop :: "bytes \<Rightarrow> nat \<Rightarrow> nat \<Rightarrow> nat \<Rightarrow> nat option \<Rightarrow> nat \<Rightarrow> nat option option" where
  "find_loop d sm stop p best bestArch =
     (if p + 64 \<le> stop
      then Option.bind (read_entry d p) (\<lambda>e.
        let next = p + (fe_headerSize e + fe_size e) mod 2 ^ 64
        in if better sm e best bestArch then find_loop d sm stop next (Some (p + fe_headerSize e)) (fe_arch e)
           else find_loop d sm stop next best bestArch)
      else Some best)"

definition findImage :: "bytes \<Rightarrow> nat \<Rightarrow> nat option option" where
  "findImage d sm =
     do { magic \<leftarrow> get_le d 0 4;
          if magic \<noteq> 0xBA55ED50 then Some None
          else do { hs \<leftarrow> get_le d 6 2; size \<leftarrow> get_le d 8 8; find_loop d sm (hs + size) hs None 0 } }"

section \<open>offload/fatbin.go, the HIP bundle\<close>

definition bundleMagic :: string where
  "bundleMagic = ''__CLANG_OFFLOAD_BUNDLE__''"

definition go_bytes :: "string \<Rightarrow> bytes" where
  "go_bytes s = map of_char s"

definition bundle_entries :: "image list \<Rightarrow> (string \<times> bytes) list" where
  "bundle_entries images =
     (''host-x86_64-unknown-linux-gnu'', []) # map (\<lambda>im. (''hipv4-amdgcn-amd-amdhsa--'' @ Arch im, Data im)) images"

definition bundle_header :: "(string \<times> bytes) list \<Rightarrow> nat" where
  "bundle_header entries = length bundleMagic + 8 + (\<Sum>e\<leftarrow>entries. 8 + 8 + 8 + length (fst e))"

text \<open>The first loop: the table of entries, and the offsets of the images.\<close>

fun bundle_table :: "nat \<Rightarrow> (string \<times> bytes) list \<Rightarrow> bytes \<times> nat list" where
  "bundle_table offset [] = ([], [])"
| "bundle_table offset ((i, d) # entries) =
     (let (out, places) = bundle_table (offset + round_up 4096 (length d)) entries
      in (put_le 8 offset @ put_le 8 (length d) @ put_le 8 (length i) @ go_bytes i @ out, offset # places))"

text \<open>The second loop: zeros up to the image's place, then the image.\<close>

fun bundle_images :: "bytes \<Rightarrow> nat list \<Rightarrow> (string \<times> bytes) list \<Rightarrow> bytes" where
  "bundle_images out (off # places) ((i, d) # entries) =
     bundle_images (out @ replicate (off - length out) 0 @ d) places entries"
| "bundle_images out _ _ = out"

definition Bundle :: "image list \<Rightarrow> bytes" where
  "Bundle images =
     (let entries = bundle_entries images; header = bundle_header entries;
          (table, places) = bundle_table (round_up 4096 header) entries;
          out = go_bytes bundleMagic @ put_le 8 (length entries) @ table
      in pad_zero 4096 (bundle_images out places entries))"

section \<open>Reading what was written\<close>

lemma length_put_le [simp]: "length (put_le n v) = n"
  by (simp add: put_le_def)

lemma put_le_Suc: "put_le (Suc n) v = word_of_nat v # put_le n (v div 256)"
  unfolding put_le_def upt_conv_Cons [OF zero_less_Suc] map_Suc_upt [symmetric]
  by (simp add: div_mult2_eq)

lemma le_value_put_le: "le_value (put_le n v) = v mod 256 ^ n"
proof (induction n arbitrary: v)
  case (Suc n)
  have "unat (word_of_nat v :: u8) = v mod 256" by (simp add: unsigned_of_nat take_bit_eq_mod)
  with Suc show ?case by (simp add: put_le_Suc mod_mult2_eq)
qed (simp add: put_le_def)

lemma get_le_skip: "get_le (pre @ d) (length pre + k) n = get_le d k n"
  by (simp add: get_le_def)

lemma get_le_skip0: "get_le (pre @ d) (length pre) n = get_le d 0 n"
  using get_le_skip [of pre d 0] by simp

lemma get_le_put_le [simp]: "get_le (put_le n v @ d) 0 n = Some (v mod 256 ^ n)"
  by (simp add: get_le_def le_value_put_le)

lemma get_le_later: "length pre \<le> k \<Longrightarrow> get_le (pre @ d) k n = get_le d (k - length pre) n"
  using get_le_skip [of pre d "k - length pre"] by simp

lemma round_up_bounds:
  assumes "0 < k"
  shows "n \<le> round_up k n" "round_up k n < n + k" "round_up k n mod k = 0"
proof -
  have "(n + (k - 1)) div k * k = n + (k - 1) - (n + (k - 1)) mod k" by (simp add: minus_mod_eq_div_mult)
  moreover have "(n + (k - 1)) mod k \<le> k - 1" using assms mod_less_divisor [of k "n + (k - 1)"] by linarith
  ultimately show "n \<le> round_up k n" "round_up k n < n + k" using assms unfolding round_up_def by linarith+
  show "round_up k n mod k = 0" by (simp add: round_up_def)
qed

lemma round_up_unique: "0 < k \<Longrightarrow> n \<le> m \<Longrightarrow> m < n + k \<Longrightarrow> m mod k = 0 \<Longrightarrow> m = round_up k n"
proof -
  assume k: "0 < k" "n \<le> m" "m < n + k" "m mod k = 0"
  define q r where "q = m div k" and "r = round_up k n div k"
  have m: "m = q * k" "round_up k n = r * k" using k(4) round_up_bounds(3) [OF k(1), of n]
    unfolding q_def r_def minus_mod_eq_div_mult [symmetric] by simp_all
  have "q * k < (r + 1) * k" "r * k < (q + 1) * k"
    using k round_up_bounds(1,2) [OF k(1), of n] unfolding m [symmetric] add_mult_distrib by linarith+
  then have "q < r + 1" "r < q + 1" using k(1) mult_less_cancel2 by blast+
  then show ?thesis using m by simp
qed

lemma length_pad_zero: "0 < k \<Longrightarrow> length (pad_zero k b) = round_up k (length b)"
proof (rule round_up_unique)
  assume k: "0 < k"
  define r where "r = length b mod k"
  have "r < k" using k by (simp add: r_def)
  then have "(length b + (k - r) mod k) mod k = 0"
  proof (cases "r = 0")
    case False
    then have "(length b + (k - r)) mod k = (r + (k - r)) mod k" unfolding r_def by (metis mod_add_left_eq)
    with False \<open>r < k\<close> show ?thesis by simp
  qed (simp add: r_def)
  then show "length (pad_zero k b) mod k = 0" by (simp add: pad_zero_def r_def)
  show "length (pad_zero k b) < length b + k" using k by (simp add: pad_zero_def)
qed (simp_all add: pad_zero_def)

text \<open>What one image adds to the body.\<close>

definition blob :: "image \<Rightarrow> bytes" where
  "blob im = fatbin_entry im @ pad_zero 8 (image_payload im)"

lemma length_fatbin_entry [simp]: "length (fatbin_entry im) = 80"
  by (simp add: fatbin_entry_def)

lemma length_blob: "length (blob im) = 80 + round_up 8 (length (image_payload im))"
  by (simp add: blob_def length_pad_zero)

lemma append_image_blob: "length body mod 8 = 0 \<Longrightarrow> append_image im body = body @ blob im"
proof -
  assume "length body mod 8 = 0"
  then have "(length body + (80 + length (image_payload im))) mod 8 = length (image_payload im) mod 8" by presburger
  then show ?thesis by (simp add: append_image_def blob_def pad_zero_def add.assoc)
qed

lemma length_blob_mod: "length (blob im) mod 8 = 0"
  using round_up_bounds(3) [of 8 "length (image_payload im)"] by (simp add: length_blob) presburger

lemma fold_append_image: "length body mod 8 = 0 \<Longrightarrow> fold append_image images body = body @ concat (map blob images)"
proof (induction images arbitrary: body)
  case (Cons im images)
  have "(length body + length (blob im)) mod 8 = 0" using Cons.prems length_blob_mod [of im] by presburger
  with Cons show ?case by (simp add: append_image_blob)
qed simp

lemma read_entry_skip: "read_entry (pre @ d) (length pre) = read_entry d 0"
  using get_le_skip [of pre d 4] get_le_skip [of pre d 8] get_le_skip [of pre d 28]
  by (simp add: read_entry_def get_le_skip0)

lemma read_entry_blob:
  assumes "0 \<le> SM im" and "SM im < 2 ^ 32" and "length (image_payload im) < 2 ^ 63"
  shows "read_entry (blob im @ d) 0 = Some \<lparr>fe_kind = (if Kind im = PTX then 1 else 2), fe_headerSize = 80,
    fe_size = round_up 8 (length (image_payload im)), fe_arch = nat (SM im)\<rparr>"
proof -
  have "round_up 8 (length (image_payload im)) < 2 ^ 64"
    using round_up_bounds(2) [of 8 "length (image_payload im)"] assms(3) by simp
  moreover have "uintn 32 (SM im) = nat (SM im)" "nat (SM im) < 2 ^ 32" using assms(1,2) by (simp_all add: uintn_def nat_less_iff)
  ultimately show ?thesis by (simp add: read_entry_def blob_def fatbin_entry_def get_le_later)
qed

section \<open>The round trip of the fat binary\<close>

text \<open>
  The image the runtime is to pick: of the PTX images for the device's architecture or an
  older one, the first with the newest architecture.
\<close>

definition candidates :: "nat \<Rightarrow> image list \<Rightarrow> image list" where
  "candidates sm images = filter (\<lambda>im. Kind im = PTX \<and> SM im \<le> int sm) images"

definition newest :: "nat \<Rightarrow> image list \<Rightarrow> image option" where
  "newest sm images = find (\<lambda>im. \<forall>c\<in>set (candidates sm images). SM c \<le> SM im) (candidates sm images)"

definition scan_image :: "nat \<Rightarrow> image \<Rightarrow> image option \<Rightarrow> image option" where
  "scan_image sm im best =
     (if Kind im = PTX \<and> SM im \<le> int sm \<and> (case best of None \<Rightarrow> True | Some b \<Rightarrow> SM b < SM im) then Some im else best)"

lemma find_append: "find P (xs @ ys) = (case find P xs of None \<Rightarrow> find P ys | Some x \<Rightarrow> Some x)"
  by (induction xs) simp_all

lemma newest_snoc:
  "newest sm (images @ [im]) = scan_image sm im (newest sm images)"
proof (cases "Kind im = PTX \<and> SM im \<le> int sm")
  case True
  then have c: "candidates sm (images @ [im]) = candidates sm images @ [im]" by (simp add: candidates_def)
  show ?thesis
  proof (cases "newest sm images")
    case None
    then have "candidates sm images = []"
    proof -
      have "\<exists>b\<in>set cs. \<forall>c\<in>set cs. SM c \<le> SM b" if "cs \<noteq> []" for cs :: "image list"
      proof -
        have "Max (SM ` set cs) \<in> SM ` set cs" using that by (intro Max_in) simp_all
        then obtain b where "b \<in> set cs" "SM b = Max (SM ` set cs)" by auto
        moreover have "\<forall>c\<in>set cs. SM c \<le> Max (SM ` set cs)" by simp
        ultimately show ?thesis by metis
      qed
      with None show ?thesis unfolding newest_def find_None_iff by blast
    qed
    with True None c show ?thesis by (simp add: newest_def scan_image_def candidates_def)
  next
    case (Some b)
    then have b: "b \<in> set (candidates sm images)" "\<forall>c\<in>set (candidates sm images). SM c \<le> SM b"
      unfolding newest_def find_Some_iff by auto
    show ?thesis
    proof (cases "SM b < SM im")
      case True
      then have "\<forall>c\<in>set (candidates sm images). \<not> SM im \<le> SM c" using b(2) by force
      then have "find (\<lambda>i. \<forall>c\<in>set (candidates sm (images @ [im])). SM c \<le> SM i) (candidates sm images) = None"
        unfolding find_None_iff c by auto
      with True \<open>Kind im = PTX \<and> _\<close> Some b c show ?thesis by (auto simp: newest_def scan_image_def find_append)
    next
      case False
      then have eq: "(\<lambda>i. \<forall>c\<in>set (candidates sm (images @ [im])). SM c \<le> SM i) = (\<lambda>i. \<forall>c\<in>set (candidates sm images). SM c \<le> SM i)"
        using b c by (intro ext) fastforce
      have "find (\<lambda>i. \<forall>c\<in>set (candidates sm (images @ [im])). SM c \<le> SM i) (candidates sm images) = Some b"
        using Some unfolding newest_def eq .
      then have "newest sm (images @ [im]) = Some b" unfolding newest_def c find_append by simp
      with False Some show ?thesis by (simp add: scan_image_def)
    qed
  qed
next
  case False
  then have "candidates sm (images @ [im]) = candidates sm images" by (auto simp: candidates_def)
  with False show ?thesis by (auto simp: newest_def scan_image_def)
qed

lemma fold_newest: "fold (scan_image sm) images None = newest sm images"
  by (induction images rule: rev_induct) (simp_all add: newest_snoc, simp add: newest_def candidates_def)

definition image_ok :: "image \<Rightarrow> bool" where
  "image_ok im \<longleftrightarrow> 0 \<le> SM im \<and> SM im < 2 ^ 32 \<and> length (image_payload im) < 2 ^ 63"

text \<open>The variables best and bestArch stand for the image b.\<close>

definition located :: "bytes \<Rightarrow> nat option \<Rightarrow> nat \<Rightarrow> image option \<Rightarrow> bool" where
  "located d best bestArch b \<longleftrightarrow>
     (case b of None \<Rightarrow> best = None
      | Some im \<Rightarrow> 0 \<le> SM im \<and> bestArch = nat (SM im) \<and> (\<exists>off rest. best = Some off \<and> drop off d = Data im @ 0 # rest))"

lemma better_scan:
  assumes "located d best bestArch b" and "image_ok im"
    and "fe_kind e = (if Kind im = PTX then 1 else 2)" and "fe_arch e = nat (SM im)"
  shows "scan_image sm im b = (if better sm e best bestArch then Some im else b)"
proof (cases b)
  case None
  with assms show ?thesis by (simp add: located_def better_def scan_image_def image_ok_def nat_le_iff)
next
  case (Some im')
  with assms have "best \<noteq> None" "bestArch < fe_arch e \<longleftrightarrow> SM im' < SM im"
    unfolding located_def image_ok_def by (auto simp: nat_less_eq_zless)
  with Some assms show ?thesis by (auto simp: better_def scan_image_def image_ok_def nat_le_iff)
qed

lemma located_blob:
  assumes "better sm e best bestArch" and "fe_kind e = (if Kind im = PTX then 1 else 2)" and "image_ok im"
  shows "located (pre @ blob im @ d) (Some (length pre + 80)) (nat (SM im)) (Some im)"
proof -
  have "Kind im = PTX" using assms(1,2) unfolding better_def by (cases "Kind im") simp_all
  moreover define zs :: bytes where "zs = replicate ((8 - length (image_payload im) mod 8) mod 8) 0"
  moreover have "drop (length pre + 80) (pre @ blob im @ d) = image_payload im @ zs @ d"
    by (simp add: blob_def pad_zero_def zs_def)
  ultimately have "drop (length pre + 80) (pre @ blob im @ d) = Data im @ 0 # (zs @ d)"
    by (simp add: image_payload_def)
  with assms(3) show ?thesis by (simp only: located_def image_ok_def option.case) blast
qed

lemma find_loop_blobs:
  assumes "\<And>im. im \<in> set images \<Longrightarrow> image_ok im" and "located (pre @ concat (map blob images)) best bestArch b"
  shows "\<exists>best' bestArch'. find_loop (pre @ concat (map blob images)) sm (length (pre @ concat (map blob images))) (length pre) best bestArch
      = Some best' \<and> located (pre @ concat (map blob images)) best' bestArch' (fold (scan_image sm) images b)"
  using assms
proof (induction images arbitrary: pre best bestArch b)
  case Nil
  then show ?case by (subst find_loop.simps) auto
next
  case (Cons im images)
  define d where "d = concat (map blob images)"
  define e where "e = \<lparr>fe_kind = (if Kind im = PTX then 1 else 2), fe_headerSize = 80,
    fe_size = round_up 8 (length (image_payload im)), fe_arch = nat (SM im)\<rparr>"
  have ok: "image_ok im" using Cons.prems(1) by simp
  have read: "read_entry (pre @ blob im @ d) (length pre) = Some e"
    unfolding read_entry_skip e_def using ok by (intro read_entry_blob) (simp_all add: image_ok_def)
  have step: "(80 + fe_size e) mod 2 ^ 64 = length (blob im)"
    using ok round_up_bounds(2) [of 8 "length (image_payload im)"] by (simp add: e_def length_blob image_ok_def)
  have fields: "fe_headerSize e = 80" "fe_arch e = nat (SM im)" by (simp_all add: e_def)
  have inside: "(length pre + 64 \<le> length (pre @ blob im @ d)) = True" by (simp add: length_blob)
  let ?best = "if better sm e best bestArch then Some (length pre + 80) else best"
  let ?arch = "if better sm e best bestArch then nat (SM im) else bestArch"
  have loc: "located (pre @ blob im @ d) ?best ?arch (scan_image sm im b)"
    using Cons.prems(2) better_scan [OF Cons.prems(2) ok, of e sm] located_blob [OF _ _ ok, of sm e best bestArch pre d]
    by (simp add: e_def d_def)
  have "find_loop (pre @ blob im @ d) sm (length (pre @ blob im @ d)) (length pre) best bestArch =
      find_loop (pre @ blob im @ d) sm (length (pre @ blob im @ d)) (length pre + length (blob im)) ?best ?arch"
    by (cases "better sm e best bestArch"; subst find_loop.simps;
        simp only: inside if_True if_False read bind.bind_lunit Let_def step fields)
  with Cons.IH [of "pre @ blob im" ?best ?arch "scan_image sm im b"] Cons.prems(1) loc show ?case
    unfolding d_def by simp
qed

lemma findImage_newest:
  assumes "\<And>im. im \<in> set images \<Longrightarrow> image_ok im" and "length (Fatbin images) < 2 ^ 64"
  shows "\<exists>best bestArch. findImage (Fatbin images) sm = Some best \<and> located (Fatbin images) best bestArch (newest sm images)"
proof -
  define hd where "hd = put_le 4 0xBA55ED50 @ put_le 2 1 @ put_le 2 16 @ put_le 8 (length (concat (map blob images)))"
  have hd: "length hd = 16" by (simp add: hd_def)
  have F: "Fatbin images = hd @ concat (map blob images)"
    by (simp add: Fatbin_def fold_append_image hd_def Let_def)
  have "findImage (Fatbin images) sm =
      find_loop (hd @ concat (map blob images)) sm (length (hd @ concat (map blob images))) (length hd) None 0"
    using assms(2) hd unfolding F
    by (simp add: findImage_def get_le_later, simp add: hd_def get_le_later)
  moreover have "located (hd @ concat (map blob images)) None 0 None" by (simp add: located_def)
  ultimately show ?thesis
    using find_loop_blobs [of images hd None 0 None sm] assms(1) unfolding F fold_newest by simp
qed

text \<open>
  C3. Round trip of the fat binary: in the container that the compiler writes for any list of
  device images, the runtime's search ends and finds the right image for every device: none when
  no PTX image is for the device's architecture or an older one, and otherwise the place of the
  first of the images with the newest such architecture, where the image's text stands unchanged
  and ends in the zero byte that the driver's parser needs.
\<close>
theorem fatbin_round_trip:
  assumes "\<forall>im\<in>set images. image_ok im" and "length (Fatbin images) < 2 ^ 64"
  shows "case newest sm images of None \<Rightarrow> findImage (Fatbin images) sm = Some None
    | Some im \<Rightarrow> im \<in> set images \<and> Kind im = PTX \<and> SM im \<le> int sm \<and>
        (\<forall>im'\<in>set images. Kind im' = PTX \<and> SM im' \<le> int sm \<longrightarrow> SM im' \<le> SM im) \<and>
        (\<exists>off rest. findImage (Fatbin images) sm = Some (Some off) \<and> drop off (Fatbin images) = Data im @ 0 # rest)"
proof -
  have "im \<in> set (candidates sm images) \<and> (\<forall>c\<in>set (candidates sm images). SM c \<le> SM im)" if "newest sm images = Some im" for im
    using that unfolding newest_def find_Some_iff by auto
  with findImage_newest [of images sm] assms show ?thesis
    by (cases "newest sm images") (auto simp: located_def candidates_def)
qed

definition sample_image :: "image_kind \<Rightarrow> int \<Rightarrow> bytes \<Rightarrow> image" where
  "sample_image k sm d = \<lparr>Kind = k, Arch = ''sm'', SM = sm, ISAMajor = 7, ISAMinor = 8, Data = d, Host = ''linux''\<rparr>"

theorem fatbin_round_trip_witness:
  "newest 86 [sample_image PTX 75 [65], sample_image ELF 86 [67], sample_image PTX 90 [66]] = Some (sample_image PTX 75 [65]) \<and>
   (\<exists>off rest. findImage (Fatbin [sample_image PTX 75 [65], sample_image ELF 86 [67], sample_image PTX 90 [66]]) 86 = Some (Some off) \<and>
      drop off (Fatbin [sample_image PTX 75 [65], sample_image ELF 86 [67], sample_image PTX 90 [66]]) = 65 # 0 # rest)"
  using fatbin_round_trip [of "[sample_image PTX 75 [65], sample_image ELF 86 [67], sample_image PTX 90 [66]]" 86]
  by (simp add: sample_image_def image_ok_def image_payload_def newest_def candidates_def Fatbin_def append_image_def
      fold_append_image pad_zero_def Let_def)

section \<open>The layout of the HIP bundle\<close>

text \<open>
  A reader of the format the comment on \<open>bundleMagic\<close> describes: the magic, the entry count, for
  each entry the offset and size of its image and the length and text of its target id. It
  returns the id, the offset and the image of every entry.
\<close>

fun read_entries :: "nat \<Rightarrow> bytes \<Rightarrow> nat \<Rightarrow> (bytes \<times> nat \<times> bytes) list option" where
  "read_entries 0 d p = Some []"
| "read_entries (Suc n) d p =
     do { off \<leftarrow> get_le d p 8; size \<leftarrow> get_le d (p + 8) 8; k \<leftarrow> get_le d (p + 16) 8;
          if p + 24 + k \<le> length d \<and> off + size \<le> length d
          then do { r \<leftarrow> read_entries n d (p + 24 + k); Some ((take k (drop (p + 24) d), off, take size (drop off d)) # r) }
          else None }"

definition read_bundle :: "bytes \<Rightarrow> (bytes \<times> nat \<times> bytes) list option" where
  "read_bundle d =
     (if take 24 d = go_bytes ''__CLANG_OFFLOAD_BUNDLE__'' then do { n \<leftarrow> get_le d 24 8; read_entries n d 32 } else None)"

lemma bundle_images_prefix: "\<exists>zs. bundle_images out places entries = out @ zs"
proof (induction out places entries rule: bundle_images.induct)
  case (1 out off places i d entries)
  then show ?case by auto
qed simp_all

definition placed :: "bytes \<Rightarrow> nat \<Rightarrow> string \<times> bytes \<Rightarrow> bool" where
  "placed D off e \<longleftrightarrow> off mod 4096 = 0 \<and> off + length (snd e) \<le> length D \<and> take (length (snd e)) (drop off D) = snd e"

lemma placed_append: "placed D off e \<Longrightarrow> placed (D @ zs) off e"
  by (simp add: placed_def)

lemma bundle_images_placed:
  assumes "snd (bundle_table off entries) = places" and "length out \<le> off" and "off mod 4096 = 0"
  shows "list_all2 (placed (bundle_images out places entries)) places entries"
  using assms
proof (induction entries arbitrary: off places out)
  case (Cons e entries)
  obtain i d where e: "e = (i, d)" by (cases e)
  define next_off where "next_off = off + round_up 4096 (length d)"
  define out' where "out' = out @ replicate (off - length out) 0 @ d"
  obtain places' where p: "places = off # places'" "snd (bundle_table next_off entries) = places'"
    using Cons.prems(1) by (auto simp: e next_off_def Let_def split: prod.splits)
  have "length out' \<le> next_off" using Cons.prems(2) round_up_bounds(1) [of 4096 "length d"] by (simp add: out'_def next_off_def)
  moreover have "next_off mod 4096 = 0"
    using Cons.prems(3) round_up_bounds(3) [of 4096 "length d"]
    unfolding next_off_def mod_eq_0_iff_dvd by (intro dvd_add) simp_all
  ultimately have "list_all2 (placed (bundle_images out' places' entries)) places' entries" by (intro Cons.IH [OF p(2)])
  moreover have "placed (bundle_images out' places' entries) off e"
  proof -
    obtain zs where "bundle_images out' places' entries = out' @ zs" using bundle_images_prefix by blast
    moreover have "placed out' off e" using Cons.prems(2,3) by (simp add: placed_def out'_def e)
    ultimately show ?thesis by (simp add: placed_append)
  qed
  ultimately show ?case by (simp add: p e out'_def)
qed simp

lemma read_entries_table:
  assumes "bundle_table off entries = (table, places)" and "D = pre @ table @ post"
    and "list_all2 (placed D) places entries" and "length D < 2 ^ 64"
  shows "\<exists>r. read_entries (length entries) D (length pre) = Some r \<and>
    map (\<lambda>(i, off, d). (i, d)) r = map (\<lambda>(i, d). (go_bytes i, d)) entries \<and> (\<forall>(i, off, d)\<in>set r. off mod 4096 = 0)"
  using assms
proof (induction entries arbitrary: off table places pre)
  case (Cons e entries)
  obtain i d where e: "e = (i, d)" by (cases e)
  obtain table' places' where t: "bundle_table (off + round_up 4096 (length d)) entries = (table', places')" by fastforce
  have table: "table = put_le 8 off @ put_le 8 (length d) @ put_le 8 (length i) @ go_bytes i @ table'" "places = off # places'"
    using Cons.prems(1) by (simp_all add: e t)
  define pre' where "pre' = pre @ put_le 8 off @ put_le 8 (length d) @ put_le 8 (length i) @ go_bytes i"
  have D: "D = pre' @ table' @ post" using Cons.prems(2) by (simp add: table pre'_def)
  have pl: "placed D off (i, d)" "list_all2 (placed D) places' entries" using Cons.prems(3) by (simp_all add: table e)
  have len: "length pre' = length pre + 24 + length i" by (simp add: pre'_def go_bytes_def)
  have small: "off < 2 ^ 64" "length d < 2 ^ 64" "length i < 2 ^ 64" "off + length d \<le> length D" "length pre' \<le> length D"
    using pl(1) Cons.prems(4) len unfolding placed_def D by auto
  obtain r where r: "read_entries (length entries) D (length pre') = Some r"
      "map (\<lambda>(i, off, d). (i, d)) r = map (\<lambda>(i, d). (go_bytes i, d)) entries" "\<forall>(i, off, d)\<in>set r. off mod 4096 = 0"
    using Cons.IH [OF t D pl(2) Cons.prems(4)] by blast
  have f: "get_le D (length pre) 8 = Some off" "get_le D (length pre + 8) 8 = Some (length d)"
      "get_le D (length pre + 16) 8 = Some (length i)" "take (length i) (drop (length pre + 24) D) = go_bytes i"
    using small(1-3) unfolding Cons.prems(2) table by (simp_all add: get_le_skip0 get_le_skip get_le_later) (simp add: go_bytes_def)
  have "read_entries (length (e # entries)) D (length pre) = Some ((go_bytes i, off, d) # r)"
    using small(4,5) r(1) f pl(1) len by (simp add: placed_def)
  then show ?case using r(2,3) pl(1) by (simp add: e placed_def)
qed simp

lemma bundle_table_length:
  "bundle_table off entries = (table, places) \<Longrightarrow> length table = (\<Sum>e\<leftarrow>entries. 8 + 8 + 8 + length (fst e)) \<and> length places = length entries"
proof (induction entries arbitrary: off table places)
  case (Cons e entries)
  obtain i d table' places' where e: "e = (i, d)" "bundle_table (off + round_up 4096 (length d)) entries = (table', places')"
    by (cases e) fastforce
  with Cons show ?case by (auto simp: go_bytes_def)
qed simp

text \<open>
  C7. Round trip of the HIP bundle: a reader of the offload bundle format gets back from \<open>Bundle\<close>
  exactly the entries that were put in, the host entry first and then one entry with the target id
  and the unchanged bytes of each image, in order, and every image lies at a multiple of 4096; in
  particular the header size that places the first image is the length of the table.
\<close>
theorem bundle_round_trip:
  assumes "length (Bundle images) < 2 ^ 64"
  shows "\<exists>r. read_bundle (Bundle images) = Some r \<and>
    map (\<lambda>(i, off, d). (i, d)) r = (go_bytes ''host-x86_64-unknown-linux-gnu'', []) #
      map (\<lambda>im. (go_bytes (''hipv4-amdgcn-amd-amdhsa--'' @ Arch im), Data im)) images \<and>
    (\<forall>(i, off, d)\<in>set r. off mod 4096 = 0)"
proof -
  define entries where "entries = bundle_entries images"
  define off where "off = round_up 4096 (bundle_header entries)"
  obtain table places where t: "bundle_table off entries = (table, places)" by fastforce
  define pre where "pre = go_bytes bundleMagic @ put_le 8 (length entries)"
  have pre: "length pre = 32" by (simp add: pre_def go_bytes_def bundleMagic_def)
  have "length (pre @ table) \<le> off"
    using round_up_bounds(1) [of 4096 "bundle_header entries"] bundle_table_length [OF t] pre
    by (simp add: off_def bundle_header_def bundleMagic_def)
  moreover have "off mod 4096 = 0" unfolding off_def by (rule round_up_bounds) simp
  ultimately have images: "list_all2 (placed (bundle_images (pre @ table) places entries)) places entries"
    using t by (intro bundle_images_placed [where off = off]) simp_all
  obtain zs where zs: "bundle_images (pre @ table) places entries = pre @ table @ zs"
    using bundle_images_prefix [of "pre @ table"] by (metis append_assoc)
  define post where "post = zs @ replicate ((4096 - length (pre @ table @ zs) mod 4096) mod 4096) 0"
  have B: "Bundle images = pre @ table @ post"
    using zs t by (simp add: Bundle_def entries_def [symmetric] off_def [symmetric] pre_def pad_zero_def post_def Let_def)
  have "list_all2 (placed (Bundle images)) places entries"
    using images unfolding zs B post_def by (rule list_all2_mono) (metis placed_append append_assoc)
  from read_entries_table [OF t B this assms] obtain r where r: "read_entries (length entries) (Bundle images) 32 = Some r"
      "map (\<lambda>(i, off, d). (i, d)) r = map (\<lambda>(i, d). (go_bytes i, d)) entries" "\<forall>(i, off, d)\<in>set r. off mod 4096 = 0"
    unfolding pre by blast
  have "length es \<le> (\<Sum>e\<leftarrow>es. 8 + 8 + 8 + length (fst e))" for es :: "(string \<times> bytes) list" by (induction es) simp_all
  then have "length entries \<le> length table" using bundle_table_length [OF t] by simp
  then have "length entries < 2 ^ 64" using assms unfolding B by simp
  then have "read_bundle (Bundle images) = Some r"
  proof -
    have m: "length (go_bytes bundleMagic) = 24" by (simp add: go_bytes_def bundleMagic_def)
    have "get_le (Bundle images) 24 8 = Some (length entries)" "take 24 (Bundle images) = go_bytes bundleMagic"
      using get_le_skip0 [of "go_bytes bundleMagic"] m \<open>length entries < 2 ^ 64\<close> unfolding B pre_def by simp_all
    with r(1) show ?thesis unfolding read_bundle_def bundleMagic_def [symmetric] by simp
  qed
  moreover have "map (\<lambda>(i, d). (go_bytes i, d)) entries = (go_bytes ''host-x86_64-unknown-linux-gnu'', []) #
      map (\<lambda>im. (go_bytes (''hipv4-amdgcn-amd-amdhsa--'' @ Arch im), Data im)) images"
    by (simp add: entries_def bundle_entries_def)
  ultimately show ?thesis using r(2,3) by auto
qed

theorem bundle_round_trip_witness:
  "\<exists>r. read_bundle (Bundle [sample_image ELF 0 [7, 9]]) = Some r \<and>
    map (\<lambda>(i, off, d). (i, d)) r =
      [(go_bytes ''host-x86_64-unknown-linux-gnu'', []), (go_bytes ''hipv4-amdgcn-amd-amdhsa--sm'', [7, 9])]"
  using bundle_round_trip [of "[sample_image ELF 0 [7, 9]]"]
  by (auto simp: Bundle_def bundle_entries_def bundle_header_def bundleMagic_def sample_image_def round_up_def pad_zero_def
      go_bytes_def Let_def)

end
