(* ===== verification/CudaRuntime.thy ===== *)
theory CudaRuntime
  imports OffloadFatbin
begin

text \<open>
  The CUDA runtime of \<open>runtime/cuda/vcx_cudart.cpp\<close>, which a program built without a toolkit
  links: registration of fat binaries, kernels and variables, the stack of launch
  configurations, lazy loading of modules, launches, memory, devices, streams and events over
  the driver. The driver is not part of the sources: it is a record of functions on a state of
  its own and the host memory, each of them possibly missing from the library. The static
  variables of the file are a record. Every operation returns None where the C++ program has
  undefined behaviour (a call through a null pointer, a null or dangling object, a read outside
  a container, a copy outside of the objects of the host or between overlapping ones, a signed
  overflow) or does not end. The host memory maps the addresses of the program's objects to their
  bytes; whether an object is const is not tracked. Output parameters are results, and what
  calloc gives is an argument of the call.
\<close>

section \<open>The driver\<close>

type_synonym CUresult = int
type_synonym memory = "nat \<rightharpoonup> u8"
type_synonym ('s, 'r) op = "'s \<times> memory \<Rightarrow> 'r \<times> 's \<times> memory"

text \<open>
  The function pointers of the struct. A pointer the function writes through is an option in
  its result, None when it was left alone. Handles are numbers, 0 the null one.
\<close>

datatype (plugins only: size) 's driver = Driver
  (Init: "(('s, CUresult) op) option")
  (DeviceGetCount: "(('s, CUresult \<times> int option) op) option")
  (DeviceGet: "(int \<Rightarrow> ('s, CUresult \<times> int option) op) option")
  (DeviceGetName: "(nat \<Rightarrow> int \<Rightarrow> ('s, CUresult \<times> string option) op) option")
  (DeviceGetAttribute: "(int \<Rightarrow> int \<Rightarrow> ('s, CUresult \<times> int option) op) option")
  (DeviceTotalMem: "(int \<Rightarrow> ('s, CUresult \<times> u64 option) op) option")
  (DevicePrimaryCtxRetain: "(int \<Rightarrow> ('s, CUresult \<times> nat option) op) option")
  (CtxSetCurrent: "(nat \<Rightarrow> ('s, CUresult) op) option")
  (CtxSynchronize: "(('s, CUresult) op) option")
  (ModuleLoadDataEx: "(bytes \<Rightarrow> ('s, CUresult \<times> nat option) op) option")
  (ModuleUnload: "(nat \<Rightarrow> ('s, CUresult) op) option")
  (ModuleGetFunction: "(nat \<Rightarrow> string \<Rightarrow> ('s, CUresult \<times> nat option) op) option")
  (ModuleGetGlobal: "(nat \<Rightarrow> string \<Rightarrow> ('s, CUresult \<times> (u64 \<times> u64) option) op) option")
  (MemAlloc: "(u64 \<Rightarrow> ('s, CUresult \<times> u64 option) op) option")
  (MemAllocHost: "(u64 \<Rightarrow> ('s, CUresult \<times> nat option) op) option")
  (MemAllocManaged: "(u64 \<Rightarrow> u32 \<Rightarrow> ('s, CUresult \<times> u64 option) op) option")
  (MemFree: "(u64 \<Rightarrow> ('s, CUresult) op) option")
  (MemFreeHost: "(u64 \<Rightarrow> ('s, CUresult) op) option")
  (MemcpyHtoD: "(u64 \<Rightarrow> u64 \<Rightarrow> u64 \<Rightarrow> ('s, CUresult) op) option")
  (MemcpyDtoH: "(u64 \<Rightarrow> u64 \<Rightarrow> u64 \<Rightarrow> ('s, CUresult) op) option")
  (MemcpyDtoD: "(u64 \<Rightarrow> u64 \<Rightarrow> u64 \<Rightarrow> ('s, CUresult) op) option")
  (MemcpyHtoDAsync: "(u64 \<Rightarrow> u64 \<Rightarrow> u64 \<Rightarrow> nat \<Rightarrow> ('s, CUresult) op) option")
  (MemcpyDtoHAsync: "(u64 \<Rightarrow> u64 \<Rightarrow> u64 \<Rightarrow> nat \<Rightarrow> ('s, CUresult) op) option")
  (MemcpyDtoDAsync: "(u64 \<Rightarrow> u64 \<Rightarrow> u64 \<Rightarrow> nat \<Rightarrow> ('s, CUresult) op) option")
  (MemsetD8: "(u64 \<Rightarrow> u8 \<Rightarrow> u64 \<Rightarrow> ('s, CUresult) op) option")
  (LaunchKernel: "(nat \<Rightarrow> u32 list \<Rightarrow> u32 \<Rightarrow> nat \<Rightarrow> nat \<Rightarrow> ('s, CUresult) op) option")
  (StreamCreate: "(('s, CUresult \<times> nat option) op) option")
  (StreamDestroy: "(nat \<Rightarrow> ('s, CUresult) op) option")
  (StreamSynchronize: "(nat \<Rightarrow> ('s, CUresult) op) option")
  (EventCreate: "(('s, CUresult \<times> nat option) op) option")
  (EventDestroy: "(nat \<Rightarrow> ('s, CUresult) op) option")
  (EventRecord: "(nat \<Rightarrow> nat \<Rightarrow> ('s, CUresult) op) option")
  (EventSynchronize: "(nat \<Rightarrow> ('s, CUresult) op) option")
  (EventElapsedTime: "(nat \<Rightarrow> nat \<Rightarrow> ('s, CUresult \<times> nat option) op) option")

section \<open>State\<close>

datatype cudaError = cudaSuccess | cudaErrorInvalidValue | cudaErrorMemoryAllocation | cudaErrorInitializationError
  | cudaErrorInvalidConfiguration | cudaErrorInvalidDevice | cudaErrorNoDevice | cudaErrorInvalidDeviceFunction
  | cudaErrorLaunchFailure | cudaErrorUnknown

datatype cudaMemcpyKind = cudaMemcpyHostToHost | cudaMemcpyHostToDevice | cudaMemcpyDeviceToHost | cudaMemcpyDeviceToDevice
  | cudaMemcpyDefault

record FatbinWrapper =
  w_magic :: nat
  w_data :: bytes

record Fatbin_object =
  wrapper :: "FatbinWrapper option"
  cumodule :: nat
  loadFailed :: bool

record Kernel =
  hostFun :: nat
  k_deviceName :: string
  k_fatbin :: "nat option"
  cufunction :: nat

record Var =
  hostVar :: nat
  v_deviceName :: string
  v_fatbin :: "nat option"
  v_size :: u64

record Config =
  dims :: "u32 list"
  shmem :: u64
  c_stream :: nat

text \<open>The static variables, the loaded driver, and the state the driver works on.\<close>

record 's runtime =
  loaded :: int
  drv :: "'s driver"
  lastError :: cudaError
  cucontext :: nat
  device :: int
  deviceOrdinal :: int
  contextReady :: bool
  fatbins :: "Fatbin_object list"
  kernels :: "Kernel list"
  vars :: "Var list"
  configs :: "Config list"
  gpu :: "'s \<times> memory"

definition null_driver :: "'s driver" where
  "null_driver = Driver None None None None None None None None None None None None None None None None None None None None None None None None None None None None None None None None None None"

definition initial :: "'s \<times> memory \<Rightarrow> 's runtime" where
  "initial w = \<lparr>loaded = 0, drv = null_driver, lastError = cudaSuccess, cucontext = 0, device = 0, deviceOrdinal = 0,
     contextReady = False, fatbins = [], kernels = [], vars = [], configs = [], gpu = w\<rparr>"

text \<open>Calls through a function pointer, and what a variable holds after a call that may have written it.\<close>

definition call :: "('s, 'r) op option \<Rightarrow> 's runtime \<Rightarrow> ('r \<times> 's runtime) option" where
  "call f s = (case f of None \<Rightarrow> None | Some g \<Rightarrow> (case g (gpu s) of (r, w) \<Rightarrow> Some (r, s\<lparr>gpu := w\<rparr>)))"

definition written :: "'a \<Rightarrow> 'a option \<Rightarrow> 'a" where
  "written old out = (case out of None \<Rightarrow> old | Some x \<Rightarrow> x)"

text \<open>\<open>dlopen\<close> gives the library or nothing; its symbols are the fields of the record.\<close>

definition loadDriver :: "'s driver option \<Rightarrow> 's runtime \<Rightarrow> bool \<times> 's runtime" where
  "loadDriver lib s =
     (if loaded s \<noteq> 0 then (0 < loaded s, s)
      else case lib of
          None \<Rightarrow> (False, s\<lparr>loaded := - 1\<rparr>)
        | Some d \<Rightarrow> let s = s\<lparr>drv := d, loaded := (if Init d \<noteq> None \<and> LaunchKernel d \<noteq> None then 1 else - 1)\<rparr>
                    in (0 < loaded s, s))"

section \<open>Errors\<close>

definition fromDriver :: "CUresult \<Rightarrow> cudaError" where
  "fromDriver r =
     (if r = 0 then cudaSuccess else if r = 1 then cudaErrorInvalidValue else if r = 2 then cudaErrorMemoryAllocation
      else if r = 3 then cudaErrorInitializationError else if r = 100 then cudaErrorNoDevice
      else if r = 101 then cudaErrorInvalidDevice else if r = 500 then cudaErrorInvalidDeviceFunction
      else if r = 700 \<or> r = 719 then cudaErrorLaunchFailure else cudaErrorUnknown)"

definition fail :: "cudaError \<Rightarrow> 's runtime \<Rightarrow> cudaError \<times> 's runtime" where
  "fail e s = (e, if e \<noteq> cudaSuccess then s\<lparr>lastError := e\<rparr> else s)"

definition check :: "CUresult \<Rightarrow> 's runtime \<Rightarrow> cudaError \<times> 's runtime" where
  "check r s = fail (fromDriver r) s"

section \<open>The context\<close>

definition ensureContext :: "'s driver option \<Rightarrow> 's runtime \<Rightarrow> (cudaError \<times> 's runtime) option" where
  "ensureContext lib s =
     (if contextReady s then Some (cudaSuccess, s)
      else let (ok, s) = loadDriver lib s in
        if \<not> ok then Some (fail cudaErrorNoDevice s)
        else do {
          (r, s) \<leftarrow> call (Init (drv s)) s;
          if r \<noteq> 0 then Some (check r s)
          else do {
            ((r, c), s) \<leftarrow> call (DeviceGetCount (drv s)) s;
            if r \<noteq> 0 then Some (check r s)
            else if written 0 c \<le> 0 \<or> written 0 c \<le> deviceOrdinal s then Some (fail cudaErrorNoDevice s)
            else do {
              ((r, d), s) \<leftarrow> call (map_option (\<lambda>f. f (deviceOrdinal s)) (DeviceGet (drv s))) s;
              let s = s\<lparr>device := written (device s) d\<rparr>;
              if r \<noteq> 0 then Some (check r s)
              else do {
                ((r, c), s) \<leftarrow> call (map_option (\<lambda>f. f (device s)) (DevicePrimaryCtxRetain (drv s))) s;
                let s = s\<lparr>cucontext := written (cucontext s) c\<rparr>;
                if r \<noteq> 0 then Some (check r s)
                else do {
                  (r, s) \<leftarrow> call (map_option (\<lambda>f. f (cucontext s)) (CtxSetCurrent (drv s))) s;
                  if r \<noteq> 0 then Some (check r s) else Some (cudaSuccess, s\<lparr>contextReady := True\<rparr>) }}}}})"

section \<open>Modules and lookups\<close>

text \<open>A device attribute, kept at its old value when the driver does not write it; the result code is ignored.\<close>

definition attribute :: "int \<Rightarrow> int \<Rightarrow> int \<Rightarrow> 's runtime \<Rightarrow> (int \<times> 's runtime) option" where
  "attribute old a d s =
     do { ((r, v), s) \<leftarrow> call (map_option (\<lambda>f. f a d) (DeviceGetAttribute (drv s))) s; Some (written old v, s) }"

definition wrapperMagic :: nat where
  "wrapperMagic = 0x466243B1"

definition image_of :: "FatbinWrapper option \<Rightarrow> nat \<Rightarrow> nat option option" where
  "image_of w sm = (case w of None \<Rightarrow> Some None | Some w \<Rightarrow> if w_magic w = wrapperMagic then findImage (w_data w) sm else Some None)"

definition loadModule :: "'s driver option \<Rightarrow> nat option \<Rightarrow> 's runtime \<Rightarrow> (cudaError \<times> 's runtime) option" where
  "loadModule lib h s =
     (case h of None \<Rightarrow> None
      | Some i \<Rightarrow>
        if length (fatbins s) \<le> i then None
        else if cumodule (fatbins s ! i) \<noteq> 0 then Some (cudaSuccess, s)
        else if loadFailed (fatbins s ! i) then Some (fail cudaErrorInvalidDeviceFunction s)
        else do {
          (e, s) \<leftarrow> ensureContext lib s;
          if e \<noteq> cudaSuccess then Some (e, s)
          else do {
            (major, s) \<leftarrow> attribute 0 75 (device s) s;
            (minor, s) \<leftarrow> attribute 0 76 (device s) s;
            m10 \<leftarrow> int32 (major * 10);
            sm \<leftarrow> int32 (m10 + minor);
            image \<leftarrow> image_of (wrapper (fatbins s ! i)) (nat (uint32 sm));
            case image of
              None \<Rightarrow> Some (fail cudaErrorInvalidDeviceFunction
                (s\<lparr>fatbins := (fatbins s)[i := (fatbins s ! i)\<lparr>loadFailed := True\<rparr>]\<rparr>))
            | Some off \<Rightarrow> do {
                let d = (case wrapper (fatbins s ! i) of None \<Rightarrow> [] | Some w \<Rightarrow> drop off (w_data w));
                ((r, m), s) \<leftarrow> call (map_option (\<lambda>f. f d) (ModuleLoadDataEx (drv s))) s;
                let fb = (fatbins s ! i)\<lparr>cumodule := written (cumodule (fatbins s ! i)) m\<rparr>;
                if r \<noteq> 0 then Some (check r (s\<lparr>fatbins := (fatbins s)[i := fb\<lparr>loadFailed := True\<rparr>]\<rparr>))
                else Some (cudaSuccess, s\<lparr>fatbins := (fatbins s)[i := fb]\<rparr>) }}})"

fun first_index :: "('a \<Rightarrow> bool) \<Rightarrow> 'a list \<Rightarrow> nat option" where
  "first_index P [] = None"
| "first_index P (x # xs) = (if P x then Some 0 else map_option Suc (first_index P xs))"

definition findKernel :: "nat \<Rightarrow> 's runtime \<Rightarrow> nat option" where
  "findKernel f s = first_index (\<lambda>k. hostFun k = f) (kernels s)"

definition findVar :: "nat \<Rightarrow> 's runtime \<Rightarrow> nat option" where
  "findVar v s = first_index (\<lambda>x. hostVar x = v) (vars s)"

text \<open>The functions below return the error, what was written to the output parameters, and the state.\<close>

type_synonym ('s, 'o) result = "(cudaError \<times> 'o option \<times> 's runtime) option"

definition functionOf :: "'s driver option \<Rightarrow> nat \<Rightarrow> 's runtime \<Rightarrow> ('s, nat) result" where
  "functionOf lib k s =
     (if cufunction (kernels s ! k) \<noteq> 0 then Some (cudaSuccess, Some (cufunction (kernels s ! k)), s)
      else do {
        (e, s) \<leftarrow> loadModule lib (k_fatbin (kernels s ! k)) s;
        if e \<noteq> cudaSuccess then Some (e, None, s)
        else do {
          let m = (case k_fatbin (kernels s ! k) of None \<Rightarrow> 0 | Some i \<Rightarrow> cumodule (fatbins s ! i));
          ((r, f), s) \<leftarrow> call (map_option (\<lambda>g. g m (k_deviceName (kernels s ! k))) (ModuleGetFunction (drv s))) s;
          let kn = (kernels s ! k)\<lparr>cufunction := written (cufunction (kernels s ! k)) f\<rparr>;
          let s = s\<lparr>kernels := (kernels s)[k := kn]\<rparr>;
          if r \<noteq> 0 then (case check r s of (e, s) \<Rightarrow> Some (e, None, s))
          else Some (cudaSuccess, Some (cufunction kn), s) }})"

text \<open>\<open>return check(drv.f(...))\<close>, without and with an output parameter.\<close>

definition check_call :: "('s, CUresult) op option \<Rightarrow> 's runtime \<Rightarrow> ('s, 'o) result" where
  "check_call f s = do { (r, s) \<leftarrow> call f s; case check r s of (e, s) \<Rightarrow> Some (e, None, s) }"

definition check_out :: "('s, CUresult \<times> 'o option) op option \<Rightarrow> 's runtime \<Rightarrow> ('s, 'o) result" where
  "check_out f s = do { ((r, out), s) \<leftarrow> call f s; case check r s of (e, s) \<Rightarrow> Some (e, out, s) }"

definition failed :: "cudaError \<Rightarrow> 's runtime \<Rightarrow> ('s, 'o) result" where
  "failed e s = (case fail e s of (e, s) \<Rightarrow> Some (e, None, s))"

definition addressOf :: "'s driver option \<Rightarrow> nat \<Rightarrow> 's runtime \<Rightarrow> ('s, u64 \<times> u64) result" where
  "addressOf lib v s =
     do { (e, s) \<leftarrow> loadModule lib (v_fatbin (vars s ! v)) s;
          if e \<noteq> cudaSuccess then Some (e, None, s)
          else do {
            let m = (case v_fatbin (vars s ! v) of None \<Rightarrow> 0 | Some i \<Rightarrow> cumodule (fatbins s ! i));
            check_out (map_option (\<lambda>g. g m (v_deviceName (vars s ! v))) (ModuleGetGlobal (drv s))) s } }"

section \<open>Registration\<close>

text \<open>\<open>calloc\<close> gives an object or null, which the next line would write through.\<close>

definition cudaRegisterFatBinary :: "bool \<Rightarrow> FatbinWrapper option \<Rightarrow> 's runtime \<Rightarrow> (nat option \<times> 's runtime) option" where
  "cudaRegisterFatBinary calloc w s =
     (if 256 \<le> length (fatbins s) then Some (None, s)
      else if \<not> calloc then None
      else Some (Some (length (fatbins s)), s\<lparr>fatbins := fatbins s @ [\<lparr>wrapper = w, cumodule = 0, loadFailed = False\<rparr>]\<rparr>))"

definition cudaRegisterFatBinaryEnd :: "nat option \<Rightarrow> 's runtime \<Rightarrow> 's runtime" where
  "cudaRegisterFatBinaryEnd h s = s"

definition cudaUnregisterFatBinary :: "nat option \<Rightarrow> 's runtime \<Rightarrow> 's runtime option" where
  "cudaUnregisterFatBinary h s =
     (case h of None \<Rightarrow> Some s
      | Some i \<Rightarrow>
        if length (fatbins s) \<le> i then None
        else do {
          (r, s) \<leftarrow> (if cumodule (fatbins s ! i) \<noteq> 0 \<and> ModuleUnload (drv s) \<noteq> None
                    then call (map_option (\<lambda>f. f (cumodule (fatbins s ! i))) (ModuleUnload (drv s))) s else Some (0, s));
          Some (s\<lparr>fatbins := (fatbins s)[i := (fatbins s ! i)\<lparr>cumodule := 0\<rparr>]\<rparr>) })"

definition cudaRegisterFunction :: "nat option \<Rightarrow> nat \<Rightarrow> string \<Rightarrow> 's runtime \<Rightarrow> 's runtime" where
  "cudaRegisterFunction h hf name s =
     (if 4096 \<le> length (kernels s) then s
      else s\<lparr>kernels := kernels s @ [\<lparr>hostFun = hf, k_deviceName = name, k_fatbin = h, cufunction = 0\<rparr>]\<rparr>)"

definition cudaRegisterVar :: "nat option \<Rightarrow> nat \<Rightarrow> string \<Rightarrow> u64 \<Rightarrow> 's runtime \<Rightarrow> 's runtime" where
  "cudaRegisterVar h hv name sz s =
     (if 4096 \<le> length (vars s) then s
      else s\<lparr>vars := vars s @ [\<lparr>hostVar = hv, v_deviceName = name, v_fatbin = h, v_size = sz\<rparr>]\<rparr>)"

section \<open>Launches\<close>

definition cudaPushCallConfiguration :: "u32 list \<Rightarrow> u64 \<Rightarrow> nat \<Rightarrow> 's runtime \<Rightarrow> cudaError \<times> 's runtime" where
  "cudaPushCallConfiguration ds sh st s =
     (if 64 \<le> length (configs s) then (cudaErrorLaunchFailure, s)
      else (cudaSuccess, s\<lparr>configs := configs s @ [\<lparr>dims = ds, shmem = sh, c_stream = st\<rparr>]\<rparr>))"

definition cudaPopCallConfiguration :: "'s runtime \<Rightarrow> cudaError \<times> Config option \<times> 's runtime" where
  "cudaPopCallConfiguration s =
     (if configs s = [] then (cudaErrorLaunchFailure, None, s)
      else (cudaSuccess, Some (last (configs s)), s\<lparr>configs := butlast (configs s)\<rparr>))"

definition cudaLaunch :: "'s driver option \<Rightarrow> nat \<Rightarrow> u32 list \<Rightarrow> nat \<Rightarrow> u64 \<Rightarrow> nat \<Rightarrow> 's runtime \<Rightarrow> ('s, unit) result" where
  "cudaLaunch lib func ds args sh st s =
     (case findKernel func s of
        None \<Rightarrow> failed cudaErrorInvalidDeviceFunction s
      | Some k \<Rightarrow> do {
          (e, f, s) \<leftarrow> functionOf lib k s;
          if e \<noteq> cudaSuccess then Some (e, None, s)
          else check_call (map_option (\<lambda>g. g (written 0 f) ds (ucast sh) st args) (LaunchKernel (drv s))) s })"

text \<open>The public entry point takes the grid and the block as triples.\<close>

definition cudaLaunchKernel :: "'s driver option \<Rightarrow> nat \<Rightarrow> u32 list \<Rightarrow> u32 list \<Rightarrow> nat \<Rightarrow> u64 \<Rightarrow> nat \<Rightarrow> 's runtime \<Rightarrow> ('s, unit) result" where
  "cudaLaunchKernel lib func grid block args sh st s = cudaLaunch lib func (grid @ block) args sh st s"

section \<open>Memory\<close>

text \<open>\<open>cudaError_t e = ensureContext(); if (e) return e;\<close> before the rest of a function.\<close>

definition with_context :: "'s driver option \<Rightarrow> ('s runtime \<Rightarrow> ('s, 'o) result) \<Rightarrow> 's runtime \<Rightarrow> ('s, 'o) result" where
  "with_context lib f s = do { (e, s) \<leftarrow> ensureContext lib s; if e \<noteq> cudaSuccess then Some (e, None, s) else f s }"

definition at_least_one :: "u64 \<Rightarrow> u64" where
  "at_least_one n = (if n \<noteq> 0 then n else 1)"

text \<open>The allocators of device memory store the pointer, 0 unless the driver wrote it, whatever the result.\<close>

definition cudaMalloc :: "'s driver option \<Rightarrow> u64 \<Rightarrow> 's runtime \<Rightarrow> ('s, u64) result" where
  "cudaMalloc lib n = with_context lib (\<lambda>s.
     do { (e, p, s) \<leftarrow> check_out (map_option (\<lambda>f. f (at_least_one n)) (MemAlloc (drv s))) s; Some (e, Some (written 0 p), s) })"

definition cudaFree :: "'s driver option \<Rightarrow> u64 \<Rightarrow> 's runtime \<Rightarrow> ('s, unit) result" where
  "cudaFree lib p s =
     (if p = 0 then Some (cudaSuccess, None, s)
      else with_context lib (\<lambda>s. check_call (map_option (\<lambda>f. f p) (MemFree (drv s))) s) s)"

definition cudaMallocHost :: "'s driver option \<Rightarrow> u64 \<Rightarrow> 's runtime \<Rightarrow> ('s, nat) result" where
  "cudaMallocHost lib n = with_context lib (\<lambda>s. check_out (map_option (\<lambda>f. f (at_least_one n)) (MemAllocHost (drv s))) s)"

definition cudaFreeHost :: "'s driver option \<Rightarrow> u64 \<Rightarrow> 's runtime \<Rightarrow> ('s, unit) result" where
  "cudaFreeHost lib p s =
     (if p = 0 then Some (cudaSuccess, None, s)
      else with_context lib (\<lambda>s. check_call (map_option (\<lambda>f. f p) (MemFreeHost (drv s))) s) s)"

definition cudaMallocManaged :: "'s driver option \<Rightarrow> u64 \<Rightarrow> u32 \<Rightarrow> 's runtime \<Rightarrow> ('s, u64) result" where
  "cudaMallocManaged lib n flags = with_context lib (\<lambda>s.
     do { (e, p, s) \<leftarrow> check_out (map_option (\<lambda>f. f (at_least_one n) (if flags \<noteq> 0 then flags else 1)) (MemAllocManaged (drv s))) s;
          Some (e, Some (written 0 p), s) })"

definition memcpy :: "u64 \<Rightarrow> u64 \<Rightarrow> u64 \<Rightarrow> memory \<Rightarrow> memory" where
  "memcpy dst src n m = (\<lambda>a. if unat dst \<le> a \<and> a < unat dst + unat n then m (unat src + (a - unat dst)) else m a)"

text \<open>
  A call of memcpy is defined when both pointers are not null, the bytes behind them belong to
  objects, and the two ranges do not overlap.
\<close>

definition host_range :: "memory \<Rightarrow> u64 \<Rightarrow> u64 \<Rightarrow> bool" where
  "host_range m p n \<longleftrightarrow> p \<noteq> 0 \<and> list_all (\<lambda>a. m a \<noteq> None) [unat p..<unat p + unat n]"

definition copy_defined :: "memory \<Rightarrow> u64 \<Rightarrow> u64 \<Rightarrow> u64 \<Rightarrow> bool" where
  "copy_defined m dst src n \<longleftrightarrow> host_range m dst n \<and> host_range m src n \<and>
     (unat dst + unat n \<le> unat src \<or> unat src + unat n \<le> unat dst)"

definition host_copy :: "u64 \<Rightarrow> u64 \<Rightarrow> u64 \<Rightarrow> 's runtime \<Rightarrow> ('s, unit) result" where
  "host_copy dst src n s =
     (if copy_defined (snd (gpu s)) dst src n
      then Some (cudaSuccess, None, s\<lparr>gpu := (fst (gpu s), memcpy dst src n (snd (gpu s)))\<rparr>)
      else None)"

text \<open>A kind that is no enumerator is None.\<close>

definition cudaMemcpy :: "'s driver option \<Rightarrow> u64 \<Rightarrow> u64 \<Rightarrow> u64 \<Rightarrow> cudaMemcpyKind option \<Rightarrow> 's runtime \<Rightarrow> ('s, unit) result" where
  "cudaMemcpy lib dst src n kind = with_context lib (\<lambda>s.
     case kind of
       Some cudaMemcpyHostToDevice \<Rightarrow> check_call (map_option (\<lambda>f. f dst src n) (MemcpyHtoD (drv s))) s
     | Some cudaMemcpyDeviceToHost \<Rightarrow> check_call (map_option (\<lambda>f. f dst src n) (MemcpyDtoH (drv s))) s
     | Some cudaMemcpyDeviceToDevice \<Rightarrow> check_call (map_option (\<lambda>f. f dst src n) (MemcpyDtoD (drv s))) s
     | Some cudaMemcpyDefault \<Rightarrow> check_call (map_option (\<lambda>f. f dst src n) (MemcpyDtoD (drv s))) s
     | Some cudaMemcpyHostToHost \<Rightarrow> host_copy dst src n s
     | None \<Rightarrow> failed cudaErrorInvalidValue s)"

definition cudaMemcpyAsync :: "'s driver option \<Rightarrow> u64 \<Rightarrow> u64 \<Rightarrow> u64 \<Rightarrow> cudaMemcpyKind option \<Rightarrow> nat \<Rightarrow> 's runtime \<Rightarrow> ('s, unit) result" where
  "cudaMemcpyAsync lib dst src n kind st = with_context lib (\<lambda>s.
     case kind of
       Some cudaMemcpyHostToDevice \<Rightarrow> check_call (map_option (\<lambda>f. f dst src n st) (MemcpyHtoDAsync (drv s))) s
     | Some cudaMemcpyDeviceToHost \<Rightarrow> check_call (map_option (\<lambda>f. f dst src n st) (MemcpyDtoHAsync (drv s))) s
     | Some cudaMemcpyDeviceToDevice \<Rightarrow> check_call (map_option (\<lambda>f. f dst src n st) (MemcpyDtoDAsync (drv s))) s
     | Some cudaMemcpyDefault \<Rightarrow> check_call (map_option (\<lambda>f. f dst src n st) (MemcpyDtoDAsync (drv s))) s
     | Some cudaMemcpyHostToHost \<Rightarrow> host_copy dst src n s
     | None \<Rightarrow> failed cudaErrorInvalidValue s)"

definition cudaMemset :: "'s driver option \<Rightarrow> u64 \<Rightarrow> int \<Rightarrow> u64 \<Rightarrow> 's runtime \<Rightarrow> ('s, unit) result" where
  "cudaMemset lib p v n = with_context lib (\<lambda>s. check_call (map_option (\<lambda>f. f p (word_of_int v) n) (MemsetD8 (drv s))) s)"

text \<open>
  \<open>findVar\<close> and \<open>addressOf\<close> before the rest of a symbol function. The driver has written the
  address and the size when \<open>addressOf\<close> succeeds; that it has not is the use of an
  uninitialized variable.
\<close>

definition with_symbol :: "'s driver option \<Rightarrow> nat \<Rightarrow> (u64 \<times> u64 \<Rightarrow> 's runtime \<Rightarrow> ('s, 'o) result) \<Rightarrow> 's runtime \<Rightarrow> ('s, 'o) result" where
  "with_symbol lib symb f s =
     (case findVar symb s of
        None \<Rightarrow> failed cudaErrorInvalidValue s
      | Some v \<Rightarrow> do {
          (e, out, s) \<leftarrow> addressOf lib v s;
          if e \<noteq> cudaSuccess then Some (e, None, s) else (case out of None \<Rightarrow> None | Some p \<Rightarrow> f p s) })"

definition cudaMemcpyToSymbol :: "'s driver option \<Rightarrow> nat \<Rightarrow> u64 \<Rightarrow> u64 \<Rightarrow> u64 \<Rightarrow> cudaMemcpyKind option \<Rightarrow> 's runtime \<Rightarrow> ('s, unit) result" where
  "cudaMemcpyToSymbol lib symb src n off kind = with_symbol lib symb (\<lambda>(p, sz) s.
     if kind = Some cudaMemcpyDeviceToDevice then check_call (map_option (\<lambda>f. f (p + off) src n) (MemcpyDtoD (drv s))) s
     else check_call (map_option (\<lambda>f. f (p + off) src n) (MemcpyHtoD (drv s))) s)"

definition cudaMemcpyFromSymbol :: "'s driver option \<Rightarrow> u64 \<Rightarrow> nat \<Rightarrow> u64 \<Rightarrow> u64 \<Rightarrow> cudaMemcpyKind option \<Rightarrow> 's runtime \<Rightarrow> ('s, unit) result" where
  "cudaMemcpyFromSymbol lib dst symb n off kind = with_symbol lib symb (\<lambda>(p, sz) s.
     if kind = Some cudaMemcpyDeviceToDevice then check_call (map_option (\<lambda>f. f dst (p + off) n) (MemcpyDtoD (drv s))) s
     else check_call (map_option (\<lambda>f. f dst (p + off) n) (MemcpyDtoH (drv s))) s)"

definition cudaGetSymbolAddress :: "'s driver option \<Rightarrow> nat \<Rightarrow> 's runtime \<Rightarrow> ('s, u64) result" where
  "cudaGetSymbolAddress lib symb = with_symbol lib symb (\<lambda>(p, sz) s. Some (cudaSuccess, Some p, s))"

definition cudaGetSymbolSize :: "'s driver option \<Rightarrow> nat \<Rightarrow> 's runtime \<Rightarrow> ('s, u64) result" where
  "cudaGetSymbolSize lib symb s =
     (case findVar symb s of
        None \<Rightarrow> failed cudaErrorInvalidValue s
      | Some v \<Rightarrow> do { (e, out, s) \<leftarrow> addressOf lib v s; Some (e, map_option snd out, s) })"

section \<open>Devices and errors\<close>

definition cudaDeviceSynchronize :: "'s driver option \<Rightarrow> 's runtime \<Rightarrow> ('s, unit) result" where
  "cudaDeviceSynchronize lib = with_context lib (\<lambda>s. check_call (CtxSynchronize (drv s)) s)"

definition cudaDeviceReset :: "'s driver option \<Rightarrow> 's runtime \<Rightarrow> ('s, unit) result" where
  "cudaDeviceReset lib = cudaDeviceSynchronize lib"

definition cudaGetLastError :: "'s runtime \<Rightarrow> cudaError \<times> 's runtime" where
  "cudaGetLastError s = (lastError s, s\<lparr>lastError := cudaSuccess\<rparr>)"

definition cudaPeekAtLastError :: "'s runtime \<Rightarrow> cudaError" where
  "cudaPeekAtLastError s = lastError s"

definition cudaGetErrorString :: "cudaError \<Rightarrow> string" where
  "cudaGetErrorString e =
     (case e of cudaSuccess \<Rightarrow> ''no error'' | cudaErrorInvalidValue \<Rightarrow> ''invalid argument''
      | cudaErrorMemoryAllocation \<Rightarrow> ''out of memory'' | cudaErrorInitializationError \<Rightarrow> ''initialization error''
      | cudaErrorInvalidConfiguration \<Rightarrow> ''invalid configuration argument''
      | cudaErrorInvalidDevice \<Rightarrow> ''invalid device ordinal'' | cudaErrorNoDevice \<Rightarrow> ''no CUDA-capable device is detected''
      | cudaErrorInvalidDeviceFunction \<Rightarrow> ''invalid device function''
      | cudaErrorLaunchFailure \<Rightarrow> ''unspecified launch failure'' | _ \<Rightarrow> ''unknown error'')"

definition cudaGetErrorName :: "cudaError \<Rightarrow> string" where
  "cudaGetErrorName e =
     (case e of cudaSuccess \<Rightarrow> ''cudaSuccess'' | cudaErrorInvalidValue \<Rightarrow> ''cudaErrorInvalidValue''
      | cudaErrorMemoryAllocation \<Rightarrow> ''cudaErrorMemoryAllocation''
      | cudaErrorInitializationError \<Rightarrow> ''cudaErrorInitializationError''
      | cudaErrorInvalidConfiguration \<Rightarrow> ''cudaErrorInvalidConfiguration''
      | cudaErrorInvalidDevice \<Rightarrow> ''cudaErrorInvalidDevice'' | cudaErrorNoDevice \<Rightarrow> ''cudaErrorNoDevice''
      | cudaErrorInvalidDeviceFunction \<Rightarrow> ''cudaErrorInvalidDeviceFunction''
      | cudaErrorLaunchFailure \<Rightarrow> ''cudaErrorLaunchFailure'' | _ \<Rightarrow> ''cudaErrorUnknown'')"

text \<open>\<open>if (!loadDriver()) return fail(cudaErrorNoDevice); r = drv.Init(0); if (r) return check(r);\<close>\<close>

definition with_driver :: "'s driver option \<Rightarrow> 'o option \<Rightarrow> ('s runtime \<Rightarrow> ('s, 'o) result) \<Rightarrow> 's runtime \<Rightarrow> ('s, 'o) result" where
  "with_driver lib out f s =
     (case loadDriver lib s of (ok, s) \<Rightarrow>
        if \<not> ok then (case fail cudaErrorNoDevice s of (e, s) \<Rightarrow> Some (e, out, s))
        else do {
          (r, s) \<leftarrow> call (Init (drv s)) s;
          if r \<noteq> 0 then (case check r s of (e, s) \<Rightarrow> Some (e, out, s)) else f s })"

definition cudaGetDeviceCount :: "'s driver option \<Rightarrow> 's runtime \<Rightarrow> ('s, int) result" where
  "cudaGetDeviceCount lib = with_driver lib (Some 0) (\<lambda>s.
     do { (e, c, s) \<leftarrow> check_out (DeviceGetCount (drv s)) s; Some (e, Some (written 0 c), s) })"

definition cudaGetDevice :: "'s runtime \<Rightarrow> cudaError \<times> int" where
  "cudaGetDevice s = (cudaSuccess, deviceOrdinal s)"

definition cudaSetDevice :: "int \<Rightarrow> 's runtime \<Rightarrow> cudaError \<times> 's runtime" where
  "cudaSetDevice dev s =
     (if dev = deviceOrdinal s then (cudaSuccess, s)
      else if contextReady s then fail cudaErrorInvalidDevice s
      else (cudaSuccess, s\<lparr>deviceOrdinal := dev\<rparr>))"

record cudaDeviceProp =
  p_name :: string
  totalGlobalMem :: u64
  sharedMemPerBlock :: u64
  regsPerBlock :: int
  warpSize :: int
  maxThreadsPerBlock :: int
  maxThreadsDim :: "int list"
  maxGridSize :: "int list"
  clockRate :: int
  totalConstMem :: u64
  p_major :: int
  p_minor :: int
  multiProcessorCount :: int

text \<open>Attributes read one after the other into the same variable, which keeps its value when the driver writes none.\<close>

fun attributes :: "int list \<Rightarrow> int \<Rightarrow> int \<Rightarrow> 's runtime \<Rightarrow> (int list \<times> 's runtime) option" where
  "attributes [] v d s = Some ([], s)"
| "attributes (a # as) v d s = do { (v, s) \<leftarrow> attribute v a d s; (vs, s) \<leftarrow> attributes as v d s; Some (v # vs, s) }"

definition cudaGetDeviceProperties :: "'s driver option \<Rightarrow> int \<Rightarrow> 's runtime \<Rightarrow> ('s, cudaDeviceProp) result" where
  "cudaGetDeviceProperties lib dev = with_driver lib None (\<lambda>s.
     do { ((r, d), s) \<leftarrow> call (map_option (\<lambda>f. f dev) (DeviceGet (drv s))) s;
          if r \<noteq> 0 then (case check r s of (e, s) \<Rightarrow> Some (e, None, s))
          else case d of None \<Rightarrow> None
          | Some d \<Rightarrow> do {
              ((r, name), s) \<leftarrow> call (map_option (\<lambda>f. f 256 d) (DeviceGetName (drv s))) s;
              ((r, mem), s) \<leftarrow> call (map_option (\<lambda>f. f d) (DeviceTotalMem (drv s))) s;
              (v, s) \<leftarrow> attributes [75, 76, 1, 8, 10, 16, 13, 12, 9, 2, 5, 3, 6, 4, 7] 0 d s;
              Some (cudaSuccess,
                Some \<lparr>p_name = written [] name, totalGlobalMem = written 0 mem, sharedMemPerBlock = word_of_int (v ! 3),
                  regsPerBlock = v ! 7, warpSize = v ! 4, maxThreadsPerBlock = v ! 2, maxThreadsDim = [v ! 9, v ! 11, v ! 13],
                  maxGridSize = [v ! 10, v ! 12, v ! 14], clockRate = v ! 6, totalConstMem = word_of_int (v ! 8),
                  p_major = v ! 0, p_minor = v ! 1, multiProcessorCount = v ! 5\<rparr>, s) } })"

section \<open>Streams and events\<close>

definition cudaStreamCreate :: "'s driver option \<Rightarrow> 's runtime \<Rightarrow> ('s, nat) result" where
  "cudaStreamCreate lib = with_context lib (\<lambda>s. check_out (StreamCreate (drv s)) s)"

definition cudaStreamDestroy :: "nat \<Rightarrow> 's runtime \<Rightarrow> ('s, unit) result" where
  "cudaStreamDestroy st s =
     (if st = 0 then Some (cudaSuccess, None, s) else check_call (map_option (\<lambda>f. f st) (StreamDestroy (drv s))) s)"

definition cudaStreamSynchronize :: "'s driver option \<Rightarrow> nat \<Rightarrow> 's runtime \<Rightarrow> ('s, unit) result" where
  "cudaStreamSynchronize lib st = with_context lib (\<lambda>s.
     if st = 0 then check_call (CtxSynchronize (drv s)) s
     else check_call (map_option (\<lambda>f. f st) (StreamSynchronize (drv s))) s)"

definition cudaEventCreate :: "'s driver option \<Rightarrow> 's runtime \<Rightarrow> ('s, nat) result" where
  "cudaEventCreate lib = with_context lib (\<lambda>s. check_out (EventCreate (drv s)) s)"

definition cudaEventDestroy :: "nat \<Rightarrow> 's runtime \<Rightarrow> ('s, unit) result" where
  "cudaEventDestroy ev s = check_call (map_option (\<lambda>f. f ev) (EventDestroy (drv s))) s"

definition cudaEventRecord :: "nat \<Rightarrow> nat \<Rightarrow> 's runtime \<Rightarrow> ('s, unit) result" where
  "cudaEventRecord ev st s = check_call (map_option (\<lambda>f. f ev st) (EventRecord (drv s))) s"

definition cudaEventSynchronize :: "nat \<Rightarrow> 's runtime \<Rightarrow> ('s, unit) result" where
  "cudaEventSynchronize ev s = check_call (map_option (\<lambda>f. f ev) (EventSynchronize (drv s))) s"

definition cudaEventElapsedTime :: "nat \<Rightarrow> nat \<Rightarrow> 's runtime \<Rightarrow> ('s, nat) result" where
  "cudaEventElapsedTime a b s = check_out (map_option (\<lambda>f. f a b) (EventElapsedTime (drv s))) s"

section \<open>A program's calls\<close>

text \<open>
  The entry points a program calls, and the step of one call on the state. Registration and the
  launch configurations are what a compiled unit calls; the others are the runtime API. The flag
  of the registration of a fat binary says whether its calloc succeeds.
\<close>

datatype (plugins only: size) api =
    RegisterFatBinary bool "FatbinWrapper option"
  | UnregisterFatBinary "nat option"
  | RegisterFunction "nat option" nat string
  | RegisterVar "nat option" nat string u64
  | PushConfig "u32 list" u64 nat
  | PopConfig
  | Launch nat "u32 list" nat u64 nat
  | Malloc u64
  | Free u64
  | MallocHost u64
  | FreeHost u64
  | MallocManaged u64 u32
  | Memcpy u64 u64 u64 "cudaMemcpyKind option"
  | MemcpyAsync u64 u64 u64 "cudaMemcpyKind option" nat
  | Memset u64 int u64
  | MemcpyToSymbol nat u64 u64 u64 "cudaMemcpyKind option"
  | MemcpyFromSymbol u64 nat u64 u64 "cudaMemcpyKind option"
  | GetSymbolAddress nat
  | GetSymbolSize nat
  | DeviceSynchronize
  | DeviceReset
  | GetLastError
  | PeekAtLastError
  | GetDeviceCount
  | GetDevice
  | SetDevice int
  | GetDeviceProperties int
  | StreamCreateCall
  | StreamDestroyCall nat
  | StreamSynchronizeCall nat
  | EventCreateCall
  | EventDestroyCall nat
  | EventRecordCall nat nat
  | EventSynchronizeCall nat
  | EventElapsed nat nat

definition outcome :: "('s, 'o) result \<Rightarrow> (cudaError \<times> 's runtime) option" where
  "outcome r = map_option (\<lambda>(e, out, s). (e, s)) r"

definition exec :: "'s driver option \<Rightarrow> api \<Rightarrow> 's runtime \<Rightarrow> (cudaError \<times> 's runtime) option" where
  "exec lib c s =
     (case c of
        RegisterFatBinary calloc w \<Rightarrow> map_option (\<lambda>(h, s). (cudaSuccess, s)) (cudaRegisterFatBinary calloc w s)
      | UnregisterFatBinary h \<Rightarrow> map_option (Pair cudaSuccess) (cudaUnregisterFatBinary h s)
      | RegisterFunction h f n \<Rightarrow> Some (cudaSuccess, cudaRegisterFunction h f n s)
      | RegisterVar h v n z \<Rightarrow> Some (cudaSuccess, cudaRegisterVar h v n z s)
      | PushConfig ds sh st \<Rightarrow> Some (cudaPushCallConfiguration ds sh st s)
      | PopConfig \<Rightarrow> outcome (Some (cudaPopCallConfiguration s))
      | Launch f ds args sh st \<Rightarrow> outcome (cudaLaunch lib f ds args sh st s)
      | Malloc n \<Rightarrow> outcome (cudaMalloc lib n s)
      | Free p \<Rightarrow> outcome (cudaFree lib p s)
      | MallocHost n \<Rightarrow> outcome (cudaMallocHost lib n s)
      | FreeHost p \<Rightarrow> outcome (cudaFreeHost lib p s)
      | MallocManaged n fl \<Rightarrow> outcome (cudaMallocManaged lib n fl s)
      | Memcpy d c n k \<Rightarrow> outcome (cudaMemcpy lib d c n k s)
      | MemcpyAsync d c n k st \<Rightarrow> outcome (cudaMemcpyAsync lib d c n k st s)
      | Memset p v n \<Rightarrow> outcome (cudaMemset lib p v n s)
      | MemcpyToSymbol y c n off k \<Rightarrow> outcome (cudaMemcpyToSymbol lib y c n off k s)
      | MemcpyFromSymbol d y n off k \<Rightarrow> outcome (cudaMemcpyFromSymbol lib d y n off k s)
      | GetSymbolAddress y \<Rightarrow> outcome (cudaGetSymbolAddress lib y s)
      | GetSymbolSize y \<Rightarrow> outcome (cudaGetSymbolSize lib y s)
      | DeviceSynchronize \<Rightarrow> outcome (cudaDeviceSynchronize lib s)
      | DeviceReset \<Rightarrow> outcome (cudaDeviceReset lib s)
      | GetLastError \<Rightarrow> Some (cudaGetLastError s)
      | PeekAtLastError \<Rightarrow> Some (cudaPeekAtLastError s, s)
      | GetDeviceCount \<Rightarrow> outcome (cudaGetDeviceCount lib s)
      | GetDevice \<Rightarrow> Some (fst (cudaGetDevice s), s)
      | SetDevice d \<Rightarrow> Some (cudaSetDevice d s)
      | GetDeviceProperties d \<Rightarrow> outcome (cudaGetDeviceProperties lib d s)
      | StreamCreateCall \<Rightarrow> outcome (cudaStreamCreate lib s)
      | StreamDestroyCall st \<Rightarrow> outcome (cudaStreamDestroy st s)
      | StreamSynchronizeCall st \<Rightarrow> outcome (cudaStreamSynchronize lib st s)
      | EventCreateCall \<Rightarrow> outcome (cudaEventCreate lib s)
      | EventDestroyCall ev \<Rightarrow> outcome (cudaEventDestroy ev s)
      | EventRecordCall ev st \<Rightarrow> outcome (cudaEventRecord ev st s)
      | EventSynchronizeCall ev \<Rightarrow> outcome (cudaEventSynchronize ev s)
      | EventElapsed a b \<Rightarrow> outcome (cudaEventElapsedTime a b s))"

end
