(* ===== verification/CudaRuntimeProps.thy ===== *)
theory CudaRuntimeProps
  imports CudaRuntime
begin

text \<open>
  What the CUDA runtime of theory CudaRuntime keeps and promises: the invariant of its tables and
  of the loaded driver, the errors it records, that no call of a well-behaved program has
  undefined behaviour, the stack of launch configurations, and the loading of modules.
\<close>

section \<open>What every call of the runtime API keeps\<close>

named_theorems keeps_intros \<open>rules for results that keep the tables and record their error\<close>

text \<open>The variable loaded and the function pointers agree with the library.\<close>

definition loaded_ok :: "'s driver option \<Rightarrow> int \<Rightarrow> 's driver \<Rightarrow> bool" where
  "loaded_ok lib l d \<longleftrightarrow>
     (if l = 0 then d = null_driver
      else case lib of None \<Rightarrow> d = null_driver \<and> l = - 1
        | Some x \<Rightarrow> d = x \<and> l = (if Init x \<noteq> None \<and> LaunchKernel x \<noteq> None then 1 else - 1))"

definition driver_ok :: "'s driver option \<Rightarrow> 's runtime \<Rightarrow> bool" where
  "driver_ok lib s \<longleftrightarrow>
     loaded_ok lib (loaded s) (drv s) \<and> (contextReady s \<longrightarrow> loaded s = 1) \<and>
     ((\<exists>fb\<in>set (fatbins s). cumodule fb \<noteq> 0) \<longrightarrow> contextReady s) \<and>
     ((\<exists>k\<in>set (kernels s). cufunction k \<noteq> 0) \<longrightarrow> contextReady s)"

definition kernel_entry :: "Kernel \<Rightarrow> nat \<times> string \<times> nat option" where
  "kernel_entry k = (hostFun k, k_deviceName k, k_fatbin k)"

text \<open>
  The tables of s' are those of s, but for the modules and functions loaded in between; a handle
  of a function that is set stays.
\<close>

definition functions_kept :: "Kernel list \<Rightarrow> Kernel list \<Rightarrow> bool" where
  "functions_kept ks ks' \<longleftrightarrow> (\<forall>i<length ks. cufunction (ks ! i) \<noteq> 0 \<longrightarrow> cufunction (ks' ! i) = cufunction (ks ! i))"

definition same_tables :: "'s runtime \<Rightarrow> 's runtime \<Rightarrow> bool" where
  "same_tables s s' \<longleftrightarrow>
     map kernel_entry (kernels s') = map kernel_entry (kernels s) \<and> functions_kept (kernels s) (kernels s') \<and>
     vars s' = vars s \<and> configs s' = configs s \<and> map wrapper (fatbins s') = map wrapper (fatbins s) \<and> deviceOrdinal s' = deviceOrdinal s \<and>
     (contextReady s \<longrightarrow> contextReady s')"

definition keeps :: "'s driver option \<Rightarrow> 's runtime \<Rightarrow> cudaError \<Rightarrow> 's runtime \<Rightarrow> bool" where
  "keeps lib s e s' \<longleftrightarrow>
     (driver_ok lib s \<longrightarrow> driver_ok lib s') \<and> same_tables s s' \<and> lastError s' = (if e = cudaSuccess then lastError s else e)"

definition keeping :: "'s driver option \<Rightarrow> 's runtime \<Rightarrow> ('s, 'o) result \<Rightarrow> bool" where
  "keeping lib s r \<longleftrightarrow> (\<forall>e out s'. r = Some (e, out, s') \<longrightarrow> keeps lib s e s')"

lemma keepingI: "(\<And>e out s'. r = Some (e, out, s') \<Longrightarrow> keeps lib s e s') \<Longrightarrow> keeping lib s r"
  by (simp add: keeping_def)

lemma functions_kept_refl [simp]: "functions_kept ks ks"
  by (simp add: functions_kept_def)

lemma functions_kept_trans:
  "functions_kept ks ks' \<Longrightarrow> functions_kept ks' ks'' \<Longrightarrow> map kernel_entry ks' = map kernel_entry ks \<Longrightarrow> functions_kept ks ks''"
  using map_eq_imp_length_eq [of kernel_entry ks' kernel_entry ks] by (simp add: functions_kept_def)

lemma functions_kept_update:
  "(i < length ks \<Longrightarrow> cufunction (ks ! i) \<noteq> 0 \<Longrightarrow> cufunction k = cufunction (ks ! i)) \<Longrightarrow> functions_kept ks (ks[i := k])"
  by (cases "i < length ks") (auto simp: functions_kept_def nth_list_update list_update_beyond)

lemma keeps_refl: "keeps lib s cudaSuccess s"
  by (simp add: keeps_def same_tables_def)

lemma keeps_trans: "keeps lib s cudaSuccess s' \<Longrightarrow> keeps lib s' e s'' \<Longrightarrow> keeps lib s e s''"
  using functions_kept_trans [of "kernels s" "kernels s'" "kernels s''"] by (auto simp: keeps_def same_tables_def)

lemma keeps_fail: "keeps lib s (fst (fail e s)) (snd (fail e s))"
  by (simp add: keeps_def same_tables_def driver_ok_def fail_def)

lemma keeps_check: "keeps lib s (fst (check r s)) (snd (check r s))"
  unfolding check_def by (rule keeps_fail)

lemma keeps_gpu: "keeps lib s cudaSuccess (s\<lparr>gpu := w\<rparr>)"
  by (simp add: keeps_def same_tables_def driver_ok_def)

lemma keeps_call: "call f s = Some (r, s') \<Longrightarrow> keeps lib s cudaSuccess s'"
  by (auto simp: call_def keeps_gpu split: option.splits prod.splits)

lemma keeps_device: "keeps lib s cudaSuccess (s\<lparr>device := d\<rparr>)"
  by (simp add: keeps_def same_tables_def driver_ok_def)

lemma keeps_context: "keeps lib s cudaSuccess (s\<lparr>cucontext := d\<rparr>)"
  by (simp add: keeps_def same_tables_def driver_ok_def)

lemma loadDriver_loaded_ok:
  "loadDriver lib s = (ok, s') \<Longrightarrow> loaded_ok lib (loaded s) (drv s) \<Longrightarrow>
    loaded_ok lib (loaded s') (drv s') \<and> (loaded s = 1 \<longrightarrow> loaded s' = 1) \<and> (ok \<longleftrightarrow> loaded s' = 1)"
  by (cases lib) (auto simp: loadDriver_def loaded_ok_def Let_def split: if_splits)

lemma loadDriver_frame:
  "loadDriver lib s = (ok, s') \<Longrightarrow> s' = s\<lparr>drv := drv s', loaded := loaded s'\<rparr>"
  by (cases lib; cases s) (auto simp: loadDriver_def Let_def split: if_splits)

lemma keeps_loadDriver: "loadDriver lib s = (ok, s') \<Longrightarrow> keeps lib s cudaSuccess s'"
proof -
  assume l: "loadDriver lib s = (ok, s')"
  obtain d k where "s' = s\<lparr>drv := d, loaded := k\<rparr>" using loadDriver_frame [OF l] by blast
  with loadDriver_loaded_ok [OF l] show ?thesis by (auto simp: keeps_def same_tables_def driver_ok_def)
qed

lemma loadDriver_loaded: "loadDriver lib s = (True, s') \<Longrightarrow> driver_ok lib s \<Longrightarrow> loaded s' = 1"
  using loadDriver_loaded_ok [of lib s True s'] by (simp add: driver_ok_def)

lemma call_frame: "call f s = Some (r, s') \<Longrightarrow> \<exists>w. s' = s\<lparr>gpu := w\<rparr>"
  by (auto simp: call_def split: option.splits prod.splits)

lemma fromDriver_success [simp]: "fromDriver r = cudaSuccess \<longleftrightarrow> r = 0"
  by (simp add: fromDriver_def)

lemma keeps_ready: "(driver_ok lib s \<Longrightarrow> loaded s = 1) \<Longrightarrow> keeps lib s cudaSuccess (s\<lparr>contextReady := True\<rparr>)"
  by (auto simp: keeps_def same_tables_def driver_ok_def)

text \<open>An intermediate state of a call that has found the driver, and the results that continue from it.\<close>

definition midway :: "'s driver option \<Rightarrow> 's runtime \<Rightarrow> 's runtime \<Rightarrow> bool" where
  "midway lib s0 s \<longleftrightarrow> keeps lib s0 cudaSuccess s \<and> (driver_ok lib s \<longrightarrow> loaded s = 1)"

definition readies :: "'s driver option \<Rightarrow> 's runtime \<Rightarrow> (cudaError \<times> 's runtime) option \<Rightarrow> bool" where
  "readies lib s0 r \<longleftrightarrow> (\<forall>e s. r = Some (e, s) \<longrightarrow> keeps lib s0 e s \<and> (e = cudaSuccess \<longrightarrow> contextReady s))"

lemma driver_ok_frame [simp]:
  "driver_ok lib (s\<lparr>gpu := w\<rparr>) = driver_ok lib s" "driver_ok lib (s\<lparr>device := d\<rparr>) = driver_ok lib s"
  "driver_ok lib (s\<lparr>cucontext := c\<rparr>) = driver_ok lib s"
  by (simp_all add: driver_ok_def)

lemma midway_call: "midway lib s0 s \<Longrightarrow> call f s = Some (r, s') \<Longrightarrow> midway lib s0 s'"
proof -
  assume m: "midway lib s0 s" and c: "call f s = Some (r, s')"
  obtain w where "s' = s\<lparr>gpu := w\<rparr>" using call_frame [OF c] by blast
  with m show ?thesis using keeps_trans [OF _ keeps_gpu, of lib s0 s w] by (simp add: midway_def)
qed

lemma midway_device: "midway lib s0 s \<Longrightarrow> midway lib s0 (s\<lparr>device := d\<rparr>)"
  using keeps_trans [OF _ keeps_device, of lib s0 s d] by (simp add: midway_def)

lemma midway_context: "midway lib s0 s \<Longrightarrow> midway lib s0 (s\<lparr>cucontext := c\<rparr>)"
  using keeps_trans [OF _ keeps_context, of lib s0 s c] by (simp add: midway_def)

lemma readies_call:
  assumes "midway lib s0 s" and "\<And>r s'. midway lib s0 s' \<Longrightarrow> readies lib s0 (g (r, s'))"
  shows "readies lib s0 (call f s \<bind> g)"
proof (cases "call f s")
  case (Some p)
  obtain r s' where p: "p = (r, s')" by (cases p)
  with assms midway_call [of lib s0 s f r s'] Some show ?thesis by simp
qed (simp add: readies_def)

lemma readies_if: "(b \<Longrightarrow> readies lib s0 x) \<Longrightarrow> (\<not> b \<Longrightarrow> readies lib s0 y) \<Longrightarrow> readies lib s0 (if b then x else y)"
  by simp

lemma readies_fail: "keeps lib s0 cudaSuccess s \<Longrightarrow> e \<noteq> cudaSuccess \<Longrightarrow> readies lib s0 (Some (fail e s))"
  using keeps_trans [OF _ keeps_fail, of lib s0 s e] by (simp add: readies_def fail_def)

lemma readies_check: "midway lib s0 s \<Longrightarrow> r \<noteq> 0 \<Longrightarrow> readies lib s0 (Some (check r s))"
  unfolding check_def by (rule readies_fail) (simp_all add: midway_def)

lemma readies_done: "midway lib s0 s \<Longrightarrow> readies lib s0 (Some (cudaSuccess, s\<lparr>contextReady := True\<rparr>))"
  using keeps_trans [OF _ keeps_ready, of lib s0 s] by (simp add: readies_def midway_def)

lemmas readies_intros = readies_if readies_call readies_check readies_done midway_device midway_context

lemma readies_ensureContext: "readies lib s (ensureContext lib s)"
proof (cases "contextReady s")
  case True
  then show ?thesis by (simp add: ensureContext_def readies_def keeps_refl)
next
  case False
  obtain ok s1 where l: "loadDriver lib s = (ok, s1)" by fastforce
  have k: "keeps lib s cudaSuccess s1" by (rule keeps_loadDriver [OF l])
  have "midway lib s s1" if ok
    using that l k by (auto simp: midway_def loadDriver_def driver_ok_def loaded_ok_def Let_def split: if_splits option.splits)
  then show ?thesis
    unfolding ensureContext_def if_not_P [OF False] l prod.case Let_def
    by (intro readies_if readies_fail [OF k]) (auto intro!: readies_intros readies_fail simp: midway_def [THEN iffD1])
qed

section \<open>Modules\<close>

lemma map_update_same: "f y = f (xs ! i) \<Longrightarrow> map f (xs[i := y]) = map f xs"
  by (cases "i < length xs") (simp_all add: map_update list_update_same_conv list_update_beyond)

text \<open>An intermediate state with a context.\<close>

definition active :: "'s driver option \<Rightarrow> 's runtime \<Rightarrow> 's runtime \<Rightarrow> bool" where
  "active lib s0 s \<longleftrightarrow> keeps lib s0 cudaSuccess s \<and> contextReady s"

definition kept :: "'s driver option \<Rightarrow> 's runtime \<Rightarrow> (cudaError \<times> 's runtime) option \<Rightarrow> bool" where
  "kept lib s0 r \<longleftrightarrow>
     (\<forall>e s. r = Some (e, s) \<longrightarrow> keeps lib s0 e s \<and> (e = cudaSuccess \<longrightarrow> driver_ok lib s0 \<longrightarrow> contextReady s))"

lemma active_keeps: "active lib s0 s \<Longrightarrow> keeps lib s0 cudaSuccess s"
  by (simp add: active_def)

lemma active_call: "active lib s0 s \<Longrightarrow> call f s = Some (r, s') \<Longrightarrow> active lib s0 s'"
proof -
  assume m: "active lib s0 s" and c: "call f s = Some (r, s')"
  obtain w where "s' = s\<lparr>gpu := w\<rparr>" using call_frame [OF c] by blast
  with m show ?thesis using keeps_trans [OF _ keeps_gpu, of lib s0 s w] by (simp add: active_def)
qed

lemma attribute_call: "attribute old a d s = Some (v, s') \<Longrightarrow> \<exists>r. call (map_option (\<lambda>f. f a d) (DeviceGetAttribute (drv s))) s = Some (r, s')"
  by (auto simp: attribute_def bind_eq_Some_conv)

lemma active_attribute: "active lib s0 s \<Longrightarrow> attribute old a d s = Some (v, s') \<Longrightarrow> active lib s0 s'"
  by (drule attribute_call, elim exE) (rule active_call)

lemma keeps_fatbins:
  "contextReady s \<Longrightarrow> wrapper fb = wrapper (fatbins s ! i) \<Longrightarrow> keeps lib s cudaSuccess (s\<lparr>fatbins := (fatbins s)[i := fb]\<rparr>)"
  by (auto simp: keeps_def same_tables_def driver_ok_def map_update_same)

lemma keeps_kernels:
  "(driver_ok lib s \<Longrightarrow> contextReady s) \<Longrightarrow> kernel_entry k = kernel_entry (kernels s ! i) \<Longrightarrow>
    cufunction (kernels s ! i) = 0 \<Longrightarrow> keeps lib s cudaSuccess (s\<lparr>kernels := (kernels s)[i := k]\<rparr>)"
  by (auto simp: keeps_def same_tables_def driver_ok_def map_update_same functions_kept_update)

lemma active_fatbins: "active lib s0 s \<Longrightarrow> wrapper fb = wrapper (fatbins s ! i) \<Longrightarrow> active lib s0 (s\<lparr>fatbins := (fatbins s)[i := fb]\<rparr>)"
  using keeps_trans [OF _ keeps_fatbins, of lib s0 s fb i] by (simp add: active_def)

lemma kept_bind: "(\<And>x. m = Some x \<Longrightarrow> kept lib s0 (g x)) \<Longrightarrow> kept lib s0 (m \<bind> g)"
  by (cases m) (simp_all add: kept_def)

lemma kept_call: "active lib s0 s \<Longrightarrow> (\<And>r s'. active lib s0 s' \<Longrightarrow> kept lib s0 (g (r, s'))) \<Longrightarrow> kept lib s0 (call f s \<bind> g)"
  using active_call [of lib s0 s f] by (intro kept_bind) auto

lemma kept_attribute:
  "active lib s0 s \<Longrightarrow> (\<And>v s'. active lib s0 s' \<Longrightarrow> kept lib s0 (g (v, s'))) \<Longrightarrow> kept lib s0 (attribute old a d s \<bind> g)"
  using active_attribute [of lib s0 s old a d] by (intro kept_bind) auto

lemma kept_pure:
  "(\<And>x. kept lib s0 (g x)) \<Longrightarrow> kept lib s0 (checked w x \<bind> g)" "(\<And>x. kept lib s0 (k x)) \<Longrightarrow> kept lib s0 (image_of fb n \<bind> k)"
  by (simp_all add: kept_bind)

lemma kept_ensureContext:
  assumes "keeps lib s0 cudaSuccess s" and "\<And>s'. active lib s0 s' \<Longrightarrow> kept lib s0 (g (cudaSuccess, s'))"
    and "\<And>e s'. e \<noteq> cudaSuccess \<Longrightarrow> keeps lib s0 e s' \<Longrightarrow> kept lib s0 (g (e, s'))"
  shows "kept lib s0 (ensureContext lib s \<bind> g)"
proof (rule kept_bind)
  fix x
  assume x: "ensureContext lib s = Some x"
  obtain e s' where p: "x = (e, s')" by (cases x)
  have "keeps lib s e s'" "e = cudaSuccess \<Longrightarrow> contextReady s'"
    using readies_ensureContext [of lib s] x p by (auto simp: readies_def)
  with assms keeps_trans [OF assms(1)] show "kept lib s0 (g x)" unfolding p by (cases "e = cudaSuccess") (auto simp: active_def)
qed

lemma kept_fail: "keeps lib s0 cudaSuccess s \<Longrightarrow> e \<noteq> cudaSuccess \<Longrightarrow> kept lib s0 (Some (fail e s))"
  using keeps_trans [OF _ keeps_fail, of lib s0 s e] by (auto simp: kept_def fail_def)

lemma kept_check: "keeps lib s0 cudaSuccess s \<Longrightarrow> r \<noteq> 0 \<Longrightarrow> kept lib s0 (Some (check r s))"
  unfolding check_def by (rule kept_fail) simp_all

lemma kept_error: "keeps lib s0 e s \<Longrightarrow> e \<noteq> cudaSuccess \<Longrightarrow> kept lib s0 (Some (e, s))"
  by (simp add: kept_def)

lemma kept_active: "active lib s0 s \<Longrightarrow> kept lib s0 (Some (cudaSuccess, s))"
  by (simp add: kept_def active_def)

lemma kept_loaded: "cumodule (fatbins s ! i) \<noteq> 0 \<Longrightarrow> i < length (fatbins s) \<Longrightarrow> kept lib s (Some (cudaSuccess, s))"
  using nth_mem [of i "fatbins s"] by (auto simp: kept_def keeps_refl driver_ok_def)

lemma kept_None: "kept lib s0 None"
  by (simp add: kept_def)

lemma kept_loadModule: "kept lib s (loadModule lib h s)"
proof (cases h)
  case (Some i)
  show ?thesis
  proof (cases "cumodule (fatbins s ! i) \<noteq> 0 \<and> i < length (fatbins s)")
    case True
    with Some kept_loaded [of s i lib] show ?thesis by (simp add: loadModule_def)
  next
    case False
    with Some show ?thesis
      by (auto simp: loadModule_def Let_def split: option.split intro!: kept_None keeps_refl kept_fail kept_check kept_ensureContext
          kept_error kept_active kept_attribute kept_call kept_pure active_fatbins active_fatbins [THEN active_keeps])
  qed
qed (simp add: loadModule_def kept_def)

section \<open>The functions of the API\<close>

lemma keeping_None [keeps_intros]: "keeping lib s0 None"
  by (simp add: keeping_def)

lemma keeping_Some: "keeps lib s0 e s \<Longrightarrow> keeping lib s0 (Some (e, out, s))"
  by (simp add: keeping_def)

lemma keeping_Success [keeps_intros]: "keeps lib s0 cudaSuccess s \<Longrightarrow> keeping lib s0 (Some (cudaSuccess, out, s))"
  by (rule keeping_Some)

lemma keeping_check: "keeps lib s0 cudaSuccess s \<Longrightarrow> keeping lib s0 (case check r s of (e, s) \<Rightarrow> Some (e, out, s))"
  using keeps_trans [OF _ keeps_check, of lib s0 s r] by (auto simp: keeping_def split: prod.splits)

lemma keeping_fail: "keeps lib s0 cudaSuccess s \<Longrightarrow> keeping lib s0 (case fail e s of (e, s) \<Rightarrow> Some (e, out, s))"
  using keeps_trans [OF _ keeps_fail, of lib s0 s e] by (auto simp: keeping_def split: prod.splits)

lemma keeping_failed: "keeps lib s0 cudaSuccess s \<Longrightarrow> keeping lib s0 (failed e s)"
  unfolding failed_def by (rule keeping_fail)

lemma keeping_bind: "(\<And>x. m = Some x \<Longrightarrow> keeping lib s0 (g x)) \<Longrightarrow> keeping lib s0 (m \<bind> g)"
  by (cases m) (simp_all add: keeping_def)

lemma keeping_call:
  "keeps lib s0 cudaSuccess s \<Longrightarrow> (\<And>r s'. keeps lib s0 cudaSuccess s' \<Longrightarrow> keeping lib s0 (g (r, s'))) \<Longrightarrow> keeping lib s0 (call f s \<bind> g)"
  by (intro keeping_bind) (auto dest: keeps_trans [OF _ keeps_call])

lemma keeping_check_call: "keeps lib s0 cudaSuccess s \<Longrightarrow> keeping lib s0 (check_call f s)"
  unfolding check_call_def by (rule keeping_call) (auto intro: keeping_check)

lemma keeping_check_out: "keeps lib s0 cudaSuccess s \<Longrightarrow> keeping lib s0 (check_out f s)"
  unfolding check_out_def by (rule keeping_call) (auto intro: keeping_check)

lemma keeping_map:
  "keeping lib s0 m \<Longrightarrow> keeping lib s0 (m \<bind> (\<lambda>(e, out, s). Some (e, f out, s)))"
  by (cases m) (auto simp: keeping_def)

lemma keeping_with_context:
  assumes "keeps lib s0 cudaSuccess s" and "\<And>s'. active lib s0 s' \<Longrightarrow> keeping lib s0 (f s')"
  shows "keeping lib s0 (with_context lib f s)"
proof -
  have "keeping lib s0 (f s')" if "ensureContext lib s = Some (cudaSuccess, s')" for s'
    using that assms readies_ensureContext [of lib s] keeps_trans [OF assms(1)] by (auto simp: readies_def active_def)
  moreover have "keeps lib s0 e s'" if "ensureContext lib s = Some (e, s')" for e s'
    using that readies_ensureContext [of lib s] keeps_trans [OF assms(1)] by (auto simp: readies_def)
  ultimately show ?thesis unfolding with_context_def by (intro keeping_bind) (auto intro: keeping_Some)
qed

lemma keeping_with_driver:
  assumes "keeps lib s0 cudaSuccess s" and "\<And>s'. keeps lib s0 cudaSuccess s' \<Longrightarrow> keeping lib s0 (f s')"
  shows "keeping lib s0 (with_driver lib out f s)"
proof -
  obtain ok s1 where l: "loadDriver lib s = (ok, s1)" by fastforce
  have "keeps lib s0 cudaSuccess s1" by (rule keeps_trans [OF assms(1) keeps_loadDriver [OF l]])
  then show ?thesis unfolding with_driver_def l prod.case
    by (auto intro!: keeping_fail keeping_check keeping_call assms(2))
qed

text \<open>A lookup of a kernel or a variable, and the load of its module.\<close>

lemma keeps_loadModule: "loadModule lib h s = Some (e, s') \<Longrightarrow> keeps lib s e s'"
  using kept_loadModule [of lib s h] by (simp add: kept_def)

lemma loadModule_ready: "loadModule lib h s = Some (cudaSuccess, s') \<Longrightarrow> driver_ok lib s \<Longrightarrow> contextReady s'"
  using kept_loadModule [of lib s h] by (simp add: kept_def)

text \<open>Loading a module does not touch the table of kernels.\<close>

lemma call_kernels: "call f s = Some (r, s') \<Longrightarrow> kernels s' = kernels s"
  by (auto dest: call_frame)

definition same_kernels :: "Kernel list \<Rightarrow> (cudaError \<times> 's runtime) option \<Rightarrow> bool" where
  "same_kernels ks r \<longleftrightarrow> (\<forall>e s. r = Some (e, s) \<longrightarrow> kernels s = ks)"

lemma same_kernels_bind: "(\<And>x. m = Some x \<Longrightarrow> same_kernels ks (g x)) \<Longrightarrow> same_kernels ks (m \<bind> g)"
  by (cases m) (simp_all add: same_kernels_def)

lemma same_kernels_call:
  "kernels s = ks \<Longrightarrow> (\<And>r s'. kernels s' = ks \<Longrightarrow> same_kernels ks (g (r, s'))) \<Longrightarrow> same_kernels ks (call f s \<bind> g)"
  by (rule same_kernels_bind) (auto dest: call_kernels)

lemma same_kernels_attribute:
  "kernels s = ks \<Longrightarrow> (\<And>v s'. kernels s' = ks \<Longrightarrow> same_kernels ks (g (v, s'))) \<Longrightarrow> same_kernels ks (attribute old a d s \<bind> g)"
  by (rule same_kernels_bind) (auto dest!: attribute_call call_kernels)

lemma same_kernels_results:
  "kernels s = ks \<Longrightarrow> same_kernels ks (Some (e, s))" "kernels s = ks \<Longrightarrow> same_kernels ks (Some (fail e s))"
  "kernels s = ks \<Longrightarrow> same_kernels ks (Some (check r s))" "same_kernels ks None"
  by (auto simp: same_kernels_def fail_def check_def)

lemma same_kernels_if: "(b \<Longrightarrow> same_kernels ks x) \<Longrightarrow> (\<not> b \<Longrightarrow> same_kernels ks y) \<Longrightarrow> same_kernels ks (if b then x else y)"
  by simp

lemma same_kernels_pure:
  "(\<And>x. same_kernels ks (g x)) \<Longrightarrow> same_kernels ks (checked w x \<bind> g)"
  "(\<And>x. same_kernels ks (k x)) \<Longrightarrow> same_kernels ks (image_of fb n \<bind> k)"
  by (simp_all add: same_kernels_bind)

lemma ensureContext_kernels: "same_kernels (kernels s) (ensureContext lib s)"
proof -
  obtain ok s1 where l: "loadDriver lib s = (ok, s1)" by fastforce
  have "kernels s1 = kernels s" using arg_cong [OF loadDriver_frame [OF l], of kernels] by simp
  then show ?thesis
    unfolding ensureContext_def l Let_def
    by (auto intro!: same_kernels_if same_kernels_results same_kernels_call)
qed

lemma same_kernels_ensureContext:
  "kernels s = ks \<Longrightarrow> (\<And>e s'. kernels s' = ks \<Longrightarrow> same_kernels ks (g (e, s'))) \<Longrightarrow> same_kernels ks (ensureContext lib s \<bind> g)"
  using ensureContext_kernels [of s lib] by (intro same_kernels_bind) (auto simp: same_kernels_def)

lemma loadModule_kernels: "loadModule lib h s = Some (e, s') \<Longrightarrow> kernels s' = kernels s"
proof -
  have "same_kernels (kernels s) (loadModule lib h s)"
    by (auto simp: loadModule_def Let_def split: option.split intro!: same_kernels_if same_kernels_results same_kernels_call
        same_kernels_attribute same_kernels_ensureContext same_kernels_pure)
  then show "loadModule lib h s = Some (e, s') \<Longrightarrow> kernels s' = kernels s" by (simp add: same_kernels_def)
qed

lemma keeping_loadModule:
  assumes "\<And>s'. keeps lib s cudaSuccess s' \<Longrightarrow> (driver_ok lib s \<Longrightarrow> contextReady s') \<Longrightarrow> kernels s' = kernels s \<Longrightarrow> keeping lib s (f s')"
  shows "keeping lib s (loadModule lib h s \<bind> (\<lambda>(e, s'). if e \<noteq> cudaSuccess then Some (e, None, s') else f s'))"
proof (rule keeping_bind)
  fix x
  assume x: "loadModule lib h s = Some x"
  obtain e s' where p: "x = (e, s')" by (cases x)
  show "keeping lib s (case x of (e, s') \<Rightarrow> if e \<noteq> cudaSuccess then Some (e, None, s') else f s')"
    using assms [of s'] keeps_loadModule [of lib h s e s'] loadModule_ready [of lib h s s'] loadModule_kernels [of lib h s e s'] x p
    by (auto intro: keeping_Some)
qed

lemma call_driver_ok: "call f s = Some (r, s') \<Longrightarrow> driver_ok lib s' = driver_ok lib s \<and> contextReady s' = contextReady s"
  by (drule call_frame) auto

lemma keeping_functionOf: "keeping lib s (functionOf lib k s)"
proof -
  have "keeping lib s (call g s1 \<bind> (\<lambda>((r, f), s). let kn = (kernels s ! k)\<lparr>cufunction := written (cufunction (kernels s ! k)) f\<rparr>;
      s = s\<lparr>kernels := (kernels s)[k := kn]\<rparr> in if r \<noteq> 0 then (case check r s of (e, s) \<Rightarrow> Some (e, None, s))
      else Some (cudaSuccess, Some (cufunction kn), s)))"
    if s1: "keeps lib s cudaSuccess s1" "driver_ok lib s \<Longrightarrow> contextReady s1" "kernels s1 = kernels s" "cufunction (kernels s ! k) = 0" for g s1
  proof (rule keeping_bind, goal_cases)
    case (1 x)
    then have x: "call g s1 = Some x" .
    obtain r f s2 where p: "x = ((r, f), s2)" by (metis prod.exhaust)
    have s2: "keeps lib s cudaSuccess s2" using x p by (intro keeps_trans [OF s1(1) keeps_call]) simp
    obtain w where w: "s2 = s1\<lparr>gpu := w\<rparr>" using x p by (auto dest: call_frame)
    define kn where "kn = (kernels s2 ! k)\<lparr>cufunction := written (cufunction (kernels s2 ! k)) f\<rparr>"
    have "keeps lib s cudaSuccess (s2\<lparr>kernels := (kernels s2)[k := kn]\<rparr>)"
    proof (cases "driver_ok lib s")
      case True
      show ?thesis
        by (rule keeps_trans [OF s2 keeps_kernels]) (use s1(2-) True w in \<open>simp_all add: kn_def kernel_entry_def\<close>)
    next
      case False
      have "map kernel_entry ((kernels s2)[k := kn]) = map kernel_entry (kernels s2)"
        by (rule map_update_same) (simp add: kn_def kernel_entry_def)
      moreover have "functions_kept (kernels s) ((kernels s2)[k := kn])"
        unfolding w using s1(3,4) by (simp add: functions_kept_update)
      ultimately show ?thesis using False s2 by (simp add: keeps_def same_tables_def)
    qed
    then show ?case
      unfolding p prod.case Let_def kn_def by (auto intro!: keeping_check keeping_Some)
  qed
  then show ?thesis
    unfolding functionOf_def Let_def by (auto intro!: keeping_Some keeps_refl keeping_loadModule)
qed

lemma keeping_addressOf: "keeping lib s (addressOf lib v s)"
  unfolding addressOf_def Let_def by (intro keeping_loadModule keeping_check_out)

lemma keeping_with_symbol:
  assumes "\<And>p s'. keeps lib s cudaSuccess s' \<Longrightarrow> keeping lib s (f p s')"
  shows "keeping lib s (with_symbol lib y f s)"
proof (cases "findVar y s")
  case (Some v)
  have "keeps lib s e s'" if "addressOf lib v s = Some (e, out, s')" for e out s'
    using that keeping_addressOf [of lib s v] by (simp add: keeping_def)
  then show ?thesis
    unfolding with_symbol_def Some option.case using assms
    by (intro keeping_bind) (auto intro: keeping_Some keeping_None split: option.split)
qed (simp add: with_symbol_def keeping_failed keeps_refl)

lemma keeping_cudaLaunch: "keeping lib s (cudaLaunch lib f ds args sh st s)"
proof (cases "findKernel f s")
  case (Some k)
  have "keeps lib s e s'" if "functionOf lib k s = Some (e, out, s')" for e out s'
    using that keeping_functionOf [of lib s k] by (simp add: keeping_def)
  then show ?thesis
    unfolding cudaLaunch_def Some option.case
    by (intro keeping_bind) (auto intro!: keeping_Some keeping_check_call)
qed (simp add: cudaLaunch_def keeping_failed keeps_refl)

lemma keeping_attributes: "attributes as v d s = Some (vs, s') \<Longrightarrow> keeps lib s cudaSuccess s'"
proof (induction as v d s arbitrary: vs s' rule: attributes.induct)
  case (2 a as v d s)
  then obtain v' s1 vs' where "attribute v a d s = Some (v', s1)" "attributes as v' d s1 = Some (vs', s')"
    by (auto simp: bind_eq_Some_conv)
  moreover from this(1) have "keeps lib s cudaSuccess s1" by (auto dest: attribute_call keeps_call)
  ultimately show ?case using "2.IH" [of "(v', s1)" v' s1] by (auto intro: keeps_trans)
qed (simp add: keeps_refl)

lemma keeping_cudaGetDeviceProperties: "keeping lib s (cudaGetDeviceProperties lib d s)"
proof -
  have att: "keeping lib s (attributes as v dev s1 \<bind> g)"
    if "keeps lib s cudaSuccess s1" "\<And>vs s'. keeps lib s cudaSuccess s' \<Longrightarrow> keeping lib s (g (vs, s'))"
    for as v dev s1 and g :: "_ \<Rightarrow> ('a, cudaDeviceProp) result"
    using that keeps_trans [OF that(1) keeping_attributes] by (intro keeping_bind) auto
  show ?thesis
    unfolding cudaGetDeviceProperties_def
    by (intro keeping_with_driver keeps_refl)
      (auto simp del: attributes.simps split: option.split intro!: keeping_call keeping_check keeping_None keeping_Some att)
qed

lemmas keeping_intros = keeping_check_call keeping_check_out keeping_with_context keeping_with_driver keeping_failed
  keeping_map keeping_cudaLaunch keeping_with_symbol keeping_cudaGetDeviceProperties keeps_refl active_keeps
  keeping_Some

definition is_api :: "api \<Rightarrow> bool" where
  "is_api c \<longleftrightarrow> (case c of RegisterFatBinary _ _ \<Rightarrow> False | UnregisterFatBinary _ \<Rightarrow> False | RegisterFunction _ _ _ \<Rightarrow> False
     | RegisterVar _ _ _ _ \<Rightarrow> False | PushConfig _ _ _ \<Rightarrow> False | PopConfig \<Rightarrow> False | GetLastError \<Rightarrow> False
     | PeekAtLastError \<Rightarrow> False | SetDevice _ \<Rightarrow> False | _ \<Rightarrow> True)"

lemma outcome_keeps: "outcome r = Some (e, s') \<Longrightarrow> keeping lib s r \<Longrightarrow> keeps lib s e s'"
  by (auto simp: outcome_def keeping_def)

lemma keeping_memory:
  "keeping lib s (cudaMalloc lib n s)" "keeping lib s (cudaFree lib p s)" "keeping lib s (cudaMallocHost lib n s)"
  "keeping lib s (cudaFreeHost lib p s)" "keeping lib s (cudaMallocManaged lib n fl s)"
  "keeping lib s (cudaMemset lib p v n s)"
  by (auto simp: cudaMalloc_def cudaFree_def cudaMallocHost_def cudaFreeHost_def cudaMallocManaged_def cudaMemset_def
      intro!: keeping_intros)

lemma keeping_host_copy: "active lib s0 s \<Longrightarrow> keeping lib s0 (host_copy d c n s)"
  by (auto simp: host_copy_def intro!: keeping_None keeping_Some keeps_trans [OF active_keeps keeps_gpu])

lemma keeping_copies: "keeping lib s (cudaMemcpy lib d c n k s)" "keeping lib s (cudaMemcpyAsync lib d c n k st s)"
  by (auto simp: cudaMemcpy_def cudaMemcpyAsync_def split: option.split cudaMemcpyKind.split
      intro!: keeping_intros keeping_host_copy)

lemma keeping_symbols:
  "keeping lib s (cudaMemcpyToSymbol lib y c n off k s)" "keeping lib s (cudaMemcpyFromSymbol lib d y n off k s)"
  "keeping lib s (cudaGetSymbolAddress lib y s)" "keeping lib s (cudaGetSymbolSize lib y s)"
proof -
  show "keeping lib s (cudaMemcpyToSymbol lib y c n off k s)" "keeping lib s (cudaMemcpyFromSymbol lib d y n off k s)"
      "keeping lib s (cudaGetSymbolAddress lib y s)"
    by (auto simp: cudaMemcpyToSymbol_def cudaMemcpyFromSymbol_def cudaGetSymbolAddress_def intro!: keeping_intros)
  show "keeping lib s (cudaGetSymbolSize lib y s)"
    by (auto simp: cudaGetSymbolSize_def split: option.split intro!: keeping_intros keeping_addressOf)
qed

lemma keeping_devices:
  "keeping lib s (cudaDeviceSynchronize lib s)" "keeping lib s (cudaDeviceReset lib s)" "keeping lib s (cudaGetDeviceCount lib s)"
  "keeping lib s (cudaStreamCreate lib s)" "keeping lib s (cudaStreamDestroy st s)"
  "keeping lib s (cudaStreamSynchronize lib st s)" "keeping lib s (cudaEventCreate lib s)"
  "keeping lib s (cudaEventDestroy ev s)" "keeping lib s (cudaEventRecord ev st s)" "keeping lib s (cudaEventSynchronize ev s)"
  "keeping lib s (cudaEventElapsedTime a b s)"
  by (auto simp: cudaDeviceSynchronize_def cudaDeviceReset_def cudaGetDeviceCount_def cudaStreamCreate_def cudaStreamDestroy_def
      cudaStreamSynchronize_def cudaEventCreate_def cudaEventDestroy_def cudaEventRecord_def cudaEventSynchronize_def
      cudaEventElapsedTime_def intro!: keeping_intros)

lemma exec_keeps: "is_api c \<Longrightarrow> exec lib c s = Some (e, s') \<Longrightarrow> keeps lib s e s'"
  by (cases c) (simp_all add: is_api_def exec_def outcome_keeps [OF _ keeping_memory(1)] outcome_keeps [OF _ keeping_memory(2)]
      outcome_keeps [OF _ keeping_memory(3)] outcome_keeps [OF _ keeping_memory(4)] outcome_keeps [OF _ keeping_memory(5)]
      outcome_keeps [OF _ keeping_memory(6)] outcome_keeps [OF _ keeping_copies(1)] outcome_keeps [OF _ keeping_copies(2)]
      outcome_keeps [OF _ keeping_symbols(1)] outcome_keeps [OF _ keeping_symbols(2)] outcome_keeps [OF _ keeping_symbols(3)]
      outcome_keeps [OF _ keeping_symbols(4)] outcome_keeps [OF _ keeping_devices(1)] outcome_keeps [OF _ keeping_devices(2)]
      outcome_keeps [OF _ keeping_devices(3)] outcome_keeps [OF _ keeping_devices(4)] outcome_keeps [OF _ keeping_devices(5)]
      outcome_keeps [OF _ keeping_devices(6)] outcome_keeps [OF _ keeping_devices(7)] outcome_keeps [OF _ keeping_devices(8)]
      outcome_keeps [OF _ keeping_devices(9)] outcome_keeps [OF _ keeping_devices(10)] outcome_keeps [OF _ keeping_devices(11)]
      outcome_keeps [OF _ keeping_cudaLaunch] outcome_keeps [OF _ keeping_cudaGetDeviceProperties] cudaGetDevice_def keeps_refl)

section \<open>Well-formed states and well-behaved programs\<close>

text \<open>
  A handle the program got from the registration of a fat binary; a container whose search
  ends; a driver that has every function and returns what its documentation says: it writes
  the device and the address of a global when it succeeds, the compute capability is small, and
  making a context takes no memory away from the program.
\<close>

definition handle_ok :: "'s runtime \<Rightarrow> nat option \<Rightarrow> bool" where
  "handle_ok s h \<longleftrightarrow> (\<exists>i. h = Some i \<and> i < length (fatbins s))"

definition container_ok :: "FatbinWrapper option \<Rightarrow> bool" where
  "container_ok w \<longleftrightarrow> (\<forall>sm. image_of w sm \<noteq> None)"

definition runtime_ok :: "'s driver option \<Rightarrow> 's runtime \<Rightarrow> bool" where
  "runtime_ok lib s \<longleftrightarrow> driver_ok lib s \<and>
     length (fatbins s) \<le> 256 \<and> length (kernels s) \<le> 4096 \<and> length (vars s) \<le> 4096 \<and> length (configs s) \<le> 64 \<and>
     (\<forall>k\<in>set (kernels s). handle_ok s (k_fatbin k)) \<and> (\<forall>v\<in>set (vars s). handle_ok s (v_fatbin v)) \<and>
     (\<forall>fb\<in>set (fatbins s). container_ok (wrapper fb))"

definition complete_driver :: "'s driver \<Rightarrow> bool" where
  "complete_driver d \<longleftrightarrow>
     Init d \<noteq> None \<and> DeviceGetCount d \<noteq> None \<and> DeviceGet d \<noteq> None \<and> DeviceGetName d \<noteq> None \<and> DeviceGetAttribute d \<noteq> None \<and>
     DeviceTotalMem d \<noteq> None \<and> DevicePrimaryCtxRetain d \<noteq> None \<and> CtxSetCurrent d \<noteq> None \<and> CtxSynchronize d \<noteq> None \<and>
     ModuleLoadDataEx d \<noteq> None \<and> ModuleUnload d \<noteq> None \<and> ModuleGetFunction d \<noteq> None \<and> ModuleGetGlobal d \<noteq> None \<and>
     MemAlloc d \<noteq> None \<and> MemAllocHost d \<noteq> None \<and> MemAllocManaged d \<noteq> None \<and> MemFree d \<noteq> None \<and> MemFreeHost d \<noteq> None \<and>
     MemcpyHtoD d \<noteq> None \<and> MemcpyDtoH d \<noteq> None \<and> MemcpyDtoD d \<noteq> None \<and> MemcpyHtoDAsync d \<noteq> None \<and>
     MemcpyDtoHAsync d \<noteq> None \<and> MemcpyDtoDAsync d \<noteq> None \<and> MemsetD8 d \<noteq> None \<and> LaunchKernel d \<noteq> None \<and>
     StreamCreate d \<noteq> None \<and> StreamDestroy d \<noteq> None \<and> StreamSynchronize d \<noteq> None \<and> EventCreate d \<noteq> None \<and>
     EventDestroy d \<noteq> None \<and> EventRecord d \<noteq> None \<and> EventSynchronize d \<noteq> None \<and> EventElapsedTime d \<noteq> None"

definition host_kept :: "('s, 'r) op \<Rightarrow> bool" where
  "host_kept f \<longleftrightarrow> (\<forall>w. dom (snd w) \<subseteq> dom (snd (snd (f w))))"

definition documented_driver :: "'s driver \<Rightarrow> bool" where
  "documented_driver d \<longleftrightarrow>
     (\<forall>f dev w. DeviceGet d = Some f \<longrightarrow> fst (fst (f dev w)) = 0 \<longrightarrow> snd (fst (f dev w)) \<noteq> None) \<and>
     (\<forall>f m n w. ModuleGetGlobal d = Some f \<longrightarrow> fst (fst (f m n w)) = 0 \<longrightarrow> snd (fst (f m n w)) \<noteq> None) \<and>
     (\<forall>f a dev w v. DeviceGetAttribute d = Some f \<longrightarrow> a \<in> {75, 76} \<longrightarrow> snd (fst (f a dev w)) = Some v \<longrightarrow> 0 \<le> v \<and> v \<le> 1000) \<and>
     (\<forall>f. Init d = Some f \<longrightarrow> host_kept f) \<and> (\<forall>f. DeviceGetCount d = Some f \<longrightarrow> host_kept f) \<and>
     (\<forall>f x. DeviceGet d = Some f \<longrightarrow> host_kept (f x)) \<and> (\<forall>f x. DevicePrimaryCtxRetain d = Some f \<longrightarrow> host_kept (f x)) \<and>
     (\<forall>f x. CtxSetCurrent d = Some f \<longrightarrow> host_kept (f x))"

definition library_ok :: "'s driver option \<Rightarrow> bool" where
  "library_ok lib \<longleftrightarrow> (\<forall>d. lib = Some d \<longrightarrow> complete_driver d \<and> documented_driver d)"

text \<open>
  What a call has to respect: handles come from the registration, streams and events are used
  after a call that made them, a copy within the host is between objects that do not overlap,
  and calloc succeeds, since the code does not test it.
\<close>

definition call_ok :: "'s runtime \<Rightarrow> api \<Rightarrow> bool" where
  "call_ok s c \<longleftrightarrow>
     (case c of RegisterFatBinary calloc w \<Rightarrow> container_ok w \<and> (calloc \<or> 256 \<le> length (fatbins s))
      | UnregisterFatBinary h \<Rightarrow> h = None \<or> handle_ok s h
      | RegisterFunction h f n \<Rightarrow> handle_ok s h
      | RegisterVar h v n z \<Rightarrow> handle_ok s h
      | Memcpy d c n k \<Rightarrow> k = Some cudaMemcpyHostToHost \<longrightarrow> copy_defined (snd (gpu s)) d c n
      | MemcpyAsync d c n k st \<Rightarrow> k = Some cudaMemcpyHostToHost \<longrightarrow> copy_defined (snd (gpu s)) d c n
      | StreamDestroyCall st \<Rightarrow> st = 0 \<or> contextReady s
      | EventDestroyCall ev \<Rightarrow> contextReady s
      | EventRecordCall ev st \<Rightarrow> contextReady s
      | EventSynchronizeCall ev \<Rightarrow> contextReady s
      | EventElapsed a b \<Rightarrow> contextReady s
      | _ \<Rightarrow> True)"

lemma runtime_ok_keeps:
  assumes "runtime_ok lib s" and "keeps lib s e s'"
  shows "runtime_ok lib s'"
proof -
  have k: "map kernel_entry (kernels s') = map kernel_entry (kernels s)" and f: "map wrapper (fatbins s') = map wrapper (fatbins s)"
      and rest: "vars s' = vars s" "configs s' = configs s" "driver_ok lib s'"
    using assms by (auto simp: keeps_def same_tables_def runtime_ok_def)
  have len: "length (kernels s') = length (kernels s)" "length (fatbins s') = length (fatbins s)"
    using map_eq_imp_length_eq [OF k] map_eq_imp_length_eq [OF f] by simp_all
  have h: "handle_ok s' = handle_ok s" by (rule ext) (simp add: handle_ok_def len split: option.split)
  have "\<forall>k\<in>set (kernels s'). handle_ok s (k_fatbin k)"
    using arg_cong [OF k, of "list_all (\<lambda>(f, n, h). handle_ok s h)"] assms(1)
    by (simp add: list_all_iff kernel_entry_def runtime_ok_def)
  moreover have "\<forall>fb\<in>set (fatbins s'). container_ok (wrapper fb)"
    using arg_cong [OF f, of "list_all container_ok"] assms(1) by (simp add: list_all_iff runtime_ok_def)
  ultimately show ?thesis using assms(1) rest len h unfolding runtime_ok_def by simp
qed

lemma handle_ok_frame [simp]:
  "handle_ok (s\<lparr>kernels := ks\<rparr>) = handle_ok s" "handle_ok (s\<lparr>vars := vs\<rparr>) = handle_ok s"
  "handle_ok (s\<lparr>configs := cs\<rparr>) = handle_ok s" "handle_ok (s\<lparr>lastError := e\<rparr>) = handle_ok s"
  "handle_ok (s\<lparr>deviceOrdinal := d\<rparr>) = handle_ok s" "handle_ok (s\<lparr>gpu := w\<rparr>) = handle_ok s"
  by (simp_all add: handle_ok_def fun_eq_iff)

lemma runtime_ok_gpu [simp]: "runtime_ok lib (s\<lparr>gpu := w\<rparr>) = runtime_ok lib s"
  by (simp add: runtime_ok_def)

lemma runtime_ok_unregister:
  assumes "runtime_ok lib s" and "h = None \<or> handle_ok s h" and "cudaUnregisterFatBinary h s = Some s'"
  shows "runtime_ok lib s'"
proof (cases h)
    case (Some i)
    define s1 where "s1 = s\<lparr>fatbins := (fatbins s)[i := (fatbins s ! i)\<lparr>cumodule := 0\<rparr>]\<rparr>"
    have "i < length (fatbins s)" using assms(2) Some by (auto simp: handle_ok_def)
    then have "s' = s1\<lparr>gpu := gpu s'\<rparr>"
      using assms(3) Some
      by (cases s) (auto simp: cudaUnregisterFatBinary_def bind_eq_Some_conv s1_def split: if_splits dest!: call_frame)
    moreover have "runtime_ok lib s1"
    proof -
      have old: "\<exists>x\<in>set (fatbins s). wrapper x = wrapper fb \<and> (cumodule fb = 0 \<or> cumodule fb = cumodule x)"
        if "fb \<in> set (fatbins s1)" for fb
        using that \<open>i < _\<close> nth_mem [of i "fatbins s"] set_update_subset_insert [of "fatbins s" i] by (fastforce simp: s1_def)
      have fields: "handle_ok s1 = handle_ok s" "kernels s1 = kernels s" "vars s1 = vars s" "configs s1 = configs s"
          "length (fatbins s1) = length (fatbins s)" "drv s1 = drv s" "loaded s1 = loaded s" "contextReady s1 = contextReady s"
        by (auto simp: s1_def handle_ok_def split: option.splits)
      have "\<forall>fb\<in>set (fatbins s1). container_ok (wrapper fb)" using assms(1) old by (metis runtime_ok_def)
      moreover have "driver_ok lib s1" using assms(1) old fields unfolding runtime_ok_def driver_ok_def by metis
      ultimately show ?thesis using assms(1) fields unfolding runtime_ok_def by simp
    qed
    ultimately show ?thesis by (metis runtime_ok_gpu)
qed (use assms in \<open>simp add: cudaUnregisterFatBinary_def\<close>)

lemma runtime_ok_register:
  assumes "runtime_ok lib s"
  shows "container_ok w \<Longrightarrow> cudaRegisterFatBinary calloc w s = Some (h, s') \<Longrightarrow> runtime_ok lib s'"
    and "handle_ok s h \<Longrightarrow> runtime_ok lib (cudaRegisterFunction h f n s)"
    and "handle_ok s h \<Longrightarrow> runtime_ok lib (cudaRegisterVar h f n z s)"
proof -
  have grow: "handle_ok s h \<Longrightarrow> handle_ok (s\<lparr>fatbins := fatbins s @ [fb]\<rparr>) h" for h fb by (auto simp: handle_ok_def)
  show "container_ok w \<Longrightarrow> cudaRegisterFatBinary calloc w s = Some (h, s') \<Longrightarrow> runtime_ok lib s'"
    using assms grow by (auto simp: cudaRegisterFatBinary_def runtime_ok_def driver_ok_def split: if_splits)
  show "handle_ok s h \<Longrightarrow> runtime_ok lib (cudaRegisterFunction h f n s)"
    using assms by (auto simp: cudaRegisterFunction_def runtime_ok_def driver_ok_def)
  show "handle_ok s h \<Longrightarrow> runtime_ok lib (cudaRegisterVar h f n z s)"
    using assms by (auto simp: cudaRegisterVar_def runtime_ok_def driver_ok_def)
qed

lemma runtime_ok_frame [simp]:
  "runtime_ok lib (s\<lparr>lastError := e\<rparr>) = runtime_ok lib s" "runtime_ok lib (s\<lparr>deviceOrdinal := d\<rparr>) = runtime_ok lib s"
  "length cs \<le> 64 \<Longrightarrow> runtime_ok lib s \<Longrightarrow> runtime_ok lib (s\<lparr>configs := cs\<rparr>)"
  by (simp_all add: runtime_ok_def driver_ok_def)

lemma runtime_ok_small:
  assumes "runtime_ok lib s"
  shows "cudaPushCallConfiguration ds sh st s = (e, s') \<Longrightarrow> runtime_ok lib s'"
    and "cudaPopCallConfiguration s = (e, c, s') \<Longrightarrow> runtime_ok lib s'"
    and "cudaGetLastError s = (e, s') \<Longrightarrow> runtime_ok lib s'"
    and "cudaSetDevice d s = (e, s') \<Longrightarrow> runtime_ok lib s'"
proof -
  have "length (configs s) \<le> 64" using assms by (simp add: runtime_ok_def)
  with assms show "cudaPushCallConfiguration ds sh st s = (e, s') \<Longrightarrow> runtime_ok lib s'"
      "cudaPopCallConfiguration s = (e, c, s') \<Longrightarrow> runtime_ok lib s'"
    by (auto simp: cudaPushCallConfiguration_def cudaPopCallConfiguration_def split: if_splits)
  show "cudaGetLastError s = (e, s') \<Longrightarrow> runtime_ok lib s'" "cudaSetDevice d s = (e, s') \<Longrightarrow> runtime_ok lib s'"
    using assms by (auto simp: cudaGetLastError_def cudaSetDevice_def fail_def split: if_splits)
qed

lemma runtime_ok_exec:
  assumes "runtime_ok lib s" and "call_ok s c" and "exec lib c s = Some (e, s')"
  shows "runtime_ok lib s'"
proof (cases "is_api c")
  case True
  with assms(1,3) show ?thesis using exec_keeps runtime_ok_keeps by blast
next
  case False
  then show ?thesis
    using assms runtime_ok_small [OF assms(1)] runtime_ok_register [OF assms(1)] runtime_ok_unregister [OF assms(1)]
    by (cases c) (auto simp: is_api_def exec_def call_ok_def outcome_def cudaPeekAtLastError_def split: prod.splits)
qed

section \<open>No undefined behaviour\<close>

text \<open>The driver a state works with once it has a context.\<close>

lemma ready_driver: "driver_ok lib s \<Longrightarrow> contextReady s \<Longrightarrow> lib = Some (drv s)"
  by (cases lib) (auto simp: driver_ok_def loaded_ok_def split: if_splits)

lemma loadDriver_driver: "loadDriver lib s = (True, s') \<Longrightarrow> driver_ok lib s \<Longrightarrow> lib = Some (drv s')"
  using loadDriver_loaded_ok [of lib s True s'] by (cases lib) (auto simp: driver_ok_def loaded_ok_def split: if_splits)

lemma call_defined: "f \<noteq> None \<Longrightarrow> \<exists>r w. call f s = Some (r, s\<lparr>gpu := w\<rparr>)"
proof -
  assume "f \<noteq> None"
  then obtain g where g: "f = Some g" by blast
  obtain r w where "g (gpu s) = (r, w)" by (cases "g (gpu s)")
  with g have "call f s = Some (r, s\<lparr>gpu := w\<rparr>)" by (simp add: call_def)
  then show ?thesis by blast
qed

lemma complete_library: "library_ok lib \<Longrightarrow> lib = Some d \<Longrightarrow> complete_driver d"
  by (simp add: library_ok_def)

text \<open>Results that exist.\<close>

definition sound :: "'x option \<Rightarrow> bool" where
  "sound r \<longleftrightarrow> r \<noteq> None"

lemma sound_Some: "sound (Some x)"
  by (simp add: sound_def)

lemma sound_if: "(b \<Longrightarrow> sound x) \<Longrightarrow> (\<not> b \<Longrightarrow> sound y) \<Longrightarrow> sound (if b then x else y)"
  by simp

lemma sound_call:
  assumes "f \<noteq> None" and "\<And>r w. sound (g (r, s\<lparr>gpu := w\<rparr>))"
  shows "sound (call f s \<bind> g)"
  using call_defined [OF assms(1), of s] assms(2) by (auto simp: sound_def)

lemma ensureContext_defined:
  assumes lib: "library_ok lib" and s: "driver_ok lib s"
  shows "ensureContext lib s \<noteq> None"
proof (cases "contextReady s")
  case False
  obtain ok s1 where l: "loadDriver lib s = (ok, s1)" by fastforce
  show ?thesis
  proof (cases ok)
    case True
    then have d: "complete_driver (drv s1)" using complete_library [OF lib] loadDriver_driver [of lib s s1] l s by simp
    have "sound (ensureContext lib s)"
      unfolding ensureContext_def if_not_P [OF False] l prod.case Let_def
      using True d by (auto simp: complete_driver_def intro!: sound_Some sound_if sound_call split: prod.split)
    then show ?thesis by (simp add: sound_def)
  qed (simp add: ensureContext_def False l)
qed (simp add: ensureContext_def)

lemma attribute_defined:
  assumes "complete_driver (drv s)" and "documented_driver (drv s)" and "a \<in> {75, 76}"
  shows "\<exists>v w. attribute 0 a dev s = Some (v, s\<lparr>gpu := w\<rparr>) \<and> 0 \<le> v \<and> v \<le> 1000"
proof -
  obtain f where f: "DeviceGetAttribute (drv s) = Some f" using assms(1) by (auto simp: complete_driver_def)
  obtain r v w where v: "f a dev (gpu s) = ((r, v), w)" by (metis prod.exhaust)
  have "attribute 0 a dev s = Some (written 0 v, s\<lparr>gpu := w\<rparr>)" by (simp add: attribute_def call_def f v)
  moreover have "0 \<le> written 0 v \<and> written 0 v \<le> 1000"
  proof (cases v)
    case (Some x)
    then show ?thesis using assms(2,3) f v unfolding documented_driver_def written_def by (metis fst_conv option.simps(5) snd_conv)
  qed (simp add: written_def)
  ultimately show ?thesis by blast
qed

lemma context_state:
  assumes "library_ok lib" and "runtime_ok lib s" and "ensureContext lib s = Some (cudaSuccess, s1)"
  shows "runtime_ok lib s1" "contextReady s1" "complete_driver (drv s1)" "documented_driver (drv s1)"
    "length (fatbins s1) = length (fatbins s)"
proof -
  have k: "keeps lib s cudaSuccess s1" "contextReady s1" using readies_ensureContext [of lib s] assms(3) by (auto simp: readies_def)
  show r: "runtime_ok lib s1" by (rule runtime_ok_keeps [OF assms(2) k(1)])
  show "contextReady s1" by (rule k(2))
  have "lib = Some (drv s1)" using r k(2) ready_driver by (auto simp: runtime_ok_def)
  with assms(1) show "complete_driver (drv s1)" "documented_driver (drv s1)" by (simp_all add: library_ok_def)
  show "length (fatbins s1) = length (fatbins s)"
    using k(1) map_eq_imp_length_eq [of wrapper "fatbins s1" wrapper "fatbins s"] by (auto simp: keeps_def same_tables_def)
qed

lemma loadModule_defined:
  assumes lib: "library_ok lib" and s: "runtime_ok lib s" and h: "handle_ok s h"
  shows "loadModule lib h s \<noteq> None"
proof -
  obtain i where i: "h = Some i" "i < length (fatbins s)" using h by (auto simp: handle_ok_def)
  obtain e s1 where c: "ensureContext lib s = Some (e, s1)"
    using ensureContext_defined [OF lib, of s] s by (auto simp: runtime_ok_def)
  show ?thesis
  proof (cases "e = cudaSuccess")
    case True
    note st = context_state [OF lib s c [unfolded True]]
    obtain major w1 where a1: "attribute 0 75 (device s1) s1 = Some (major, s1\<lparr>gpu := w1\<rparr>)" "0 \<le> major" "major \<le> 1000"
      using attribute_defined [OF st(3,4)] by blast
    obtain minor w2 where a2: "attribute 0 76 (device s1) (s1\<lparr>gpu := w1\<rparr>) = Some (minor, s1\<lparr>gpu := w2\<rparr>)" "0 \<le> minor" "minor \<le> 1000"
      using attribute_defined [of "s1\<lparr>gpu := w1\<rparr>" 76 "device s1"] st(3,4) by auto
    have sm: "in_signed 32 (major * 10)" "in_signed 32 (major * 10 + minor)" using a1 a2 by (simp_all add: in_signed_def)
    have "container_ok (wrapper (fatbins s1 ! i))" using st(1,5) i(2) by (simp add: runtime_ok_def)
    then obtain im where im: "image_of (wrapper (fatbins s1 ! i)) (nat (uint32 (major * 10 + minor))) = Some im"
      by (auto simp: container_ok_def)
    have "ModuleLoadDataEx (drv s1) \<noteq> None" using st(3) by (simp add: complete_driver_def)
    then have "call (map_option (\<lambda>f. f d) (ModuleLoadDataEx (drv s1))) (s1\<lparr>gpu := w2\<rparr>) \<bind> g \<noteq> None"
      if "\<And>r w. g (r, s1\<lparr>gpu := w\<rparr>) \<noteq> None" for d and g :: "_ \<Rightarrow> (cudaError \<times> 'a runtime) option"
      using call_defined [of "map_option (\<lambda>f. f d) (ModuleLoadDataEx (drv s1))" "s1\<lparr>gpu := w2\<rparr>"] that by auto
    then show ?thesis
      using i c True a1(1) a2(1) im
      by (auto simp: loadModule_def Let_def checked_Some [OF sm(1)] checked_Some [OF sm(2)] split: option.split)
  qed (use i c in \<open>simp add: loadModule_def\<close>)
qed

text \<open>Making the context leaves the objects of the host where they are.\<close>

definition host_grows :: "memory \<Rightarrow> (cudaError \<times> 's runtime) option \<Rightarrow> bool" where
  "host_grows m r \<longleftrightarrow> (\<forall>e s. r = Some (e, s) \<longrightarrow> dom m \<subseteq> dom (snd (gpu s)))"

lemma host_grows_call:
  assumes "dom m \<subseteq> dom (snd (gpu s))" and "\<And>g. f = Some g \<Longrightarrow> host_kept g"
    and "\<And>r w. dom m \<subseteq> dom (snd w) \<Longrightarrow> host_grows m (h (r, s\<lparr>gpu := w\<rparr>))"
  shows "host_grows m (call f s \<bind> h)"
proof (cases f)
  case (Some g)
  obtain r w where w: "g (gpu s) = (r, w)" by (cases "g (gpu s)")
  have "dom (snd (gpu s)) \<subseteq> dom (snd w)" using assms(2) [OF Some] w unfolding host_kept_def by (metis snd_conv)
  with assms(1,3) Some w show ?thesis by (simp add: call_def)
qed (simp add: call_def host_grows_def)

lemma host_grows_results:
  "dom m \<subseteq> dom (snd (gpu s)) \<Longrightarrow> host_grows m (Some (e, s))" "dom m \<subseteq> dom (snd (gpu s)) \<Longrightarrow> host_grows m (Some (fail e s))"
  "dom m \<subseteq> dom (snd (gpu s)) \<Longrightarrow> host_grows m (Some (check r s))"
  by (auto simp: host_grows_def fail_def check_def)

lemma host_grows_if: "(b \<Longrightarrow> host_grows m x) \<Longrightarrow> (\<not> b \<Longrightarrow> host_grows m y) \<Longrightarrow> host_grows m (if b then x else y)"
  by simp

lemma ensureContext_host:
  assumes lib: "library_ok lib" and s: "driver_ok lib s"
  shows "host_grows (snd (gpu s)) (ensureContext lib s)"
proof (cases "contextReady s")
  case False
  obtain ok s1 where l: "loadDriver lib s = (ok, s1)" by fastforce
  have g: "gpu s1 = gpu s" using arg_cong [OF loadDriver_frame [OF l], of gpu] by simp
  show ?thesis
  proof (cases ok)
    case True
    then have "documented_driver (drv s1)" using lib loadDriver_driver [of lib s s1] l s by (simp add: library_ok_def)
    then have d: "\<And>f. Init (drv s1) = Some f \<Longrightarrow> host_kept f" "\<And>f. DeviceGetCount (drv s1) = Some f \<Longrightarrow> host_kept f"
        "\<And>f x. DeviceGet (drv s1) = Some f \<Longrightarrow> host_kept (f x)" "\<And>f x. DevicePrimaryCtxRetain (drv s1) = Some f \<Longrightarrow> host_kept (f x)"
        "\<And>f x. CtxSetCurrent (drv s1) = Some f \<Longrightarrow> host_kept (f x)"
      unfolding documented_driver_def by blast+
    show ?thesis
      unfolding ensureContext_def if_not_P [OF False] l prod.case Let_def
      using True by (auto simp: g intro!: host_grows_if host_grows_results host_grows_call dest: d)
  qed (auto simp: ensureContext_def False l g intro!: host_grows_results)
qed (simp add: ensureContext_def host_grows_def)

lemma copy_defined_mono:
  assumes "dom m \<subseteq> dom m'" and "copy_defined m d c n"
  shows "copy_defined m' d c n"
proof -
  have "host_range m p n \<Longrightarrow> host_range m' p n" for p using assms(1) by (fastforce simp: host_range_def list_all_iff)
  with assms(2) show ?thesis by (simp add: copy_defined_def)
qed

lemma check_call_defined: "f \<noteq> None \<Longrightarrow> check_call f s \<noteq> None"
  using call_defined [of f s] by (auto simp: check_call_def split: prod.split)

lemma check_out_defined: "f \<noteq> None \<Longrightarrow> check_out f s \<noteq> None"
  using call_defined [of f s] by (auto simp: check_out_def split: prod.split)

lemma check_out_map_defined: "f \<noteq> None \<Longrightarrow> check_out f s \<bind> (\<lambda>(e, out, s). Some (g e out s)) \<noteq> None"
  using check_out_defined [of f s] by auto

lemma with_context_defined:
  assumes "library_ok lib" and "runtime_ok lib s"
    and "\<And>s'. complete_driver (drv s') \<Longrightarrow> dom (snd (gpu s)) \<subseteq> dom (snd (gpu s')) \<Longrightarrow> f s' \<noteq> None"
  shows "with_context lib f s \<noteq> None"
proof -
  obtain e s1 where c: "ensureContext lib s = Some (e, s1)"
    using ensureContext_defined [OF assms(1), of s] assms(2) by (auto simp: runtime_ok_def)
  then have "dom (snd (gpu s)) \<subseteq> dom (snd (gpu s1))"
    using ensureContext_host [OF assms(1), of s] assms(2) by (simp add: host_grows_def runtime_ok_def)
  with c assms(3) [of s1] context_state(3) [OF assms(1,2)] show ?thesis by (auto simp: with_context_def)
qed

lemma with_driver_defined:
  assumes "library_ok lib" and "runtime_ok lib s" and "\<And>s'. complete_driver (drv s') \<Longrightarrow> documented_driver (drv s') \<Longrightarrow> f s' \<noteq> None"
  shows "with_driver lib out f s \<noteq> None"
proof -
  obtain ok s1 where l: "loadDriver lib s = (ok, s1)" by fastforce
  show ?thesis
  proof (cases ok)
    case True
    then have d: "complete_driver (drv s1)" "documented_driver (drv s1)"
      using assms(1,2) loadDriver_driver [of lib s s1] l by (auto simp: runtime_ok_def library_ok_def)
    obtain r w where "call (Init (drv s1)) s1 = Some (r, s1\<lparr>gpu := w\<rparr>)"
      using call_defined [of "Init (drv s1)" s1] d(1) by (auto simp: complete_driver_def)
    with True l d assms(3) [of "s1\<lparr>gpu := w\<rparr>"] show ?thesis by (simp add: with_driver_def split: prod.split)
  qed (simp add: with_driver_def l split: prod.split)
qed

lemma first_index_less: "first_index P xs = Some i \<Longrightarrow> i < length xs \<and> P (xs ! i)"
  by (induction xs arbitrary: i) (auto split: if_splits)

lemma loaded_state:
  assumes "library_ok lib" and "runtime_ok lib s" and "loadModule lib h s = Some (cudaSuccess, s1)"
  shows "complete_driver (drv s1)" "documented_driver (drv s1)"
proof -
  have "runtime_ok lib s1" using runtime_ok_keeps [OF assms(2) keeps_loadModule [OF assms(3)]] .
  moreover have "contextReady s1" using loadModule_ready [OF assms(3)] assms(2) by (simp add: runtime_ok_def)
  ultimately have "lib = Some (drv s1)" using ready_driver by (auto simp: runtime_ok_def)
  with assms(1) show "complete_driver (drv s1)" "documented_driver (drv s1)" by (simp_all add: library_ok_def)
qed

lemma addressOf_defined:
  assumes "library_ok lib" and "runtime_ok lib s" and "v < length (vars s)"
  shows "addressOf lib v s \<noteq> None \<and> (\<forall>out s'. addressOf lib v s = Some (cudaSuccess, out, s') \<longrightarrow> out \<noteq> None \<and> complete_driver (drv s'))"
proof -
  have "handle_ok s (v_fatbin (vars s ! v))" using assms(2,3) by (simp add: runtime_ok_def)
  from loadModule_defined [OF assms(1,2) this] obtain e s1 where l: "loadModule lib (v_fatbin (vars s ! v)) s = Some (e, s1)" by auto
  show ?thesis
  proof (cases "e = cudaSuccess")
    case True
    note d = loaded_state [OF assms(1,2) l [unfolded True]]
    then obtain f where f: "ModuleGetGlobal (drv s1) = Some f" by (auto simp: complete_driver_def)
    obtain m n where a: "addressOf lib v s = check_out (Some (f m n)) s1"
      using l True f by (simp add: addressOf_def Let_def)
    obtain r out w where w: "f m n (gpu s1) = ((r, out), w)" by (metis prod.exhaust)
    have "r = 0 \<Longrightarrow> out \<noteq> None" using d(2) f w unfolding documented_driver_def by (metis fst_conv snd_conv)
    with a w d(1) show ?thesis by (simp add: check_out_def call_def check_def fail_def)
  qed (use l in \<open>simp add: addressOf_def\<close>)
qed

lemma with_symbol_defined:
  assumes "library_ok lib" and "runtime_ok lib s" and "\<And>p s'. complete_driver (drv s') \<Longrightarrow> f p s' \<noteq> None"
  shows "with_symbol lib y f s \<noteq> None"
proof (cases "findVar y s")
  case (Some v)
  then have "v < length (vars s)" using first_index_less by (fastforce simp: findVar_def)
  from addressOf_defined [OF assms(1,2) this] Some assms(3) show ?thesis
    by (auto simp: with_symbol_def split: option.split)
qed (simp add: with_symbol_def failed_def split: prod.split)

lemma functionOf_defined:
  assumes "library_ok lib" and "runtime_ok lib s" and "k < length (kernels s)"
  shows "functionOf lib k s \<noteq> None \<and> (\<forall>out s'. functionOf lib k s = Some (cudaSuccess, out, s') \<longrightarrow> LaunchKernel (drv s') \<noteq> None)"
proof (cases "cufunction (kernels s ! k) \<noteq> 0")
  case True
  then have "contextReady s" using assms(2,3) unfolding runtime_ok_def driver_ok_def by (meson nth_mem)
  then have "lib = Some (drv s)" using assms(2) ready_driver by (auto simp: runtime_ok_def)
  with True assms(1) show ?thesis by (auto simp: functionOf_def library_ok_def complete_driver_def)
next
  case False
  have "handle_ok s (k_fatbin (kernels s ! k))" using assms(2,3) by (simp add: runtime_ok_def)
  from loadModule_defined [OF assms(1,2) this] obtain e s1 where l: "loadModule lib (k_fatbin (kernels s ! k)) s = Some (e, s1)" by auto
  show ?thesis
  proof (cases "e = cudaSuccess")
    case True
    note d = loaded_state [OF assms(1,2) l [unfolded True]]
    then obtain f where f: "ModuleGetFunction (drv s1) = Some f" by (auto simp: complete_driver_def)
    have launch: "LaunchKernel (drv s1) \<noteq> None" using d by (simp add: complete_driver_def)
    obtain m n where a: "functionOf lib k s = call (Some (f m n)) s1 \<bind> (\<lambda>((r, f), s).
          let kn = (kernels s ! k)\<lparr>cufunction := written (cufunction (kernels s ! k)) f\<rparr>;
              s = s\<lparr>kernels := (kernels s)[k := kn]\<rparr>
          in if r \<noteq> 0 then (case check r s of (e, s) \<Rightarrow> Some (e, None, s)) else Some (cudaSuccess, Some (cufunction kn), s))"
      using l True False f by (simp add: functionOf_def Let_def)
    obtain r out w where w: "f m n (gpu s1) = ((r, out), w)" by (metis prod.exhaust)
    with a launch show ?thesis by (simp add: call_def Let_def check_def fail_def)
  qed (use l False in \<open>simp add: functionOf_def\<close>)
qed

lemma cudaLaunch_defined:
  assumes "library_ok lib" and "runtime_ok lib s"
  shows "cudaLaunch lib f ds args sh st s \<noteq> None"
proof (cases "findKernel f s")
  case (Some k)
  then have "k < length (kernels s)" using first_index_less by (fastforce simp: findKernel_def)
  from functionOf_defined [OF assms this] Some show ?thesis
    by (auto simp: cudaLaunch_def check_call_def call_def split: prod.splits)
qed (simp add: cudaLaunch_def failed_def split: prod.split)

lemma attributes_defined: "DeviceGetAttribute (drv s) \<noteq> None \<Longrightarrow> attributes as v d s \<noteq> None"
proof (induction as v d s rule: attributes.induct)
  case (2 a as v d s)
  obtain r w where c: "call (map_option (\<lambda>f. f a d) (DeviceGetAttribute (drv s))) s = Some (r, s\<lparr>gpu := w\<rparr>)"
    using call_defined [of "map_option (\<lambda>f. f a d) (DeviceGetAttribute (drv s))" s] 2(2) by auto
  obtain v' where a: "attribute v a d s = Some (v', s\<lparr>gpu := w\<rparr>)" by (cases r) (simp add: attribute_def c)
  have "attributes as v' d (s\<lparr>gpu := w\<rparr>) \<noteq> None" using "2.IH" [OF a refl] 2(2) by simp
  then show ?case by (auto simp: a)
qed simp

lemma sound_attributes:
  assumes "DeviceGetAttribute (drv s) \<noteq> None" and "\<And>vs s'. sound (g (vs, s'))"
  shows "sound (attributes as v dev s \<bind> g)"
  using attributes_defined [OF assms(1), of as v dev] assms(2) by (auto simp: sound_def)

lemma cudaGetDeviceProperties_defined:
  assumes "library_ok lib" and "runtime_ok lib s"
  shows "cudaGetDeviceProperties lib dev s \<noteq> None"
  unfolding cudaGetDeviceProperties_def
proof (rule with_driver_defined [OF assms], goal_cases)
  case (1 s1)
  obtain f where f: "DeviceGet (drv s1) = Some f" using 1 by (auto simp: complete_driver_def)
  obtain r d w where w: "f dev (gpu s1) = ((r, d), w)" by (metis prod.exhaust)
  have d: "r = 0 \<Longrightarrow> d \<noteq> None" using 1(2) f w unfolding documented_driver_def by (metis fst_conv snd_conv)
  have c: "call (Some (f dev)) s1 = Some ((r, d), s1\<lparr>gpu := w\<rparr>)" by (simp add: call_def w)
  show ?case
    unfolding f option.map(2) c bind.bind_lunit prod.case sound_def [symmetric]
    using d 1(1)
    by (auto simp: complete_driver_def simp del: attributes.simps split: option.split prod.split
        intro!: sound_call sound_attributes sound_Some)
qed

lemma sound_with_context:
  assumes "library_ok lib" and "runtime_ok lib s"
    and "\<And>s'. complete_driver (drv s') \<Longrightarrow> dom (snd (gpu s)) \<subseteq> dom (snd (gpu s')) \<Longrightarrow> sound (f s')"
  shows "sound (with_context lib f s)"
  using with_context_defined [of lib s f] assms by (simp add: sound_def)

lemma sound_with_symbol:
  assumes "library_ok lib" and "runtime_ok lib s" and "\<And>p s'. complete_driver (drv s') \<Longrightarrow> sound (f p s')"
  shows "sound (with_symbol lib y f s)"
  using with_symbol_defined [of lib s f] assms by (simp add: sound_def)

lemma sound_check_call: "f \<noteq> None \<Longrightarrow> sound (check_call f s)"
  using check_call_defined [of f s] by (simp add: sound_def)

lemma sound_check_out: "f \<noteq> None \<Longrightarrow> sound (check_out f s)"
  using check_out_defined [of f s] by (simp add: sound_def)

lemma sound_bind: "sound m \<Longrightarrow> (\<And>x. sound (g x)) \<Longrightarrow> sound (m \<bind> g)"
  by (auto simp: sound_def)

lemma sound_pure: "sound (failed e s)" "copy_defined (snd (gpu s)) a b n \<Longrightarrow> sound (host_copy a b n s)"
  by (simp_all add: sound_def failed_def host_copy_def split: prod.split)

lemma sound_calls:
  assumes "library_ok lib" and "runtime_ok lib s"
  shows "sound (cudaMalloc lib n s)" "sound (cudaFree lib p s)" "sound (cudaMallocHost lib n s)" "sound (cudaFreeHost lib p s)"
    "sound (cudaMallocManaged lib n fl s)" "sound (cudaMemset lib p v n s)" "sound (cudaDeviceSynchronize lib s)" "sound (cudaDeviceReset lib s)"
    "sound (cudaStreamCreate lib s)" "sound (cudaStreamSynchronize lib st s)" "sound (cudaEventCreate lib s)"
  unfolding cudaMalloc_def cudaFree_def cudaMallocHost_def cudaFreeHost_def cudaMallocManaged_def cudaMemset_def
    cudaDeviceSynchronize_def cudaDeviceReset_def cudaStreamCreate_def cudaStreamSynchronize_def cudaEventCreate_def
  by (auto simp: complete_driver_def split: option.split cudaMemcpyKind.split
      intro!: sound_with_context [OF assms] sound_check_call sound_check_out sound_bind sound_Some sound_pure)

lemma sound_copies:
  assumes "library_ok lib" and "runtime_ok lib s" and "k = Some cudaMemcpyHostToHost \<Longrightarrow> copy_defined (snd (gpu s)) a b n"
  shows "sound (cudaMemcpy lib a b n k s)" "sound (cudaMemcpyAsync lib a b n k st s)"
  unfolding cudaMemcpy_def cudaMemcpyAsync_def
  by (auto simp: complete_driver_def split: option.split cudaMemcpyKind.split
      intro!: sound_with_context [OF assms(1,2)] sound_check_call sound_pure copy_defined_mono [OF _ assms(3)])

lemma sound_symbols:
  assumes "library_ok lib" and "runtime_ok lib s"
  shows "sound (cudaMemcpyToSymbol lib y b n off k s)" "sound (cudaMemcpyFromSymbol lib a y n off k s)"
    "sound (cudaGetSymbolAddress lib y s)" "sound (cudaGetSymbolSize lib y s)"
proof -
  show "sound (cudaMemcpyToSymbol lib y b n off k s)" "sound (cudaMemcpyFromSymbol lib a y n off k s)"
      "sound (cudaGetSymbolAddress lib y s)"
    unfolding cudaMemcpyToSymbol_def cudaMemcpyFromSymbol_def cudaGetSymbolAddress_def
    by (auto simp: complete_driver_def intro!: sound_with_symbol [OF assms] sound_check_call sound_Some)
  show "sound (cudaGetSymbolSize lib y s)"
  proof (cases "findVar y s")
    case (Some v)
    then have "v < length (vars s)" using first_index_less by (fastforce simp: findVar_def)
    from addressOf_defined [OF assms this] Some show ?thesis by (auto simp: cudaGetSymbolSize_def sound_def)
  qed (simp add: cudaGetSymbolSize_def sound_pure)
qed

lemma sound_device_count: "library_ok lib \<Longrightarrow> runtime_ok lib s \<Longrightarrow> sound (cudaGetDeviceCount lib s)"
  unfolding cudaGetDeviceCount_def sound_def
  by (rule with_driver_defined) (simp_all only: complete_driver_def check_out_map_defined not_False_eq_True)

lemma sound_handles:
  assumes "complete_driver (drv s)"
  shows "sound (cudaStreamDestroy st s)" "sound (cudaEventDestroy ev s)" "sound (cudaEventRecord ev st s)"
    "sound (cudaEventSynchronize ev s)" "sound (cudaEventElapsedTime a b s)"
  using assms
  by (auto simp: complete_driver_def cudaStreamDestroy_def cudaEventDestroy_def cudaEventRecord_def cudaEventSynchronize_def
      cudaEventElapsedTime_def intro!: sound_check_call sound_check_out sound_Some)

lemma sound_unregister: "handle_ok s h \<Longrightarrow> sound (cudaUnregisterFatBinary h s)"
  by (auto simp: sound_def handle_ok_def cudaUnregisterFatBinary_def call_def split: prod.split)

lemma sound_outcome: "sound r \<Longrightarrow> sound (outcome r)"
  by (simp add: outcome_def sound_def)

lemma exec_defined:
  assumes "library_ok lib" and "runtime_ok lib s" and "call_ok s c"
  shows "exec lib c s \<noteq> None"
proof -
  have ready: "contextReady s \<Longrightarrow> complete_driver (drv s)"
    using assms(1,2) ready_driver [of lib s] by (auto simp: runtime_ok_def library_ok_def)
  have launch: "sound (cudaLaunch lib f ds args sh st s)" "sound (cudaGetDeviceProperties lib d s)" for f ds args sh st d
    using cudaLaunch_defined [OF assms(1,2)] cudaGetDeviceProperties_defined [OF assms(1,2)] by (simp_all only: sound_def not_False_eq_True)
  have destroy: "st = 0 \<or> contextReady s \<Longrightarrow> sound (cudaStreamDestroy st s)" for st
    using sound_handles(1) [OF ready, of st] by (auto simp: cudaStreamDestroy_def sound_Some)
  have "sound (map_option f m) = sound m" for f :: "'x \<Rightarrow> 'y" and m by (simp add: sound_def)
  then have "sound (exec lib c s)"
    using assms(3) sound_unregister [of s]
    by (cases c) (auto simp: exec_def call_ok_def cudaRegisterFatBinary_def cudaUnregisterFatBinary_def [of None]
        intro!: sound_outcome sound_Some launch sound_calls [OF assms(1,2)] sound_copies [OF assms(1,2)] sound_symbols [OF assms(1,2)]
        sound_device_count [OF assms(1,2)] destroy sound_handles(2-) [OF ready])
  then show ?thesis by (simp add: sound_def)
qed

section \<open>Properties\<close>

text \<open>
  The states a program can reach from the start by calls that respect \<open>call_ok\<close>, with anything the
  program does to its own memory in between.
\<close>

inductive reachable :: "'s driver option \<Rightarrow> 's \<times> memory \<Rightarrow> 's runtime \<Rightarrow> bool" for lib w where
  start: "reachable lib w (initial w)"
| program: "reachable lib w s \<Longrightarrow> reachable lib w (s\<lparr>gpu := (fst (gpu s), m)\<rparr>)"
| call: "reachable lib w s \<Longrightarrow> call_ok s c \<Longrightarrow> exec lib c s = Some (e, s') \<Longrightarrow> reachable lib w s'"

lemma runtime_ok_initial: "runtime_ok lib (initial w)"
  by (simp add: runtime_ok_def driver_ok_def loaded_ok_def initial_def)

lemma reachable_runtime_ok: "reachable lib w s \<Longrightarrow> runtime_ok lib s"
  by (induction rule: reachable.induct) (auto intro: runtime_ok_initial runtime_ok_exec)

text \<open>A driver that succeeds at everything, for the witnesses.\<close>

definition sample_driver :: "unit driver" where
  "sample_driver = Driver (Some (\<lambda>w. (0, w))) (Some (\<lambda>w. ((0, Some 1), w))) (Some (\<lambda>d w. ((0, Some 0), w)))
     (Some (\<lambda>n d w. ((0, Some ''gpu''), w))) (Some (\<lambda>a d w. ((0, Some (if a = 75 then 8 else 6)), w))) (Some (\<lambda>d w. ((0, Some 4096), w)))
     (Some (\<lambda>d w. ((0, Some 5), w))) (Some (\<lambda>c w. (0, w))) (Some (\<lambda>w. (0, w))) (Some (\<lambda>b w. ((0, Some 7), w)))
     (Some (\<lambda>m w. (0, w))) (Some (\<lambda>m n w. ((0, Some 9), w))) (Some (\<lambda>m n w. ((0, Some (64, 8)), w))) (Some (\<lambda>n w. ((0, Some 128), w)))
     (Some (\<lambda>n w. ((0, Some 3), w))) (Some (\<lambda>n f w. ((0, Some 256), w))) (Some (\<lambda>p w. (0, w))) (Some (\<lambda>p w. (0, w)))
     (Some (\<lambda>a b n w. (0, w))) (Some (\<lambda>a b n w. (0, w))) (Some (\<lambda>a b n w. (0, w))) (Some (\<lambda>a b n s w. (0, w)))
     (Some (\<lambda>a b n s w. (0, w))) (Some (\<lambda>a b n s w. (0, w))) (Some (\<lambda>p v n w. (0, w))) (Some (\<lambda>f ds sh st args w. (0, w)))
     (Some (\<lambda>w. ((0, Some 11), w))) (Some (\<lambda>s w. (0, w))) (Some (\<lambda>s w. (0, w))) (Some (\<lambda>w. ((0, Some 12), w)))
     (Some (\<lambda>e w. (0, w))) (Some (\<lambda>e s w. (0, w))) (Some (\<lambda>e w. (0, w))) (Some (\<lambda>a b w. ((0, Some 1), w)))"

lemma sample_driver_ok: "library_ok (Some sample_driver)"
  by (simp add: library_ok_def sample_driver_def complete_driver_def documented_driver_def host_kept_def)

text \<open>
  C2. Type safety of the runtime: in every state a program reaches by calls that respect the
  API (handles from the registration, streams and events from the calls that create them, host
  copies between objects of the program that do not overlap, a calloc that succeeds), whatever
  the program does to its own memory in between, the tables are within their bounds, every kernel
  and variable belongs to a registered fat binary, and the driver's state agrees with what was
  loaded; and every further such call returns, without undefined behaviour, in a state of the
  same kind. The conditions on calloc and on host copies are needed: the code does not test what
  calloc returned, so that a registration in a table with room has undefined behaviour when it
  fails, and so has a host copy outside of the program's objects or onto itself. The driver is
  any library that has all its functions and writes its outputs as documented, or no library at
  all.
\<close>
theorem runtime_type_safe:
  assumes "library_ok lib" and "reachable lib w s"
  shows "runtime_ok lib s \<and> (\<forall>c. call_ok s c \<longrightarrow> (\<exists>e s'. exec lib c s = Some (e, s') \<and> runtime_ok lib s')) \<and>
    (\<forall>x. length (fatbins s) < 256 \<longrightarrow> exec lib (RegisterFatBinary False x) s = None) \<and>
    (\<forall>d c n. contextReady s \<and> \<not> copy_defined (snd (gpu s)) d c n \<longrightarrow>
      exec lib (Memcpy d c n (Some cudaMemcpyHostToHost)) s = None)"
proof (intro conjI allI impI)
  show ok: "runtime_ok lib s" by (rule reachable_runtime_ok [OF assms(2)])
  fix c
  assume c: "call_ok s c"
  from exec_defined [OF assms(1) ok c] obtain e s' where "exec lib c s = Some (e, s')" by auto
  with runtime_ok_exec [OF ok c this] show "\<exists>e s'. exec lib c s = Some (e, s') \<and> runtime_ok lib s'" by blast
qed (simp_all add: exec_def outcome_def cudaRegisterFatBinary_def cudaMemcpy_def with_context_def ensureContext_def host_copy_def)

theorem runtime_type_safe_witness:
  "runtime_ok (Some sample_driver) (initial ((), \<lambda>a. None)) \<and>
   (\<exists>e s'. exec (Some sample_driver) (Malloc 16) (initial ((), \<lambda>a. None)) = Some (e, s') \<and> runtime_ok (Some sample_driver) s')"
proof -
  have "call_ok (initial ((), \<lambda>a. None)) (Malloc 16)" by (simp add: call_ok_def)
  with runtime_type_safe [OF sample_driver_ok reachable.start, of "((), \<lambda>a. None)"] show ?thesis by blast
qed

text \<open>
  C4. Errors of the runtime: every call of the API that fails leaves its error as the last error,
  and every call that succeeds leaves the last error as it was; \<open>cudaGetLastError\<close> returns the
  last error and clears it, \<open>cudaPeekAtLastError\<close> returns it and changes nothing; registration
  and the stack of launch configurations never touch it, also when they fail.
\<close>
theorem last_error_recorded:
  assumes "exec lib c s = Some (e, s')"
  shows "((is_api c \<or> (\<exists>d. c = SetDevice d)) \<longrightarrow> lastError s' = (if e = cudaSuccess then lastError s else e)) \<and>
    (c = GetLastError \<longrightarrow> e = lastError s \<and> s' = s\<lparr>lastError := cudaSuccess\<rparr>) \<and>
    (c = PeekAtLastError \<longrightarrow> e = lastError s \<and> s' = s) \<and>
    (\<not> is_api c \<and> c \<noteq> GetLastError \<and> (\<nexists>d. c = SetDevice d) \<longrightarrow> lastError s' = lastError s)"
proof (cases "is_api c")
  case True
  with exec_keeps [OF True assms] show ?thesis by (auto simp: keeps_def is_api_def)
next
  case False
  have "lastError y = lastError s" if "cudaUnregisterFatBinary h s = Some y" for h y
    using that by (auto simp: cudaUnregisterFatBinary_def bind_eq_Some_conv split: option.splits if_splits dest: call_frame)
  with False assms show ?thesis
    by (cases c) (auto simp: is_api_def exec_def cudaRegisterFatBinary_def cudaRegisterFunction_def cudaRegisterVar_def
        cudaPushCallConfiguration_def cudaPopCallConfiguration_def cudaGetLastError_def cudaPeekAtLastError_def cudaSetDevice_def
        fail_def outcome_def split: if_splits)
qed

theorem last_error_recorded_witness:
  "\<exists>s'. exec None (Malloc 16) (initial (0::nat, \<lambda>a. None)) = Some (cudaErrorNoDevice, s') \<and> lastError s' = cudaErrorNoDevice"
proof -
  obtain s' where x: "exec None (Malloc 16) (initial (0::nat, \<lambda>a. None)) = Some (cudaErrorNoDevice, s')"
    by (simp add: exec_def outcome_def cudaMalloc_def with_context_def ensureContext_def loadDriver_def initial_def fail_def)
  from last_error_recorded [OF x] have "lastError s' = cudaErrorNoDevice" by (simp add: is_api_def)
  with x show ?thesis by blast
qed

subsection \<open>The stack of launch configurations\<close>

text \<open>A stack of bounded depth inside a state, and what a client may rely on.\<close>

locale call_stack =
  fixes depth :: nat
    and contents :: "'st \<Rightarrow> 'a list"
    and push :: "'a \<Rightarrow> 'st \<Rightarrow> 'st option"
    and pop :: "'st \<Rightarrow> ('a \<times> 'st) option"
  assumes push_room: "length (contents s) < depth \<Longrightarrow> \<exists>s'. push x s = Some s' \<and> contents s' = contents s @ [x]"
    and push_full: "depth \<le> length (contents s) \<Longrightarrow> push x s = None"
    and pop_top: "contents s = xs @ [x] \<Longrightarrow> \<exists>s'. pop s = Some (x, s') \<and> contents s' = xs"
    and pop_empty: "contents s = [] \<Longrightarrow> pop s = None"
begin

fun push_all :: "'a list \<Rightarrow> 'st \<Rightarrow> 'st option" where
  "push_all [] s = Some s"
| "push_all (x # xs) s = push x s \<bind> push_all xs"

fun pop_all :: "nat \<Rightarrow> 'st \<Rightarrow> ('a list \<times> 'st) option" where
  "pop_all 0 s = Some ([], s)"
| "pop_all (Suc n) s = pop s \<bind> (\<lambda>(x, s). pop_all n s \<bind> (\<lambda>(xs, s). Some (x # xs, s)))"

lemma push_all_room:
  "length (contents s) + length xs \<le> depth \<Longrightarrow> \<exists>s'. push_all xs s = Some s' \<and> contents s' = contents s @ xs"
proof (induction xs arbitrary: s)
  case (Cons x xs)
  then obtain s1 where "push x s = Some s1" "contents s1 = contents s @ [x]" using push_room [of s x] by auto
  with Cons.IH [of s1] Cons.prems show ?case by auto
qed simp

lemma pop_all_reverses: "contents s = xs @ ys \<Longrightarrow> \<exists>s'. pop_all (length ys) s = Some (rev ys, s') \<and> contents s' = xs"
proof (induction ys arbitrary: s rule: rev_induct)
  case (snoc y ys)
  then obtain s1 where "pop s = Some (y, s1)" "contents s1 = xs @ ys" using pop_top [of s "xs @ ys" y] by auto
  with snoc.IH [of s1] show ?case by auto
qed simp

lemma push_pop_all:
  assumes "length (contents s) + length xs \<le> depth"
  shows "\<exists>s1 s2. push_all xs s = Some s1 \<and> pop_all (length xs) s1 = Some (rev xs, s2) \<and> contents s2 = contents s"
  using push_all_room [OF assms] pop_all_reverses by blast

end

definition push_config :: "Config \<Rightarrow> 's runtime \<Rightarrow> 's runtime option" where
  "push_config c s =
     (case cudaPushCallConfiguration (dims c) (shmem c) (c_stream c) s of (e, s') \<Rightarrow> if e = cudaSuccess then Some s' else None)"

definition pop_config :: "'s runtime \<Rightarrow> (Config \<times> 's runtime) option" where
  "pop_config s =
     (case cudaPopCallConfiguration s of (e, c, s') \<Rightarrow> if e = cudaSuccess then map_option (\<lambda>c. (c, s')) c else None)"

interpretation cfg: call_stack 64 configs push_config pop_config
  by unfold_locales
    (simp_all add: push_config_def pop_config_def cudaPushCallConfiguration_def cudaPopCallConfiguration_def)

lemma api_configs: "is_api c \<Longrightarrow> exec lib c s = Some (e, s') \<Longrightarrow> configs s' = configs s"
  using exec_keeps [of c lib s e s'] by (simp add: keeps_def same_tables_def)

text \<open>
  C6. The stack of launch configurations: up to 64 nested configurations are popped in the
  reverse order of their pushes and leave the stack as it was; a call of the runtime API between
  a push and its pop changes nothing that the pop returns; the push onto a full stack and the
  pop from an empty one fail with a launch failure and change nothing.
\<close>
theorem launch_configurations:
  shows "(length (configs s) + length cs \<le> 64 \<longrightarrow>
      (\<exists>s1 s2. cfg.push_all cs s = Some s1 \<and> cfg.pop_all (length cs) s1 = Some (rev cs, s2) \<and> configs s2 = configs s)) \<and>
    (length (configs s) < 64 \<and> push_config c s = Some s1 \<and> is_api a \<and> exec lib a s1 = Some (e, s2) \<longrightarrow>
      cudaPopCallConfiguration s2 = (cudaSuccess, Some c, s2\<lparr>configs := configs s\<rparr>)) \<and>
    (64 \<le> length (configs s) \<longrightarrow> cudaPushCallConfiguration ds sh st s = (cudaErrorLaunchFailure, s)) \<and>
    (configs s = [] \<longrightarrow> cudaPopCallConfiguration s = (cudaErrorLaunchFailure, None, s))"
proof -
  have "cudaPopCallConfiguration s2 = (cudaSuccess, Some c, s2\<lparr>configs := configs s\<rparr>)"
    if "length (configs s) < 64" "push_config c s = Some s1" "is_api a" "exec lib a s1 = Some (e, s2)"
  proof -
    have "configs s1 = configs s @ [c]" using that(1,2) by (auto simp: push_config_def cudaPushCallConfiguration_def)
    then have "configs s2 = configs s @ [c]" using api_configs [OF that(3,4)] by simp
    then show ?thesis by (simp add: cudaPopCallConfiguration_def)
  qed
  then show ?thesis
    using cfg.push_pop_all [of s cs] by (auto simp: cudaPushCallConfiguration_def cudaPopCallConfiguration_def)
qed

definition sample_config :: "u32 \<Rightarrow> Config" where
  "sample_config x = \<lparr>dims = [x, 1, 1, 32, 1, 1], shmem = 0, c_stream = 0\<rparr>"

theorem launch_configurations_witness:
  "\<exists>s1 s2. cfg.push_all [sample_config 1, sample_config 2] (initial ((), \<lambda>a. None)) = Some s1 \<and>
     cfg.pop_all 2 s1 = Some ([sample_config 2, sample_config 1], s2) \<and> configs s2 = []"
  using launch_configurations [of "initial ((), \<lambda>a. None)" "[sample_config 1, sample_config 2]"]
  by (simp add: initial_def numeral_2_eq_2)

subsection \<open>Launches and modules\<close>

lemma functionOf_success:
  assumes "functionOf lib k s = Some (cudaSuccess, f, s')" and "k < length (kernels s)"
  shows "f = Some (cufunction (kernels s' ! k)) \<and> length (kernels s') = length (kernels s)"
proof -
  have "keeps lib s cudaSuccess s'" using keeping_functionOf [of lib s k] assms(1) by (auto simp: keeping_def)
  then have len: "length (kernels s') = length (kernels s)"
    using map_eq_imp_length_eq [of kernel_entry "kernels s'" kernel_entry "kernels s"] by (simp add: keeps_def same_tables_def)
  show ?thesis
  proof (cases "cufunction (kernels s ! k) = 0")
    case True
    then obtain s1 m n r out s2 where s2: "call (map_option (\<lambda>g. g m n) (ModuleGetFunction (drv s1))) s1 = Some ((r, out), s2)"
        and s': "s' = s2\<lparr>kernels := (kernels s2)[k := (kernels s2 ! k)\<lparr>cufunction := written (cufunction (kernels s2 ! k)) out\<rparr>]\<rparr>"
        and f: "f = Some (written (cufunction (kernels s2 ! k)) out)"
      using assms(1) by (auto simp: functionOf_def Let_def bind_eq_Some_conv check_def fail_def split: if_splits)
    from s' len assms(2) have "k < length (kernels s2)" by simp
    with s' f show ?thesis using len by simp
  qed (use assms(1) in \<open>auto simp: functionOf_def\<close>)
qed

lemma findKernel_kept: "keeps lib s e s' \<Longrightarrow> findKernel f s' = findKernel f s"
proof -
  assume "keeps lib s e s'"
  then have k: "map kernel_entry (kernels s') = map kernel_entry (kernels s)" by (simp add: keeps_def same_tables_def)
  have "first_index (\<lambda>k. hostFun k = f) ks = first_index (\<lambda>x. fst x = f) (map kernel_entry ks)" for ks
    by (induction ks) (auto simp: kernel_entry_def)
  with k show ?thesis by (simp add: findKernel_def)
qed

lemma check_call_kernels: "check_call f s = Some (e, out, s') \<Longrightarrow> kernels s' = kernels s"
  by (auto simp: check_call_def check_def fail_def bind_eq_Some_conv split: if_splits dest!: call_frame)

text \<open>
  A driver that names the function it found when it succeeds, with a handle that is not null, and
  a sequence of calls whatever they return.
\<close>

definition names_functions :: "'s driver option \<Rightarrow> bool" where
  "names_functions lib \<longleftrightarrow> (\<forall>d g m n w. lib = Some d \<longrightarrow> ModuleGetFunction d = Some g \<longrightarrow> fst (fst (g m n w)) = 0 \<longrightarrow>
     (\<exists>h. h \<noteq> 0 \<and> snd (fst (g m n w)) = Some h))"

fun run :: "'s driver option \<Rightarrow> api list \<Rightarrow> 's runtime \<Rightarrow> 's runtime option" where
  "run lib [] s = Some s"
| "run lib (c # cs) s = exec lib c s \<bind> (\<lambda>(e, s). run lib cs s)"

text \<open>What the driver said when a function was looked up, and that the handle stays in its entry.\<close>

definition looked_up :: "'s driver option \<Rightarrow> nat \<Rightarrow> nat \<Rightarrow> 's runtime \<Rightarrow> bool" where
  "looked_up lib k h s \<longleftrightarrow> (\<exists>d g i s1. lib = Some d \<and> ModuleGetFunction d = Some g \<and> k_fatbin (kernels s ! k) = Some i \<and>
     loadModule lib (Some i) s = Some (cudaSuccess, s1) \<and>
     fst (g (cumodule (fatbins s1 ! i)) (k_deviceName (kernels s ! k)) (gpu s1)) = (0, Some h))"

definition stored :: "nat \<Rightarrow> nat \<Rightarrow> nat \<Rightarrow> 's runtime \<Rightarrow> bool" where
  "stored f k h s \<longleftrightarrow> findKernel f s = Some k \<and> k < length (kernels s) \<and> cufunction (kernels s ! k) = h"

lemma functionOf_looked_up:
  assumes "functionOf lib k s = Some (cudaSuccess, f, s')" and "runtime_ok lib s" and "names_functions lib"
    and "cufunction (kernels s ! k) = 0"
  shows "\<exists>h. h \<noteq> 0 \<and> f = Some h \<and> looked_up lib k h s"
proof -
  obtain s1 where l: "loadModule lib (k_fatbin (kernels s ! k)) s = Some (cudaSuccess, s1)"
    using assms(1,4) by (auto simp: functionOf_def bind_eq_Some_conv split: if_splits)
  then obtain i where i: "k_fatbin (kernels s ! k) = Some i" by (auto simp: loadModule_def split: option.splits)
  have "runtime_ok lib s1" "contextReady s1"
    using runtime_ok_keeps [OF assms(2) keeps_loadModule [OF l]] loadModule_ready [OF l] assms(2) by (auto simp: runtime_ok_def)
  then have d: "lib = Some (drv s1)" using ready_driver by (auto simp: runtime_ok_def)
  have ks: "kernels s1 = kernels s" by (rule loadModule_kernels [OF l])
  obtain g r out w where g: "ModuleGetFunction (drv s1) = Some g"
      and w: "g (cumodule (fatbins s1 ! i)) (k_deviceName (kernels s ! k)) (gpu s1) = ((r, out), w)"
      and r: "r = 0" "f = Some (written 0 out)"
    using assms(1,4) l i ks
    by (auto simp: functionOf_def call_def Let_def check_def fail_def split: option.splits if_splits prod.splits)
  then obtain h where "h \<noteq> 0" "out = Some h" using assms(3) d unfolding names_functions_def by (metis fst_conv snd_conv)
  with d g i l w r show ?thesis by (auto simp: looked_up_def written_def)
qed

lemma first_index_append: "first_index P xs = Some i \<Longrightarrow> first_index P (xs @ ys) = Some i"
  by (induction xs arbitrary: i) (auto split: if_splits)

lemma stored_exec:
  assumes "stored f k h s" and "h \<noteq> 0" and "exec lib c s = Some (e, s')"
  shows "stored f k h s'"
proof (cases "is_api c")
  case True
  note keep = exec_keeps [OF True assms(3)]
  then have "length (kernels s') = length (kernels s)" "functions_kept (kernels s) (kernels s')"
    using map_eq_imp_length_eq [of kernel_entry "kernels s'" kernel_entry "kernels s"] by (simp_all add: keeps_def same_tables_def)
  with assms findKernel_kept [OF keep, of f] show ?thesis by (simp add: stored_def functions_kept_def)
next
  case False
  have "kernels y = kernels s" if "cudaUnregisterFatBinary x s = Some y" for x y
    using that by (auto simp: cudaUnregisterFatBinary_def bind_eq_Some_conv split: option.splits if_splits dest: call_frame)
  then have "\<exists>ks. kernels s' = kernels s @ ks"
    using False assms(3)
    by (cases c) (auto simp: is_api_def exec_def cudaRegisterFatBinary_def cudaRegisterFunction_def cudaRegisterVar_def
        cudaPushCallConfiguration_def cudaPopCallConfiguration_def cudaGetLastError_def cudaPeekAtLastError_def cudaSetDevice_def
        fail_def outcome_def split: if_splits)
  with assms(1) show ?thesis by (auto simp: stored_def findKernel_def first_index_append nth_append)
qed

lemma stored_run: "run lib cs s = Some s' \<Longrightarrow> stored f k h s \<Longrightarrow> h \<noteq> 0 \<Longrightarrow> stored f k h s'"
proof (induction cs arbitrary: s)
  case (Cons c cs)
  then obtain e s1 where "exec lib c s = Some (e, s1)" "run lib cs s1 = Some s'" by (auto simp: bind_eq_Some_conv)
  with Cons stored_exec show ?case by blast
qed simp

lemma launch_stored:
  assumes "stored f k h s" and "h \<noteq> 0"
  shows "cudaLaunch lib f ds args sh st s = check_call (map_option (\<lambda>g. g h ds (ucast sh) st args) (LaunchKernel (drv s))) s"
  using assms by (simp add: stored_def cudaLaunch_def functionOf_def written_def)

text \<open>
  C5. A kernel's function is looked up once: a launch that succeeds leaves a handle that is not
  null in the table of kernels, the one that was there or, when there was none, the one the
  driver gave for the kernel's name in the module of its fat binary, and calls the driver's
  \<open>LaunchKernel\<close> with it; and after any further calls of the runtime, whatever they return, a
  launch of the same kernel, with any configuration, is exactly one call of \<open>LaunchKernel\<close> with the
  same handle: neither the context nor the module nor the function is looked up again, not even
  when the fat binary has been unregistered. The driver is assumed to name the function it found
  with a handle that is not null when it succeeds.
\<close>
theorem launch_loads_once:
  assumes "runtime_ok lib s" and "names_functions lib"
    and "cudaLaunch lib f ds args sh st s = Some (cudaSuccess, out, s1)" and "findKernel f s = Some k"
    and "run lib cs s1 = Some s2"
  shows "\<exists>h. h \<noteq> 0 \<and> cufunction (kernels s1 ! k) = h \<and>
    (if cufunction (kernels s ! k) = 0 then looked_up lib k h s else cufunction (kernels s ! k) = h) \<and>
    (\<exists>s0. kernels s0 = kernels s1 \<and> Some (cudaSuccess, out, s1) =
      check_call (map_option (\<lambda>g. g h ds (ucast sh) st args) (LaunchKernel (drv s0))) s0) \<and>
    cudaLaunch lib f ds' args' sh' st' s2 =
      check_call (map_option (\<lambda>g. g h ds' (ucast sh') st' args') (LaunchKernel (drv s2))) s2"
proof -
  have k: "k < length (kernels s)" using first_index_less assms(4) by (fastforce simp: findKernel_def)
  obtain p s0 where f: "functionOf lib k s = Some (cudaSuccess, p, s0)"
      and c: "check_call (map_option (\<lambda>g. g (written 0 p) ds (ucast sh) st args) (LaunchKernel (drv s0))) s0 = Some (cudaSuccess, out, s1)"
    using assms(3,4) by (auto simp: cudaLaunch_def bind_eq_Some_conv split: if_splits)
  have ks: "kernels s0 = kernels s1" using check_call_kernels [OF c] by simp
  obtain h where h: "h \<noteq> 0" "p = Some h" "if cufunction (kernels s ! k) = 0 then looked_up lib k h s else cufunction (kernels s ! k) = h"
    using functionOf_looked_up [OF f assms(1,2)] f by (cases "cufunction (kernels s ! k) = 0") (auto simp: functionOf_def)
  have s1: "stored f k h s1"
    using keeping_cudaLaunch [of lib s f ds args sh st] assms(3,4) findKernel_kept [of lib s cudaSuccess s1 f] functionOf_success [OF f k] h k ks
    by (auto simp: stored_def keeping_def)
  from c h have "check_call (map_option (\<lambda>g. g h ds (ucast sh) st args) (LaunchKernel (drv s0))) s0 = Some (cudaSuccess, out, s1)"
    by (simp add: written_def)
  with ks h s1 launch_stored [OF stored_run [OF assms(5) s1 h(1)] h(1)] show ?thesis
    by (intro exI [of _ h]) (auto simp: stored_def intro!: exI [of _ s0])
qed

definition sample_wrapper :: FatbinWrapper where
  "sample_wrapper = \<lparr>w_magic = wrapperMagic, w_data = Fatbin [sample_image PTX 75 [65]]\<rparr>"

definition sample_state :: "unit runtime" where
  "sample_state = (initial ((), \<lambda>a. None))\<lparr>loaded := 1, drv := sample_driver, contextReady := True,
     fatbins := [\<lparr>wrapper = Some sample_wrapper, cumodule = 7, loadFailed = False\<rparr>],
     kernels := [\<lparr>hostFun = 100, k_deviceName = ''add'', k_fatbin = Some 0, cufunction = 0\<rparr>]\<rparr>"

lemma sample_state_ok: "runtime_ok (Some sample_driver) sample_state"
proof -
  have "findImage (Fatbin [sample_image PTX 75 [65]]) sm \<noteq> None" for sm
    using findImage_newest [of "[sample_image PTX 75 [65]]" sm]
    by (auto simp: sample_image_def image_ok_def image_payload_def Fatbin_def append_image_def fold_append_image pad_zero_def Let_def)
  then have "container_ok (Some sample_wrapper)" by (simp add: container_ok_def image_of_def sample_wrapper_def)
  then show ?thesis
    by (simp add: runtime_ok_def driver_ok_def loaded_ok_def handle_ok_def sample_state_def initial_def) (simp add: sample_driver_def)
qed

theorem launch_loads_once_witness:
  "\<exists>s1 s2. cudaLaunch (Some sample_driver) 100 [1, 1, 1, 32, 1, 1] 0 0 0 sample_state = Some (cudaSuccess, None, s1) \<and>
     run (Some sample_driver) [UnregisterFatBinary (Some 0), Malloc 16] s1 = Some s2 \<and>
     cudaLaunch (Some sample_driver) 100 [2, 1, 1, 32, 1, 1] 0 0 0 s2 =
       check_call (map_option (\<lambda>g. g 9 [2, 1, 1, 32, 1, 1] 0 0 0) (LaunchKernel (drv s2))) s2"
proof -
  define s1 where "s1 = sample_state\<lparr>kernels := [\<lparr>hostFun = 100, k_deviceName = ''add'', k_fatbin = Some 0, cufunction = 9\<rparr>]\<rparr>"
  have l: "cudaLaunch (Some sample_driver) 100 [1, 1, 1, 32, 1, 1] 0 0 0 sample_state = Some (cudaSuccess, None, s1)"
    by (simp add: cudaLaunch_def findKernel_def functionOf_def loadModule_def call_def check_call_def check_def fail_def
        written_def sample_state_def sample_driver_def s1_def initial_def)
  obtain s2 where r: "run (Some sample_driver) [UnregisterFatBinary (Some 0), Malloc 16] s1 = Some s2"
    by (simp add: exec_def outcome_def cudaUnregisterFatBinary_def cudaMalloc_def with_context_def ensureContext_def
        call_def check_out_def check_def fail_def sample_state_def sample_driver_def s1_def initial_def)
  have "findKernel 100 sample_state = Some 0" "names_functions (Some sample_driver)"
    by (simp_all add: findKernel_def sample_state_def names_functions_def sample_driver_def)
  with launch_loads_once [OF sample_state_ok _ l _ r, of 0 "[2, 1, 1, 32, 1, 1]" 0 0 0] l r show ?thesis
    by (auto simp: s1_def)
qed

lemma first_index_snoc: "first_index P xs = None \<Longrightarrow> P x \<Longrightarrow> first_index P (xs @ [x]) = Some (length xs)"
  by (induction xs) (auto split: if_splits)

text \<open>
  C8. A full table of fat binaries: the 257th registration returns the null handle, and a kernel
  registered with it makes its first launch read through that handle, which is undefined
  behaviour where every other failed lookup is an error code.
\<close>
theorem registration_overflow:
  assumes "length (fatbins s) = 256" and "length (kernels s) < 4096" and "findKernel f s = None"
  shows "cudaRegisterFatBinary calloc w s = Some (None, s) \<and> findKernel f (cudaRegisterFunction None f n s) \<noteq> None \<and>
    cudaLaunch lib f ds args sh st (cudaRegisterFunction None f n s) = None"
proof -
  define s1 where "s1 = cudaRegisterFunction None f n s"
  have k: "findKernel f s1 = Some (length (kernels s))"
    using assms(2,3) by (simp add: findKernel_def s1_def cudaRegisterFunction_def first_index_snoc)
  moreover have "functionOf lib (length (kernels s)) s1 = None"
    using assms(2) by (simp add: s1_def cudaRegisterFunction_def functionOf_def loadModule_def)
  ultimately show ?thesis
    using assms(1) by (simp add: cudaRegisterFatBinary_def cudaLaunch_def s1_def)
qed

theorem registration_overflow_witness:
  "\<exists>s :: unit runtime. length (fatbins s) = 256 \<and>
     cudaLaunch None 5 [1, 1, 1, 1, 1, 1] 0 0 0 (cudaRegisterFunction None 5 ''f'' s) = None"
proof -
  define s :: "unit runtime" where "s = (initial ((), \<lambda>a. None))\<lparr>fatbins := replicate 256 \<lparr>wrapper = None, cumodule = 0, loadFailed = False\<rparr>\<rparr>"
  have "length (fatbins s) = 256" "length (kernels s) < 4096" "findKernel 5 s = None"
    by (simp_all add: s_def initial_def findKernel_def)
  from this(1) registration_overflow [OF this, of True None "''f''" None] show ?thesis by blast
qed

end
