(* ===== verification/CxxRanges.thy ===== *)
theory CxxRanges
  imports Prelude "HOL-Library.Multiset"
begin

text \<open>
  What the algorithms of the bundled C++ library (include/linux/c++/v1/__algorithm) share:
  the default comparators of comp.h, the contract of a comparator (a strict weak order, as a
  locale), sortedness by a comparator, the three-way comparison <=>, and the number of elements of a range equivalent to a
  given one, by which the standard specifies the algorithms on sorted ranges.

  An input range is the list of its elements, first to last; advancing an input iterator
  takes the tail. A position of a random-access range is an index into the list. What is
  written through an output iterator is appended to a list. The test first != last on
  positions is written first < last: the two agree on every valid range.
\<close>

section \<open>Comparators\<close>

definition cxx_equal_to :: "'a \<Rightarrow> 'a \<Rightarrow> bool" where
  "cxx_equal_to x y \<longleftrightarrow> x = y"

definition cxx_less :: "'a::linorder \<Rightarrow> 'a \<Rightarrow> bool" where
  "cxx_less lhs rhs \<longleftrightarrow> lhs < rhs"

definition half_positive :: "nat \<Rightarrow> nat" where
  "half_positive value = value div 2"

definition equivalent :: "('a \<Rightarrow> 'a \<Rightarrow> bool) \<Rightarrow> 'a \<Rightarrow> 'a \<Rightarrow> bool" where
  "equivalent lt a b \<longleftrightarrow> \<not> lt a b \<and> \<not> lt b a"

definition sorted_by :: "('a \<Rightarrow> 'a \<Rightarrow> bool) \<Rightarrow> 'a list \<Rightarrow> bool" where
  "sorted_by lt = sorted_wrt (\<lambda>x y. \<not> lt y x)"

definition occurrences :: "('a \<Rightarrow> 'a \<Rightarrow> bool) \<Rightarrow> 'a \<Rightarrow> 'a list \<Rightarrow> nat" where
  "occurrences lt a xs = length (filter (equivalent lt a) xs)"

datatype strong_ordering = SO_less | SO_equal | SO_greater

definition compare_with :: "'a::linorder \<Rightarrow> 'a \<Rightarrow> strong_ordering" where
  "compare_with a b = (if a < b then SO_less else if a = b then SO_equal else SO_greater)"

lemma compare_with_iff [simp]:
  "compare_with a b = SO_less \<longleftrightarrow> a < b" "compare_with a b = SO_equal \<longleftrightarrow> a = b" "compare_with a b = SO_greater \<longleftrightarrow> b < a"
  by (auto simp: compare_with_def)

lemma sorted_by_simps [simp]:
  "sorted_by lt []"
  "sorted_by lt (x # xs) \<longleftrightarrow> (\<forall>y\<in>set xs. \<not> lt y x) \<and> sorted_by lt xs"
  by (simp_all add: sorted_by_def)

lemma sorted_by_append: "sorted_by lt (xs @ ys) \<longleftrightarrow>
    sorted_by lt xs \<and> sorted_by lt ys \<and> (\<forall>x\<in>set xs. \<forall>y\<in>set ys. \<not> lt y x)"
  by (auto simp: sorted_by_def sorted_wrt_append)

lemma sorted_by_nth: "sorted_by lt xs \<Longrightarrow> i \<le> j \<Longrightarrow> j < length xs \<Longrightarrow> i = j \<or> \<not> lt (xs ! j) (xs ! i)"
  using sorted_wrt_nth_less [of "\<lambda>x y. \<not> lt y x" xs i j] by (auto simp: sorted_by_def order.strict_iff_order)

lemma occurrences_simps [simp]:
  "occurrences lt a [] = 0"
  "occurrences lt a (x # xs) = (if equivalent lt a x then Suc (occurrences lt a xs) else occurrences lt a xs)"
  "occurrences lt a (xs @ ys) = occurrences lt a xs + occurrences lt a ys"
  by (simp_all add: occurrences_def)

lemma occurrences_mset: "mset xs = mset ys \<Longrightarrow> occurrences lt a xs = occurrences lt a ys"
  unfolding occurrences_def by (metis mset_filter size_mset)

lemma occurrences_0_iff: "occurrences lt a xs = 0 \<longleftrightarrow> (\<forall>x\<in>set xs. \<not> equivalent lt a x)"
  by (simp add: occurrences_def filter_empty_conv)

text \<open>The contract of a comparator: \<open>strict_weak lt\<close> is the standard's Compare requirement.\<close>

locale strict_weak =
  fixes lt :: "'a \<Rightarrow> 'a \<Rightarrow> bool"
  assumes irrefl: "\<not> lt x x"
    and trans: "lt x y \<Longrightarrow> lt y z \<Longrightarrow> lt x z"
    and neg_trans: "\<not> lt x y \<Longrightarrow> \<not> lt y z \<Longrightarrow> \<not> lt x z"
begin

lemma asym: "lt x y \<Longrightarrow> \<not> lt y x"
  using irrefl trans by blast

lemma less_le_trans: "lt x y \<Longrightarrow> \<not> lt z y \<Longrightarrow> lt x z"
  using neg_trans by blast

lemma le_less_trans: "\<not> lt y x \<Longrightarrow> lt y z \<Longrightarrow> lt x z"
  using neg_trans by blast

lemma equivalent_refl [simp]: "equivalent lt a a"
  by (simp add: equivalent_def irrefl)

lemma equivalent_sym: "equivalent lt a b \<longleftrightarrow> equivalent lt b a"
  by (auto simp: equivalent_def)

lemma equivalent_trans: "equivalent lt a b \<Longrightarrow> equivalent lt b c \<Longrightarrow> equivalent lt a c"
  unfolding equivalent_def using neg_trans by blast

lemma equivalent_cong: "equivalent lt x y \<Longrightarrow> equivalent lt a x \<longleftrightarrow> equivalent lt a y"
  using equivalent_sym equivalent_trans by blast

lemma occurrences_below:
  assumes "sorted_by lt (x # xs)" and "lt y x" and "equivalent lt a y"
  shows "occurrences lt a (x # xs) = 0"
  unfolding occurrences_0_iff
proof
  fix z assume "z \<in> set (x # xs)"
  with assms(1) have "\<not> lt z x" using irrefl by auto
  with assms(2) have "lt y z" by (rule less_le_trans)
  with assms(3) show "\<not> equivalent lt a z"
    unfolding equivalent_def using neg_trans by blast
qed

lemma sorted_by_below: "sorted_by lt (x # xs) \<Longrightarrow> \<not> lt x y \<Longrightarrow> z \<in> set (x # xs) \<Longrightarrow> \<not> lt z y"
  using neg_trans by auto

end

interpretation less: strict_weak "cxx_less :: 'a::linorder \<Rightarrow> 'a \<Rightarrow> bool"
  by unfold_locales (auto simp: cxx_less_def)

lemma sorted_by_less: "sorted_by cxx_less xs = sorted (xs :: 'a::linorder list)"
  by (simp add: sorted_by_def cxx_less_def not_less)

end
