(* ===== verification/CxxBinarySearch.thy ===== *)
theory CxxBinarySearch
  imports CxxRanges
begin

text \<open>
  The binary searches of include/linux/c++/v1/__algorithm: partition_point.h,
  lower_bound.h with its one-sided variant, upper_bound.h, equal_range.h,
  binary_search.h, and the checks is_sorted_until.h, is_sorted.h and is_partitioned.h.
  Positions are indices into the list of the range's elements.
\<close>

section \<open>Definitions\<close>

lemma half_positive_less [termination_simp]: "0 < len \<Longrightarrow> half_positive len < len"
  by (simp add: half_positive_def)

fun partition_point_loop :: "('a \<Rightarrow> bool) \<Rightarrow> 'a list \<Rightarrow> nat \<Rightarrow> nat \<Rightarrow> nat" where
  "partition_point_loop pred xs first len =
     (if len = 0 then first
      else let l2 = half_positive len; m = first + l2
           in if pred (xs ! m) then partition_point_loop pred xs (m + 1) (len - (l2 + 1))
              else partition_point_loop pred xs first l2)"

definition partition_point :: "('a \<Rightarrow> bool) \<Rightarrow> 'a list \<Rightarrow> nat \<Rightarrow> nat \<Rightarrow> nat" where
  "partition_point pred xs first lst = partition_point_loop pred xs first (lst - first)"

fun lower_bound_bisecting :: "('k \<Rightarrow> 'v \<Rightarrow> bool) \<Rightarrow> ('a \<Rightarrow> 'k) \<Rightarrow> 'a list \<Rightarrow> nat \<Rightarrow> 'v \<Rightarrow> nat \<Rightarrow> nat" where
  "lower_bound_bisecting cmp proj xs first v len =
     (if len = 0 then first
      else let l2 = half_positive len; m = first + l2
           in if cmp (proj (xs ! m)) v
              then lower_bound_bisecting cmp proj xs (m + 1) v (len - (l2 + 1))
              else lower_bound_bisecting cmp proj xs first v l2)"

text \<open>
  The one-sided search. Advancing by a step of 2^k towards the end moves min (2^k) (last -
  first) places, which is what the difference dist holds.
\<close>

function lower_bound_onesided_loop ::
  "('k \<Rightarrow> 'v \<Rightarrow> bool) \<Rightarrow> ('a \<Rightarrow> 'k) \<Rightarrow> 'a list \<Rightarrow> nat \<Rightarrow> nat \<Rightarrow> 'v \<Rightarrow> nat \<Rightarrow> nat" where
  "lower_bound_onesided_loop cmp proj xs first lst v k =
     (if lst \<le> first then first
      else let dist = min (2 ^ k) (lst - first); it = first + dist
           in if it = lst \<or> \<not> cmp (proj (xs ! it)) v
              then if dist = 1 then it else lower_bound_bisecting cmp proj xs first v dist
              else lower_bound_onesided_loop cmp proj xs it lst v (k + 1))"
  by pat_completeness auto
termination
  by (relation "measure (\<lambda>(cmp, proj, xs, first, lst, v, k). lst - first)") 
    (auto simp: min_def intro!: diff_less_mono2)

definition lower_bound_onesided ::
  "('k \<Rightarrow> 'v \<Rightarrow> bool) \<Rightarrow> ('a \<Rightarrow> 'k) \<Rightarrow> 'a list \<Rightarrow> nat \<Rightarrow> nat \<Rightarrow> 'v \<Rightarrow> nat" where
  "lower_bound_onesided cmp proj xs first lst v =
     (if first = lst \<or> \<not> cmp (proj (xs ! first)) v then first
      else lower_bound_onesided_loop cmp proj xs first lst v 0)"

definition lower_bound_impl :: "('k \<Rightarrow> 'v \<Rightarrow> bool) \<Rightarrow> ('a \<Rightarrow> 'k) \<Rightarrow> 'a list \<Rightarrow> nat \<Rightarrow> nat \<Rightarrow> 'v \<Rightarrow> nat" where
  "lower_bound_impl cmp proj xs first lst v =
     lower_bound_bisecting cmp proj xs first v (lst - first)"

definition lower_bound :: "('a \<Rightarrow> 'v \<Rightarrow> bool) \<Rightarrow> 'a list \<Rightarrow> nat \<Rightarrow> nat \<Rightarrow> 'v \<Rightarrow> nat" where
  "lower_bound cmp xs first lst v = lower_bound_impl cmp (\<lambda>x. x) xs first lst v"

fun upper_bound_loop :: "('v \<Rightarrow> 'k \<Rightarrow> bool) \<Rightarrow> ('a \<Rightarrow> 'k) \<Rightarrow> 'a list \<Rightarrow> nat \<Rightarrow> 'v \<Rightarrow> nat \<Rightarrow> nat" where
  "upper_bound_loop cmp proj xs first v len =
     (if len = 0 then first
      else let half_len = half_positive len; mid = first + half_len
           in if cmp v (proj (xs ! mid))
              then upper_bound_loop cmp proj xs first v half_len
              else upper_bound_loop cmp proj xs (mid + 1) v (len - (half_len + 1)))"

definition upper_bound_impl :: "('v \<Rightarrow> 'k \<Rightarrow> bool) \<Rightarrow> ('a \<Rightarrow> 'k) \<Rightarrow> 'a list \<Rightarrow> nat \<Rightarrow> nat \<Rightarrow> 'v \<Rightarrow> nat" where
  "upper_bound_impl cmp proj xs first lst v =
     upper_bound_loop cmp proj xs first v (lst - first)"

definition upper_bound :: "('v \<Rightarrow> 'a \<Rightarrow> bool) \<Rightarrow> 'a list \<Rightarrow> nat \<Rightarrow> nat \<Rightarrow> 'v \<Rightarrow> nat" where
  "upper_bound cmp xs first lst v = upper_bound_impl cmp (\<lambda>x. x) xs first lst v"

fun equal_range_loop ::
  "('k \<Rightarrow> 'k \<Rightarrow> bool) \<Rightarrow> ('a \<Rightarrow> 'k) \<Rightarrow> 'a list \<Rightarrow> nat \<Rightarrow> nat \<Rightarrow> 'k \<Rightarrow> nat \<Rightarrow> nat \<times> nat" where
  "equal_range_loop cmp proj xs first en v len =
     (if len = 0 then (first, first)
      else let half_len = half_positive len; mid = first + half_len
           in if cmp (proj (xs ! mid)) v
              then equal_range_loop cmp proj xs (mid + 1) en v (len - (half_len + 1))
              else if cmp v (proj (xs ! mid))
              then equal_range_loop cmp proj xs first mid v half_len
              else (lower_bound_impl cmp proj xs first mid v,
                    upper_bound_impl cmp proj xs (mid + 1) en v))"

definition equal_range :: "('a \<Rightarrow> 'a \<Rightarrow> bool) \<Rightarrow> 'a list \<Rightarrow> nat \<Rightarrow> nat \<Rightarrow> 'a \<Rightarrow> nat \<times> nat" where
  "equal_range cmp xs first lst v =
     equal_range_loop cmp (\<lambda>x. x) xs first lst v (lst - first)"

definition binary_search :: "('a \<Rightarrow> 'a \<Rightarrow> bool) \<Rightarrow> 'a list \<Rightarrow> nat \<Rightarrow> nat \<Rightarrow> 'a \<Rightarrow> bool" where
  "binary_search cmp xs first lst v =
     (let first = lower_bound cmp xs first lst v
      in first \<noteq> lst \<and> \<not> cmp v (xs ! first))"

function is_sorted_until_loop :: "('a \<Rightarrow> 'a \<Rightarrow> bool) \<Rightarrow> 'a list \<Rightarrow> nat \<Rightarrow> nat \<Rightarrow> nat \<Rightarrow> nat" where
  "is_sorted_until_loop cmp xs first i lst =
     (if i + 1 < lst
      then if cmp (xs ! (i + 1)) (xs ! first) then i + 1 else is_sorted_until_loop cmp xs (i + 1) (i + 1) lst
      else lst)"
  by pat_completeness auto
termination
  by (relation "measure (\<lambda>(cmp, xs, first, i, lst). lst - i)") auto

definition is_sorted_until :: "('a \<Rightarrow> 'a \<Rightarrow> bool) \<Rightarrow> 'a list \<Rightarrow> nat \<Rightarrow> nat \<Rightarrow> nat" where
  "is_sorted_until cmp xs first lst =
     (if first < lst then is_sorted_until_loop cmp xs first first lst else lst)"

definition is_sorted_range :: "('a \<Rightarrow> 'a \<Rightarrow> bool) \<Rightarrow> 'a list \<Rightarrow> nat \<Rightarrow> nat \<Rightarrow> bool" where
  "is_sorted_range cmp xs first lst \<longleftrightarrow> is_sorted_until cmp xs first lst = lst"

fun is_partitioned :: "('a \<Rightarrow> bool) \<Rightarrow> 'a list \<Rightarrow> bool" where
  "is_partitioned pred [] = True"
| "is_partitioned pred (x # xs) =
     (if pred x then is_partitioned pred xs else list_all (\<lambda>y. \<not> pred y) xs)"

declare partition_point_loop.simps [simp del] lower_bound_bisecting.simps [simp del]
  lower_bound_onesided_loop.simps [simp del] upper_bound_loop.simps [simp del]
  equal_range_loop.simps [simp del] is_sorted_until_loop.simps [simp del]

section \<open>Every search is a partition point\<close>

text \<open>k is the first position of [first, last) at which pred fails, and pred fails from there on.\<close>

definition splits_at :: "(nat \<Rightarrow> bool) \<Rightarrow> nat \<Rightarrow> nat \<Rightarrow> nat \<Rightarrow> bool" where
  "splits_at pred first lst k \<longleftrightarrow>
     first \<le> k \<and> k \<le> lst \<and> (\<forall>i. first \<le> i \<and> i < lst \<longrightarrow> pred i = (i < k))"

lemma splits_at_right: "splits_at P first lst k \<Longrightarrow> first \<le> m \<Longrightarrow> m < lst \<Longrightarrow> P m \<Longrightarrow> splits_at P (m + 1) lst k"
  by (auto simp: splits_at_def)

lemma splits_at_left: "splits_at P first lst k \<Longrightarrow> first \<le> m \<Longrightarrow> m < lst \<Longrightarrow> \<not> P m \<Longrightarrow> splits_at P first m k"
  by (auto simp: splits_at_def not_less)

lemma splits_at_exists:
  assumes "first \<le> lst" and "\<And>i j. first \<le> i \<Longrightarrow> i \<le> j \<Longrightarrow> j < lst \<Longrightarrow> P j \<Longrightarrow> P i"
  shows "\<exists>k. splits_at P first lst k"
  using assms
proof (induction lst)
  case 0
  then show ?case by (auto simp: splits_at_def)
next
  case (Suc n)
  show ?case
  proof (cases "first \<le> n \<and> \<not> P n")
    case True
    with Suc obtain k where "splits_at P first n k" by fastforce
    with True show ?thesis by (auto simp: splits_at_def less_Suc_eq intro!: exI [of _ k])
  next
    case False
    then have "P i" if "first \<le> i" "i < Suc n" for i using Suc.prems(2) [of i n] that by auto
    with Suc.prems(1) have "splits_at P first (Suc n) (Suc n)" by (simp add: splits_at_def)
    then show ?thesis by blast
  qed
qed

lemma partition_point_loop_splits:
  "splits_at (\<lambda>i. pred (xs ! i)) first (first + len) k \<Longrightarrow> partition_point_loop pred xs first len = k"
proof (induction pred xs first len rule: partition_point_loop.induct)
  case (1 pred xs first len)
  show ?case
  proof (cases "len = 0")
    case True
    with 1 show ?thesis by (simp add: splits_at_def partition_point_loop.simps)
  next
    case False
    define l2 where "l2 = half_positive len"
    define m where "m = first + l2"
    have m: "first \<le> m" "m < first + len" "m + 1 + (len - (l2 + 1)) = first + len"
      using False half_positive_less [of len] by (auto simp: m_def l2_def)
    show ?thesis
    proof (cases "pred (xs ! m)")
      case True
      then have "splits_at (\<lambda>i. pred (xs ! i)) (m + 1) (m + 1 + (len - (l2 + 1))) k"
        using splits_at_right [OF "1.prems"] m by simp
      with "1.IH"(1) [OF False l2_def m_def True] True False show ?thesis
        by (subst partition_point_loop.simps) (simp add: Let_def flip: l2_def m_def)
    next
      case fails: False
      then have "splits_at (\<lambda>i. pred (xs ! i)) first (first + l2) k"
        using splits_at_left [OF "1.prems"] m by (simp add: m_def)
      with "1.IH"(2) [OF False l2_def m_def fails] fails False show ?thesis
        by (subst partition_point_loop.simps) (simp add: Let_def flip: l2_def m_def)
    qed
  qed
qed

text \<open>The bisections are the partition point of their test.\<close>

lemma lower_bound_bisecting_partition_point:
  "lower_bound_bisecting cmp proj xs first v len =
   partition_point_loop (\<lambda>x. cmp (proj x) v) xs first len"
proof (induction cmp proj xs first v len rule: lower_bound_bisecting.induct)
  case (1 cmp proj xs first v len)
  show ?case
    by (subst lower_bound_bisecting.simps, subst partition_point_loop.simps)
      (use 1 in \<open>simp add: Let_def\<close>)
qed

lemma upper_bound_partition_point:
  "upper_bound_loop cmp proj xs first v len =
   partition_point_loop (\<lambda>x. \<not> cmp v (proj x)) xs first len"
proof (induction cmp proj xs first v len rule: upper_bound_loop.induct)
  case (1 cmp proj xs first v len)
  show ?case
    by (subst upper_bound_loop.simps, subst partition_point_loop.simps)
      (use 1 in \<open>simp add: Let_def\<close>)
qed

lemma lower_bound_bisecting_splits:
  "splits_at (\<lambda>i. cmp (proj (xs ! i)) v) first (first + len) k \<Longrightarrow>
   lower_bound_bisecting cmp proj xs first v len = k"
  unfolding lower_bound_bisecting_partition_point by (rule partition_point_loop_splits)

lemma upper_bound_loop_splits:
  "splits_at (\<lambda>i. \<not> cmp v (proj (xs ! i))) first (first + len) k \<Longrightarrow>
   upper_bound_loop cmp proj xs first v len = k"
  unfolding upper_bound_partition_point by (rule partition_point_loop_splits)

lemma lower_bound_onesided_loop_splits:
  assumes "splits_at (\<lambda>i. cmp (proj (xs ! i)) v) first lst k" and "first < lst \<Longrightarrow> first < k"
  shows "lower_bound_onesided_loop cmp proj xs first lst v e = k"
  using assms
proof (induction cmp proj xs first lst v e rule: lower_bound_onesided_loop.induct)
  case (1 cmp proj xs first lst v e)
  show ?case
  proof (cases "lst \<le> first")
    case True
    with 1 show ?thesis by (auto simp: lower_bound_onesided_loop.simps splits_at_def)
  next
    case False
    define dist where "dist = min (2 ^ e) (lst - first)"
    define it where "it = first + dist"
    let ?P = "\<lambda>i. cmp (proj (xs ! i)) v"
    have it: "first < it" "it \<le> lst" using False by (auto simp: it_def dist_def)
    show ?thesis
    proof (cases "it = lst \<or> \<not> ?P it")
      case True
      then have below: "splits_at ?P first it k"
        using splits_at_left [OF "1.prems"(1)] it "1.prems"(1) by (metis less_imp_le order.strict_iff_order)
      moreover have "dist = 1 \<Longrightarrow> it = k" using below "1.prems"(2) it False by (simp add: splits_at_def it_def)
      ultimately show ?thesis
        using True False lower_bound_bisecting_splits [of cmp proj xs v first dist k]
        by (subst lower_bound_onesided_loop.simps) (simp add: Let_def it_def flip: dist_def)
    next
      case inside: False
      then have "it < k" using "1.prems"(1) it by (auto simp: splits_at_def)
      moreover from this have "splits_at ?P it lst k"
        using "1.prems"(1) it by (simp add: splits_at_def)
      ultimately have "lower_bound_onesided_loop cmp proj xs it lst v (e + 1) = k"
        using "1.IH" [OF False dist_def it_def inside] by simp
      with inside False show ?thesis
        by (subst lower_bound_onesided_loop.simps) (simp add: Let_def it_def flip: dist_def)
    qed
  qed
qed

lemma lower_bound_onesided_splits:
  assumes "splits_at (\<lambda>i. cmp (proj (xs ! i)) v) first lst k"
  shows "lower_bound_onesided cmp proj xs first lst v = k"
proof (cases "first = lst \<or> \<not> cmp (proj (xs ! first)) v")
  case True
  moreover from this assms have "k = first" by (cases "first = lst") (auto simp: splits_at_def)
  ultimately show ?thesis by (simp add: lower_bound_onesided_def)
next
  case False
  with assms have "first < k" by (auto simp: splits_at_def)
  with lower_bound_onesided_loop_splits [where cmp = cmp, OF assms]
  have "lower_bound_onesided_loop cmp proj xs first lst v 0 = k" by blast
  with False show ?thesis by (simp add: lower_bound_onesided_def)
qed

section \<open>Searches in sorted ranges\<close>

text \<open>Where the elements less than v stop, and where the elements not greater than v stop.\<close>

context strict_weak
begin

lemma sorted_splits_lower:
  assumes "sorted_by lt xs" and "first \<le> lst" and "lst \<le> length xs"
  shows "\<exists>k. splits_at (\<lambda>i. lt (xs ! i) v) first lst k"
proof (rule splits_at_exists [OF assms(2)])
  fix i j assume "i \<le> j" "j < lst" "lt (xs ! j) v"
  then show "lt (xs ! i) v" using sorted_by_nth [OF assms(1), of i j] assms(3) le_less_trans by auto
qed

lemma sorted_splits_upper:
  assumes "sorted_by lt xs" and "first \<le> lst" and "lst \<le> length xs"
  shows "\<exists>k. splits_at (\<lambda>i. \<not> lt v (xs ! i)) first lst k"
proof (rule splits_at_exists [OF assms(2)])
  fix i j assume "i \<le> j" "j < lst" "\<not> lt v (xs ! j)"
  then show "\<not> lt v (xs ! i)" using sorted_by_nth [OF assms(1), of i j] assms(3) neg_trans by auto
qed

lemma lower_bound_splits:
  assumes "sorted_by lt xs" and "first \<le> lst" and "lst \<le> length xs"
  shows "splits_at (\<lambda>i. lt (xs ! i) v) first lst (lower_bound lt xs first lst v)"
    and "lower_bound_onesided lt (\<lambda>x. x) xs first lst v = lower_bound lt xs first lst v"
proof -
  obtain k where k: "splits_at (\<lambda>i. lt (xs ! i) v) first lst k" using sorted_splits_lower [OF assms] by blast
  with assms(2) have "lower_bound lt xs first lst v = k"
    unfolding lower_bound_def lower_bound_impl_def by (intro lower_bound_bisecting_splits) simp
  moreover from k have "lower_bound_onesided lt (\<lambda>x. x) xs first lst v = k" by (rule lower_bound_onesided_splits)
  ultimately show "splits_at (\<lambda>i. lt (xs ! i) v) first lst (lower_bound lt xs first lst v)"
    and "lower_bound_onesided lt (\<lambda>x. x) xs first lst v = lower_bound lt xs first lst v" using k by simp_all
qed

lemma upper_bound_splits:
  assumes "sorted_by lt xs" and "first \<le> lst" and "lst \<le> length xs"
  shows "splits_at (\<lambda>i. \<not> lt v (xs ! i)) first lst (upper_bound lt xs first lst v)"
proof -
  obtain k where k: "splits_at (\<lambda>i. \<not> lt v (xs ! i)) first lst k" using sorted_splits_upper [OF assms] by blast
  with assms(2) have "upper_bound lt xs first lst v = k"
    unfolding upper_bound_def upper_bound_impl_def by (intro upper_bound_loop_splits) simp
  with k show ?thesis by simp
qed

lemma equal_range_splits:
  assumes "sorted_by lt xs"
    and "splits_at (\<lambda>i. lt (xs ! i) v) first en a" and "splits_at (\<lambda>i. \<not> lt v (xs ! i)) first en b"
    and "en = first + len" and "en \<le> length xs"
  shows "equal_range_loop lt (\<lambda>x. x) xs first en v len = (a, b)"
  using assms(2-)
proof (induction len arbitrary: first en rule: less_induct)
  case (less len)
  show ?case
  proof (cases "len = 0")
    case True
    with less.prems show ?thesis by (simp add: equal_range_loop.simps splits_at_def)
  next
    case False
    define l2 where "l2 = half_positive len"
    define m where "m = first + l2"
    have m: "first \<le> m" "m < en" "en = m + 1 + (len - (l2 + 1))" "l2 < len"
      using False half_positive_less [of len] less.prems(3) by (auto simp: m_def l2_def)
    note unfold_loop = equal_range_loop.simps [of lt "\<lambda>x. x" xs first en v len] Let_def
    show ?thesis
    proof (cases "lt (xs ! m) v")
      case True
      then have "\<not> lt v (xs ! m)" by (rule asym)
      with True less.IH [of "len - (l2 + 1)" "m + 1" en] False m less.prems splits_at_right
      have "equal_range_loop lt (\<lambda>x. x) xs (m + 1) en v (len - (l2 + 1)) = (a, b)" by simp
      with True False show ?thesis by (simp add: unfold_loop flip: l2_def m_def)
    next
      case ge: False
      show ?thesis
      proof (cases "lt v (xs ! m)")
        case True
        with ge less.IH [of l2 first m] False m less.prems splits_at_left
        have "equal_range_loop lt (\<lambda>x. x) xs first m v l2 = (a, b)" by (simp add: m_def)
        with True ge False show ?thesis by (simp add: unfold_loop flip: l2_def m_def)
      next
        case eq: False
        have "splits_at (\<lambda>i. lt (xs ! i) v) first m a" using splits_at_left [OF less.prems(1) m(1,2)] ge by simp
        moreover have "splits_at (\<lambda>i. \<not> lt v (xs ! i)) (m + 1) en b" using splits_at_right [OF less.prems(2) m(1,2)] eq by simp
        ultimately have "lower_bound_impl lt (\<lambda>x. x) xs first m v = a" "upper_bound_impl lt (\<lambda>x. x) xs (m + 1) en v = b"
          using m unfolding lower_bound_impl_def upper_bound_impl_def
          by (auto intro!: lower_bound_bisecting_splits upper_bound_loop_splits)
        with ge eq False show ?thesis by (simp add: unfold_loop flip: l2_def m_def)
      qed
    qed
  qed
qed

lemma equal_range_bounds:
  assumes "sorted_by lt xs" and "first \<le> lst" and "lst \<le> length xs"
  shows "equal_range lt xs first lst v = (lower_bound lt xs first lst v, upper_bound lt xs first lst v)"
  unfolding equal_range_def
  by (rule equal_range_splits [OF assms(1) lower_bound_splits(1) [OF assms] upper_bound_splits [OF assms]])
    (use assms in simp_all)

lemma binary_search_iff:
  assumes "sorted_by lt xs" and "first \<le> lst" and "lst \<le> length xs"
  shows "binary_search lt xs first lst v \<longleftrightarrow> (\<exists>i. first \<le> i \<and> i < lst \<and> equivalent lt v (xs ! i))"
proof -
  define k where "k = lower_bound lt xs first lst v"
  have k: "splits_at (\<lambda>i. lt (xs ! i) v) first lst k" unfolding k_def by (rule lower_bound_splits(1) [OF assms])
  have "k < lst \<and> \<not> lt v (xs ! k)" if "first \<le> i" "i < lst" "equivalent lt v (xs ! i)" for i
  proof -
    from k that have "k \<le> i" by (auto simp: splits_at_def equivalent_def not_less [symmetric])
    with that have "k < lst" by simp
    moreover have "k = i \<or> \<not> lt (xs ! i) (xs ! k)" using sorted_by_nth [OF assms(1) \<open>k \<le> i\<close>] that assms(3) by simp
    ultimately show ?thesis using that neg_trans by (auto simp: equivalent_def)
  qed
  with k show ?thesis
    unfolding binary_search_def k_def [symmetric] Let_def
    by (auto simp: splits_at_def equivalent_def intro!: exI [of _ k])
qed

lemma sorted_by_adjacent:
  "sorted_by lt xs \<longleftrightarrow> (\<forall>i. i + 1 < length xs \<longrightarrow> \<not> lt (xs ! (i + 1)) (xs ! i))"
proof -
  have "transp (\<lambda>x y. \<not> lt y x)" using neg_trans by (auto intro!: transpI)
  from sorted_wrt_iff_nth_Suc_transp [OF this, of xs] show ?thesis by (simp add: sorted_by_def)
qed

end

lemma is_sorted_until_loop_spec:
  assumes "i < lst"
  shows "i < is_sorted_until_loop cmp xs i i lst \<and> is_sorted_until_loop cmp xs i i lst \<le> lst \<and>
    (\<forall>j. i \<le> j \<and> j + 1 < is_sorted_until_loop cmp xs i i lst \<longrightarrow> \<not> cmp (xs ! (j + 1)) (xs ! j)) \<and>
    (is_sorted_until_loop cmp xs i i lst < lst \<longrightarrow>
       cmp (xs ! is_sorted_until_loop cmp xs i i lst) (xs ! (is_sorted_until_loop cmp xs i i lst - 1)))"
  using assms
proof (induction "lst - i" arbitrary: i rule: less_induct)
  case less
  show ?case
  proof (cases "i + 1 < lst \<and> \<not> cmp (xs ! (i + 1)) (xs ! i)")
    case True
    then have "is_sorted_until_loop cmp xs i i lst = is_sorted_until_loop cmp xs (i + 1) (i + 1) lst"
      by (subst is_sorted_until_loop.simps) simp
    moreover have "lst - (i + 1) < lst - i" "i + 1 < lst" using True by auto
    note IH = less.hyps [OF this]
    moreover have "\<not> cmp (xs ! (j + 1)) (xs ! j)"
      if "i \<le> j" "j + 1 < is_sorted_until_loop cmp xs (i + 1) (i + 1) lst" for j
      using that IH True by (cases "j = i") auto
    ultimately show ?thesis by simp
  next
    case False
    with less.prems show ?thesis by (subst (1 2 3 4 5 6) is_sorted_until_loop.simps) auto
  qed
qed

lemma is_partitioned_iff:
  "is_partitioned pred xs \<longleftrightarrow> (\<exists>k. splits_at (\<lambda>i. pred (xs ! i)) 0 (length xs) k)"
proof (induction xs)
  case Nil
  show ?case by (auto simp: splits_at_def)
next
  case (Cons x xs)
  have "splits_at (\<lambda>i. pred ((x # xs) ! i)) 0 (length (x # xs)) k \<longleftrightarrow>
      (case k of 0 \<Rightarrow> \<not> pred x \<and> (\<forall>y\<in>set xs. \<not> pred y) | Suc k' \<Rightarrow> pred x \<and> splits_at (\<lambda>i. pred (xs ! i)) 0 (length xs) k')" for k
    by (auto simp: splits_at_def all_set_conv_all_nth less_Suc_eq_0_disj nth_Cons' split: nat.split)
  note step = this
  have "(\<exists>k. Q k) \<longleftrightarrow> Q 0 \<or> (\<exists>k. Q (Suc k))" for Q :: "nat \<Rightarrow> bool" by (metis not0_implies_Suc)
  note split_k = this [of "splits_at (\<lambda>i. pred ((x # xs) ! i)) 0 (length (x # xs))"]
  show ?case unfolding split_k unfolding step using Cons.IH by (auto simp: list_all_iff)
qed

section \<open>Properties\<close>

text \<open>
  C33. In a range [first, last) sorted by a strict weak order, lower_bound returns the position
  where the elements less than v stop and upper_bound the position where the elements not
  greater than v stop; the one-sided search, which doubles its steps and then bisects,
  returns the same position as lower_bound.
\<close>

theorem lower_upper_bound_correct:
  assumes "strict_weak lt" and "sorted_by lt xs" and "first \<le> lst" and "lst \<le> length xs"
  shows "splits_at (\<lambda>i. lt (xs ! i) v) first lst (lower_bound lt xs first lst v) \<and>
    splits_at (\<lambda>i. \<not> lt v (xs ! i)) first lst (upper_bound lt xs first lst v) \<and>
    lower_bound_onesided lt (\<lambda>x. x) xs first lst v = lower_bound lt xs first lst v"
  using strict_weak.lower_bound_splits [OF assms] strict_weak.upper_bound_splits [OF assms] by blast

theorem lower_upper_bound_correct_witness:
  "lower_bound cxx_less [1, 3, 3, 3, 7, 9] 0 6 (3::int) = 1 \<and> upper_bound cxx_less [1, 3, 3, 3, 7, 9] 0 6 (3::int) = 4 \<and>
   lower_bound_onesided cxx_less (\<lambda>x. x) [1, 3, 3, 3, 7, 9] 0 6 (8::int) = lower_bound cxx_less [1, 3, 3, 3, 7, 9] 0 6 (8::int)"
  using lower_upper_bound_correct [OF less.strict_weak_axioms, of "[1, 3, 3, 3, 7, 9]" 0 6 "8::int"]
  by (simp add: lower_bound_def lower_bound_impl_def lower_bound_bisecting.simps upper_bound_def upper_bound_impl_def
      upper_bound_loop.simps half_positive_def cxx_less_def)

text \<open>
  In a sorted range equal_range is the pair of lower_bound and upper_bound, and
  binary_search tells whether the range holds an element equivalent to v.
\<close>

theorem equal_range_binary_search_correct:
  assumes "strict_weak lt" and "sorted_by lt xs" and "first \<le> lst" and "lst \<le> length xs"
  shows "equal_range lt xs first lst v = (lower_bound lt xs first lst v, upper_bound lt xs first lst v) \<and>
    (binary_search lt xs first lst v \<longleftrightarrow> (\<exists>i. first \<le> i \<and> i < lst \<and> equivalent lt v (xs ! i)))"
  using strict_weak.equal_range_bounds [OF assms] strict_weak.binary_search_iff [OF assms] by blast

theorem equal_range_binary_search_correct_witness:
  "equal_range cxx_less [1, 3, 3, 3, 7, 9] 0 6 (3::int) = (1, 4)"
  using equal_range_binary_search_correct [OF less.strict_weak_axioms, of "[1, 3, 3, 3, 7, 9]" 0 6 "3::int"]
  by (simp add: lower_bound_def lower_bound_impl_def lower_bound_bisecting.simps upper_bound_def upper_bound_impl_def
      upper_bound_loop.simps half_positive_def cxx_less_def)

text \<open>
  is_sorted_until returns the end of the longest sorted prefix: no adjacent pair before it
  is inverted, and the element at it, if any, is less than its predecessor. So is_sorted
  holds exactly of the sorted ranges; is_partitioned holds exactly when some position
  splits the range by the predicate.
\<close>

theorem sortedness_checks_correct:
  assumes "strict_weak lt" and "first < lst" and "r = is_sorted_until lt xs first lst"
  shows "first < r \<and> r \<le> lst \<and> (\<forall>j. first \<le> j \<and> j + 1 < r \<longrightarrow> \<not> lt (xs ! (j + 1)) (xs ! j)) \<and>
    (r < lst \<longrightarrow> lt (xs ! r) (xs ! (r - 1))) \<and>
    (is_sorted_range lt xs 0 (length xs) \<longleftrightarrow> sorted_by lt xs) \<and>
    (is_partitioned pred xs \<longleftrightarrow> (\<exists>k. splits_at (\<lambda>i. pred (xs ! i)) 0 (length xs) k))"
proof -
  have r: "r = is_sorted_until_loop lt xs first first lst" using assms by (simp add: is_sorted_until_def)
  define q where "q = is_sorted_until_loop lt xs 0 0 (length xs)"
  have "is_sorted_range lt xs 0 (length xs) \<longleftrightarrow> sorted_by lt xs"
  proof (cases "xs = []")
    case False
    then have "0 < length xs" by simp
    from is_sorted_until_loop_spec [OF this, of lt xs] False show ?thesis
      unfolding strict_weak.sorted_by_adjacent [OF assms(1)] is_sorted_range_def is_sorted_until_def q_def [symmetric]
      by (auto simp: le_less dest: spec [of _ "q - 1"])
  qed (simp add: is_sorted_range_def is_sorted_until_def)
  with is_sorted_until_loop_spec [OF assms(2), of lt xs] is_partitioned_iff [of pred xs] show ?thesis
    unfolding r by blast
qed

theorem sortedness_checks_correct_witness:
  "is_sorted_until cxx_less [1, 2, 2, 5, 4, 6::int] 0 6 \<le> 6"
  using sortedness_checks_correct [OF less.strict_weak_axioms, of 0 6 _ "[1, 2, 2, 5, 4, 6::int]"] by simp

end
