(* ===== verification/CxxSetOps.thy ===== *)
theory CxxSetOps
  imports CxxBinarySearch
begin

text \<open>
  The algorithms on sorted ranges of include/linux/c++/v1/__algorithm: merge.h, includes.h,
  set_union.h, set_intersection.h (the single-pass version and the multi-pass one over
  one-sided binary search), set_difference.h and set_symmetric_difference.h. Input ranges are lists; res is what has been written so far. The
  properties give, for every equivalence class of the order, the exact subsequence of the
  output that is in the class.
\<close>

section \<open>Definitions\<close>

record 'a set_result =
  in1 :: "'a list"
  in2 :: "'a list"
  out :: "'a list"

fun merge_ranges :: "('a \<Rightarrow> 'a \<Rightarrow> bool) \<Rightarrow> 'a list \<Rightarrow> 'a list \<Rightarrow> 'a list \<Rightarrow> 'a list" where
  "merge_ranges cmp [] ys res = res @ ys"
| "merge_ranges cmp (x # xs) [] res = res @ x # xs"
| "merge_ranges cmp (x # xs) (y # ys) res =
     (if cmp y x then merge_ranges cmp (x # xs) ys (res @ [y])
      else merge_ranges cmp xs (y # ys) (res @ [x]))"

fun includes_range :: "('k \<Rightarrow> 'k \<Rightarrow> bool) \<Rightarrow> ('a \<Rightarrow> 'k) \<Rightarrow> ('b \<Rightarrow> 'k) \<Rightarrow> 'a list \<Rightarrow> 'b list \<Rightarrow> bool" where
  "includes_range cmp proj1 proj2 xs [] = True"
| "includes_range cmp proj1 proj2 [] (y # ys) = False"
| "includes_range cmp proj1 proj2 (x # xs) (y # ys) =
     (if cmp (proj2 y) (proj1 x) then False
      else if \<not> cmp (proj1 x) (proj2 y) then includes_range cmp proj1 proj2 xs ys
      else includes_range cmp proj1 proj2 xs (y # ys))"

fun set_union :: "('a \<Rightarrow> 'a \<Rightarrow> bool) \<Rightarrow> 'a list \<Rightarrow> 'a list \<Rightarrow> 'a list \<Rightarrow> 'a set_result" where
  "set_union cmp [] ys res = \<lparr>in1 = [], in2 = [], out = res @ ys\<rparr>"
| "set_union cmp (x # xs) [] res = \<lparr>in1 = [], in2 = [], out = res @ x # xs\<rparr>"
| "set_union cmp (x # xs) (y # ys) res =
     (if cmp y x then set_union cmp (x # xs) ys (res @ [y])
      else set_union cmp xs (if \<not> cmp x y then ys else y # ys) (res @ [x]))"

text \<open>The single-pass intersection; both returned input iterators are moved to the ends.\<close>

fun set_intersection_input :: "('a \<Rightarrow> 'a \<Rightarrow> bool) \<Rightarrow> 'a list \<Rightarrow> 'a list \<Rightarrow> 'a list \<Rightarrow> 'a set_result" where
  "set_intersection_input cmp (x # xs) (y # ys) res =
     (if cmp x y then set_intersection_input cmp xs (y # ys) res
      else if \<not> cmp y x then set_intersection_input cmp xs ys (res @ [x])
      else set_intersection_input cmp (x # xs) ys res)"
| "set_intersection_input cmp xs ys res = \<lparr>in1 = [], in2 = [], out = res\<rparr>"

text \<open>
  The multi-pass intersection: (first1, first2, res, prev) are the iterators, the output
  and prev_may_be_equal.
\<close>

type_synonym 'a inter_state = "nat \<times> nat \<times> 'a list \<times> bool"

fun set_intersection_add_output_if_equal :: "'a list \<Rightarrow> bool \<Rightarrow> 'a inter_state \<Rightarrow> 'a inter_state" where
  "set_intersection_add_output_if_equal xs may_be_equal (first1, first2, res, prev) =
     (if may_be_equal \<and> prev then (first1 + 1, first2 + 1, res @ [xs ! first1], False)
      else (first1, first2, res, may_be_equal))"

text \<open>The two halves of the loop body: a search in the first range, then in the second.\<close>

fun inter_half1 :: "('a \<Rightarrow> 'a \<Rightarrow> bool) \<Rightarrow> 'a list \<Rightarrow> 'a list \<Rightarrow> 'a inter_state \<Rightarrow> 'a inter_state" where
  "inter_half1 cmp xs ys (first1, first2, res, prev) =
     (let next1 = lower_bound_onesided cmp (\<lambda>x. x) xs first1 (length xs) (ys ! first2)
      in set_intersection_add_output_if_equal xs (next1 = first1) (next1, first2, res, prev))"

fun inter_half2 :: "('a \<Rightarrow> 'a \<Rightarrow> bool) \<Rightarrow> 'a list \<Rightarrow> 'a list \<Rightarrow> 'a inter_state \<Rightarrow> 'a inter_state" where
  "inter_half2 cmp xs ys (first1, first2, res, prev) =
     (let next2 = lower_bound_onesided cmp (\<lambda>x. x) ys first2 (length ys) (xs ! first1)
      in set_intersection_add_output_if_equal xs (next2 = first2) (first1, next2, res, prev))"

fun inter_left :: "'a list \<Rightarrow> 'a list \<Rightarrow> 'a inter_state \<Rightarrow> nat" where
  "inter_left xs ys (first1, first2, res, prev) = (length xs - first1) + (length ys - first2)"

fun set_difference :: "('a \<Rightarrow> 'a \<Rightarrow> bool) \<Rightarrow> 'a list \<Rightarrow> 'a list \<Rightarrow> 'a list \<Rightarrow> 'a list \<times> 'a list" where
  "set_difference cmp (x # xs) (y # ys) res =
     (if cmp x y then set_difference cmp xs (y # ys) (res @ [x])
      else if cmp y x then set_difference cmp (x # xs) ys res
      else set_difference cmp xs ys res)"
| "set_difference cmp xs ys res = ([], res @ xs)"

fun set_symmetric_difference :: "('a \<Rightarrow> 'a \<Rightarrow> bool) \<Rightarrow> 'a list \<Rightarrow> 'a list \<Rightarrow> 'a list \<Rightarrow> 'a set_result" where
  "set_symmetric_difference cmp [] ys res = \<lparr>in1 = [], in2 = [], out = res @ ys\<rparr>"
| "set_symmetric_difference cmp (x # xs) [] res = \<lparr>in1 = [], in2 = [], out = res @ x # xs\<rparr>"
| "set_symmetric_difference cmp (x # xs) (y # ys) res =
     (if cmp x y then set_symmetric_difference cmp xs (y # ys) (res @ [x])
      else if cmp y x then set_symmetric_difference cmp (x # xs) ys (res @ [y])
      else set_symmetric_difference cmp xs ys res)"

text \<open>The searches never move back, and past the end only from past the end.\<close>

lemma partition_point_loop_range:
  "first \<le> partition_point_loop pred xs first len \<and> partition_point_loop pred xs first len \<le> first + len"
proof (induction len arbitrary: first rule: less_induct)
  case (less len)
  show ?case
  proof (cases "len = 0")
    case False
    define l2 where "l2 = half_positive len"
    have l2: "l2 < len" using False half_positive_less [of len] by (simp add: l2_def)
    have "partition_point_loop pred xs first len =
        (if pred (xs ! (first + l2)) then partition_point_loop pred xs (first + l2 + 1) (len - (l2 + 1))
         else partition_point_loop pred xs first l2)"
      using False by (subst partition_point_loop.simps) (simp add: Let_def flip: l2_def)
    with less.IH [of "len - (l2 + 1)" "first + l2 + 1"] less.IH [of l2 first] l2 show ?thesis by auto
  qed (simp add: partition_point_loop.simps)
qed

lemma lower_bound_onesided_loop_range:
  "first \<le> lower_bound_onesided_loop cmp proj xs first lst v k \<and>
    lower_bound_onesided_loop cmp proj xs first lst v k \<le> max first lst"
proof (induction "lst - first" arbitrary: first k rule: less_induct)
  case less
  show ?case
  proof (cases "lst \<le> first")
    case False
    define dist where "dist = min (2 ^ k) (lst - first)"
    have dist: "0 < dist" "first + dist \<le> lst" using False by (auto simp: dist_def)
    have "lower_bound_onesided_loop cmp proj xs first lst v k =
        (if first + dist = lst \<or> \<not> cmp (proj (xs ! (first + dist))) v
         then if dist = 1 then first + dist else lower_bound_bisecting cmp proj xs first v dist
         else lower_bound_onesided_loop cmp proj xs (first + dist) lst v (k + 1))"
      using False by (subst lower_bound_onesided_loop.simps) (simp add: Let_def flip: dist_def)
    moreover have "lst - (first + dist) < lst - first" using dist False by auto
    note less.hyps [OF this, of "k + 1"]
    ultimately show ?thesis using dist False partition_point_loop_range [of first "\<lambda>x. cmp (proj x) v" xs dist]
      by (auto simp: lower_bound_bisecting_partition_point)
  qed (simp add: lower_bound_onesided_loop.simps)
qed

lemma lower_bound_onesided_range:
  "first \<le> lower_bound_onesided cmp proj xs first lst v"
  "lower_bound_onesided cmp proj xs first lst v \<le> max first lst"
  using lower_bound_onesided_loop_range [of first cmp proj xs lst v 0]
  by (auto simp: lower_bound_onesided_def)

lemma inter_progress:
  assumes "inter_half1 cmp xs ys (first1, first2, res, prev) = (f1, f2, res', prev')"
    and "first2 < length ys" and "f1 < length xs"
  shows "inter_left xs ys (inter_half2 cmp xs ys (f1, f2, res', prev')) < inter_left xs ys (first1, first2, res, prev)"
proof -
  define n1 where "n1 = lower_bound_onesided cmp (\<lambda>x. x) xs first1 (length xs) (ys ! first2)"
  define n2 where "n2 = lower_bound_onesided cmp (\<lambda>x. x) ys f2 (length ys) (xs ! f1)"
  have "first1 \<le> n1" "f2 \<le> n2" "n2 \<le> max f2 (length ys)"
    by (simp_all add: n1_def n2_def lower_bound_onesided_range)
  moreover have "(f1, f2, res', prev') =
      (if n1 = first1 \<and> prev then (n1 + 1, first2 + 1, res @ [xs ! n1], False) else (n1, first2, res, n1 = first1))"
    using assms(1) by (simp add: Let_def flip: n1_def)
  moreover have "inter_half2 cmp xs ys (f1, f2, res', prev') =
      (if n2 = f2 \<and> prev' then (f1 + 1, n2 + 1, res' @ [xs ! f1], False) else (f1, n2, res', n2 = f2))"
    by (simp add: Let_def flip: n2_def)
  ultimately show ?thesis using assms(2,3)
    by (auto simp del: inter_half2.simps split: if_splits)
qed

function set_intersection_forward :: "('a \<Rightarrow> 'a \<Rightarrow> bool) \<Rightarrow> 'a list \<Rightarrow> 'a list \<Rightarrow> 'a inter_state \<Rightarrow> 'a set_result" where
  "set_intersection_forward cmp xs ys (first1, first2, res, prev) =
     (if first2 < length ys
      then let st = inter_half1 cmp xs ys (first1, first2, res, prev)
           in if fst st < length xs then set_intersection_forward cmp xs ys (inter_half2 cmp xs ys st)
              else \<lparr>in1 = [], in2 = [], out = fst (snd (snd st))\<rparr>
      else \<lparr>in1 = [], in2 = [], out = res\<rparr>)"
  by pat_completeness auto
termination
proof (relation "measure (\<lambda>(cmp, xs, ys, st). inter_left xs ys st)", goal_cases)
  case (2 cmp xs ys first1 first2 res prev st)
  then show ?case using inter_progress [of cmp xs ys first1 first2 res prev] by (cases st) fastforce
qed simp

definition set_intersection :: "('a \<Rightarrow> 'a \<Rightarrow> bool) \<Rightarrow> 'a list \<Rightarrow> 'a list \<Rightarrow> 'a list \<Rightarrow> 'a list" where
  "set_intersection cmp xs ys res = out (set_intersection_forward cmp xs ys (0, 0, res, False))"

declare set_intersection_forward.simps [simp del]

section \<open>The output is appended to what was written before\<close>

lemma merge_ranges_prefix: "merge_ranges cmp xs ys (r @ res) = r @ merge_ranges cmp xs ys res"
  by (induction cmp xs ys res rule: merge_ranges.induct) simp_all

lemma set_union_prefix: "out (set_union cmp xs ys (r @ res)) = r @ out (set_union cmp xs ys res)"
  by (induction cmp xs ys res rule: set_union.induct) simp_all

lemma set_intersection_input_prefix:
  "out (set_intersection_input cmp xs ys (r @ res)) = r @ out (set_intersection_input cmp xs ys res)"
  by (induction cmp xs ys res rule: set_intersection_input.induct) simp_all

lemma set_difference_prefix: "snd (set_difference cmp xs ys (r @ res)) = r @ snd (set_difference cmp xs ys res)"
  by (induction cmp xs ys res rule: set_difference.induct) simp_all

lemma set_symmetric_difference_prefix:
  "out (set_symmetric_difference cmp xs ys (r @ res)) = r @ out (set_symmetric_difference cmp xs ys res)"
  by (induction cmp xs ys res rule: set_symmetric_difference.induct) simp_all

section \<open>The multi-pass intersection is the single-pass one\<close>

context strict_weak
begin

lemma inter_skip1:
  assumes "f1 \<le> n1" and "n1 \<le> length xs" and "\<forall>i. f1 \<le> i \<and> i < n1 \<longrightarrow> lt (xs ! i) y"
  shows "set_intersection_input lt (drop f1 xs) (y # ys) res = set_intersection_input lt (drop n1 xs) (y # ys) res"
  using assms
proof (induction rule: inc_induct)
  case (step i)
  then have "drop i xs = xs ! i # drop (Suc i) xs" "lt (xs ! i) y" by (auto simp: Cons_nth_drop_Suc)
  with step show ?case by simp
qed simp

lemma inter_skip2:
  assumes "f2 \<le> n2" and "n2 \<le> length ys" and "\<forall>i. f2 \<le> i \<and> i < n2 \<longrightarrow> lt (ys ! i) x"
  shows "set_intersection_input lt (x # xs) (drop f2 ys) res = set_intersection_input lt (x # xs) (drop n2 ys) res"
  using assms
proof (induction rule: inc_induct)
  case (step i)
  then have "drop i ys = ys ! i # drop (Suc i) ys" "lt (ys ! i) x" by (auto simp: Cons_nth_drop_Suc)
  with step asym show ?case by simp
qed simp

text \<open>What holds between the halves of the loop; prev after the first half is about the first range.\<close>

definition inter_inv :: "'a list \<Rightarrow> 'a list \<Rightarrow> 'a inter_state \<Rightarrow> bool" where
  "inter_inv xs ys = (\<lambda>(f1, f2, res, prev). f1 \<le> length xs \<and> f2 \<le> length ys \<and>
     (prev \<and> f2 < length ys \<longrightarrow> f1 < length xs \<and> \<not> lt (ys ! f2) (xs ! f1)))"

definition inter_mid :: "'a list \<Rightarrow> 'a list \<Rightarrow> 'a inter_state \<Rightarrow> bool" where
  "inter_mid xs ys = (\<lambda>(f1, f2, res, prev). f1 \<le> length xs \<and> f2 \<le> length ys \<and>
     (prev \<and> f1 < length xs \<longrightarrow> f2 < length ys \<and> \<not> lt (xs ! f1) (ys ! f2)))"

definition inter_rest :: "'a list \<Rightarrow> 'a list \<Rightarrow> 'a inter_state \<Rightarrow> 'a list" where
  "inter_rest xs ys = (\<lambda>(f1, f2, res, prev). out (set_intersection_input lt (drop f1 xs) (drop f2 ys) res))"

lemma inter_half1_step:
  assumes "sorted_by lt xs" and "inter_inv xs ys st" and "fst (snd st) < length ys"
  shows "inter_mid xs ys (inter_half1 lt xs ys st) \<and> inter_rest xs ys (inter_half1 lt xs ys st) = inter_rest xs ys st"
proof -
  obtain f1 f2 res prev where st: "st = (f1, f2, res, prev)" by (cases st)
  define n1 where "n1 = lower_bound_onesided lt (\<lambda>x. x) xs f1 (length xs) (ys ! f2)"
  have f1: "f1 \<le> length xs" using assms(2) by (simp add: st inter_inv_def)
  have n1: "splits_at (\<lambda>i. lt (xs ! i) (ys ! f2)) f1 (length xs) n1"
    using lower_bound_splits [OF assms(1) f1 order_refl] by (simp add: n1_def)
  then have range: "f1 \<le> n1" "n1 \<le> length xs" and stop: "n1 < length xs \<Longrightarrow> \<not> lt (xs ! n1) (ys ! f2)"
    by (auto simp: splits_at_def)
  have ys: "drop f2 ys = ys ! f2 # drop (Suc f2) ys" using assms(3) by (simp add: st Cons_nth_drop_Suc)
  have rest: "set_intersection_input lt (drop f1 xs) (drop f2 ys) res = set_intersection_input lt (drop n1 xs) (drop f2 ys) res"
    unfolding ys by (rule inter_skip1) (use n1 in \<open>auto simp: splits_at_def\<close>)
  have half: "inter_half1 lt xs ys st =
      (if n1 = f1 \<and> prev then (n1 + 1, f2 + 1, res @ [xs ! n1], False) else (n1, f2, res, n1 = f1))"
    by (simp add: st Let_def flip: n1_def)
  show ?thesis
  proof (cases "n1 = f1 \<and> prev")
    case True
    with assms(2,3) have lt: "n1 < length xs" "\<not> lt (ys ! f2) (xs ! n1)" by (auto simp: st inter_inv_def)
    then have "drop n1 xs = xs ! n1 # drop (Suc n1) xs" by (simp add: Cons_nth_drop_Suc)
    with True lt assms(3) stop rest ys show ?thesis unfolding half by (simp add: st inter_mid_def inter_rest_def)
  next
    case False
    with range stop rest assms(3) show ?thesis unfolding half if_not_P [OF False]
      by (simp add: st inter_mid_def inter_rest_def)
  qed
qed

lemma inter_half2_step:
  assumes "sorted_by lt ys" and "inter_mid xs ys st" and "fst st < length xs"
  shows "inter_inv xs ys (inter_half2 lt xs ys st) \<and> inter_rest xs ys (inter_half2 lt xs ys st) = inter_rest xs ys st"
proof -
  obtain f1 f2 res prev where st: "st = (f1, f2, res, prev)" by (cases st)
  define n2 where "n2 = lower_bound_onesided lt (\<lambda>x. x) ys f2 (length ys) (xs ! f1)"
  have f2: "f2 \<le> length ys" using assms(2) by (simp add: st inter_mid_def)
  have n2: "splits_at (\<lambda>i. lt (ys ! i) (xs ! f1)) f2 (length ys) n2"
    using lower_bound_splits [OF assms(1) f2 order_refl] by (simp add: n2_def)
  then have range: "f2 \<le> n2" "n2 \<le> length ys" and stop: "n2 < length ys \<Longrightarrow> \<not> lt (ys ! n2) (xs ! f1)"
    by (auto simp: splits_at_def)
  have xs: "drop f1 xs = xs ! f1 # drop (Suc f1) xs" using assms(3) by (simp add: st Cons_nth_drop_Suc)
  have rest: "set_intersection_input lt (drop f1 xs) (drop f2 ys) res = set_intersection_input lt (drop f1 xs) (drop n2 ys) res"
    unfolding xs by (rule inter_skip2) (use n2 in \<open>auto simp: splits_at_def\<close>)
  have half: "inter_half2 lt xs ys st =
      (if n2 = f2 \<and> prev then (f1 + 1, n2 + 1, res @ [xs ! f1], False) else (f1, n2, res, n2 = f2))"
    by (simp add: st Let_def flip: n2_def)
  show ?thesis
  proof (cases "n2 = f2 \<and> prev")
    case True
    with assms(2,3) have lt: "n2 < length ys" "\<not> lt (xs ! f1) (ys ! n2)" by (auto simp: st inter_mid_def)
    then have "drop n2 ys = ys ! n2 # drop (Suc n2) ys" by (simp add: Cons_nth_drop_Suc)
    with True lt assms(3) stop rest xs show ?thesis unfolding half by (simp add: st inter_inv_def inter_rest_def)
  next
    case False
    with range stop rest assms(3) show ?thesis unfolding half if_not_P [OF False]
      by (simp add: st inter_inv_def inter_rest_def)
  qed
qed

lemma set_intersection_input_Nil [simp]:
  "set_intersection_input lt [] ys res = \<lparr>in1 = [], in2 = [], out = res\<rparr>"
  "set_intersection_input lt xs [] res = \<lparr>in1 = [], in2 = [], out = res\<rparr>"
  by (cases ys; simp) (cases xs; simp)

lemma set_intersection_forward_rest:
  assumes "sorted_by lt xs" and "sorted_by lt ys" and "inter_inv xs ys st"
  shows "out (set_intersection_forward lt xs ys st) = inter_rest xs ys st"
  using assms(3)
proof (induction "inter_left xs ys st" arbitrary: st rule: less_induct)
  case less
  obtain f1 f2 res prev where st: "st = (f1, f2, res, prev)" by (cases st)
  define mid where "mid = inter_half1 lt xs ys st"
  show ?case
  proof (cases "f2 < length ys")
    case False
    with less.prems show ?thesis by (simp add: st set_intersection_forward.simps inter_rest_def inter_inv_def)
  next
    case True
    then have mid: "inter_mid xs ys mid" "inter_rest xs ys mid = inter_rest xs ys st"
      using inter_half1_step [OF assms(1) less.prems] by (simp_all add: st mid_def)
    have unfold: "set_intersection_forward lt xs ys st =
        (if fst mid < length xs then set_intersection_forward lt xs ys (inter_half2 lt xs ys mid)
         else \<lparr>in1 = [], in2 = [], out = fst (snd (snd mid))\<rparr>)"
      using True by (simp add: st set_intersection_forward.simps mid_def Let_def)
    show ?thesis
    proof (cases "fst mid < length xs")
      case in_range: True
      have "inter_left xs ys (inter_half2 lt xs ys mid) < inter_left xs ys st"
        using inter_progress [of lt xs ys f1 f2 res prev] True in_range by (cases mid) (simp only: st mid_def [symmetric] fst_conv, metis mid_def st)
      with less.hyps inter_half2_step [OF assms(2) mid(1) in_range] mid(2) in_range show ?thesis
        unfolding unfold by simp
    next
      case False
      with mid show ?thesis unfolding unfold by (auto simp: inter_rest_def inter_mid_def split: prod.splits)
    qed
  qed
qed

lemma set_intersection_eq_input:
  assumes "sorted_by lt xs" and "sorted_by lt ys"
  shows "set_intersection lt xs ys res = out (set_intersection_input lt xs ys res)"
  using set_intersection_forward_rest [OF assms, of "(0, 0, res, False)"]
  by (simp add: set_intersection_def inter_inv_def inter_rest_def)

end

section \<open>What the outputs hold\<close>

lemmas set_op_singleton =
  merge_ranges_prefix [of _ _ _ "[z]" "[]" for z, simplified]
  set_union_prefix [of _ _ _ "[z]" "[]" for z, simplified]
  set_intersection_input_prefix [of _ _ _ "[z]" "[]" for z, simplified]
  set_difference_prefix [of _ _ _ "[z]" "[]" for z, simplified]
  set_symmetric_difference_prefix [of _ _ _ "[z]" "[]" for z, simplified]

lemma set_merge_ranges: "set (merge_ranges lt xs ys res) = set res \<union> set xs \<union> set ys"
  by (induction lt xs ys res rule: merge_ranges.induct) auto

lemma set_set_union: "set (out (set_union lt xs ys res)) \<subseteq> set res \<union> set xs \<union> set ys"
  by (induction lt xs ys res rule: set_union.induct) (auto split: if_splits)

lemma set_set_intersection_input: "set (out (set_intersection_input lt xs ys res)) \<subseteq> set res \<union> set xs"
  by (induction lt xs ys res rule: set_intersection_input.induct) (auto split: if_splits)

lemma set_set_difference: "set (snd (set_difference lt xs ys res)) \<subseteq> set res \<union> set xs"
  by (induction lt xs ys res rule: set_difference.induct) (auto split: if_splits)

lemma set_set_symmetric_difference: "set (out (set_symmetric_difference lt xs ys res)) \<subseteq> set res \<union> set xs \<union> set ys"
  by (induction lt xs ys res rule: set_symmetric_difference.induct) (auto split: if_splits)

lemma two_lists_induct [case_names Nil1 Nil2 Cons]:
  assumes "\<And>ys. P [] ys" and "\<And>x xs. P (x # xs) []"
    and "\<And>x xs y ys. P (x # xs) ys \<Longrightarrow> P xs (y # ys) \<Longrightarrow> P xs ys \<Longrightarrow> P (x # xs) (y # ys)"
  shows "P xs ys"
proof (induction "length xs + length ys" arbitrary: xs ys rule: less_induct)
  case less
  then show ?case by (cases xs; cases ys) (auto intro!: assms)
qed

context strict_weak
begin

lemma class_below:
  assumes "sorted_by lt (x # xs)" and "lt y x" and "equivalent lt a y"
  shows "filter (equivalent lt a) (x # xs) = []"
  using occurrences_below [OF assms] by (simp add: occurrences_def)

lemma sorted_merge_ranges:
  "sorted_by lt xs \<Longrightarrow> sorted_by lt ys \<Longrightarrow> sorted_by lt (merge_ranges lt xs ys [])"
proof (induction xs ys rule: two_lists_induct)
  case (Cons x xs y ys)
  show ?case
  proof (cases "lt y x")
    case True
    with Cons sorted_by_below [of x xs y] asym show ?thesis by (auto simp: set_op_singleton set_merge_ranges)
  next
    case False
    with Cons sorted_by_below [of y ys x] show ?thesis by (auto simp: set_op_singleton set_merge_ranges)
  qed
qed simp_all

lemma merge_ranges_class:
  "sorted_by lt xs \<Longrightarrow> sorted_by lt ys \<Longrightarrow>
   filter (equivalent lt a) (merge_ranges lt xs ys []) = filter (equivalent lt a) xs @ filter (equivalent lt a) ys"
proof (induction xs ys rule: two_lists_induct)
  case (Cons x xs y ys)
  with class_below [of x xs y a] show ?case by (auto simp: set_op_singleton)
qed simp_all

lemma sorted_set_union:
  "sorted_by lt xs \<Longrightarrow> sorted_by lt ys \<Longrightarrow> sorted_by lt (out (set_union lt xs ys []))"
proof (induction xs ys rule: two_lists_induct)
  case (Cons x xs y ys)
  show ?case
  proof (cases "lt y x")
    case True
    then have "\<not> lt z y" if "z \<in> set (x # xs) \<union> set ys" for z
      using that Cons.prems sorted_by_below [of x xs y z] asym by auto
    with set_set_union [of lt "x # xs" ys "[]"] have "\<forall>z\<in>set (out (set_union lt (x # xs) ys [])). \<not> lt z y" by auto
    with True Cons show ?thesis by (simp add: set_op_singleton)
  next
    case False
    define zs where "zs = (if \<not> lt x y then ys else y # ys)"
    have zs: "set zs \<subseteq> set (y # ys)" "sorted_by lt zs" using Cons.prems by (auto simp: zs_def)
    have "\<not> lt z x" if "z \<in> set xs \<union> set zs" for z
      using that Cons.prems zs(1) sorted_by_below [of y ys x z] False by auto
    with set_set_union [of lt xs zs "[]"] have "\<forall>z\<in>set (out (set_union lt xs zs [])). \<not> lt z x" by auto
    moreover have "sorted_by lt (out (set_union lt xs zs []))" using Cons by (simp add: zs_def)
    ultimately show ?thesis using False by (simp add: set_op_singleton flip: zs_def)
  qed
qed simp_all

lemma set_union_class:
  "sorted_by lt xs \<Longrightarrow> sorted_by lt ys \<Longrightarrow>
   filter (equivalent lt a) (out (set_union lt xs ys [])) =
   filter (equivalent lt a) xs @ drop (occurrences lt a xs) (filter (equivalent lt a) ys)"
proof (induction xs ys rule: two_lists_induct)
  case (Cons x xs y ys)
  have eq: "\<not> lt y x \<Longrightarrow> \<not> lt x y \<Longrightarrow> equivalent lt a y = equivalent lt a x"
    by (rule equivalent_cong) (simp add: equivalent_def)
  from Cons class_below [of x xs y a] class_below [of y ys x a] eq show ?case
    by (auto simp: set_op_singleton occurrences_def)
qed (simp_all add: occurrences_def)

lemma sorted_set_intersection_input:
  "sorted_by lt xs \<Longrightarrow> sorted_by lt (out (set_intersection_input lt xs ys []))"
proof (induction xs ys rule: two_lists_induct)
  case (Cons x xs y ys)
  with set_set_intersection_input [of lt xs ys "[]"] show ?case by (auto simp: set_op_singleton)
qed simp_all

lemma set_intersection_input_class:
  "sorted_by lt xs \<Longrightarrow> sorted_by lt ys \<Longrightarrow>
   filter (equivalent lt a) (out (set_intersection_input lt xs ys [])) = take (occurrences lt a ys) (filter (equivalent lt a) xs)"
proof (induction xs ys rule: two_lists_induct)
  case (Cons x xs y ys)
  have eq: "\<not> lt y x \<Longrightarrow> \<not> lt x y \<Longrightarrow> equivalent lt a y = equivalent lt a x"
    by (rule equivalent_cong) (simp add: equivalent_def)
  from Cons class_below [of x xs y a] class_below [of y ys x a] eq asym [of x y] show ?case
    by (auto simp: set_op_singleton occurrences_def)
qed (simp_all add: occurrences_def)

lemma sorted_set_difference:
  "sorted_by lt xs \<Longrightarrow> sorted_by lt (snd (set_difference lt xs ys []))"
proof (induction xs ys rule: two_lists_induct)
  case (Cons x xs y ys)
  with set_set_difference [of lt xs "y # ys" "[]"] show ?case by (auto simp: set_op_singleton)
qed simp_all

lemma set_difference_class:
  "sorted_by lt xs \<Longrightarrow> sorted_by lt ys \<Longrightarrow>
   filter (equivalent lt a) (snd (set_difference lt xs ys [])) = drop (occurrences lt a ys) (filter (equivalent lt a) xs)"
proof (induction xs ys rule: two_lists_induct)
  case (Cons x xs y ys)
  have eq: "\<not> lt y x \<Longrightarrow> \<not> lt x y \<Longrightarrow> equivalent lt a y = equivalent lt a x"
    by (rule equivalent_cong) (simp add: equivalent_def)
  from Cons class_below [of x xs y a] class_below [of y ys x a] eq asym [of x y] show ?case
    by (auto simp: set_op_singleton occurrences_def)
qed (simp_all add: occurrences_def)

lemma sorted_set_symmetric_difference:
  "sorted_by lt xs \<Longrightarrow> sorted_by lt ys \<Longrightarrow> sorted_by lt (out (set_symmetric_difference lt xs ys []))"
proof (induction xs ys rule: two_lists_induct)
  case (Cons x xs y ys)
  have "\<not> lt z x" if "lt x y" "z \<in> set xs \<union> set (y # ys)" for z
    using that Cons.prems sorted_by_below [of y ys x z] asym by auto
  with set_set_symmetric_difference [of lt xs "y # ys" "[]"]
  have first: "lt x y \<Longrightarrow> \<forall>z\<in>set (out (set_symmetric_difference lt xs (y # ys) [])). \<not> lt z x" by auto
  have "\<not> lt z y" if "lt y x" "z \<in> set (x # xs) \<union> set ys" for z
    using that Cons.prems sorted_by_below [of x xs y z] asym by auto
  with set_set_symmetric_difference [of lt "x # xs" ys "[]"]
  have "lt y x \<Longrightarrow> \<forall>z\<in>set (out (set_symmetric_difference lt (x # xs) ys [])). \<not> lt z y" by auto
  with first Cons show ?case by (simp add: set_op_singleton)
qed simp_all

lemma set_symmetric_difference_class:
  "sorted_by lt xs \<Longrightarrow> sorted_by lt ys \<Longrightarrow>
   filter (equivalent lt a) (out (set_symmetric_difference lt xs ys [])) =
   drop (occurrences lt a ys) (filter (equivalent lt a) xs) @ drop (occurrences lt a xs) (filter (equivalent lt a) ys)"
proof (induction xs ys rule: two_lists_induct)
  case (Cons x xs y ys)
  have eq: "\<not> lt y x \<Longrightarrow> \<not> lt x y \<Longrightarrow> equivalent lt a y = equivalent lt a x"
    by (rule equivalent_cong) (simp add: equivalent_def)
  from Cons class_below [of x xs y a] class_below [of y ys x a] eq asym [of x y] show ?case
    by (auto simp: set_op_singleton occurrences_def)
qed (simp_all add: occurrences_def)

lemma includes_range_iff:
  "sorted_by lt xs \<Longrightarrow> sorted_by lt ys \<Longrightarrow>
   includes_range lt (\<lambda>x. x) (\<lambda>x. x) xs ys \<longleftrightarrow> (\<forall>a. occurrences lt a ys \<le> occurrences lt a xs)"
proof (induction xs ys rule: two_lists_induct)
  case (Nil1 ys)
  show ?case by (cases ys) (auto intro!: exI [of _ "hd ys"])
next
  case (Cons x xs y ys)
  consider "lt y x" | "lt x y" "\<not> lt y x" | "\<not> lt x y" "\<not> lt y x" by blast
  then show ?case
  proof cases
    case 1
    then have "occurrences lt y (x # xs) = 0" using occurrences_below [OF Cons.prems(1)] by simp
    with 1 show ?thesis by (auto intro!: exI [of _ y])
  next
    case 2
    then have "equivalent lt a x \<Longrightarrow> occurrences lt a (y # ys) = 0" for a using occurrences_below [OF Cons.prems(2)] by simp
    then have "occurrences lt a (y # ys) \<le> occurrences lt a (x # xs) \<longleftrightarrow> occurrences lt a (y # ys) \<le> occurrences lt a xs" for a
      by (cases "equivalent lt a x") (simp_all del: occurrences_simps(2) add: occurrences_simps(2) [of lt a x xs])
    moreover have "includes_range lt (\<lambda>x. x) (\<lambda>x. x) xs (y # ys) \<longleftrightarrow> (\<forall>a. occurrences lt a (y # ys) \<le> occurrences lt a xs)"
      using Cons by simp
    ultimately show ?thesis using 2 by (simp del: occurrences_simps(2))
  next
    case 3
    then have "equivalent lt a y = equivalent lt a x" for a by (intro equivalent_cong) (simp add: equivalent_def)
    with 3 Cons show ?thesis by simp
  qed
qed simp

end

section \<open>Properties\<close>

text \<open>
  merge of two sorted ranges is sorted and stable: the elements of each equivalence class
  are those of the first range in their order followed by those of the second.
\<close>

theorem merge_sorted_stable:
  assumes "strict_weak lt" and "sorted_by lt xs" and "sorted_by lt ys"
  shows "merge_ranges lt xs ys res = res @ merge_ranges lt xs ys [] \<and>
    sorted_by lt (merge_ranges lt xs ys []) \<and>
    filter (equivalent lt a) (merge_ranges lt xs ys []) = filter (equivalent lt a) xs @ filter (equivalent lt a) ys"
  using strict_weak.sorted_merge_ranges [OF assms] strict_weak.merge_ranges_class [OF assms]
    merge_ranges_prefix [of lt xs ys res "[]"] by simp

theorem merge_sorted_stable_witness:
  "merge_ranges (\<lambda>x y. x div 10 < y div 10) [10, 25, 30] [12, 20::int] [] = [10, 12, 25, 20, 30] \<and>
   filter (equivalent (\<lambda>x y. x div 10 < y div 10) 22) (merge_ranges (\<lambda>x y. x div 10 < y div 10) [10, 25, 30] [12, 20::int] []) = [25, 20]"
proof -
  have sw: "strict_weak (\<lambda>x y. x div 10 < y div (10::int))" by unfold_locales auto
  show ?thesis using merge_sorted_stable [OF sw, of "[10, 25, 30]" "[12, 20]" "[]" 22] by (simp add: equivalent_def)
qed

text \<open>
  C34. set_intersection of sorted ranges, which advances both ranges by one-sided binary
  searches, writes what the single-pass algorithm writes: a sorted sequence that has, of
  each equivalence class with m elements in the first and n in the second range, the
  first min m n elements of the first range. Its loop terminates on every input.
\<close>

theorem set_intersection_correct:
  assumes "strict_weak lt" and "sorted_by lt xs" and "sorted_by lt ys"
  shows "set_intersection lt xs ys res = out (set_intersection_input lt xs ys res) \<and>
    sorted_by lt (set_intersection lt xs ys []) \<and>
    filter (equivalent lt a) (set_intersection lt xs ys []) = take (occurrences lt a ys) (filter (equivalent lt a) xs)"
  using strict_weak.set_intersection_eq_input [OF assms] strict_weak.sorted_set_intersection_input [OF assms(1,2), of ys]
    strict_weak.set_intersection_input_class [OF assms] by simp

theorem set_intersection_correct_witness:
  "set_intersection cxx_less [1, 2, 2, 2, 5, 8, 9] [2, 2, 3, 8, 10::int] [] = [2, 2, 8]"
  using set_intersection_correct [OF less.strict_weak_axioms, of "[1, 2, 2, 2, 5, 8, 9]" "[2, 2, 3, 8, 10::int]" "[]"]
  by (simp add: cxx_less_def)

text \<open>
  C35. set_union, set_difference and set_symmetric_difference of sorted ranges are sorted and
  hold, of each equivalence class with m elements in the first and n in the second range,
  exactly the elements the standard says: all m of the first then the last n - m of the
  second; the last m - n of the first; the last m - n of the first or the last n - m of the
  second. includes holds exactly when no class has more elements in the second range.
\<close>

theorem set_operations_correct:
  assumes "strict_weak lt" and "sorted_by lt xs" and "sorted_by lt ys"
  shows "sorted_by lt (out (set_union lt xs ys [])) \<and> sorted_by lt (snd (set_difference lt xs ys [])) \<and>
    sorted_by lt (out (set_symmetric_difference lt xs ys [])) \<and>
    filter (equivalent lt a) (out (set_union lt xs ys [])) =
      filter (equivalent lt a) xs @ drop (occurrences lt a xs) (filter (equivalent lt a) ys) \<and>
    filter (equivalent lt a) (snd (set_difference lt xs ys [])) = drop (occurrences lt a ys) (filter (equivalent lt a) xs) \<and>
    filter (equivalent lt a) (out (set_symmetric_difference lt xs ys [])) =
      drop (occurrences lt a ys) (filter (equivalent lt a) xs) @ drop (occurrences lt a xs) (filter (equivalent lt a) ys) \<and>
    (includes_range lt (\<lambda>x. x) (\<lambda>x. x) xs ys \<longleftrightarrow> (\<forall>a. occurrences lt a ys \<le> occurrences lt a xs))"
  by (intro conjI strict_weak.sorted_set_union [OF assms] strict_weak.sorted_set_difference [OF assms(1,2)]
      strict_weak.sorted_set_symmetric_difference [OF assms] strict_weak.set_union_class [OF assms]
      strict_weak.set_difference_class [OF assms] strict_weak.set_symmetric_difference_class [OF assms]
      strict_weak.includes_range_iff [OF assms])

theorem set_operations_correct_witness:
  "filter (equivalent cxx_less (2::int)) (out (set_union cxx_less [1, 2, 2, 5] [2, 2, 2, 7] [])) = [2, 2, 2]"
  using set_operations_correct [OF less.strict_weak_axioms, of "[1, 2, 2, 5]" "[2, 2, 2, 7::int]" 2]
  by (simp add: cxx_less_def equivalent_def)

end
