(* ===== verification/CxxSearch.thy ===== *)
theory CxxSearch
  imports CxxRanges
begin

text \<open>
  The sequence searches and comparisons of include/linux/c++/v1/__algorithm that need no
  order: find_if.h, find_if_not.h, adjacent_find.h, find_first_of.h, count_if.h, all_of.h,
  any_of.h, none_of.h, search.h, search_n.h, find_end.h, mismatch.h (with its vectorized
  form and simd_utils.h), equal.h, lexicographical_compare.h,
  lexicographical_compare_three_way.h and is_permutation.h.

  A forward iterator into a range is the rest of the range from it on, so an iterator
  returned at the end is []. The random-access versions use indices.
\<close>

section \<open>Linear scans\<close>

fun find_if :: "('a \<Rightarrow> bool) \<Rightarrow> 'a list \<Rightarrow> 'a list" where
  "find_if pred [] = []"
| "find_if pred (x # xs) = (if pred x then x # xs else find_if pred xs)"

fun find_if_not :: "('a \<Rightarrow> bool) \<Rightarrow> 'a list \<Rightarrow> 'a list" where
  "find_if_not pred [] = []"
| "find_if_not pred (x # xs) = (if \<not> pred x then x # xs else find_if_not pred xs)"

fun cxx_all_of :: "('k \<Rightarrow> bool) \<Rightarrow> ('a \<Rightarrow> 'k) \<Rightarrow> 'a list \<Rightarrow> bool" where
  "cxx_all_of pred proj [] = True"
| "cxx_all_of pred proj (x # xs) = (if \<not> pred (proj x) then False else cxx_all_of pred proj xs)"

fun cxx_any_of :: "('k \<Rightarrow> bool) \<Rightarrow> ('a \<Rightarrow> 'k) \<Rightarrow> 'a list \<Rightarrow> bool" where
  "cxx_any_of pred proj [] = False"
| "cxx_any_of pred proj (x # xs) = (if pred (proj x) then True else cxx_any_of pred proj xs)"

fun cxx_none_of :: "('a \<Rightarrow> bool) \<Rightarrow> 'a list \<Rightarrow> bool" where
  "cxx_none_of pred [] = True"
| "cxx_none_of pred (x # xs) = (if pred x then False else cxx_none_of pred xs)"

fun count_if_loop :: "('k \<Rightarrow> bool) \<Rightarrow> ('a \<Rightarrow> 'k) \<Rightarrow> 'a list \<Rightarrow> nat \<Rightarrow> nat" where
  "count_if_loop pred proj [] counter = counter"
| "count_if_loop pred proj (x # xs) counter =
     count_if_loop pred proj xs (if pred (proj x) then counter + 1 else counter)"

definition count_if :: "('k \<Rightarrow> bool) \<Rightarrow> ('a \<Rightarrow> 'k) \<Rightarrow> 'a list \<Rightarrow> nat" where
  "count_if pred proj xs = count_if_loop pred proj xs 0"

fun adjacent_find :: "('k \<Rightarrow> 'k \<Rightarrow> bool) \<Rightarrow> ('a \<Rightarrow> 'k) \<Rightarrow> 'a list \<Rightarrow> 'a list" where
  "adjacent_find pred proj (x # y # xs) =
     (if pred (proj x) (proj y) then x # y # xs else adjacent_find pred proj (y # xs))"
| "adjacent_find pred proj xs = []"

fun find_first_of_ce :: "('a \<Rightarrow> 'b \<Rightarrow> bool) \<Rightarrow> 'a list \<Rightarrow> 'b list \<Rightarrow> 'a list" where
  "find_first_of_ce pred [] ys = []"
| "find_first_of_ce pred (x # xs) ys =
     (if cxx_any_of (pred x) (\<lambda>y. y) ys then x # xs else find_first_of_ce pred xs ys)"

section \<open>Subsequence searches\<close>

text \<open>
  The inner loop of the searches, from the elements after the first match on: the pattern is
  exhausted (with the position after the match), the source is exhausted, or an element
  differs.
\<close>

datatype 'a search_end = Found "'a list" | Exhausted | Mismatch

fun search_match :: "('k \<Rightarrow> 'l \<Rightarrow> bool) \<Rightarrow> ('a \<Rightarrow> 'k) \<Rightarrow> ('b \<Rightarrow> 'l) \<Rightarrow> 'a list \<Rightarrow> 'b list \<Rightarrow> 'a search_end" where
  "search_match pred p1 p2 m1 [] = Found m1"
| "search_match pred p1 p2 [] (y # ys) = Exhausted"
| "search_match pred p1 p2 (x # xs) (y # ys) =
     (if \<not> pred (p1 x) (p2 y) then Mismatch else search_match pred p1 p2 xs ys)"

fun search_forward_impl ::
  "('k \<Rightarrow> 'l \<Rightarrow> bool) \<Rightarrow> ('a \<Rightarrow> 'k) \<Rightarrow> ('b \<Rightarrow> 'l) \<Rightarrow> 'a list \<Rightarrow> 'b list \<Rightarrow> 'a list \<times> 'a list" where
  "search_forward_impl pred p1 p2 xs [] = (xs, xs)"
| "search_forward_impl pred p1 p2 [] (y # ys) = ([], [])"
| "search_forward_impl pred p1 p2 (x # xs) (y # ys) =
     (if pred (p1 x) (p2 y)
      then case search_match pred p1 p2 xs ys of
             Found m1 \<Rightarrow> (x # xs, m1)
           | Exhausted \<Rightarrow> ([], [])
           | Mismatch \<Rightarrow> search_forward_impl pred p1 p2 xs (y # ys)
      else search_forward_impl pred p1 p2 xs (y # ys))"

text \<open>The random-access search; m1 and m2 are the positions last compared.\<close>

function search_ra_match ::
  "('k \<Rightarrow> 'l \<Rightarrow> bool) \<Rightarrow> ('a \<Rightarrow> 'k) \<Rightarrow> ('b \<Rightarrow> 'l) \<Rightarrow> 'a list \<Rightarrow> 'b list \<Rightarrow> nat \<Rightarrow> nat \<Rightarrow> bool" where
  "search_ra_match pred p1 p2 xs ys m1 m2 =
     (if length ys \<le> m2 + 1 then True
      else if \<not> pred (p1 (xs ! (m1 + 1))) (p2 (ys ! (m2 + 1))) then False
      else search_ra_match pred p1 p2 xs ys (m1 + 1) (m2 + 1))"
  by pat_completeness auto
termination
  by (relation "measure (\<lambda>(pred, p1, p2, xs, ys, m1, m2). length ys - m2)") auto

function search_random_access_impl ::
  "('k \<Rightarrow> 'l \<Rightarrow> bool) \<Rightarrow> ('a \<Rightarrow> 'k) \<Rightarrow> ('b \<Rightarrow> 'l) \<Rightarrow> 'a list \<Rightarrow> 'b list \<Rightarrow> nat \<Rightarrow> nat \<Rightarrow> nat \<times> nat" where
  "search_random_access_impl pred p1 p2 xs ys s first1 =
     (if s \<le> first1 then (length xs, length xs)
      else if pred (p1 (xs ! first1)) (p2 (ys ! 0)) \<and> search_ra_match pred p1 p2 xs ys first1 0
      then (first1, first1 + length ys)
      else search_random_access_impl pred p1 p2 xs ys s (first1 + 1))"
  by pat_completeness auto
termination
  by (relation "measure (\<lambda>(pred, p1, p2, xs, ys, s, first1). s - first1)") auto

definition search_impl_ra ::
  "('k \<Rightarrow> 'l \<Rightarrow> bool) \<Rightarrow> ('a \<Rightarrow> 'k) \<Rightarrow> ('b \<Rightarrow> 'l) \<Rightarrow> 'a list \<Rightarrow> 'b list \<Rightarrow> nat \<times> nat" where
  "search_impl_ra pred p1 p2 xs ys =
     (let size2 = length ys; size1 = length xs
      in if size2 = 0 then (0, 0)
         else if size1 < size2 then (length xs, length xs)
         else search_random_access_impl pred p1 p2 xs ys (size1 - (size2 - 1)) 0)"

definition cxx_search :: "('a \<Rightarrow> 'b \<Rightarrow> bool) \<Rightarrow> 'a list \<Rightarrow> 'b list \<Rightarrow> nat" where
  "cxx_search pred xs ys = fst (search_impl_ra pred (\<lambda>x. x) (\<lambda>y. y) xs ys)"

text \<open>find_end keeps the last match found so far; (match_first, match_last) starts at the end.\<close>

fun find_end_loop ::
  "('k \<Rightarrow> 'l \<Rightarrow> bool) \<Rightarrow> ('a \<Rightarrow> 'k) \<Rightarrow> ('b \<Rightarrow> 'l) \<Rightarrow> 'a list \<Rightarrow> 'b list \<Rightarrow> 'a list \<times> 'a list \<Rightarrow> 'a list \<times> 'a list" where
  "find_end_loop pred p1 p2 [] ys found = found"
| "find_end_loop pred p1 p2 (x # xs) ys found =
     (if pred (p1 x) (p2 (hd ys))
      then case search_match pred p1 p2 xs (tl ys) of
             Found m1 \<Rightarrow> find_end_loop pred p1 p2 xs ys (x # xs, m1)
           | Exhausted \<Rightarrow> found
           | Mismatch \<Rightarrow> find_end_loop pred p1 p2 xs ys found
      else find_end_loop pred p1 p2 xs ys found)"

definition find_end_impl ::
  "('k \<Rightarrow> 'l \<Rightarrow> bool) \<Rightarrow> ('a \<Rightarrow> 'k) \<Rightarrow> ('b \<Rightarrow> 'l) \<Rightarrow> 'a list \<Rightarrow> 'b list \<Rightarrow> 'a list \<times> 'a list" where
  "find_end_impl pred p1 p2 xs ys = (if ys = [] then ([], []) else find_end_loop pred p1 p2 xs ys ([], []))"

definition find_end_classic :: "('a \<Rightarrow> 'b \<Rightarrow> bool) \<Rightarrow> 'a list \<Rightarrow> 'b list \<Rightarrow> 'a list" where
  "find_end_classic pred xs ys = fst (find_end_impl pred (\<lambda>x. x) (\<lambda>y. y) xs ys)"

text \<open>
  search_n: the inner loop on the elements after a match with c elements matched; a mismatch
  restarts after the element that differs.
\<close>

datatype 'a run_end = RunFound "'a list" | RunExhausted | RunBroken "'a list"

fun search_n_match :: "('k \<Rightarrow> 'v \<Rightarrow> bool) \<Rightarrow> ('a \<Rightarrow> 'k) \<Rightarrow> 'v \<Rightarrow> nat \<Rightarrow> 'a list \<Rightarrow> nat \<Rightarrow> 'a run_end" where
  "search_n_match pred proj v cnt [] c = (if c + 1 = cnt then RunFound [] else RunExhausted)"
| "search_n_match pred proj v cnt (m # ms) c =
     (if c + 1 = cnt then RunFound (m # ms)
      else if \<not> pred (proj m) v then RunBroken ms
      else search_n_match pred proj v cnt ms (c + 1))"

lemma search_n_match_shorter [termination_simp]:
  "search_n_match pred proj v cnt xs c = RunBroken ys \<Longrightarrow> length ys < length xs"
  by (induction pred proj v cnt xs c rule: search_n_match.induct) (auto split: if_splits)

fun search_n_loop :: "('k \<Rightarrow> 'v \<Rightarrow> bool) \<Rightarrow> ('a \<Rightarrow> 'k) \<Rightarrow> 'v \<Rightarrow> nat \<Rightarrow> 'a list \<Rightarrow> 'a list \<times> 'a list" where
  "search_n_loop pred proj v cnt [] = ([], [])"
| "search_n_loop pred proj v cnt (x # xs) =
     (if pred (proj x) v
      then case search_n_match pred proj v cnt xs 0 of
             RunFound m \<Rightarrow> (x # xs, m)
           | RunExhausted \<Rightarrow> ([], [])
           | RunBroken rest \<Rightarrow> search_n_loop pred proj v cnt rest
      else search_n_loop pred proj v cnt xs)"

definition search_n_forward_impl :: "('k \<Rightarrow> 'v \<Rightarrow> bool) \<Rightarrow> ('a \<Rightarrow> 'k) \<Rightarrow> 'v \<Rightarrow> nat \<Rightarrow> 'a list \<Rightarrow> 'a list \<times> 'a list" where
  "search_n_forward_impl pred proj v cnt xs = (if cnt \<le> 0 then (xs, xs) else search_n_loop pred proj v cnt xs)"

section \<open>Comparisons of two ranges\<close>

fun mismatch_loop :: "('k \<Rightarrow> 'l \<Rightarrow> bool) \<Rightarrow> ('a \<Rightarrow> 'k) \<Rightarrow> ('b \<Rightarrow> 'l) \<Rightarrow> 'a list \<Rightarrow> 'b list \<Rightarrow> nat \<Rightarrow> nat" where
  "mismatch_loop pred p1 p2 (x # xs) (y # ys) i =
     (if \<not> pred (p1 x) (p2 y) then i else mismatch_loop pred p1 p2 xs ys (i + 1))"
| "mismatch_loop pred p1 p2 xs ys i = i"

text \<open>
  The vectorized mismatch of integers. A vector is the list of its lanes; vec_size and the
  unroll count are the native ones. The result is the common offset of the two iterators
  from the starts of their ranges.
\<close>

definition load_vector :: "nat \<Rightarrow> 'a list \<Rightarrow> nat \<Rightarrow> 'a list" where
  "load_vector vec_size xs i = map (\<lambda>k. xs ! (i + k)) [0..<vec_size]"

definition vector_eq :: "'a list \<Rightarrow> 'a list \<Rightarrow> bool list" where
  "vector_eq v w = map2 (=) v w"

definition vector_all_of :: "bool list \<Rightarrow> bool" where
  "vector_all_of v = fold (\<and>) v True"

definition find_first_set :: "bool list \<Rightarrow> nat" where
  "find_first_set v = length (takeWhile Not v)"

definition find_first_not_set :: "bool list \<Rightarrow> nat" where
  "find_first_not_set v = find_first_set (map Not v)"

text \<open>The comparison of the unrolled vectors: the offset of the first lane that differs.\<close>

function mismatch_unrolled :: "nat \<Rightarrow> nat \<Rightarrow> 'a list \<Rightarrow> 'a list \<Rightarrow> nat \<Rightarrow> nat \<Rightarrow> nat option" where
  "mismatch_unrolled n vec_size xs ys first i =
     (if n \<le> i then None
      else let cmp_res = vector_eq (load_vector vec_size xs (first + i * vec_size)) (load_vector vec_size ys (first + i * vec_size))
           in if \<not> vector_all_of cmp_res then Some (i * vec_size + find_first_not_set cmp_res)
              else mismatch_unrolled n vec_size xs ys first (i + 1))"
  by pat_completeness auto
termination
  by (relation "measure (\<lambda>(n, vec_size, xs, ys, first, i). n - i)") auto

text \<open>
  A loop over blocks of n vectors: the position reached, or the result. Both n and the
  vector size are positive constants.
\<close>

function mismatch_blocks :: "nat \<Rightarrow> nat \<Rightarrow> 'a list \<Rightarrow> 'a list \<Rightarrow> nat \<Rightarrow> nat + nat" where
  "mismatch_blocks n vec_size xs ys first =
     (if n * vec_size \<le> length xs - first \<and> 0 < n * vec_size
      then case mismatch_unrolled n vec_size xs ys first 0 of
             Some offset \<Rightarrow> Inr (first + offset)
           | None \<Rightarrow> mismatch_blocks n vec_size xs ys (first + n * vec_size)
      else Inl first)"
  by pat_completeness auto
termination
  by (relation "measure (\<lambda>(n, vec_size, xs, ys, first). length xs - first)")
    (auto simp del: nat_0_less_mult_iff mismatch_unrolled.simps)

definition mismatch_vectorized :: "nat \<Rightarrow> 'a list \<Rightarrow> 'a list \<Rightarrow> nat" where
  "mismatch_vectorized vec_size xs ys =
     (case mismatch_blocks 4 vec_size xs ys 0 of
        Inr r \<Rightarrow> r
      | Inl first \<Rightarrow>
     (case mismatch_blocks 1 vec_size xs ys first of
        Inr r \<Rightarrow> r
      | Inl first \<Rightarrow>
         if length xs - first = 0 then first
         else if vec_size \<le> first
         then let first = length xs - vec_size
              in first + find_first_not_set (vector_eq (load_vector vec_size xs first) (load_vector vec_size ys first))
         else mismatch_loop (=) (\<lambda>x. x) (\<lambda>y. y) (drop first xs) (drop first ys) first))"

definition mismatch_pointers :: "nat \<Rightarrow> 'a list \<Rightarrow> 'a list \<Rightarrow> nat" where
  "mismatch_pointers vec_size xs ys =
     (let len = min (length xs) (length ys) in mismatch_vectorized vec_size (take len xs) ys)"

fun equal_impl :: "('k \<Rightarrow> 'l \<Rightarrow> bool) \<Rightarrow> ('a \<Rightarrow> 'k) \<Rightarrow> ('b \<Rightarrow> 'l) \<Rightarrow> 'a list \<Rightarrow> 'b list \<Rightarrow> bool" where
  "equal_impl pred p1 p2 (x # xs) (y # ys) = (if \<not> pred (p1 x) (p2 y) then False else equal_impl pred p1 p2 xs ys)"
| "equal_impl pred p1 p2 xs ys \<longleftrightarrow> xs = [] \<and> ys = []"

definition cxx_equal :: "bool \<Rightarrow> ('a \<Rightarrow> 'b \<Rightarrow> bool) \<Rightarrow> 'a list \<Rightarrow> 'b list \<Rightarrow> bool" where
  "cxx_equal random_access pred xs ys =
     (if random_access \<and> length xs \<noteq> length ys then False else equal_impl pred (\<lambda>x. x) (\<lambda>y. y) xs ys)"

fun lexicographical_compare_impl :: "('k \<Rightarrow> 'k \<Rightarrow> bool) \<Rightarrow> ('a \<Rightarrow> 'k) \<Rightarrow> ('b \<Rightarrow> 'k) \<Rightarrow> 'a list \<Rightarrow> 'b list \<Rightarrow> bool" where
  "lexicographical_compare_impl cmp p1 p2 xs [] = False"
| "lexicographical_compare_impl cmp p1 p2 [] (y # ys) = True"
| "lexicographical_compare_impl cmp p1 p2 (x # xs) (y # ys) =
     (if cmp (p1 x) (p2 y) then True
      else if cmp (p2 y) (p1 x) then False
      else lexicographical_compare_impl cmp p1 p2 xs ys)"

text \<open>The overload for totally ordered integers goes through mismatch.\<close>

definition lexicographical_compare_total :: "nat \<Rightarrow> 'a::linorder list \<Rightarrow> 'a list \<Rightarrow> bool" where
  "lexicographical_compare_total vec_size xs ys =
     (let res = mismatch_pointers vec_size xs ys
      in if res = length ys then False
         else if res = length xs then True
         else xs ! res < ys ! res)"

fun lexicographical_compare_three_way_slow ::
  "('a \<Rightarrow> 'b \<Rightarrow> strong_ordering) \<Rightarrow> 'a list \<Rightarrow> 'b list \<Rightarrow> strong_ordering" where
  "lexicographical_compare_three_way_slow cmp (x # xs) (y # ys) =
     (if cmp x y \<noteq> SO_equal then cmp x y else lexicographical_compare_three_way_slow cmp xs ys)"
| "lexicographical_compare_three_way_slow cmp xs ys =
     (if xs \<noteq> [] then SO_greater else if ys \<noteq> [] then SO_less else SO_equal)"

definition compare_nat :: "nat \<Rightarrow> nat \<Rightarrow> strong_ordering" where
  "compare_nat a b = (if a < b then SO_less else if a = b then SO_equal else SO_greater)"

fun three_way_fast_loop ::
  "('a \<Rightarrow> 'b \<Rightarrow> strong_ordering) \<Rightarrow> nat \<Rightarrow> 'a list \<Rightarrow> 'b list \<Rightarrow> strong_ordering option" where
  "three_way_fast_loop cmp 0 xs ys = None"
| "three_way_fast_loop cmp (Suc n) xs ys =
     (let c = cmp (hd xs) (hd ys) in if c \<noteq> SO_equal then Some c else three_way_fast_loop cmp n (tl xs) (tl ys))"

definition lexicographical_compare_three_way_fast ::
  "('a \<Rightarrow> 'b \<Rightarrow> strong_ordering) \<Rightarrow> 'a list \<Rightarrow> 'b list \<Rightarrow> strong_ordering" where
  "lexicographical_compare_three_way_fast cmp xs ys =
     (let len1 = length xs; len2 = length ys; min_len = min len1 len2
      in case three_way_fast_loop cmp min_len xs ys of Some c \<Rightarrow> c | None \<Rightarrow> compare_nat len1 len2)"

section \<open>Permutations\<close>

text \<open>
  The counting loop; seen is [first1, i), from which the code looks for an element that was
  counted before.
\<close>

fun is_permutation_loop ::
  "('k \<Rightarrow> 'k \<Rightarrow> bool) \<Rightarrow> ('a \<Rightarrow> 'k) \<Rightarrow> ('b \<Rightarrow> 'k) \<Rightarrow> 'a list \<Rightarrow> 'a list \<Rightarrow> 'b list \<Rightarrow> bool" where
  "is_permutation_loop pred p1 p2 seen [] ys = True"
| "is_permutation_loop pred p1 p2 seen (x # xs) ys =
     (if cxx_any_of (\<lambda>m. pred m (p1 x)) p1 seen then is_permutation_loop pred p1 p2 (seen @ [x]) xs ys
      else let c2 = count_if (pred (p1 x)) p2 ys
           in if c2 = 0 then False
              else if count_if_loop (pred (p1 x)) p1 xs 1 \<noteq> c2 then False
              else is_permutation_loop pred p1 p2 (seen @ [x]) xs ys)"

definition is_permutation_impl ::
  "('k \<Rightarrow> 'k \<Rightarrow> bool) \<Rightarrow> ('a \<Rightarrow> 'k) \<Rightarrow> ('b \<Rightarrow> 'k) \<Rightarrow> 'a list \<Rightarrow> 'b list \<Rightarrow> bool" where
  "is_permutation_impl pred p1 p2 xs ys = is_permutation_loop pred p1 p2 [] xs ys"

text \<open>The overload with two ends, after the equal prefix is dropped.\<close>

fun is_permutation_prefix ::
  "('k \<Rightarrow> 'k \<Rightarrow> bool) \<Rightarrow> ('a \<Rightarrow> 'k) \<Rightarrow> ('b \<Rightarrow> 'k) \<Rightarrow> 'a list \<Rightarrow> 'b list \<Rightarrow> bool" where
  "is_permutation_prefix pred p1 p2 [] ys \<longleftrightarrow> ys = []"
| "is_permutation_prefix pred p1 p2 (x # xs) [] = False"
| "is_permutation_prefix pred p1 p2 (x # xs) (y # ys) =
     (if pred (p1 x) (p2 y) then is_permutation_prefix pred p1 p2 xs ys
      else if length (x # xs) \<noteq> length (y # ys) then False
      else is_permutation_impl pred p1 p2 (x # xs) (y # ys))"

definition is_permutation_range ::
  "bool \<Rightarrow> ('k \<Rightarrow> 'k \<Rightarrow> bool) \<Rightarrow> ('a \<Rightarrow> 'k) \<Rightarrow> ('b \<Rightarrow> 'k) \<Rightarrow> 'a list \<Rightarrow> 'b list \<Rightarrow> bool" where
  "is_permutation_range const_time_distance pred p1 p2 xs ys =
     (if const_time_distance \<and> length xs \<noteq> length ys then False else is_permutation_prefix pred p1 p2 xs ys)"

definition cxx_is_permutation :: "'a list \<Rightarrow> 'a list \<Rightarrow> bool" where
  "cxx_is_permutation xs ys = is_permutation_range True cxx_equal_to (\<lambda>x. x) (\<lambda>y. y) xs ys"

declare search_ra_match.simps [simp del] search_random_access_impl.simps [simp del]
  mismatch_unrolled.simps [simp del] mismatch_blocks.simps [simp del]

section \<open>The scans\<close>

lemma find_if_dropWhile: "find_if pred xs = dropWhile (\<lambda>x. \<not> pred x) xs"
  by (induction xs) auto

lemma find_if_not_dropWhile: "find_if_not pred xs = dropWhile pred xs"
  by (induction xs) auto

lemma cxx_any_of_iff: "cxx_any_of pred proj xs \<longleftrightarrow> (\<exists>x\<in>set xs. pred (proj x))"
  by (induction xs) auto

lemma cxx_all_of_iff: "cxx_all_of pred proj xs \<longleftrightarrow> (\<forall>x\<in>set xs. pred (proj x))"
  by (induction xs) auto

lemma cxx_none_of_iff: "cxx_none_of pred xs \<longleftrightarrow> (\<forall>x\<in>set xs. \<not> pred x)"
  by (induction xs) auto

lemma count_if_loop_filter: "count_if_loop pred proj xs c = c + length (filter (\<lambda>x. pred (proj x)) xs)"
  by (induction xs arbitrary: c) auto

lemma count_if_filter: "count_if pred proj xs = length (filter (\<lambda>x. pred (proj x)) xs)"
  by (simp add: count_if_def count_if_loop_filter)

section \<open>Searches find the first or the last match\<close>

text \<open>The pattern ys matches at the start of xs.\<close>

definition matches :: "('k \<Rightarrow> 'l \<Rightarrow> bool) \<Rightarrow> ('a \<Rightarrow> 'k) \<Rightarrow> ('b \<Rightarrow> 'l) \<Rightarrow> 'a list \<Rightarrow> 'b list \<Rightarrow> bool" where
  "matches pred p1 p2 xs ys \<longleftrightarrow>
     length ys \<le> length xs \<and> (\<forall>i<length ys. pred (p1 (xs ! i)) (p2 (ys ! i)))"

lemma matches_simps [simp]:
  "matches pred p1 p2 xs []"
  "\<not> matches pred p1 p2 [] (y # ys)"
  "matches pred p1 p2 (x # xs) (y # ys) \<longleftrightarrow> pred (p1 x) (p2 y) \<and> matches pred p1 p2 xs ys"
  by (auto simp: matches_def less_Suc_eq_0_disj)

lemma matches_length: "matches pred p1 p2 xs ys \<Longrightarrow> length ys \<le> length xs"
  by (simp add: matches_def)

lemma search_match_outcome:
  "case search_match pred p1 p2 xs ys of
     Found m \<Rightarrow> matches pred p1 p2 xs ys \<and> m = drop (length ys) xs
   | Exhausted \<Rightarrow> length xs < length ys
   | Mismatch \<Rightarrow> \<not> matches pred p1 p2 xs ys"
  by (induction pred p1 p2 xs ys rule: search_match.induct) (auto split: search_end.splits)

text \<open>The first position at which the pattern matches, if there is one.\<close>

definition first_match :: "('k \<Rightarrow> 'l \<Rightarrow> bool) \<Rightarrow> ('a \<Rightarrow> 'k) \<Rightarrow> ('b \<Rightarrow> 'l) \<Rightarrow> 'a list \<Rightarrow> 'b list \<Rightarrow> nat \<Rightarrow> bool" where
  "first_match pred p1 p2 xs ys n \<longleftrightarrow>
     n \<le> length xs \<and> matches pred p1 p2 (drop n xs) ys \<and> (\<forall>m<n. \<not> matches pred p1 p2 (drop m xs) ys)"

definition no_match :: "('k \<Rightarrow> 'l \<Rightarrow> bool) \<Rightarrow> ('a \<Rightarrow> 'k) \<Rightarrow> ('b \<Rightarrow> 'l) \<Rightarrow> 'a list \<Rightarrow> 'b list \<Rightarrow> bool" where
  "no_match pred p1 p2 xs ys \<longleftrightarrow> (\<forall>m. \<not> matches pred p1 p2 (drop m xs) ys)"

lemma no_match_short: "length xs < length ys \<Longrightarrow> no_match pred p1 p2 xs ys"
  by (auto simp: no_match_def dest: matches_length)

lemma first_match_0: "matches pred p1 p2 xs ys \<Longrightarrow> first_match pred p1 p2 xs ys 0"
  by (simp add: first_match_def)

lemma first_match_Suc:
  "\<not> matches pred p1 p2 (x # xs) ys \<Longrightarrow> first_match pred p1 p2 (x # xs) ys (Suc n) \<longleftrightarrow> first_match pred p1 p2 xs ys n"
  by (auto simp: first_match_def less_Suc_eq_0_disj)

lemma no_match_Cons:
  "no_match pred p1 p2 (x # xs) ys \<longleftrightarrow> \<not> matches pred p1 p2 (x # xs) ys \<and> no_match pred p1 p2 xs ys"
  unfolding no_match_def by (metis drop0 drop_Suc_Cons not0_implies_Suc)

lemma search_forward_first:
  "(\<exists>n. first_match pred p1 p2 xs ys n \<and>
      search_forward_impl pred p1 p2 xs ys = (drop n xs, drop (n + length ys) xs)) \<or>
   no_match pred p1 p2 xs ys \<and> search_forward_impl pred p1 p2 xs ys = ([], [])"
proof (induction pred p1 p2 xs ys rule: search_forward_impl.induct)
  case (1 pred p1 p2 xs)
  show ?case by (intro disjI1 exI [of _ 0]) (simp add: first_match_0)
next
  case (2 pred p1 p2 y ys)
  show ?case by (simp add: no_match_def)
next
  case (3 pred p1 p2 x xs y ys)
  show ?case
  proof (cases "matches pred p1 p2 (x # xs) (y # ys)")
    case True
    with search_match_outcome [of pred p1 p2 xs ys] have "search_match pred p1 p2 xs ys = Found (drop (length ys) xs)"
      by (auto split: search_end.splits dest: matches_length)
    with True first_match_0 [OF True] show ?thesis by (intro disjI1 exI [of _ 0]) simp
  next
    case False
    have step: "search_forward_impl pred p1 p2 (x # xs) (y # ys) = search_forward_impl pred p1 p2 xs (y # ys) \<and>
        (search_match pred p1 p2 xs ys = Mismatch \<or> \<not> pred (p1 x) (p2 y)) \<or>
        length xs < length ys \<and> search_forward_impl pred p1 p2 (x # xs) (y # ys) = ([], [])"
      using search_match_outcome [of pred p1 p2 xs ys] False by (auto split: search_end.splits)
    then show ?thesis
    proof
      assume rec: "search_forward_impl pred p1 p2 (x # xs) (y # ys) = search_forward_impl pred p1 p2 xs (y # ys) \<and>
        (search_match pred p1 p2 xs ys = Mismatch \<or> \<not> pred (p1 x) (p2 y))"
      with 3 have "(\<exists>n. first_match pred p1 p2 xs (y # ys) n \<and>
          search_forward_impl pred p1 p2 xs (y # ys) = (drop n xs, drop (n + length (y # ys)) xs)) \<or>
        no_match pred p1 p2 xs (y # ys) \<and> search_forward_impl pred p1 p2 xs (y # ys) = ([], [])" by blast
      with rec False show ?thesis
        by (metis (no_types, lifting) add_Suc drop_Suc_Cons first_match_Suc no_match_Cons)
    qed (auto intro!: no_match_short)
  qed
qed

lemma search_ra_match_iff:
  "m2 < length ys \<Longrightarrow> search_ra_match pred p1 p2 xs ys (n + m2) m2 \<longleftrightarrow>
     (\<forall>i. m2 < i \<and> i < length ys \<longrightarrow> pred (p1 (xs ! (n + i))) (p2 (ys ! i)))"
proof (induction "length ys - m2" arbitrary: m2 rule: less_induct)
  case less
  show ?case
  proof (cases "length ys \<le> m2 + 1")
    case True
    then show ?thesis by (subst search_ra_match.simps) auto
  next
    case False
    then have "search_ra_match pred p1 p2 xs ys (n + m2) m2 \<longleftrightarrow> pred (p1 (xs ! (n + (m2 + 1)))) (p2 (ys ! (m2 + 1))) \<and>
        search_ra_match pred p1 p2 xs ys (n + (m2 + 1)) (m2 + 1)"
      by (subst search_ra_match.simps) (simp add: add.assoc)
    moreover have "length ys - (m2 + 1) < length ys - m2" "m2 + 1 < length ys" using False less.prems by auto
    note less.hyps [OF this]
    moreover have "m2 < i \<and> i < length ys \<longleftrightarrow> i = m2 + 1 \<or> m2 + 1 < i \<and> i < length ys" for i using False by auto
    ultimately show ?thesis by (metis (no_types, lifting))
  qed
qed

lemma search_random_access_first:
  assumes "ys \<noteq> []" and "length ys \<le> length xs"
  shows "(\<exists>n\<ge>first1. (\<forall>m. first1 \<le> m \<and> m < n \<longrightarrow> \<not> matches pred p1 p2 (drop m xs) ys) \<and> matches pred p1 p2 (drop n xs) ys \<and>
      n \<le> length xs \<and> search_random_access_impl pred p1 p2 xs ys (length xs - (length ys - 1)) first1 = (n, n + length ys)) \<or>
    (\<forall>m\<ge>first1. \<not> matches pred p1 p2 (drop m xs) ys) \<and>
      search_random_access_impl pred p1 p2 xs ys (length xs - (length ys - 1)) first1 = (length xs, length xs)"
proof (induction "length xs - first1" arbitrary: first1 rule: less_induct)
  case less
  let ?s = "length xs - (length ys - 1)"
  show ?case
  proof (cases "?s \<le> first1")
    case True
    have "0 < length ys" using assms(1) by simp
    then have "\<not> matches pred p1 p2 (drop m xs) ys" if "first1 \<le> m" for m
      using that True matches_length [of pred p1 p2 "drop m xs" ys] unfolding length_drop by linarith
    with True show ?thesis by (simp add: search_random_access_impl.simps)
  next
    case False
    have here: "matches pred p1 p2 (drop first1 xs) ys \<longleftrightarrow>
        pred (p1 (xs ! first1)) (p2 (ys ! 0)) \<and> search_ra_match pred p1 p2 xs ys first1 0"
      using False assms search_ra_match_iff [of 0 ys pred p1 p2 xs first1]
      by (auto simp: matches_def) (metis add.right_neutral gr0I)+
    show ?thesis
    proof (cases "matches pred p1 p2 (drop first1 xs) ys")
      case True
      with here False show ?thesis
        by (intro disjI1 exI [of _ first1]) (auto simp: search_random_access_impl.simps)
    next
      case no: False
      then have eq: "search_random_access_impl pred p1 p2 xs ys ?s first1 = search_random_access_impl pred p1 p2 xs ys ?s (first1 + 1)"
        using here False by (subst search_random_access_impl.simps) auto
      have "length xs - (first1 + 1) < length xs - first1" using False by linarith
      from less.hyps [OF this] consider
        (found) n where "first1 + 1 \<le> n" "\<And>m. first1 + 1 \<le> m \<and> m < n \<Longrightarrow> \<not> matches pred p1 p2 (drop m xs) ys"
          "matches pred p1 p2 (drop n xs) ys" "n \<le> length xs"
          "search_random_access_impl pred p1 p2 xs ys ?s (first1 + 1) = (n, n + length ys)"
      | (none) "\<And>m. first1 + 1 \<le> m \<Longrightarrow> \<not> matches pred p1 p2 (drop m xs) ys"
          "search_random_access_impl pred p1 p2 xs ys ?s (first1 + 1) = (length xs, length xs)"
        by blast
      then show ?thesis
      proof cases
        case found
        have "\<not> matches pred p1 p2 (drop m xs) ys" if "first1 \<le> m \<and> m < n" for m
          using that no found(2) [of m] by (cases "m = first1") auto
        with found eq show ?thesis by (intro disjI1 exI [of _ n]) simp
      next
        case none
        have "\<not> matches pred p1 p2 (drop m xs) ys" if "first1 \<le> m" for m
          using that no none(1) [of m] by (cases "m = first1") auto
        with none eq show ?thesis by simp
      qed
    qed
  qed
qed

lemma search_impl_ra_first:
  "(\<exists>n. first_match pred p1 p2 xs ys n \<and> search_impl_ra pred p1 p2 xs ys = (n, n + length ys)) \<or>
   no_match pred p1 p2 xs ys \<and> search_impl_ra pred p1 p2 xs ys = (length xs, length xs)"
proof (cases "ys = [] \<or> length xs < length ys")
  case True
  then show ?thesis
  proof (cases "ys = []")
    case True
    then show ?thesis by (simp add: search_impl_ra_def Let_def first_match_0)
  next
    case False
    with \<open>ys = [] \<or> length xs < length ys\<close> no_match_short show ?thesis by (auto simp: search_impl_ra_def Let_def)
  qed
next
  case False
  then have "ys \<noteq> []" "length ys \<le> length xs" by auto
  from search_random_access_first [OF this, of 0 pred p1 p2] False show ?thesis
    by (auto simp: search_impl_ra_def first_match_def no_match_def Let_def)
qed

lemma find_end_loop_last:
  assumes "ys \<noteq> []"
  shows "(\<exists>n. matches pred p1 p2 (drop n xs) ys \<and> (\<forall>m>n. \<not> matches pred p1 p2 (drop m xs) ys) \<and>
      find_end_loop pred p1 p2 xs ys found = (drop n xs, drop (n + length ys) xs)) \<or>
    no_match pred p1 p2 xs ys \<and> find_end_loop pred p1 p2 xs ys found = found"
proof (induction xs arbitrary: found)
  case Nil
  from assms show ?case by (cases ys) (simp_all add: no_match_def)
next
  case (Cons x xs)
  obtain y zs where ys: "ys = y # zs" using assms by (cases ys) auto
  have later: "(\<exists>n. matches pred p1 p2 (drop n xs) ys \<and> (\<forall>m>n. \<not> matches pred p1 p2 (drop m xs) ys) \<and>
      r = (drop n xs, drop (n + length ys) xs)) \<Longrightarrow>
    \<exists>n. matches pred p1 p2 (drop n (x # xs)) ys \<and> (\<forall>m>n. \<not> matches pred p1 p2 (drop m (x # xs)) ys) \<and>
      r = (drop n (x # xs), drop (n + length ys) (x # xs))" for r
    by (metis Suc_lessE Suc_less_eq add_Suc drop_Suc_Cons)
  show ?case
  proof (cases "matches pred p1 p2 (x # xs) ys")
    case True
    with search_match_outcome [of pred p1 p2 xs zs] have "search_match pred p1 p2 xs zs = Found (drop (length zs) xs)"
      by (auto simp: ys split: search_end.splits dest: matches_length)
    with True have loop: "find_end_loop pred p1 p2 (x # xs) ys found = find_end_loop pred p1 p2 xs ys (x # xs, drop (length ys) (x # xs))"
      by (simp add: ys)
    have here: "no_match pred p1 p2 xs ys \<Longrightarrow> \<forall>m>0. \<not> matches pred p1 p2 (drop m (x # xs)) ys"
      by (auto simp: no_match_def gr0_conv_Suc)
    from Cons [of "(x # xs, drop (length ys) (x # xs))"] show ?thesis
    proof
      assume "no_match pred p1 p2 xs ys \<and> find_end_loop pred p1 p2 xs ys (x # xs, drop (length ys) (x # xs)) = (x # xs, drop (length ys) (x # xs))"
      with True here show ?thesis unfolding loop by (intro disjI1 exI [of _ 0]) auto
    qed (unfold loop, blast intro: later)
  next
    case False
    then have "find_end_loop pred p1 p2 (x # xs) ys found = find_end_loop pred p1 p2 xs ys found \<or>
        length xs < length zs \<and> find_end_loop pred p1 p2 (x # xs) ys found = found"
      using search_match_outcome [of pred p1 p2 xs zs] by (auto simp: ys split: search_end.splits)
    then show ?thesis
    proof
      assume "length xs < length zs \<and> find_end_loop pred p1 p2 (x # xs) ys found = found"
      moreover from this have "no_match pred p1 p2 (x # xs) ys" by (intro no_match_short) (simp add: ys)
      ultimately show ?thesis by blast
    next
      assume eq: "find_end_loop pred p1 p2 (x # xs) ys found = find_end_loop pred p1 p2 xs ys found"
      from Cons [of found] show ?thesis unfolding eq
      proof
        assume "no_match pred p1 p2 xs ys \<and> find_end_loop pred p1 p2 xs ys found = found"
        with False show "(\<exists>n. matches pred p1 p2 (drop n (x # xs)) ys \<and> (\<forall>m>n. \<not> matches pred p1 p2 (drop m (x # xs)) ys) \<and>
            find_end_loop pred p1 p2 xs ys found = (drop n (x # xs), drop (n + length ys) (x # xs))) \<or>
          no_match pred p1 p2 (x # xs) ys \<and> find_end_loop pred p1 p2 xs ys found = found"
          by (simp add: no_match_Cons)
      qed (rule disjI1, rule later)
    qed
  qed
qed

lemma first_match_drop:
  assumes "\<And>m. m < k \<Longrightarrow> \<not> matches pred p1 p2 (drop m xs) ys" and "k \<le> length xs"
  shows "first_match pred p1 p2 (drop k xs) ys n \<Longrightarrow> first_match pred p1 p2 xs ys (k + n)"
    and "no_match pred p1 p2 (drop k xs) ys \<Longrightarrow> no_match pred p1 p2 xs ys"
proof -
  have late: "drop m xs = drop (m - k) (drop k xs)" if "\<not> m < k" for m using that by simp
  assume first: "first_match pred p1 p2 (drop k xs) ys n"
  have "\<not> matches pred p1 p2 (drop m xs) ys" if "m < k + n" for m
  proof (cases "m < k")
    case False
    with that have "m - k < n" by simp
    with first late [OF False] show ?thesis by (simp add: first_match_def)
  qed (rule assms(1))
  with first assms(2) show "first_match pred p1 p2 xs ys (k + n)" by (auto simp: first_match_def add.commute)
next
  assume "no_match pred p1 p2 (drop k xs) ys"
  then have "\<not> matches pred p1 p2 (drop m xs) ys" if "\<not> m < k" for m
    using that by (auto simp: no_match_def dest!: spec [of _ "m - k"])
  with assms(1) show "no_match pred p1 p2 xs ys" unfolding no_match_def by blast
qed

lemma matches_replicate:
  "matches pred p1 p2 xs (replicate n v) \<longleftrightarrow> n \<le> length xs \<and> (\<forall>i<n. pred (p1 (xs ! i)) (p2 v))"
  by (auto simp: matches_def)

lemma search_n_match_outcome:
  assumes "c < cnt"
  shows "case search_n_match pred proj v cnt xs c of
      RunFound m \<Rightarrow> matches pred proj (\<lambda>v. v) xs (replicate (cnt - c - 1) v) \<and> m = drop (cnt - c - 1) xs
    | RunExhausted \<Rightarrow> length xs < cnt - c - 1
    | RunBroken rest \<Rightarrow> \<exists>k. k < cnt - c - 1 \<and> k < length xs \<and> \<not> pred (proj (xs ! k)) v \<and> rest = drop (k + 1) xs"
  using assms
proof (induction pred proj v cnt xs c rule: search_n_match.induct)
  case (1 pred proj v cnt c)
  then show ?case by (auto simp: matches_def)
next
  case (2 pred proj v cnt m ms c)
  show ?case
  proof (cases "c + 1 = cnt \<or> \<not> pred (proj m) v")
    case True
    then show ?thesis using "2.prems" by (auto intro!: exI [of _ 0])
  next
    case False
    then have IH: "case search_n_match pred proj v cnt ms (c + 1) of
      RunFound m \<Rightarrow> matches pred proj (\<lambda>v. v) ms (replicate (cnt - (c + 1) - 1) v) \<and> m = drop (cnt - (c + 1) - 1) ms
    | RunExhausted \<Rightarrow> length ms < cnt - (c + 1) - 1
    | RunBroken rest \<Rightarrow> \<exists>k. k < cnt - (c + 1) - 1 \<and> k < length ms \<and> \<not> pred (proj (ms ! k)) v \<and> rest = drop (k + 1) ms"
      using 2 by simp
    have rep: "cnt - c - 1 = Suc (cnt - (c + 1) - 1)" using False "2.prems" by linarith
    have "\<exists>k. k < cnt - c - 1 \<and> k < length (m # ms) \<and> \<not> pred (proj ((m # ms) ! k)) v \<and> rest = drop (k + 1) (m # ms)"
      if "\<exists>k. k < cnt - (c + 1) - 1 \<and> k < length ms \<and> \<not> pred (proj (ms ! k)) v \<and> rest = drop (k + 1) ms" for rest
      using that unfolding rep by (metis Suc_eq_plus1 Suc_less_eq drop_Suc_Cons length_Cons nth_Cons_Suc)
    moreover have "cnt - Suc c = Suc (cnt - Suc (Suc c))" using rep by simp
    ultimately show ?thesis using IH False by (auto split: run_end.splits)
  qed
qed

lemma search_n_loop_first:
  assumes "0 < cnt"
  shows "(\<exists>n. first_match pred proj (\<lambda>v. v) xs (replicate cnt v) n \<and>
      search_n_loop pred proj v cnt xs = (drop n xs, drop (n + cnt) xs)) \<or>
    no_match pred proj (\<lambda>v. v) xs (replicate cnt v) \<and> search_n_loop pred proj v cnt xs = ([], [])"
proof (induction "length xs" arbitrary: xs rule: less_induct)
  case less
  let ?M = "\<lambda>xs. matches pred proj (\<lambda>v. v) xs (replicate cnt v)"
  show ?case
  proof (cases xs)
    case Nil
    then show ?thesis using assms by (auto simp: no_match_def matches_replicate)
  next
    case (Cons x zs)
    have skip: ?thesis if "k \<le> length xs" "0 < k" "\<And>m. m < k \<Longrightarrow> \<not> ?M (drop m xs)"
        "search_n_loop pred proj v cnt xs = search_n_loop pred proj v cnt (drop k xs)" for k
    proof -
      have "length (drop k xs) < length xs" using that Cons by simp
      from less.hyps [OF this] show ?thesis
      proof
        assume "\<exists>n. first_match pred proj (\<lambda>v. v) (drop k xs) (replicate cnt v) n \<and>
          search_n_loop pred proj v cnt (drop k xs) = (drop n (drop k xs), drop (n + cnt) (drop k xs))"
        then obtain n where "first_match pred proj (\<lambda>v. v) (drop k xs) (replicate cnt v) n"
          "search_n_loop pred proj v cnt (drop k xs) = (drop n (drop k xs), drop (n + cnt) (drop k xs))" by blast
        moreover from this(1) have "first_match pred proj (\<lambda>v. v) xs (replicate cnt v) (k + n)"
          using first_match_drop(1) [of k pred proj "\<lambda>v. v" xs "replicate cnt v" n] that(1,3) by blast
        ultimately show ?thesis using that(4) by (intro disjI1 exI [of _ "k + n"]) (simp add: ac_simps)
      qed (use first_match_drop(2) [of k pred proj "\<lambda>v. v" xs "replicate cnt v"] that in auto)
    qed
    note outcome = search_n_match_outcome [OF assms, of pred proj zs v]
    show ?thesis
    proof (cases "pred (proj x) v")
      case False
      then show ?thesis by (intro skip [of 1]) (use assms Cons in \<open>auto simp: matches_replicate\<close>)
    next
      case True
      show ?thesis
      proof (cases "search_n_match pred proj v cnt zs 0")
        case (RunFound m)
        with outcome have "matches pred proj (\<lambda>v. v) zs (replicate (cnt - 1) v)" "m = drop (cnt - 1) zs" by simp_all
        moreover have "cnt = Suc (cnt - 1)" using assms by simp
        ultimately have "?M xs" "m = drop cnt xs" using True Cons by (metis matches_simps(3) replicate_Suc, metis drop_Suc_Cons)
        with True Cons RunFound show ?thesis by (intro disjI1 exI [of _ 0]) (simp add: first_match_0)
      next
        case RunExhausted
        with outcome have "no_match pred proj (\<lambda>v. v) xs (replicate cnt v)" using Cons by (intro no_match_short) simp
        with True Cons RunExhausted show ?thesis by simp
      next
        case (RunBroken rest)
        with outcome obtain k where k: "k < cnt - 1" "k < length zs" "\<not> pred (proj (zs ! k)) v" "rest = drop (k + 1) zs" by auto
        show ?thesis
        proof (rule skip [of "k + 2"])
          fix m assume "m < k + 2"
          moreover have "drop m xs ! (k + 1 - m) = zs ! k" if "m < k + 2"
            using that k(2) Cons by (simp add: nth_append)
          ultimately show "\<not> ?M (drop m xs)" using k(1,3)
            by (auto simp: matches_replicate simp del: nth_drop intro!: exI [of _ "k + 1 - m"])
        qed (use k Cons True RunBroken in auto)
      qed
    qed
  qed
qed

section \<open>The vectorized mismatch\<close>

text \<open>r is the first position of the range at which xs and ys differ, or the end of xs.\<close>

definition first_difference :: "('a \<Rightarrow> 'b \<Rightarrow> bool) \<Rightarrow> 'a list \<Rightarrow> 'b list \<Rightarrow> nat \<Rightarrow> bool" where
  "first_difference pred xs ys r \<longleftrightarrow> r \<le> length xs \<and> r \<le> length ys \<and> (\<forall>i<r. pred (xs ! i) (ys ! i)) \<and>
     (r < length xs \<and> r < length ys \<longrightarrow> \<not> pred (xs ! r) (ys ! r))"

lemma first_difference_unique:
  "first_difference pred xs ys r \<Longrightarrow> first_difference pred xs ys r' \<Longrightarrow> r = r'"
  unfolding first_difference_def by (metis leD le_less_trans linorder_neqE_nat not_less)

lemma mismatch_loop_shift: "mismatch_loop pred p1 p2 xs ys (i + j) = i + mismatch_loop pred p1 p2 xs ys j"
  by (induction pred p1 p2 xs ys j rule: mismatch_loop.induct) simp_all

lemmas mismatch_loop_add = mismatch_loop_shift [of _ _ _ _ _ _ 0, unfolded add_0_right]

lemma mismatch_loop_first:
  "first_difference (\<lambda>x y. pred (p1 x) (p2 y)) xs ys (mismatch_loop pred p1 p2 xs ys 0)"
proof (induction xs arbitrary: ys)
  case Nil
  show ?case by (simp add: first_difference_def)
next
  case (Cons x xs)
  show ?case
  proof (cases ys)
    case (Cons y zs)
    with Cons.IH [of zs] mismatch_loop_add [of pred p1 p2 xs zs 1] show ?thesis
      by (auto simp: first_difference_def less_Suc_eq_0_disj)
  qed (simp add: first_difference_def)
qed

lemma vector_eq_load:
  "vector_eq (load_vector n xs i) (load_vector n ys i) = map (\<lambda>k. xs ! (i + k) = ys ! (i + k)) [0..<n]"
  by (simp add: vector_eq_def load_vector_def map2_map_map)

lemma vector_all_of_iff: "vector_all_of v \<longleftrightarrow> (\<forall>b\<in>set v. b)"
proof -
  have "fold (\<and>) v a \<longleftrightarrow> a \<and> (\<forall>b\<in>set v. b)" for a by (induction v arbitrary: a) auto
  then show ?thesis by (simp add: vector_all_of_def)
qed

lemma find_first_not_set_lanes:
  fixes xs ys :: "'a list" and i n :: nat
  defines "r \<equiv> find_first_not_set (vector_eq (load_vector n xs i) (load_vector n ys i))"
  shows "r \<le> n" and "\<And>k. k < r \<Longrightarrow> xs ! (i + k) = ys ! (i + k)" and "r < n \<Longrightarrow> xs ! (i + r) \<noteq> ys ! (i + r)"
proof -
  have r: "r = length (takeWhile (\<lambda>k. xs ! (i + k) = ys ! (i + k)) [0..<n])"
    by (simp add: r_def find_first_not_set_def find_first_set_def vector_eq_load takeWhile_map o_def)
  have le: "length (takeWhile P [0..<n]) \<le> n" for P using length_takeWhile_le [of P "[0..<n]"] by simp
  then show "r \<le> n" by (simp add: r)
  show "xs ! (i + k) = ys ! (i + k)" if "k < r" for k
  proof -
    have "takeWhile (\<lambda>k. xs ! (i + k) = ys ! (i + k)) [0..<n] ! k = [0..<n] ! k"
      by (rule takeWhile_nth) (use that in \<open>simp add: r\<close>)
    moreover have "takeWhile (\<lambda>k. xs ! (i + k) = ys ! (i + k)) [0..<n] ! k
        \<in> set (takeWhile (\<lambda>k. xs ! (i + k) = ys ! (i + k)) [0..<n])"
      by (rule nth_mem) (use that in \<open>simp add: r\<close>)
    moreover have "[0..<n] ! k = k" using that le \<open>r \<le> n\<close> by simp
    ultimately show ?thesis by (metis (mono_tags, lifting) set_takeWhileD)
  qed
  show "r < n \<Longrightarrow> xs ! (i + r) \<noteq> ys ! (i + r)"
    using nth_length_takeWhile [of "\<lambda>k. xs ! (i + k) = ys ! (i + k)" "[0..<n]"] by (simp add: r)
qed

lemma mismatch_unrolled_spec:
  assumes "\<And>k. k < i * v \<Longrightarrow> xs ! (first + k) = ys ! (first + k)" and "i \<le> n"
  shows "case mismatch_unrolled n v xs ys first i of
      None \<Rightarrow> \<forall>k<n * v. xs ! (first + k) = ys ! (first + k)
    | Some r \<Rightarrow> r < n * v \<and> (\<forall>k<r. xs ! (first + k) = ys ! (first + k)) \<and> xs ! (first + r) \<noteq> ys ! (first + r)"
  using assms
proof (induction "n - i" arbitrary: i rule: less_induct)
  case less
  show ?case
  proof (cases "n \<le> i")
    case True
    with less.prems show ?thesis by (subst mismatch_unrolled.simps) simp
  next
    case False
    define res where "res = vector_eq (load_vector v xs (first + i * v)) (load_vector v ys (first + i * v))"
    define r where "r = find_first_not_set res"
    have lanes: "r \<le> v" "\<And>k. k < r \<Longrightarrow> xs ! (first + i * v + k) = ys ! (first + i * v + k)"
      "r < v \<Longrightarrow> xs ! (first + i * v + r) \<noteq> ys ! (first + i * v + r)"
      using find_first_not_set_lanes [where xs = xs and ys = ys and i = "first + i * v" and n = v] unfolding r_def res_def by blast+
    have all: "vector_all_of res \<longleftrightarrow> (\<forall>k<v. xs ! (first + i * v + k) = ys ! (first + i * v + k))"
      by (auto simp: vector_all_of_iff res_def vector_eq_load)
    have below: "xs ! (first + k) = ys ! (first + k)" if "k < i * v + r" for k
      using that less.prems(1) [of k] lanes(2) [of "k - i * v"] by (cases "k < i * v") auto
    show ?thesis
    proof (cases "vector_all_of res")
      case True
      with all have "xs ! (first + k) = ys ! (first + k)" if "k < (i + 1) * v" for k
        using that less.prems(1) [of k] by (cases "k < i * v") (auto simp: algebra_simps dest!: spec [of _ "k - i * v"])
      moreover have "mismatch_unrolled n v xs ys first i = mismatch_unrolled n v xs ys first (i + 1)"
        using True False by (subst mismatch_unrolled.simps) (simp add: Let_def flip: res_def)
      ultimately show ?thesis using less.hyps [of "i + 1"] False by simp
    next
      case differs: False
      then have "r < v" using all lanes by (metis le_neq_implies_less)
      moreover have "mismatch_unrolled n v xs ys first i = Some (i * v + r)"
        using differs False by (subst mismatch_unrolled.simps) (simp add: Let_def r_def flip: res_def)
      moreover have "i * v + v \<le> n * v" using False mult_le_mono1 [of "i + 1" n v] by simp
      ultimately show ?thesis using below lanes(3) by (simp add: add.assoc)
    qed
  qed
qed

lemma mismatch_blocks_spec:
  assumes "\<And>k. k < first \<Longrightarrow> xs ! k = ys ! k" and "first \<le> length xs" and "length xs \<le> length ys" and "0 < n * v"
  shows "case mismatch_blocks n v xs ys first of
      Inr r \<Rightarrow> first_difference (=) xs ys r
    | Inl f \<Rightarrow> (\<forall>k<f. xs ! k = ys ! k) \<and> f \<le> length xs \<and> length xs - f < n * v \<and> first \<le> f"
  using assms
proof (induction "length xs - first" arbitrary: first rule: less_induct)
  case less
  show ?case
  proof (cases "n * v \<le> length xs - first")
    case False
    with less.prems show ?thesis by (subst mismatch_blocks.simps) auto
  next
    case True
    note unrolled = mismatch_unrolled_spec [of 0 v xs first ys n]
    have unfold: "mismatch_blocks n v xs ys first = (case mismatch_unrolled n v xs ys first 0 of
        Some r \<Rightarrow> Inr (first + r) | None \<Rightarrow> mismatch_blocks n v xs ys (first + n * v))"
      using True less.prems(4) by (subst mismatch_blocks.simps) simp
    have upto: "xs ! k = ys ! k" if "k < first + r" "\<forall>k<r. xs ! (first + k) = ys ! (first + k)" for k r
      using that less.prems(1) [of k] by (cases "k < first") (auto dest!: spec [of _ "k - first"])
    show ?thesis
    proof (cases "mismatch_unrolled n v xs ys first 0")
      case None
      with unrolled have all: "\<forall>k<n * v. xs ! (first + k) = ys ! (first + k)" by simp
      have "length xs - (first + n * v) < length xs - first" "first + n * v \<le> length xs"
        using True less.prems(2,4) by linarith+
      from less.hyps [OF this(1) upto [OF _ all] this(2) less.prems(3,4)] show ?thesis
        unfolding unfold None by (auto split: sum.splits)
    next
      case (Some r)
      with unrolled have r: "r < n * v" "\<forall>k<r. xs ! (first + k) = ys ! (first + k)" "xs ! (first + r) \<noteq> ys ! (first + r)" by simp_all
      have "first + r < length xs" using True r(1) by linarith
      with r(3) upto [OF _ r(2)] less.prems(3) show ?thesis unfolding unfold Some by (simp add: first_difference_def)
    qed
  qed
qed

lemma mismatch_vectorized_first:
  assumes "length xs \<le> length ys" and "0 < v"
  shows "first_difference (=) xs ys (mismatch_vectorized v xs ys)"
proof -
  note blocks = mismatch_blocks_spec [OF _ _ assms(1)]
  show ?thesis
  proof (cases "mismatch_blocks 4 v xs ys 0")
    case (Inr r)
    with blocks [of 0 4 v] assms(2) show ?thesis by (simp add: mismatch_vectorized_def)
  next
    case (Inl f)
    with blocks [of 0 4 v] assms(2) have f: "\<And>k. k < f \<Longrightarrow> xs ! k = ys ! k" "f \<le> length xs" by simp_all
    show ?thesis
    proof (cases "mismatch_blocks 1 v xs ys f")
      case (Inr r)
      with Inl blocks [of f 1 v] f assms(2) show ?thesis by (simp add: mismatch_vectorized_def)
    next
      case Inl2: (Inl g)
      with blocks [of f 1 v] f assms(2) have g: "\<And>k. k < g \<Longrightarrow> xs ! k = ys ! k" "g \<le> length xs" "length xs - g < v" by simp_all
      have res: "mismatch_vectorized v xs ys =
          (if length xs - g = 0 then g
           else if v \<le> g then length xs - v + find_first_not_set (vector_eq (load_vector v xs (length xs - v)) (load_vector v ys (length xs - v)))
           else mismatch_loop (=) (\<lambda>x. x) (\<lambda>y. y) (drop g xs) (drop g ys) g)"
        using Inl Inl2 by (simp add: mismatch_vectorized_def Let_def)
      define r where "r = find_first_not_set (vector_eq (load_vector v xs (length xs - v)) (load_vector v ys (length xs - v)))"
      have r: "r \<le> v" "\<And>k. k < r \<Longrightarrow> xs ! (length xs - v + k) = ys ! (length xs - v + k)"
        "r < v \<Longrightarrow> xs ! (length xs - v + r) \<noteq> ys ! (length xs - v + r)"
        using find_first_not_set_lanes [where xs = xs and ys = ys and i = "length xs - v" and n = v] unfolding r_def by blast+
      have last: "first_difference (=) xs ys (length xs - v + r)" if "v \<le> g"
      proof -
        have "xs ! k = ys ! k" if "k < length xs - v + r" for k
          using that g(1) [of k] r(2) [of "k - (length xs - v)"] \<open>v \<le> g\<close> g(2,3) by (cases "k < length xs - v") auto
        moreover have "r < v" if "length xs - v + r < length xs" using that \<open>v \<le> g\<close> g(2) by linarith
        moreover have "length xs - v + r \<le> length xs" using r(1) that g(2) by linarith
        ultimately show ?thesis using r(3) assms(1) by (auto simp: first_difference_def simp del: Nat.add_diff_assoc2)
      qed
      have "first_difference (=) xs ys (g + mismatch_loop (=) (\<lambda>x. x) (\<lambda>y. y) (drop g xs) (drop g ys) 0)"
      proof -
        define q where "q = mismatch_loop (=) (\<lambda>x. x) (\<lambda>y. y) (drop g xs) (drop g ys) 0"
        have q: "first_difference (=) (drop g xs) (drop g ys) q"
          unfolding q_def using mismatch_loop_first [of "(=)" "\<lambda>x. x" "\<lambda>y. y" "drop g xs" "drop g ys"] by simp
        have "xs ! k = ys ! k" if "k < g + q" for k
          using that g(1) [of k] q g(2) assms(1) by (cases "k < g") (auto simp: first_difference_def dest!: spec [of _ "k - g"])
        with q g(2) assms(1) show ?thesis unfolding q_def [symmetric] by (auto simp: first_difference_def)
      qed
      moreover have "length xs - g = 0 \<Longrightarrow> first_difference (=) xs ys g" using g(1,2) assms(1) by (auto simp: first_difference_def)
      ultimately show ?thesis unfolding res using last mismatch_loop_add [of "(=)" "\<lambda>x. x" "\<lambda>y. y" "drop g xs" "drop g ys" g]
        by (simp del: Nat.add_diff_assoc2 flip: r_def)
    qed
  qed
qed

lemma mismatch_pointers_first:
  assumes "0 < v"
  shows "first_difference (=) xs ys (mismatch_pointers v xs ys)"
  using mismatch_vectorized_first [OF _ assms, of "take (min (length xs) (length ys)) xs" ys]
  by (auto simp: mismatch_pointers_def first_difference_def Let_def)

section \<open>Comparisons\<close>

lemma equal_impl_iff: "equal_impl pred p1 p2 xs ys \<longleftrightarrow> list_all2 (\<lambda>x y. pred (p1 x) (p2 y)) xs ys"
  by (induction pred p1 p2 xs ys rule: equal_impl.induct) (auto simp: list_all2_Cons1)

lemma first_difference_Cons:
  "first_difference (=) (x # xs) (y # ys) r \<longleftrightarrow> (if x = y then \<exists>q. r = Suc q \<and> first_difference (=) xs ys q else r = 0)"
  by (cases r) (auto simp: first_difference_def less_Suc_eq_0_disj)

lemma lexicographical_compare_difference:
  "first_difference (=) xs ys r \<Longrightarrow> lexicographical_compare_impl cxx_less (\<lambda>x. x) (\<lambda>y. y) xs ys \<longleftrightarrow>
     (if r = length ys then False else if r = length xs then True else xs ! r < ys ! r)"
proof (induction "cxx_less :: 'a::linorder \<Rightarrow> 'a \<Rightarrow> bool" "\<lambda>x :: 'a. x" "\<lambda>x :: 'a. x" xs ys arbitrary: r rule: lexicographical_compare_impl.induct)
  case (3 x xs y ys)
  show ?case
  proof (cases "x = y")
    case True
    with "3.prems" obtain q where "r = Suc q" "first_difference (=) xs ys q" by (auto simp: first_difference_Cons)
    with 3 True show ?thesis by (simp add: cxx_less_def)
  next
    case False
    with "3.prems" have "r = 0" by (simp add: first_difference_Cons)
    with False show ?thesis by (auto simp: cxx_less_def)
  qed
qed (auto simp: first_difference_def)

lemma three_way_fast_slow:
  "(case three_way_fast_loop cmp (min (length xs) (length ys)) xs ys of
      Some c \<Rightarrow> c | None \<Rightarrow> compare_nat (length xs) (length ys)) = lexicographical_compare_three_way_slow cmp xs ys"
proof (induction cmp xs ys rule: lexicographical_compare_three_way_slow.induct)
  case (1 cmp x xs y ys)
  then show ?case by (auto simp: Let_def compare_nat_def split: option.splits)
qed (simp_all add: compare_nat_def)

section \<open>Permutations\<close>

lemma is_permutation_loop_equal:
  "is_permutation_loop cxx_equal_to (\<lambda>x. x) (\<lambda>y. y) seen xs ys \<longleftrightarrow>
     (\<forall>x\<in>set xs - set seen. count_list xs x = count_list ys x)"
proof (induction xs arbitrary: seen)
  case (Cons x xs)
  have count: "length (filter (cxx_equal_to a) zs) = count_list zs a" for a :: 'a and zs
    by (induction zs) (auto simp: cxx_equal_to_def)
  show ?case
  proof (cases "x \<in> set seen")
    case True
    then have "set (x # xs) - set seen = set xs - set (seen @ [x])" by auto
    moreover have "count_list (x # xs) z = count_list xs z" if "z \<in> set xs - set (seen @ [x])" for z using that by auto
    ultimately show ?thesis using True Cons [of "seen @ [x]"] by (simp add: cxx_any_of_iff cxx_equal_to_def)
  next
    case False
    then have split: "set (x # xs) - set seen = insert x (set xs - set (seen @ [x]))" by auto
    have others: "count_list (x # xs) z = count_list xs z" if "z \<in> set xs - set (seen @ [x])" for z using that by auto
    have "is_permutation_loop cxx_equal_to (\<lambda>x. x) (\<lambda>y. y) seen (x # xs) ys \<longleftrightarrow>
        count_list (x # xs) x = count_list ys x \<and> is_permutation_loop cxx_equal_to (\<lambda>x. x) (\<lambda>y. y) (seen @ [x]) xs ys"
      using False by (auto simp: cxx_any_of_iff cxx_equal_to_def [of _ x] count_if_filter count_if_loop_filter count Let_def)
    then show ?thesis unfolding split using Cons [of "seen @ [x]"] others by simp
  qed
qed simp

lemma is_permutation_impl_mset:
  assumes "length xs = length ys"
  shows "is_permutation_impl cxx_equal_to (\<lambda>x. x) (\<lambda>y. y) xs ys \<longleftrightarrow> mset xs = mset ys"
proof
  assume "is_permutation_impl cxx_equal_to (\<lambda>x. x) (\<lambda>y. y) xs ys"
  then have "\<forall>x\<in>set xs. count_list xs x = count_list ys x"
    by (simp add: is_permutation_impl_def is_permutation_loop_equal)
  then have "mset xs \<subseteq># mset ys"
    by (auto simp: subseteq_mset_def count_mset not_in_iff count_list_0_iff intro!: allI) (metis count_list_0_iff le0 order_refl)
  with assms show "mset xs = mset ys" by (metis mset_subset_size nat_neq_iff size_mset subset_mset.le_imp_less_or_eq)
next
  assume "mset xs = mset ys"
  then show "is_permutation_impl cxx_equal_to (\<lambda>x. x) (\<lambda>y. y) xs ys"
    by (metis count_mset is_permutation_impl_def is_permutation_loop_equal)
qed

lemma is_permutation_prefix_mset:
  "is_permutation_prefix cxx_equal_to (\<lambda>x. x) (\<lambda>y. y) xs ys \<longleftrightarrow> mset xs = mset ys"
proof (induction xs arbitrary: ys)
  case Nil
  show ?case by simp
next
  case (Cons x xs)
  show ?case
  proof (cases ys)
    case (Cons y zs)
    then show ?thesis
      using Cons.IH [of zs] is_permutation_impl_mset [of "x # xs" "y # zs"] mset_eq_length [of "x # xs" "y # zs"]
      by (auto simp: cxx_equal_to_def [of x])
  qed simp
qed

section \<open>Properties\<close>

text \<open>
  Both implementations of search, over forward and over random-access iterators, return
  the first position at which the pattern matches with the position after the match, or the
  end when it matches nowhere; an empty pattern matches at the start.
\<close>

theorem search_correct:
  "(\<exists>n. first_match pred p1 p2 xs ys n \<and>
      search_forward_impl pred p1 p2 xs ys = (drop n xs, drop (n + length ys) xs) \<and>
      search_impl_ra pred p1 p2 xs ys = (n, n + length ys)) \<or>
   no_match pred p1 p2 xs ys \<and> search_forward_impl pred p1 p2 xs ys = ([], []) \<and>
      search_impl_ra pred p1 p2 xs ys = (length xs, length xs)"
proof -
  have unique: "n = m" if "first_match pred p1 p2 xs ys n" "first_match pred p1 p2 xs ys m" for n m
    using that unfolding first_match_def by (metis nat_neq_iff)
  have "\<not> no_match pred p1 p2 xs ys" if "first_match pred p1 p2 xs ys n" for n
    using that by (auto simp: first_match_def no_match_def)
  with search_forward_first [of pred p1 p2 xs ys] search_impl_ra_first [of pred p1 p2 xs ys] unique show ?thesis by metis
qed

text \<open>
  search_n finds the first run of count elements that match the value; find_end returns
  the last position at which a non-empty pattern matches, and the end when there is none.
\<close>

theorem search_n_find_end_correct:
  assumes "0 < cnt" and "ys \<noteq> []"
  shows "((\<exists>n. first_match pred proj (\<lambda>v. v) xs (replicate cnt v) n \<and>
      search_n_forward_impl pred proj v cnt xs = (drop n xs, drop (n + cnt) xs)) \<or>
    no_match pred proj (\<lambda>v. v) xs (replicate cnt v) \<and> search_n_forward_impl pred proj v cnt xs = ([], [])) \<and>
   ((\<exists>n. matches pred proj p2 (drop n xs) ys \<and> (\<forall>m>n. \<not> matches pred proj p2 (drop m xs) ys) \<and>
      find_end_impl pred proj p2 xs ys = (drop n xs, drop (n + length ys) xs)) \<or>
    no_match pred proj p2 xs ys \<and> find_end_impl pred proj p2 xs ys = ([], []))"
  using search_n_loop_first [OF assms(1), of pred proj xs v] find_end_loop_last [OF assms(2), of pred proj p2 xs "([], [])"]
    assms by (simp add: search_n_forward_impl_def find_end_impl_def)

theorem search_n_find_end_correct_witness:
  "search_n_forward_impl (=) (\<lambda>x. x) (2::int) 2 [2, 1, 2, 2, 2, 3] = ([2, 2, 2, 3], [2, 3]) \<and>
   no_match (=) (\<lambda>x. x) (\<lambda>x. x) [2, 1, 2, 2, 2, 3] [3, 1::int]"
proof -
  have "find_end_impl (=) (\<lambda>x. x) (\<lambda>x. x) [2, 1, 2, 2, 2, 3] [3, 1::int] = ([], [])"
    by (simp add: find_end_impl_def)
  moreover have "\<not> matches (=) (\<lambda>x. x) (\<lambda>x. x) [] [3, 1::int]" by simp
  ultimately have "no_match (=) (\<lambda>x. x) (\<lambda>x. x) [2, 1, 2, 2, 2, 3] [3, 1::int]"
    using search_n_find_end_correct [of 2 "[3, 1::int]" "(=)" "\<lambda>x. x" "[2, 1, 2, 2, 2, 3]" 2 "\<lambda>x. x"]
    by (metis Pair_inject list.discI zero_less_numeral)
  then show ?thesis by (simp add: search_n_forward_impl_def)
qed

text \<open>
  C36. The vectorized mismatch of integer ranges, which compares four vectors at a time, then
  one, and reloads an overlapping last vector, returns the same position as the element-wise
  loop: the first difference, or the end of the first range. The overload of
  lexicographical_compare built on it agrees with the generic loop, and the fast path of the
  three-way comparison with the slow one.
\<close>

theorem mismatch_vectorized_correct:
  assumes "0 < vec_size" and "length xs \<le> length ys"
  shows "mismatch_vectorized vec_size xs ys = mismatch_loop (=) (\<lambda>x. x) (\<lambda>y. y) xs ys 0 \<and>
    lexicographical_compare_total vec_size us ws = lexicographical_compare_impl cxx_less (\<lambda>x. x) (\<lambda>y. y) us ws \<and>
    lexicographical_compare_three_way_fast cmp as bs = lexicographical_compare_three_way_slow cmp as bs"
  using first_difference_unique [OF mismatch_vectorized_first [OF assms(2,1)] mismatch_loop_first [of "(=)" "\<lambda>x. x" "\<lambda>y. y" xs ys]]
    lexicographical_compare_difference [OF mismatch_pointers_first [OF assms(1)], of us ws]
    three_way_fast_slow [where cmp = cmp and xs = as and ys = bs]
  by (simp add: lexicographical_compare_total_def lexicographical_compare_three_way_fast_def Let_def)

theorem mismatch_vectorized_correct_witness:
  "mismatch_vectorized 2 [1, 2, 3, 4, 5, 6, 7, 8, 9, 10, 11] [1, 2, 3, 4, 5, 6, 7, 8, 9, 10, 12::int] = 10"
  using mismatch_vectorized_correct [where vec_size = 2 and xs = "[1, 2, 3, 4, 5, 6, 7, 8, 9, 10, 11]"
      and ys = "[1, 2, 3, 4, 5, 6, 7, 8, 9, 10, 12::int]" and us = "[1::int]" and ws = "[]"
      and cmp = compare_nat and as = "[]" and bs = "[]"]
  by simp

text \<open>
  is_permutation, which drops the equal prefix, compares the lengths and counts each
  distinct remaining element in both ranges, holds exactly of ranges with the same multiset
  of elements, whether the distance is known in constant time or not.
\<close>

theorem is_permutation_correct:
  "is_permutation_range const_time cxx_equal_to (\<lambda>x. x) (\<lambda>y. y) xs ys \<longleftrightarrow> mset xs = mset ys"
  using mset_eq_length [of xs ys] by (auto simp: is_permutation_range_def is_permutation_prefix_mset)

end
