(* ===== verification/CxxHeap.thy ===== *)
theory CxxHeap
  imports CxxRanges
begin

text \<open>
  The heap algorithms of include/linux/c++/v1/__algorithm: sift_down.h, push_heap.h,
  pop_heap.h, make_heap.h, sort_heap.h, is_heap_until.h, is_heap.h, partial_sort.h and
  partial_sort_copy.h. The range is a list and first is position 0, so that the distance
  of an iterator from first is its index; len is the size of the heap, which may be a prefix
  of the list. A move out of a position leaves a hole that a later assignment fills; the
  value left in it is never read.
\<close>

section \<open>Definitions\<close>

definition larger_child :: "('a \<Rightarrow> 'a \<Rightarrow> bool) \<Rightarrow> 'a list \<Rightarrow> nat \<Rightarrow> nat \<Rightarrow> nat" where
  "larger_child cmp xs len child =
     (if child + 1 < len \<and> cmp (xs ! child) (xs ! (child + 1)) then child + 1 else child)"

text \<open>The do-while loop of \<open>__sift_down\<close>; tp (the source's top) is the value moved out of the start.\<close>

function sift_down_loop :: "('a \<Rightarrow> 'a \<Rightarrow> bool) \<Rightarrow> nat \<Rightarrow> 'a \<Rightarrow> 'a list \<Rightarrow> nat \<Rightarrow> nat \<Rightarrow> 'a list" where
  "sift_down_loop cmp len tp xs start child =
     (let xs = xs[start := xs ! child]; start = child
      in if (len - 2) div 2 < child then xs[start := tp]
         else let child = larger_child cmp xs len (2 * child + 1)
              in if \<not> cmp (xs ! child) tp then sift_down_loop cmp len tp xs start child
                 else xs[start := tp])"
  by pat_completeness auto
termination
  by (relation "measure (\<lambda>(cmp, len, tp, xs, start, child). (len - 2) div 2 + 1 - child)")
    (auto simp: larger_child_def)

definition sift_down :: "('a \<Rightarrow> 'a \<Rightarrow> bool) \<Rightarrow> 'a list \<Rightarrow> nat \<Rightarrow> nat \<Rightarrow> 'a list" where
  "sift_down cmp xs len start =
     (if len < 2 \<or> (len - 2) div 2 < start then xs
      else let child = larger_child cmp xs len (2 * start + 1)
           in if cmp (xs ! child) (xs ! start) then xs
              else sift_down_loop cmp len (xs ! start) xs start child)"

function floyd_sift_down :: "('a \<Rightarrow> 'a \<Rightarrow> bool) \<Rightarrow> nat \<Rightarrow> 'a list \<Rightarrow> nat \<Rightarrow> 'a list \<times> nat" where
  "floyd_sift_down cmp len xs hole =
     (let child = larger_child cmp xs len (2 * hole + 1);
          xs = xs[hole := xs ! child]
      in if (len - 2) div 2 < child then (xs, child) else floyd_sift_down cmp len xs child)"
  by pat_completeness auto
termination
  by (relation "measure (\<lambda>(cmp, len, xs, hole). (len - 2) div 2 + 1 - hole)") (auto simp: larger_child_def)

text \<open>\<open>__sift_up\<close>; t is the value moved out of the last position.\<close>

function sift_up_loop :: "('a \<Rightarrow> 'a \<Rightarrow> bool) \<Rightarrow> 'a \<Rightarrow> 'a list \<Rightarrow> nat \<Rightarrow> nat \<Rightarrow> 'a list" where
  "sift_up_loop cmp t xs lst ptr =
     (let xs = xs[lst := xs ! ptr]; lst = ptr
      in if ptr = 0 then xs[lst := t]
         else let ptr = (ptr - 1) div 2
              in if cmp (xs ! ptr) t then sift_up_loop cmp t xs lst ptr else xs[lst := t])"
  by pat_completeness auto
termination
  by (relation "measure (\<lambda>(cmp, t, xs, lst, ptr). ptr)") auto

definition sift_up :: "('a \<Rightarrow> 'a \<Rightarrow> bool) \<Rightarrow> 'a list \<Rightarrow> nat \<Rightarrow> 'a list" where
  "sift_up cmp xs len =
     (if 1 < len
      then let ptr = (len - 2) div 2; lst = len - 1
           in if cmp (xs ! ptr) (xs ! lst) then sift_up_loop cmp (xs ! lst) xs lst ptr else xs
      else xs)"

definition push_heap :: "('a \<Rightarrow> 'a \<Rightarrow> bool) \<Rightarrow> 'a list \<Rightarrow> nat \<Rightarrow> 'a list" where
  "push_heap cmp xs lst = sift_up cmp xs lst"

definition pop_heap :: "('a \<Rightarrow> 'a \<Rightarrow> bool) \<Rightarrow> 'a list \<Rightarrow> nat \<Rightarrow> 'a list" where
  "pop_heap cmp xs len =
     (if 1 < len
      then let tp = xs ! 0; (xs, hole) = floyd_sift_down cmp len xs 0; lst = len - 1
           in if hole = lst then xs[hole := tp]
              else sift_up cmp (xs[hole := xs ! lst, lst := tp]) (hole + 1)
      else xs)"

fun make_heap_loop :: "('a \<Rightarrow> 'a \<Rightarrow> bool) \<Rightarrow> nat \<Rightarrow> nat \<Rightarrow> 'a list \<Rightarrow> 'a list" where
  "make_heap_loop cmp n 0 xs = sift_down cmp xs n 0"
| "make_heap_loop cmp n (Suc start) xs = make_heap_loop cmp n start (sift_down cmp xs n (Suc start))"

definition make_heap :: "('a \<Rightarrow> 'a \<Rightarrow> bool) \<Rightarrow> 'a list \<Rightarrow> nat \<Rightarrow> 'a list" where
  "make_heap cmp xs n = (if 1 < n then make_heap_loop cmp n ((n - 2) div 2) xs else xs)"

fun sort_heap :: "('a \<Rightarrow> 'a \<Rightarrow> bool) \<Rightarrow> 'a list \<Rightarrow> nat \<Rightarrow> 'a list" where
  "sort_heap cmp xs 0 = xs"
| "sort_heap cmp xs (Suc n) = (if 1 < Suc n then sort_heap cmp (pop_heap cmp xs (Suc n)) n else xs)"

function is_heap_until_loop :: "('a \<Rightarrow> 'a \<Rightarrow> bool) \<Rightarrow> 'a list \<Rightarrow> nat \<Rightarrow> nat \<Rightarrow> nat" where
  "is_heap_until_loop cmp xs len p =
     (let c = 2 * p + 1
      in if c < len
         then if cmp (xs ! p) (xs ! c) then c
              else if c + 1 = len then len
              else if cmp (xs ! p) (xs ! (c + 1)) then c + 1
              else is_heap_until_loop cmp xs len (p + 1)
         else len)"
  by pat_completeness auto
termination
  by (relation "measure (\<lambda>(cmp, xs, len, p). len - p)") auto

definition is_heap_until :: "('a \<Rightarrow> 'a \<Rightarrow> bool) \<Rightarrow> 'a list \<Rightarrow> nat \<Rightarrow> nat" where
  "is_heap_until cmp xs len = is_heap_until_loop cmp xs len 0"

definition is_heap_range :: "('a \<Rightarrow> 'a \<Rightarrow> bool) \<Rightarrow> 'a list \<Rightarrow> nat \<Rightarrow> bool" where
  "is_heap_range cmp xs len \<longleftrightarrow> is_heap_until cmp xs len = len"

text \<open>The loop over the tail: an element below the root is exchanged with it and sifted down.\<close>

function partial_sort_scan :: "('a \<Rightarrow> 'a \<Rightarrow> bool) \<Rightarrow> nat \<Rightarrow> nat \<Rightarrow> nat \<Rightarrow> 'a list \<Rightarrow> 'a list" where
  "partial_sort_scan cmp len lst i xs =
     (if i < lst
      then partial_sort_scan cmp len lst (i + 1)
             (if cmp (xs ! i) (xs ! 0) then sift_down cmp (xs[i := xs ! 0, 0 := xs ! i]) len 0 else xs)
      else xs)"
  by pat_completeness auto
termination
  by (relation "measure (\<lambda>(cmp, len, lst, i, xs). lst - i)") auto

definition partial_sort :: "('a \<Rightarrow> 'a \<Rightarrow> bool) \<Rightarrow> 'a list \<Rightarrow> nat \<Rightarrow> nat \<Rightarrow> 'a list" where
  "partial_sort cmp xs middle lst =
     (if middle = 0 then xs
      else sort_heap cmp (partial_sort_scan cmp middle lst middle (make_heap cmp xs middle)) middle)"

fun partial_sort_copy_fill :: "'a list \<Rightarrow> 'a list \<Rightarrow> nat \<Rightarrow> 'a list \<times> 'a list \<times> nat" where
  "partial_sort_copy_fill [] res r = ([], res, r)"
| "partial_sort_copy_fill (x # xs) res r =
     (if r < length res then partial_sort_copy_fill xs (res[r := x]) (r + 1) else (x # xs, res, r))"

fun partial_sort_copy_scan :: "('a \<Rightarrow> 'a \<Rightarrow> bool) \<Rightarrow> nat \<Rightarrow> 'a list \<Rightarrow> 'a list \<Rightarrow> 'a list" where
  "partial_sort_copy_scan cmp len [] res = res"
| "partial_sort_copy_scan cmp len (x # xs) res =
     partial_sort_copy_scan cmp len xs (if cmp x (res ! 0) then sift_down cmp (res[0 := x]) len 0 else res)"

text \<open>The result buffer and the end of what was written to it.\<close>

definition partial_sort_copy :: "('a \<Rightarrow> 'a \<Rightarrow> bool) \<Rightarrow> 'a list \<Rightarrow> 'a list \<Rightarrow> 'a list \<times> nat" where
  "partial_sort_copy cmp xs res =
     (if res = [] then (res, 0)
      else let (xs, res, r) = partial_sort_copy_fill xs res 0;
               res = make_heap cmp res r;
               res = partial_sort_copy_scan cmp r xs res
           in (sort_heap cmp res r, r))"

declare sift_down_loop.simps [simp del] floyd_sift_down.simps [simp del] sift_up_loop.simps [simp del]
  is_heap_until_loop.simps [simp del] partial_sort_scan.simps [simp del]

section \<open>Positions, exchanges and the heap order\<close>

definition heap_parent :: "nat \<Rightarrow> nat" where
  "heap_parent i = (i - 1) div 2"

definition exchange :: "'a list \<Rightarrow> nat \<Rightarrow> nat \<Rightarrow> 'a list" where
  "exchange xs i j = xs[i := xs ! j, j := xs ! i]"

text \<open>Every parent at or after position s within the first len elements is not below its children.\<close>

definition heap_from :: "('a \<Rightarrow> 'a \<Rightarrow> bool) \<Rightarrow> nat \<Rightarrow> nat \<Rightarrow> 'a list \<Rightarrow> bool" where
  "heap_from cmp s len xs \<longleftrightarrow>
     (\<forall>i<len. 0 < i \<longrightarrow> s \<le> heap_parent i \<longrightarrow> \<not> cmp (xs ! heap_parent i) (xs ! i))"

abbreviation heap_order :: "('a \<Rightarrow> 'a \<Rightarrow> bool) \<Rightarrow> nat \<Rightarrow> 'a list \<Rightarrow> bool" where
  "heap_order cmp \<equiv> heap_from cmp 0"

lemma heap_parent_iff: "0 < i \<Longrightarrow> heap_parent i = j \<longleftrightarrow> i = 2 * j + 1 \<or> i = 2 * j + 2"
  unfolding heap_parent_def by presburger

lemma heap_parent_less: "0 < i \<Longrightarrow> heap_parent i < i"
  by (simp add: heap_parent_def)

lemma last_parent: "2 \<le> (len::nat) \<Longrightarrow> (len - 2) div 2 < j \<longleftrightarrow> len \<le> 2 * j + 1"
  by presburger

lemma length_exchange [simp]: "length (exchange xs i j) = length xs"
  by (simp add: exchange_def)

lemma nth_exchange: "i < length xs \<Longrightarrow> j < length xs \<Longrightarrow>
    exchange xs i j ! k = (if k = j then xs ! i else if k = i then xs ! j else xs ! k)"
  by (cases "k < length xs") (auto simp: exchange_def nth_list_update not_less)

lemma mset_exchange [simp]: "i < length xs \<Longrightarrow> j < length xs \<Longrightarrow> mset (exchange xs i j) = mset xs"
  unfolding exchange_def using mset_swap [of j xs i] by (cases "i = j") (auto simp: list_update_swap)

lemma larger_child_props:
  assumes "child < len"
  shows "larger_child cmp xs len child < len"
    and "larger_child cmp xs len child = child \<or> larger_child cmp xs len child = child + 1"
  using assms by (auto simp: larger_child_def)

text \<open>The siftings by exchanges, which the code runs with a hole in place of the moved value.\<close>

function swap_down :: "('a \<Rightarrow> 'a \<Rightarrow> bool) \<Rightarrow> nat \<Rightarrow> 'a list \<Rightarrow> nat \<Rightarrow> 'a list" where
  "swap_down cmp len xs j =
     (if len \<le> 2 * j + 1 then xs
      else let c = larger_child cmp xs len (2 * j + 1)
           in if cmp (xs ! c) (xs ! j) then xs else swap_down cmp len (exchange xs j c) c)"
  by pat_completeness auto
termination
  by (relation "measure (\<lambda>(cmp, len, xs, j). len - j)") (auto simp: larger_child_def)

function swap_up :: "('a \<Rightarrow> 'a \<Rightarrow> bool) \<Rightarrow> 'a list \<Rightarrow> nat \<Rightarrow> 'a list" where
  "swap_up cmp xs j =
     (if 0 < j \<and> cmp (xs ! heap_parent j) (xs ! j)
      then swap_up cmp (exchange xs j (heap_parent j)) (heap_parent j) else xs)"
  by pat_completeness auto
termination
  by (relation "measure (\<lambda>(cmp, xs, j). j)") (auto simp: heap_parent_less)

declare swap_down.simps [simp del] swap_up.simps [simp del]

lemma larger_child_update: "child > j \<Longrightarrow> larger_child cmp (xs[j := v]) len child = larger_child cmp xs len child"
  by (simp add: larger_child_def)

lemma larger_child_exchange: "child > j \<Longrightarrow> child > c \<Longrightarrow> larger_child cmp (exchange xs j c) len child = larger_child cmp xs len child"
  by (simp add: larger_child_def exchange_def)

lemma sift_down_loop_eq:
  assumes "2 \<le> len" and "len \<le> length xs" and "start < child" and "child < len"
  shows "sift_down_loop cmp len tp xs start child = swap_down cmp len (exchange (xs[start := tp]) start child) child"
  using assms
proof (induction cmp len tp xs start child rule: sift_down_loop.induct)
  case (1 cmp len tp xs start child)
  define xs' where "xs' = xs[start := xs ! child]"
  define c where "c = larger_child cmp xs' len (2 * child + 1)"
  have ex: "exchange (xs[start := tp]) start child = xs'[child := tp]"
    using 1(3-5) unfolding exchange_def xs'_def by simp
  show ?case
  proof (cases "len \<le> 2 * child + 1")
    case True
    then show ?thesis using last_parent [OF 1(2), of child] unfolding ex
      by (subst sift_down_loop.simps, subst swap_down.simps) (simp add: Let_def xs'_def)
  next
    case False
    have c: "c < len" "child < c" using larger_child_props [of "2 * child + 1" len cmp xs'] False by (auto simp: c_def)
    have c': "larger_child cmp (xs'[child := tp]) len (2 * child + 1) = c"
      unfolding c_def by (rule larger_child_update) simp
    have rd: "xs'[child := tp] ! c = xs' ! c" "xs'[child := tp] ! child = tp"
      using c 1(3-5) by (simp_all add: xs'_def)
    have ih: "\<not> cmp (xs' ! c) tp \<Longrightarrow>
        sift_down_loop cmp len tp xs' child c = swap_down cmp len (exchange (xs'[child := tp]) child c) c"
      using 1(1) [OF xs'_def refl _ c_def] False last_parent [OF 1(2), of child] 1(2-5) c
      by (simp add: xs'_def)
    show ?thesis unfolding ex
      apply (subst sift_down_loop.simps, subst swap_down.simps)
      using False last_parent [OF 1(2), of child] ih
      by (simp add: Let_def c' [simplified] rd xs'_def [symmetric] c_def [symmetric, simplified])
  qed
qed


lemma sift_down_eq:
  assumes "len \<le> length xs" and "start < length xs"
  shows "sift_down cmp xs len start = swap_down cmp len xs start"
proof (cases "len < 2 \<or> len \<le> 2 * start + 1")
  case True
  then show ?thesis using last_parent [of len start] by (subst swap_down.simps) (auto simp: sift_down_def)
next
  case False
  define c where "c = larger_child cmp xs len (2 * start + 1)"
  have c: "c < len" "start < c" using larger_child_props [of "2 * start + 1" len cmp xs] False by (auto simp: c_def)
  have "sift_down_loop cmp len (xs ! start) xs start c = swap_down cmp len (exchange xs start c) c"
    using sift_down_loop_eq [of len xs start c cmp "xs ! start"] False c assms by simp
  then show ?thesis using False last_parent [of len start]
    by (subst swap_down.simps) (simp add: sift_down_def c_def [symmetric, simplified])
qed

lemma sift_up_loop_eq:
  assumes "ptr < lst" and "lst < length xs"
  shows "sift_up_loop cmp t xs lst ptr = swap_up cmp (exchange (xs[lst := t]) lst ptr) ptr"
  using assms
proof (induction cmp t xs lst ptr rule: sift_up_loop.induct)
  case (1 cmp t xs lst ptr)
  define xs' where "xs' = xs[lst := xs ! ptr]"
  have ex: "exchange (xs[lst := t]) lst ptr = xs'[ptr := t]"
    using 1(2,3) unfolding exchange_def xs'_def by simp
  show ?case
  proof (cases "ptr = 0")
    case True
    then show ?thesis unfolding ex
      by (subst sift_up_loop.simps, subst swap_up.simps) (simp add: Let_def xs'_def)
  next
    case False
    define p where "p = (ptr - 1) div 2"
    have p: "p < ptr" using False by (simp add: p_def)
    have ih: "cmp (xs' ! p) t \<Longrightarrow> sift_up_loop cmp t xs' ptr p = swap_up cmp (exchange (xs'[ptr := t]) ptr p) p"
      using 1(1) [OF xs'_def refl False p_def] p 1(2,3) by (simp add: xs'_def)
    show ?thesis unfolding ex
      apply (subst sift_up_loop.simps, subst swap_up.simps)
      using False p 1(2,3) ih by (simp add: Let_def xs'_def [symmetric] p_def [symmetric, simplified] heap_parent_def)
        (simp add: xs'_def)
  qed
qed

lemma sift_up_eq:
  assumes "0 < len" and "len \<le> length xs"
  shows "sift_up cmp xs len = swap_up cmp xs (len - 1)"
proof (cases "1 < len")
  case True
  have p: "heap_parent (len - 1) = (len - 2) div 2" "(len - 2) div 2 < len - 1" using True by (simp_all add: heap_parent_def)
  have "sift_up_loop cmp (xs ! (len - 1)) xs (len - 1) ((len - 2) div 2) =
      swap_up cmp (exchange xs (len - 1) ((len - 2) div 2)) ((len - 2) div 2)"
    using sift_up_loop_eq [OF p(2), of xs cmp "xs ! (len - 1)"] True assms by simp
  then show ?thesis using True
    by (subst swap_up.simps) (simp add: sift_up_def p(1) [simplified] Let_def)
next
  case False
  with assms show ?thesis by (subst swap_up.simps) (simp add: sift_up_def)
qed


function swap_floyd :: "('a \<Rightarrow> 'a \<Rightarrow> bool) \<Rightarrow> nat \<Rightarrow> 'a list \<Rightarrow> nat \<Rightarrow> 'a list \<times> nat" where
  "swap_floyd cmp len xs j =
     (let c = larger_child cmp xs len (2 * j + 1); xs = exchange xs j c
      in if len \<le> 2 * c + 1 then (xs, c) else swap_floyd cmp len xs c)"
  by pat_completeness auto
termination
  by (relation "measure (\<lambda>(cmp, len, xs, j). len - j)") (auto simp: larger_child_def)

declare swap_floyd.simps [simp del]

lemma floyd_sift_down_eq:
  assumes "2 * hole + 1 < len" and "len \<le> length xs"
  shows "swap_floyd cmp len (xs[hole := tp]) hole =
    (case floyd_sift_down cmp len xs hole of (ys, h) \<Rightarrow> (ys[h := tp], h))"
  using assms
proof (induction cmp len xs hole rule: floyd_sift_down.induct)
  case (1 cmp len xs hole)
  define c where "c = larger_child cmp xs len (2 * hole + 1)"
  define xs' where "xs' = xs[hole := xs ! c]"
  have c: "c < len" "hole < c" using larger_child_props [of "2 * hole + 1" len cmp xs] 1(2) by (auto simp: c_def)
  have c': "larger_child cmp (xs[hole := tp]) len (2 * hole + 1) = c"
    unfolding c_def by (rule larger_child_update) simp
  have ex: "exchange (xs[hole := tp]) hole c = xs'[c := tp]"
    using c 1(3) unfolding exchange_def xs'_def by simp
  have lp: "(len - 2) div 2 < c \<longleftrightarrow> len \<le> 2 * c + 1" using last_parent [of len c] c by simp
  show ?case
  proof (cases "len \<le> 2 * c + 1")
    case True
    then show ?thesis using lp
      by (subst swap_floyd.simps, subst floyd_sift_down.simps)
        (simp add: c' [simplified] ex c_def [symmetric, simplified] Let_def xs'_def)
  next
    case False
    have "swap_floyd cmp len (xs'[c := tp]) c = (case floyd_sift_down cmp len xs' c of (ys, h) \<Rightarrow> (ys[h := tp], h))"
      using 1(1) [OF c_def xs'_def] False lp 1(3) by (simp add: xs'_def)
    with False lp show ?thesis
      by (subst swap_floyd.simps, subst floyd_sift_down.simps)
        (simp add: c' [simplified] ex c_def [symmetric, simplified] Let_def xs'_def [symmetric])
  qed
qed

text \<open>A rearrangement of the first n elements.\<close>

definition rearranges :: "nat \<Rightarrow> 'a list \<Rightarrow> 'a list \<Rightarrow> bool" where
  "rearranges n xs ys \<longleftrightarrow> length ys = length xs \<and> mset ys = mset xs \<and> drop n ys = drop n xs"

lemma rearranges_refl [simp]: "rearranges n xs xs"
  by (simp add: rearranges_def)

lemma rearranges_trans: "rearranges n xs ys \<Longrightarrow> rearranges n ys zs \<Longrightarrow> rearranges n xs zs"
  by (simp add: rearranges_def)

lemma rearranges_length: "rearranges n xs ys \<Longrightarrow> length ys = length xs"
  by (simp add: rearranges_def)

lemma rearranges_mono: "rearranges n xs ys \<Longrightarrow> n \<le> m \<Longrightarrow> rearranges m xs ys"
  unfolding rearranges_def by (metis drop_drop le_add_diff_inverse2)

lemma rearranges_exchange: "i < n \<Longrightarrow> j < n \<Longrightarrow> n \<le> length xs \<Longrightarrow> rearranges n xs (exchange xs i j)"
  by (simp add: rearranges_def) (simp add: exchange_def)

lemma rearranges_nth: "rearranges n xs ys \<Longrightarrow> n \<le> k \<Longrightarrow> k < length xs \<Longrightarrow> ys ! k = xs ! k"
  unfolding rearranges_def by (metis hd_drop_conv_nth drop_drop le_add_diff_inverse2)

lemma rearranges_mset_take: "rearranges n xs ys \<Longrightarrow> mset (take n ys) = mset (take n xs)"
  unfolding rearranges_def
  by (metis append_take_drop_id mset_append add_right_cancel)

lemma rearranges_set_take: "rearranges n xs ys \<Longrightarrow> set (take n ys) = set (take n xs)"
  by (metis rearranges_mset_take set_mset_mset)

lemma swap_down_rearranges: "len \<le> length xs \<Longrightarrow> rearranges len xs (swap_down cmp len xs j)"
proof (induction cmp len xs j rule: swap_down.induct)
  case (1 cmp len xs j)
  define c where "c = larger_child cmp xs len (2 * j + 1)"
  show ?case
  proof (cases "len \<le> 2 * j + 1 \<or> cmp (xs ! c) (xs ! j)")
    case True
    then show ?thesis by (subst swap_down.simps) (auto simp: Let_def c_def)
  next
    case False
    have c: "c < len" "j < len" using larger_child_props [of "2 * j + 1" len cmp xs] False by (auto simp: c_def)
    have "rearranges len (exchange xs j c) (swap_down cmp len (exchange xs j c) c)"
      using 1(1) [OF _ c_def] False 1(2) by simp
    moreover have "rearranges len xs (exchange xs j c)" using c 1(2) by (intro rearranges_exchange)
    ultimately show ?thesis using False
      by (subst swap_down.simps) (auto simp: Let_def c_def [symmetric, simplified] intro: rearranges_trans)
  qed
qed

lemma swap_up_rearranges: "j < length xs \<Longrightarrow> rearranges (Suc j) xs (swap_up cmp xs j)"
proof (induction cmp xs j rule: swap_up.induct)
  case (1 cmp xs j)
  let ?p = "heap_parent j"
  show ?case
  proof (cases "0 < j \<and> cmp (xs ! ?p) (xs ! j)")
    case True
    then have p: "?p < j" by (simp add: heap_parent_less)
    then have "rearranges (Suc ?p) (exchange xs j ?p) (swap_up cmp (exchange xs j ?p) ?p)"
      using 1 True by simp
    then have "rearranges (Suc j) (exchange xs j ?p) (swap_up cmp (exchange xs j ?p) ?p)"
      by (rule rearranges_mono) (use p in simp)
    moreover have "rearranges (Suc j) xs (exchange xs j ?p)" using p 1(2) by (intro rearranges_exchange) simp_all
    ultimately show ?thesis using True by (subst swap_up.simps) (auto intro: rearranges_trans)
  qed (subst swap_up.simps, auto)
qed

lemma swap_floyd_props:
  assumes "2 * j + 1 < len" and "len \<le> length xs"
  shows "rearranges len xs (fst (swap_floyd cmp len xs j)) \<and>
    snd (swap_floyd cmp len xs j) < len \<and> len \<le> 2 * snd (swap_floyd cmp len xs j) + 1 \<and>
    fst (swap_floyd cmp len xs j) ! snd (swap_floyd cmp len xs j) = xs ! j \<and> 0 < snd (swap_floyd cmp len xs j)"
  using assms
proof (induction cmp len xs j rule: swap_floyd.induct)
  case (1 cmp len xs j)
  define c where "c = larger_child cmp xs len (2 * j + 1)"
  have c: "c < len" "j < c" using larger_child_props [of "2 * j + 1" len cmp xs] 1(2) by (auto simp: c_def)
  have ex: "rearranges len xs (exchange xs j c)" "exchange xs j c ! c = xs ! j"
    using c 1(3) by (simp_all add: rearranges_exchange nth_exchange)
  have eq: "swap_floyd cmp len xs j =
      (if len \<le> 2 * c + 1 then (exchange xs j c, c) else swap_floyd cmp len (exchange xs j c) c)"
    by (subst swap_floyd.simps) (simp add: Let_def c_def)
  show ?case
    unfolding eq using 1(1) [OF c_def refl] 1(3) ex c by (auto intro: rearranges_trans)
qed

lemma sift_down_rearranges [simp]:
  "len \<le> length xs \<Longrightarrow> start < length xs \<Longrightarrow> rearranges len xs (sift_down cmp xs len start)"
  by (simp add: sift_down_eq swap_down_rearranges)

lemma pop_heap_eq:
  assumes "1 < len" and "len \<le> length xs" and vs: "swap_floyd cmp len xs 0 = (vs, h)"
  shows "pop_heap cmp xs len = (if h = len - 1 then vs else swap_up cmp (exchange vs h (len - 1)) h)"
proof -
  obtain ys h' where f: "floyd_sift_down cmp len xs 0 = (ys, h')" by fastforce
  have v: "vs = ys[h := xs ! 0]" "h' = h"
    using floyd_sift_down_eq [of 0 len xs cmp "xs ! 0"] assms f by simp_all
  have len: "length ys = length xs" "h < len"
    using swap_floyd_props [of 0 len xs cmp] assms(1,2) vs v(1)
    by (auto simp: rearranges_def)
  show ?thesis
  proof (cases "h = len - 1")
    case True
    with assms(1) f v show ?thesis by (simp add: pop_heap_def Let_def)
  next
    case False
    then have e: "exchange vs h (len - 1) = ys[h := ys ! (len - 1), len - 1 := xs ! 0]"
      using len assms(2) unfolding v by (simp add: exchange_def)
    have "sift_up cmp (exchange vs h (len - 1)) (h + 1) = swap_up cmp (exchange vs h (len - 1)) h"
      using sift_up_eq [of "h + 1" "exchange vs h (len - 1)" cmp] len assms(2) v by simp
    with False assms(1) f v e show ?thesis by (simp add: pop_heap_def Let_def)
  qed
qed

section \<open>The siftings restore the heap order\<close>

text \<open>The order holds from s on, except that the element at j may be below its children.\<close>

definition broken_down :: "('a \<Rightarrow> 'a \<Rightarrow> bool) \<Rightarrow> nat \<Rightarrow> nat \<Rightarrow> nat \<Rightarrow> 'a list \<Rightarrow> bool" where
  "broken_down cmp s len j xs \<longleftrightarrow>
     (\<forall>i<len. 0 < i \<longrightarrow> s \<le> heap_parent i \<longrightarrow> heap_parent i \<noteq> j \<longrightarrow> \<not> cmp (xs ! heap_parent i) (xs ! i)) \<and>
     (\<forall>i<len. 0 < i \<longrightarrow> heap_parent i = j \<longrightarrow> 0 < j \<longrightarrow> s \<le> heap_parent j \<longrightarrow> \<not> cmp (xs ! heap_parent j) (xs ! i))"

text \<open>The order holds except that the element at j may be above its parent.\<close>

definition broken_up :: "('a \<Rightarrow> 'a \<Rightarrow> bool) \<Rightarrow> nat \<Rightarrow> nat \<Rightarrow> 'a list \<Rightarrow> bool" where
  "broken_up cmp len j xs \<longleftrightarrow>
     (\<forall>i<len. 0 < i \<longrightarrow> i \<noteq> j \<longrightarrow> \<not> cmp (xs ! heap_parent i) (xs ! i)) \<and>
     (\<forall>i<len. 0 < i \<longrightarrow> heap_parent i = j \<longrightarrow> 0 < j \<longrightarrow> \<not> cmp (xs ! heap_parent j) (xs ! i))"

context strict_weak
begin

lemma larger_child_max:
  assumes "2 * j + 1 < len" and "0 < i" and "i < len" and "heap_parent i = j"
  shows "\<not> lt (xs ! larger_child lt xs len (2 * j + 1)) (xs ! i)"
  using assms heap_parent_iff [of i j] irrefl asym by (auto simp: larger_child_def)

lemma broken_down_step:
  assumes "broken_down lt s len j xs" and "2 * j + 1 < len" and "len \<le> length xs"
    and c: "c = larger_child lt xs len (2 * j + 1)" and "\<not> lt (xs ! c) (xs ! j)"
  shows "broken_down lt s len c (exchange xs j c)"
proof -
  have cl: "c < len" "j < c" "heap_parent c = j"
    using larger_child_props [OF assms(2), of lt xs] heap_parent_iff [of c j] unfolding c [symmetric] by auto
  have nth: "exchange xs j c ! k = (if k = c then xs ! j else if k = j then xs ! c else xs ! k)" for k
    using cl assms(3) by (simp add: nth_exchange)
  have mx: "\<not> lt (xs ! c) (xs ! i)" if "0 < i" "i < len" "heap_parent i = j" for i
    using larger_child_max [OF assms(2) that] unfolding c .
  show ?thesis unfolding broken_down_def nth
    using assms(1,5) cl mx heap_parent_less unfolding broken_down_def
    by (auto; metis (no_types, lifting) heap_parent_less less_irrefl less_trans less_asym)
qed

lemma swap_down_heap:
  "broken_down lt s len j xs \<Longrightarrow> len \<le> length xs \<Longrightarrow> heap_from lt s len (swap_down lt len xs j)"
proof (induction "len - j" arbitrary: xs j rule: less_induct)
  case less
  define c where "c = larger_child lt xs len (2 * j + 1)"
  have eq: "swap_down lt len xs j = (if len \<le> 2 * j + 1 \<or> lt (xs ! c) (xs ! j) then xs
      else swap_down lt len (exchange xs j c) c)"
    by (subst swap_down.simps) (simp add: Let_def c_def)
  have kids: "len \<le> 2 * j + 1 \<Longrightarrow> 0 < i \<Longrightarrow> i < len \<Longrightarrow> heap_parent i \<noteq> j" for i
    using heap_parent_iff [of i j] by auto
  consider "len \<le> 2 * j + 1" | "2 * j + 1 < len" "lt (xs ! c) (xs ! j)" | "2 * j + 1 < len" "\<not> lt (xs ! c) (xs ! j)"
    by linarith
  then show ?case
  proof cases
    case 1
    with less(2) kids show ?thesis unfolding eq by (auto simp: heap_from_def broken_down_def)
  next
    case 2
    then have "\<not> lt (xs ! j) (xs ! i)" if "0 < i" "i < len" "heap_parent i = j" for i
      using larger_child_max [OF 2(1) that, of xs] asym [OF 2(2)] neg_trans unfolding c_def [symmetric] by blast
    with 2 less(2) show ?thesis unfolding eq by (auto simp: heap_from_def broken_down_def)
  next
    case 3
    have "j < c" using c_def larger_child_props [OF 3(1), of lt xs] by auto
    with 3 less(1) [of c "exchange xs j c"] broken_down_step [OF less(2) 3(1) less(3) c_def 3(2)] less(3)
    show ?thesis unfolding eq by simp
  qed
qed

lemma broken_up_step:
  assumes "broken_up lt len j xs" and "0 < j" and "j < len" and "len \<le> length xs"
    and "lt (xs ! heap_parent j) (xs ! j)"
  shows "broken_up lt len (heap_parent j) (exchange xs j (heap_parent j))"
proof -
  let ?p = "heap_parent j"
  have p: "?p < j" using assms(2) by (rule heap_parent_less)
  have nth: "exchange xs j ?p ! k = (if k = ?p then xs ! j else if k = j then xs ! ?p else xs ! k)" for k
    using p assms(3,4) by (simp add: nth_exchange)
  have a: "\<not> lt (xs ! heap_parent i) (xs ! i)" if "i < len" "0 < i" "i \<noteq> j" for i
    using assms(1) that by (simp add: broken_up_def)
  have b: "\<not> lt (xs ! ?p) (xs ! i)" if "i < len" "0 < i" "heap_parent i = j" for i
    using assms(1,2) that by (simp add: broken_up_def)
  have sib: "\<not> lt (xs ! j) (xs ! i)" if "i < len" "0 < i" "i \<noteq> j" "heap_parent i = ?p" for i
    using a [OF that(1-3)] assms(5) trans that(4) by metis
  have up: "\<not> lt (xs ! heap_parent ?p) (xs ! i)" if "i < len" "0 < i" "i \<noteq> j" "heap_parent i = ?p" "0 < ?p" for i
    using a [of ?p] a [OF that(1-3)] that p assms(3) neg_trans by (metis less_trans less_irrefl)
  show ?thesis unfolding broken_up_def nth
  proof (intro conjI allI impI)
    fix i assume i: "i < len" "0 < i" "i \<noteq> ?p"
    show "\<not> lt (if heap_parent i = ?p then xs ! j else if heap_parent i = j then xs ! ?p else xs ! heap_parent i)
        (if i = ?p then xs ! j else if i = j then xs ! ?p else xs ! i)"
      using i a [OF i(1,2)] b [OF i(1,2)] sib [OF i(1,2)] asym [OF assms(5)] by auto
  next
    fix i assume i: "i < len" "0 < i" "heap_parent i = ?p" "0 < ?p"
    have q: "heap_parent ?p < ?p" using i(4) by (rule heap_parent_less)
    show "\<not> lt (if heap_parent ?p = ?p then xs ! j else if heap_parent ?p = j then xs ! ?p else xs ! heap_parent ?p)
        (if i = ?p then xs ! j else if i = j then xs ! ?p else xs ! i)"
      using i q p a [of ?p] up [OF i(1,2) _ i(3,4)] assms(3) heap_parent_less [OF i(2)] by auto
  qed
qed

lemma swap_up_heap:
  "broken_up lt len j xs \<Longrightarrow> j < len \<Longrightarrow> len \<le> length xs \<Longrightarrow> heap_order lt len (swap_up lt xs j)"
proof (induction j arbitrary: xs rule: less_induct)
  case (less j)
  show ?case
  proof (cases "0 < j \<and> lt (xs ! heap_parent j) (xs ! j)")
    case True
    then have p: "heap_parent j < j" by (simp add: heap_parent_less)
    from True have "heap_order lt len (swap_up lt (exchange xs j (heap_parent j)) (heap_parent j))"
      using p less.prems broken_up_step [OF less.prems(1)] by (intro less.IH) simp_all
    with True show ?thesis by (subst swap_up.simps) simp
  next
    case False
    then have "swap_up lt xs j = xs" by (subst swap_up.simps) auto
    with False less.prems(1) show ?thesis by (auto simp: heap_from_def broken_up_def)
  qed
qed

text \<open>The order with the element at j, which Floyd's descent moves down unconditionally, left out.\<close>

definition hole_at :: "nat \<Rightarrow> nat \<Rightarrow> 'a list \<Rightarrow> bool" where
  "hole_at len j xs \<longleftrightarrow>
     (\<forall>i<len. 0 < i \<longrightarrow> heap_parent i \<noteq> j \<longrightarrow> i \<noteq> j \<longrightarrow> \<not> lt (xs ! heap_parent i) (xs ! i)) \<and>
     (\<forall>i<len. 0 < i \<longrightarrow> heap_parent i = j \<longrightarrow> 0 < j \<longrightarrow> \<not> lt (xs ! heap_parent j) (xs ! i))"

lemma hole_at_step:
  assumes "hole_at len j xs" and "2 * j + 1 < len" and "len \<le> length xs"
    and c: "c = larger_child lt xs len (2 * j + 1)"
  shows "hole_at len c (exchange xs j c)"
proof -
  have cl: "c < len" "j < c" "heap_parent c = j"
    using larger_child_props [OF assms(2), of lt xs] heap_parent_iff [of c j] unfolding c [symmetric] by auto
  have nth: "exchange xs j c ! k = (if k = c then xs ! j else if k = j then xs ! c else xs ! k)" for k
    using cl assms(3) by (simp add: nth_exchange)
  have mx: "\<not> lt (xs ! c) (xs ! i)" if "0 < i" "i < len" "heap_parent i = j" for i
    using larger_child_max [OF assms(2) that] unfolding c .
  show ?thesis unfolding hole_at_def nth
    using assms(1) cl mx unfolding hole_at_def
    by (auto; metis (no_types, lifting) heap_parent_less less_irrefl less_trans less_asym)
qed

lemma swap_floyd_hole:
  "hole_at len j xs \<Longrightarrow> 2 * j + 1 < len \<Longrightarrow> len \<le> length xs \<Longrightarrow>
   hole_at len (snd (swap_floyd lt len xs j)) (fst (swap_floyd lt len xs j))"
proof (induction "len - j" arbitrary: xs j rule: less_induct)
  case less
  define c where "c = larger_child lt xs len (2 * j + 1)"
  have eq: "swap_floyd lt len xs j =
      (if len \<le> 2 * c + 1 then (exchange xs j c, c) else swap_floyd lt len (exchange xs j c) c)"
    by (subst swap_floyd.simps) (simp add: Let_def c_def)
  have "j < c" using c_def larger_child_props [OF less(3), of lt xs] by auto
  with hole_at_step [OF less(2-4) c_def] less(1) [of c "exchange xs j c"] less(3,4) show ?case
    unfolding eq by simp
qed

section \<open>The operations\<close>

lemma heap_root_max: "heap_order lt len xs \<Longrightarrow> i < len \<Longrightarrow> \<not> lt (xs ! 0) (xs ! i)"
proof (induction i rule: less_induct)
  case (less i)
  show ?case
  proof (cases "i = 0")
    case False
    then have "heap_parent i < i" by (simp add: heap_parent_less)
    with False less have "\<not> lt (xs ! 0) (xs ! heap_parent i)" "\<not> lt (xs ! heap_parent i) (xs ! i)"
      by (auto simp: heap_from_def)
    then show ?thesis by (rule neg_trans)
  qed (simp add: irrefl)
qed

lemma heap_root_max_set:
  assumes "heap_order lt len xs" and "x \<in> set (take len xs)"
  shows "\<not> lt (xs ! 0) x"
  using assms heap_root_max [OF assms(1)] by (auto simp: in_set_conv_nth)

lemma push_heap_heap:
  assumes "heap_order lt (len - 1) xs" and "0 < len" and "len \<le> length xs"
  shows "heap_order lt len (push_heap lt xs len)" and "rearranges len xs (push_heap lt xs len)"
proof -
  have "broken_up lt len (len - 1) xs"
    using assms(1,2) heap_parent_less unfolding broken_up_def heap_from_def
    by (metis (no_types, lifting) Suc_leI Suc_pred' le_less_trans less_le not_less zero_le less_Suc_eq)
  with assms show "heap_order lt len (push_heap lt xs len)"
    by (simp add: push_heap_def sift_up_eq swap_up_heap)
  from assms swap_up_rearranges [of "len - 1" xs lt] show "rearranges len xs (push_heap lt xs len)"
    by (simp add: push_heap_def sift_up_eq)
qed

lemma pop_heap_heap:
  assumes "heap_order lt len xs" and "0 < len" and "len \<le> length xs"
  shows "heap_order lt (len - 1) (pop_heap lt xs len) \<and> rearranges len xs (pop_heap lt xs len) \<and>
    pop_heap lt xs len ! (len - 1) = xs ! 0"
proof (cases "1 < len")
  case True
  obtain vs h where f: "swap_floyd lt len xs 0 = (vs, h)" by fastforce
  have v: "rearranges len xs vs" "h < len" "len \<le> 2 * h + 1" "vs ! h = xs ! 0"
    using swap_floyd_props [of 0 len xs lt] True assms(3) f by auto
  have "hole_at len 0 xs" using assms(1) by (auto simp: hole_at_def heap_from_def)
  then have hole: "hole_at len h vs" using swap_floyd_hole [of len 0 xs] True assms(3) f by simp
  have lv: "length vs = length xs" using v(1) by (rule rearranges_length)
  show ?thesis
  proof (cases "h = len - 1")
    case True
    have "heap_order lt (len - 1) vs"
      unfolding heap_from_def
    proof (intro allI impI)
      fix i assume "i < len - 1" "0 < i"
      with True heap_parent_less [of i] hole show "\<not> lt (vs ! heap_parent i) (vs ! i)"
        by (simp add: hole_at_def)
    qed
    with True v \<open>1 < len\<close> f assms(3) show ?thesis by (simp add: pop_heap_eq)
  next
    case False
    let ?ws = "exchange vs h (len - 1)"
    have nth: "?ws ! k = (if k = len - 1 then vs ! h else if k = h then vs ! (len - 1) else vs ! k)" for k
      using v(2) assms(3) lv \<open>1 < len\<close> by (simp add: nth_exchange)
    have hl: "h < len - 1" using False v(2) by simp
    have "broken_up lt (len - 1) h ?ws"
      unfolding broken_up_def nth using hole hl v(3) heap_parent_less heap_parent_iff [of _ h]
      unfolding hole_at_def by (auto; metis (no_types, lifting) less_irrefl less_trans Suc_lessD Suc_pred less_imp_diff_less)
    then have "heap_order lt (len - 1) (swap_up lt ?ws h)"
      using hl assms(3) lv by (intro swap_up_heap) simp_all
    moreover have sr: "rearranges (Suc h) ?ws (swap_up lt ?ws h)"
      using v(2) assms(3) lv by (intro swap_up_rearranges) simp
    moreover have "rearranges len vs ?ws" using v(2) assms(3) lv \<open>1 < len\<close> by (intro rearranges_exchange) simp_all
    moreover have "swap_up lt ?ws h ! (len - 1) = xs ! 0"
      using rearranges_nth [OF sr, of "len - 1"] hl assms(3) lv \<open>1 < len\<close> nth [of "len - 1"] v(4) by simp
    moreover have "pop_heap lt xs len = swap_up lt ?ws h"
      using False \<open>1 < len\<close> f assms(3) by (simp add: pop_heap_eq)
    ultimately show ?thesis using v(1) hl
      by (metis rearranges_mono rearranges_trans Suc_leI v(2))
  qed
next
  case False
  with assms show ?thesis by (cases len) (auto simp: pop_heap_def heap_from_def)
qed

lemma sift_down_heap:
  assumes "heap_from lt (Suc s) len xs" and "s < length xs" and "len \<le> length xs"
  shows "heap_from lt s len (sift_down lt xs len s)"
proof -
  have "broken_down lt s len s xs"
    using assms(1) heap_parent_less unfolding broken_down_def heap_from_def
    by (metis Suc_leI le_neq_implies_less not_less)
  with assms(2,3) show ?thesis by (simp add: sift_down_eq swap_down_heap)
qed

lemma make_heap_loop_heap:
  "heap_from lt (Suc s) n xs \<Longrightarrow> s < length xs \<Longrightarrow> n \<le> length xs \<Longrightarrow>
   heap_order lt n (make_heap_loop lt n s xs) \<and> rearranges n xs (make_heap_loop lt n s xs)"
proof (induction s arbitrary: xs)
  case 0
  then show ?case by (simp add: sift_down_heap)
next
  case (Suc s)
  let ?ys = "sift_down lt xs n (Suc s)"
  have r: "rearranges n xs ?ys" using Suc.prems by simp
  have "heap_order lt n (make_heap_loop lt n s ?ys) \<and> rearranges n ?ys (make_heap_loop lt n s ?ys)"
    using Suc.prems rearranges_length [OF r] by (intro Suc.IH sift_down_heap) simp_all
  with r show ?case by (auto intro: rearranges_trans)
qed

lemma make_heap_heap:
  assumes "n \<le> length xs"
  shows "heap_order lt n (make_heap lt xs n) \<and> rearranges n xs (make_heap lt xs n)"
proof (cases "1 < n")
  case True
  have "heap_from lt (Suc ((n - 2) div 2)) n xs"
    unfolding heap_from_def heap_parent_def using True by presburger
  with True assms show ?thesis using make_heap_loop_heap [of "(n - 2) div 2" n xs] by (simp add: make_heap_def)
qed (auto simp: make_heap_def heap_from_def)

text \<open>Every element from n up to m is not below any element before it.\<close>

definition topped :: "nat \<Rightarrow> nat \<Rightarrow> 'a list \<Rightarrow> bool" where
  "topped n m xs \<longleftrightarrow> (\<forall>j. n \<le> j \<longrightarrow> j < m \<longrightarrow> (\<forall>x\<in>set (take j xs). \<not> lt (xs ! j) x))"

lemma topped_sorted: "topped 0 m xs \<Longrightarrow> m \<le> length xs \<Longrightarrow> sorted_by lt (take m xs)"
  unfolding sorted_by_def sorted_wrt_iff_nth_less
proof (intro allI impI)
  fix i j assume t: "topped 0 m xs" "m \<le> length xs" and ij: "i < j" "j < length (take m xs)"
  then have "take j xs ! i \<in> set (take j xs)" by (intro nth_mem) simp
  with t ij show "\<not> lt (take m xs ! j) (take m xs ! i)" by (simp add: topped_def)
qed

lemma sort_heap_topped:
  "heap_order lt n xs \<Longrightarrow> n \<le> m \<Longrightarrow> m \<le> length xs \<Longrightarrow> topped n m xs \<Longrightarrow>
   topped 0 m (sort_heap lt xs n) \<and> rearranges n xs (sort_heap lt xs n)"
proof (induction n arbitrary: xs)
  case (Suc n)
  show ?case
  proof (cases "n = 0")
    case True
    with Suc.prems show ?thesis by (auto simp: topped_def) (metis Suc_leI gr0I take_0 empty_iff empty_set)
  next
    case False
    define ys where "ys = pop_heap lt xs (Suc n)"
    have y: "heap_order lt n ys" "rearranges (Suc n) xs ys" "ys ! n = xs ! 0"
      using pop_heap_heap [OF Suc.prems(1)] Suc.prems(2,3) unfolding ys_def by simp_all
    have ly: "length ys = length xs" using y(2) by (rule rearranges_length)
    have "topped n m ys"
      unfolding topped_def
    proof (intro allI impI ballI)
      fix j x assume j: "n \<le> j" "j < m" and x: "x \<in> set (take j ys)"
      show "\<not> lt (ys ! j) x"
      proof (cases "j = n")
        case True
        have "x \<in> set (take (Suc n) ys)" using x True set_take_subset_set_take [of n "Suc n" ys] by auto
        then have "x \<in> set (take (Suc n) xs)" by (simp add: rearranges_set_take [OF y(2)])
        with True y(3) heap_root_max_set [OF Suc.prems(1)] show ?thesis by simp
      next
        case False
        then have jn: "Suc n \<le> j" using j(1) by simp
        have "x \<in> set (take j xs)" using x rearranges_set_take [OF rearranges_mono [OF y(2) jn]] by simp
        moreover have "ys ! j = xs ! j" using rearranges_nth [OF y(2) jn] j(2) Suc.prems(3) by simp
        ultimately show ?thesis using Suc.prems(4) jn j(2) by (simp add: topped_def)
      qed
    qed
    with Suc.IH [of ys] y(1) Suc.prems(2,3) ly
    have "topped 0 m (sort_heap lt ys n) \<and> rearranges n ys (sort_heap lt ys n)" by simp
    with False y(2) show ?thesis
      using rearranges_mono [of n ys "sort_heap lt ys n" "Suc n"]
      by (auto simp: ys_def [symmetric] intro: rearranges_trans)
  qed
qed (simp add: topped_def)

lemma sort_heap_sorted:
  assumes "heap_order lt n xs" and "n \<le> length xs"
  shows "sorted_by lt (take n (sort_heap lt xs n))" and "rearranges n xs (sort_heap lt xs n)"
  using sort_heap_topped [OF assms(1) order_refl assms(2)] assms(2)
    topped_sorted [of n "sort_heap lt xs n"] rearranges_length [of n xs "sort_heap lt xs n"]
  by (auto simp: topped_def)

text \<open>The exchange of the root with a smaller element, as the partial sorts do it.\<close>

lemma sift_root:
  assumes "heap_order lt len xs" and "0 < len" and "len \<le> length xs" and "lt v (xs ! 0)"
  defines "ys \<equiv> sift_down lt (xs[0 := v]) len 0"
  shows "heap_order lt len ys" and "rearranges len (xs[0 := v]) ys" and "\<not> lt (xs ! 0) (ys ! 0)"
proof -
  have "heap_from lt (Suc 0) len (xs[0 := v])"
    using assms(1) by (auto simp: heap_from_def nth_list_update)
  then show "heap_order lt len ys" unfolding ys_def using assms(2,3) by (intro sift_down_heap) auto
  show r: "rearranges len (xs[0 := v]) ys" unfolding ys_def using assms(2,3) by (intro sift_down_rearranges) auto
  have "ys ! 0 \<in> set (take len ys)"
    using rearranges_length [OF r] assms(2,3) by (auto simp: in_set_conv_nth intro!: exI [of _ 0])
  then have "ys ! 0 \<in> insert v (set (take len xs))"
    unfolding rearranges_set_take [OF r] take_update_swap using set_update_subset_insert by fastforce
  then show "\<not> lt (xs ! 0) (ys ! 0)"
    using heap_root_max_set [OF assms(1)] asym [OF assms(4)] by auto
qed

lemma partial_sort_scan_heap:
  "heap_order lt len xs \<Longrightarrow> 0 < len \<Longrightarrow> len \<le> i \<Longrightarrow> i \<le> lst \<Longrightarrow> lst \<le> length xs \<Longrightarrow>
   (\<And>k. len \<le> k \<Longrightarrow> k < i \<Longrightarrow> \<not> lt (xs ! k) (xs ! 0)) \<Longrightarrow>
   heap_order lt len (partial_sort_scan lt len lst i xs) \<and> rearranges lst xs (partial_sort_scan lt len lst i xs) \<and>
   (\<forall>k. len \<le> k \<longrightarrow> k < lst \<longrightarrow> \<not> lt (partial_sort_scan lt len lst i xs ! k) (partial_sort_scan lt len lst i xs ! 0))"
proof (induction "lst - i" arbitrary: i xs)
  case 0
  then have "partial_sort_scan lt len lst i xs = xs" by (subst partial_sort_scan.simps) simp
  with 0 show ?case by simp
next
  case (Suc d)
  define ys where "ys = (if lt (xs ! i) (xs ! 0) then sift_down lt (xs[i := xs ! 0, 0 := xs ! i]) len 0 else xs)"
  have il: "i < lst" using Suc.hyps(2) by simp
  have eq: "partial_sort_scan lt len lst i xs = partial_sort_scan lt len lst (i + 1) ys"
    by (subst partial_sort_scan.simps) (simp add: ys_def il)
  have "heap_order lt len ys \<and> rearranges lst xs ys \<and> (\<forall>k. len \<le> k \<longrightarrow> k < i + 1 \<longrightarrow> \<not> lt (ys ! k) (ys ! 0))"
  proof (cases "lt (xs ! i) (xs ! 0)")
    case True
    let ?zs = "xs[i := xs ! 0]"
    have zk: "?zs ! k = xs ! k" if "k < len" for k using that Suc.prems(3) by simp
    have h: "heap_order lt len ?zs"
      using Suc.prems(1) zk heap_parent_less less_trans unfolding heap_from_def by metis
    have z0: "?zs ! 0 = xs ! 0" using zk Suc.prems(2) .
    have sr: "heap_order lt len ys" "rearranges len (?zs[0 := xs ! i]) ys" "\<not> lt (xs ! 0) (ys ! 0)"
      using sift_root [OF h Suc.prems(2), of "xs ! i"] True Suc.prems(2-5) unfolding ys_def z0 by simp_all
    have ex: "?zs[0 := xs ! i] = exchange xs i 0" by (simp add: exchange_def)
    have "rearranges lst xs ys"
      using rearranges_exchange [of i lst 0 xs] rearranges_mono [OF sr(2), of lst] il Suc.prems(2-5)
      unfolding ex by (auto intro: rearranges_trans)
    moreover have "\<not> lt (ys ! k) (ys ! 0)" if k: "len \<le> k" "k < i + 1" for k
    proof -
      have "ys ! k = (if k = i then xs ! 0 else xs ! k)"
        using rearranges_nth [OF sr(2) k(1)] k Suc.prems(2,5) il by (auto simp: nth_list_update)
      with Suc.prems(6) [OF k(1)] k(2) sr(3) show ?thesis using neg_trans by (auto simp: less_Suc_eq)
    qed
    ultimately show ?thesis using sr(1) by simp
  next
    case False
    with Suc.prems show ?thesis by (auto simp: ys_def less_Suc_eq)
  qed
  then show ?case
    using Suc.hyps(1) [of "i + 1" ys] Suc.hyps(2) Suc.prems(2-5) rearranges_length [of lst xs ys]
    unfolding eq by (auto intro: rearranges_trans)
qed

lemma partial_sort_sorted:
  assumes "middle \<le> lst" and "lst \<le> length xs"
  shows "sorted_by lt (take middle (partial_sort lt xs middle lst)) \<and> rearranges lst xs (partial_sort lt xs middle lst) \<and>
    (\<forall>k x. middle \<le> k \<longrightarrow> k < lst \<longrightarrow> x \<in> set (take middle (partial_sort lt xs middle lst)) \<longrightarrow>
       \<not> lt (partial_sort lt xs middle lst ! k) x)"
proof (cases "middle = 0")
  case False
  define ys where "ys = make_heap lt xs middle"
  define zs where "zs = partial_sort_scan lt middle lst middle ys"
  define ws where "ws = sort_heap lt zs middle"
  have y: "heap_order lt middle ys" "rearranges middle xs ys"
    using make_heap_heap [of middle xs] assms by (simp_all add: ys_def)
  have ly: "length ys = length xs" using y(2) by (rule rearranges_length)
  have z: "heap_order lt middle zs" "rearranges lst ys zs"
      "\<And>k. middle \<le> k \<Longrightarrow> k < lst \<Longrightarrow> \<not> lt (zs ! k) (zs ! 0)"
    using partial_sort_scan_heap [OF y(1), of middle lst] False assms ly unfolding zs_def by auto
  have lz: "length zs = length xs" using rearranges_length [OF z(2)] ly by simp
  have w: "sorted_by lt (take middle ws)" "rearranges middle zs ws"
    using sort_heap_sorted [OF z(1)] assms lz by (simp_all add: ws_def)
  have "rearranges lst xs ws"
    using rearranges_mono [OF y(2) assms(1)] z(2) rearranges_mono [OF w(2) assms(1)] by (blast intro: rearranges_trans)
  moreover have "\<not> lt (ws ! k) x" if "middle \<le> k" "k < lst" "x \<in> set (take middle ws)" for k x
  proof -
    have "ws ! k = zs ! k" using rearranges_nth [OF w(2) that(1)] that(2) assms lz by simp
    moreover have "\<not> lt (zs ! 0) x" using heap_root_max_set [OF z(1)] that(3) rearranges_set_take [OF w(2)] by simp
    ultimately show ?thesis using z(3) [OF that(1,2)] neg_trans by simp
  qed
  ultimately show ?thesis
    using w(1) False by (simp add: partial_sort_def ys_def [symmetric] zs_def [symmetric] ws_def [symmetric])
qed (simp add: partial_sort_def)

lemma partial_sort_copy_scan_heap:
  "heap_order lt len res \<Longrightarrow> 0 < len \<Longrightarrow> len \<le> length res \<Longrightarrow>
   heap_order lt len (partial_sort_copy_scan lt len xs res) \<and> length (partial_sort_copy_scan lt len xs res) = length res \<and>
   drop len (partial_sort_copy_scan lt len xs res) = drop len res \<and>
   \<not> lt (res ! 0) (partial_sort_copy_scan lt len xs res ! 0) \<and>
   (\<exists>R. mset (take len res) + mset xs = mset (take len (partial_sort_copy_scan lt len xs res)) + R \<and>
        (\<forall>y\<in>#R. \<not> lt y (partial_sort_copy_scan lt len xs res ! 0)))"
proof (induction xs arbitrary: res)
  case (Cons x xs)
  define ys where "ys = (if lt x (res ! 0) then sift_down lt (res[0 := x]) len 0 else res)"
  define zs where "zs = partial_sort_copy_scan lt len xs ys"
  have y: "heap_order lt len ys \<and> length ys = length res \<and> drop len ys = drop len res \<and> \<not> lt (res ! 0) (ys ! 0) \<and>
      (\<exists>v. mset (take len res) + {#x#} = mset (take len ys) + {#v#} \<and> \<not> lt v (ys ! 0))"
  proof (cases "lt x (res ! 0)")
    case True
    note sr = sift_root [OF Cons.prems True]
    have "mset (take len (res[0 := x])) + {#res ! 0#} = mset (take len res) + {#x#}"
      using Cons.prems(2,3) by (cases res; cases len) simp_all
    with True sr(1,3) rearranges_mset_take [OF sr(2)] sr(2) Cons.prems(2) show ?thesis
      by (auto simp: ys_def rearranges_def intro!: exI [of _ "res ! 0"])
  next
    case False
    with Cons.prems(1) irrefl show ?thesis by (auto simp: ys_def intro!: exI [of _ x])
  qed
  then obtain v where v: "mset (take len res) + {#x#} = mset (take len ys) + {#v#}" "\<not> lt v (ys ! 0)" by blast
  obtain R where R: "mset (take len ys) + mset xs = mset (take len zs) + R" "\<forall>y\<in>#R. \<not> lt y (zs ! 0)"
      and z: "heap_order lt len zs" "length zs = length ys" "drop len zs = drop len ys" "\<not> lt (ys ! 0) (zs ! 0)"
    using Cons.IH [of ys] y Cons.prems(2,3) unfolding zs_def by auto
  have "mset (take len res) + mset (x # xs) = mset (take len zs) + (R + {#v#})"
    using v(1) R(1) by (simp add: union_ac) (metis add_mset_add_single union_commute union_assoc)
  moreover have "\<forall>y\<in>#R + {#v#}. \<not> lt y (zs ! 0)" using R(2) neg_trans [OF v(2) z(4)] by auto
  moreover have "\<not> lt (res ! 0) (zs ! 0)" using y z(4) neg_trans by blast
  moreover have "partial_sort_copy_scan lt len (x # xs) res = zs" by (simp add: zs_def ys_def)
  ultimately show ?case using y z by (metis (no_types))
qed (auto simp: irrefl)

lemma is_heap_until_loop_spec:
  "heap_order lt (min (2 * p + 1) len) xs \<Longrightarrow>
   is_heap_until_loop lt xs len p \<le> len \<and> heap_order lt (is_heap_until_loop lt xs len p) xs \<and>
   (is_heap_until_loop lt xs len p < len \<longrightarrow> \<not> heap_order lt (Suc (is_heap_until_loop lt xs len p)) xs)"
proof (induction "len - p" arbitrary: p rule: less_induct)
  case less
  let ?c = "2 * p + 1"
  have par: "heap_parent ?c = p" "heap_parent (?c + 1) = p" by (simp_all add: heap_parent_def)
  have grow: "heap_order lt (Suc n) xs \<longleftrightarrow> heap_order lt n xs \<and> (0 < n \<longrightarrow> \<not> lt (xs ! heap_parent n) (xs ! n))" for n
    by (auto simp: heap_from_def less_Suc_eq)
  show ?case
  proof (cases "?c < len \<and> \<not> lt (xs ! p) (xs ! ?c) \<and> ?c + 1 \<noteq> len \<and> \<not> lt (xs ! p) (xs ! (?c + 1))")
    case True
    then have "heap_order lt (min (2 * (p + 1) + 1) len) xs"
      using less.prems par grow [of ?c] grow [of "?c + 1"] by (simp add: min_def split: if_splits)
    moreover have "is_heap_until_loop lt xs len p = is_heap_until_loop lt xs len (p + 1)"
      using True by (subst is_heap_until_loop.simps) (simp add: Let_def)
    moreover have "len - (p + 1) < len - p" using True by auto
    ultimately show ?thesis using less.hyps [of "p + 1"] by simp
  next
    case False
    then have "is_heap_until_loop lt xs len p =
        (if ?c < len then if lt (xs ! p) (xs ! ?c) then ?c else if ?c + 1 = len then len else ?c + 1 else len)"
      by (subst is_heap_until_loop.simps) (auto simp: Let_def)
    with False less.prems par grow [of ?c] grow [of "?c + 1"] show ?thesis
      by (auto simp: min_def split: if_splits)
  qed
qed

end

lemma partial_sort_copy_fill_eq:
  "r \<le> length res \<Longrightarrow> k = min (length xs) (length res - r) \<Longrightarrow>
   partial_sort_copy_fill xs res r = (drop k xs, take r res @ take k xs @ drop (r + k) res, r + k)"
proof (induction xs res r arbitrary: k rule: partial_sort_copy_fill.induct)
  case (2 x xs res r)
  show ?case
  proof (cases "r < length res")
    case True
    define k' where "k' = min (length xs) (length res - Suc r)"
    have k: "k = Suc k'" using True 2(3) by (auto simp: k'_def min_def)
    have u: "take (Suc r) (res[r := x]) = take r res @ [x]"
      using True by (simp add: take_Suc_conv_app_nth)
    from 2(1) [OF True _, of k'] True show ?thesis
      by (simp add: k k'_def [symmetric] u)
  next
    case False
    with 2(2,3) show ?thesis by simp
  qed
qed simp

context strict_weak
begin

lemma partial_sort_copy_sorted:
  "case partial_sort_copy lt xs res of (ys, r) \<Rightarrow>
     r = min (length xs) (length res) \<and> length ys = length res \<and> sorted_by lt (take r ys) \<and> drop r ys = drop r res \<and>
     (\<exists>R. mset xs = mset (take r ys) + R \<and> (\<forall>y\<in>#R. \<forall>x\<in>set (take r ys). \<not> lt y x))"
proof (cases "res = []")
  case False
  define k where "k = min (length xs) (length res)"
  define fs where "fs = take k xs @ drop k res"
  define ys where "ys = make_heap lt fs k"
  define zs where "zs = partial_sort_copy_scan lt k (drop k xs) ys"
  define ws where "ws = sort_heap lt zs k"
  have eq: "partial_sort_copy lt xs res = (ws, k)"
    using False partial_sort_copy_fill_eq [of 0 res k xs]
    by (simp add: partial_sort_copy_def k_def [symmetric] fs_def [symmetric] ys_def [symmetric] zs_def [symmetric] ws_def)
  have k: "k \<le> length xs" "k \<le> length res" and f: "length fs = length res" "take k fs = take k xs" "drop k fs = drop k res"
    by (simp_all add: fs_def k_def)
  have y: "heap_order lt k ys" "rearranges k fs ys"
    using make_heap_heap [of k fs] f(1) k(2) by (simp_all add: ys_def)
  have my: "mset (take k ys) = mset (take k xs)" using rearranges_mset_take [OF y(2)] f(2) by simp
  have z: "heap_order lt k zs \<and> length zs = length res \<and> drop k zs = drop k res \<and>
      (\<exists>R. mset xs = mset (take k zs) + R \<and> (0 < k \<longrightarrow> (\<forall>y\<in>#R. \<not> lt y (zs ! 0))))"
  proof (cases "0 < k")
    case True
    have "mset (take k ys) + mset (drop k xs) = mset xs"
      unfolding my by (simp flip: mset_append)
    with partial_sort_copy_scan_heap [OF y(1) True, of "drop k xs"] y(2) f k(2) show ?thesis
      unfolding zs_def by (auto simp: rearranges_def)
  next
    case False
    then have "xs = []" using \<open>res \<noteq> []\<close> by (simp add: k_def min_def split: if_splits)
    with y f show ?thesis by (auto simp: zs_def rearranges_def)
  qed
  then obtain R where R: "mset xs = mset (take k zs) + R" "0 < k \<Longrightarrow> \<forall>y\<in>#R. \<not> lt y (zs ! 0)" by blast
  have w: "sorted_by lt (take k ws)" "rearranges k zs ws"
    using sort_heap_sorted [of k zs] z k(2) by (simp_all add: ws_def)
  have "\<not> lt y x" if "y \<in># R" "x \<in> set (take k ws)" for x y
  proof -
    have "x \<in> set (take k zs)" using that(2) rearranges_set_take [OF w(2)] by simp
    then show ?thesis
      using R(2) that(1) heap_root_max_set [of k zs x] z neg_trans by (cases "0 < k") auto
  qed
  with w z R(1) rearranges_mset_take [OF w(2)] show ?thesis
    unfolding eq k_def [symmetric] by (auto simp: rearranges_def)
qed (auto simp: partial_sort_copy_def)

end

section \<open>Properties\<close>

text \<open>
  C40. On a range whose first len elements are in heap order (no element above its parent),
  with any strict weak order: push_heap of len + 1 elements and pop_heap of len elements
  terminate and rearrange only the elements they are given; after push_heap all len + 1
  elements are in heap order; after pop_heap the first len - 1 are, and the former root,
  which is not below any of them, is in the last position. make_heap puts any range in heap
  order. \<open>is_heap_until\<close> returns the length of the longest prefix in heap order and
  \<open>is_heap\<close> decides heap order.
\<close>

theorem heap_operations_correct:
  assumes "strict_weak lt" and "len \<le> length xs"
  shows "(len < length xs \<and> heap_order lt len xs \<longrightarrow>
            heap_order lt (len + 1) (push_heap lt xs (len + 1)) \<and>
            mset (push_heap lt xs (len + 1)) = mset xs \<and>
            drop (len + 1) (push_heap lt xs (len + 1)) = drop (len + 1) xs)
       \<and> (0 < len \<and> heap_order lt len xs \<longrightarrow>
            heap_order lt (len - 1) (pop_heap lt xs len) \<and> pop_heap lt xs len ! (len - 1) = xs ! 0 \<and>
            (\<forall>x\<in>set (take len xs). \<not> lt (pop_heap lt xs len ! (len - 1)) x) \<and>
            mset (pop_heap lt xs len) = mset xs \<and> drop len (pop_heap lt xs len) = drop len xs)
       \<and> (heap_order lt len (make_heap lt xs len) \<and> mset (make_heap lt xs len) = mset xs \<and>
            drop len (make_heap lt xs len) = drop len xs)
       \<and> (is_heap_until lt xs len \<le> len \<and> heap_order lt (is_heap_until lt xs len) xs \<and>
            (is_heap_until lt xs len < len \<longrightarrow> \<not> heap_order lt (is_heap_until lt xs len + 1) xs))
       \<and> (is_heap_range lt xs len \<longleftrightarrow> heap_order lt len xs)"
proof -
  have push: "heap_order lt (len + 1) (push_heap lt xs (len + 1)) \<and> rearranges (len + 1) xs (push_heap lt xs (len + 1))"
    if "len < length xs" "heap_order lt len xs"
    using strict_weak.push_heap_heap [OF assms(1), of "len + 1" xs] that by simp
  have pop: "heap_order lt (len - 1) (pop_heap lt xs len) \<and> rearranges len xs (pop_heap lt xs len) \<and>
      pop_heap lt xs len ! (len - 1) = xs ! 0 \<and> (\<forall>x\<in>set (take len xs). \<not> lt (xs ! 0) x)"
    if "0 < len" "heap_order lt len xs"
    using strict_weak.pop_heap_heap [OF assms(1) that(2,1) assms(2)]
      strict_weak.heap_root_max_set [OF assms(1) that(2)] by blast
  have 0: "heap_order lt (min (2 * 0 + 1) len) xs" by (simp add: heap_from_def min_def)
  note u = strict_weak.is_heap_until_loop_spec [OF assms(1) 0, folded is_heap_until_def]
  have mono: "heap_order lt len xs \<Longrightarrow> m \<le> len \<Longrightarrow> heap_order lt m xs" for m
    by (simp add: heap_from_def)
  have "is_heap_range lt xs len \<longleftrightarrow> heap_order lt len xs"
    unfolding is_heap_range_def using u mono [of "Suc (is_heap_until lt xs len)"] by fastforce
  with push pop u strict_weak.make_heap_heap [OF assms] show ?thesis
    by (simp add: rearranges_def)
qed

theorem heap_operations_correct_witness:
  "mset (pop_heap cxx_less [9, 7, 8::int] 3) = mset [9, 7, 8]"
proof -
  have "heap_order cxx_less 3 [9, 7, 8::int]"
    by (simp add: heap_from_def heap_parent_def cxx_less_def numeral_eq_Suc All_less_Suc)
  moreover have "(3::nat) \<le> length [9, 7, 8::int]" "(0::nat) < 3" by simp_all
  ultimately show ?thesis
    using heap_operations_correct [OF less.strict_weak_axioms, of 3 "[9, 7, 8::int]"] by blast
qed

text \<open>
  C39. For any strict weak order, \<open>sort_heap\<close> of a heap sorts its elements in place;
  partial_sort(first, middle, last) leaves the smallest elements of the range sorted before
  middle, every element from middle to last being not below any of them, and changes nothing
  outside the range; partial_sort_copy fills min(m, n) positions of the result with the
  smallest elements of the input in sorted order (the remaining input R is not below any of
  them) and leaves the rest of the result as it was.
\<close>

theorem partial_sorts_correct:
  assumes "strict_weak lt"
  shows "(heap_order lt n xs \<and> n \<le> length xs \<longrightarrow>
            sorted_by lt (take n (sort_heap lt xs n)) \<and> mset (sort_heap lt xs n) = mset xs \<and>
            drop n (sort_heap lt xs n) = drop n xs)
       \<and> (middle \<le> lst \<and> lst \<le> length xs \<longrightarrow>
            sorted_by lt (take middle (partial_sort lt xs middle lst)) \<and>
            (\<forall>k x. middle \<le> k \<longrightarrow> k < lst \<longrightarrow> x \<in> set (take middle (partial_sort lt xs middle lst)) \<longrightarrow>
               \<not> lt (partial_sort lt xs middle lst ! k) x) \<and>
            mset (partial_sort lt xs middle lst) = mset xs \<and>
            drop lst (partial_sort lt xs middle lst) = drop lst xs)
       \<and> (case partial_sort_copy lt xs res of (ys, r) \<Rightarrow>
            r = min (length xs) (length res) \<and> length ys = length res \<and> sorted_by lt (take r ys) \<and>
            drop r ys = drop r res \<and>
            (\<exists>R. mset xs = mset (take r ys) + R \<and> (\<forall>y\<in>#R. \<forall>x\<in>set (take r ys). \<not> lt y x)))"
  using strict_weak.sort_heap_sorted [OF assms, of n xs] strict_weak.partial_sort_sorted [OF assms, of middle lst xs]
    strict_weak.partial_sort_copy_sorted [OF assms, of xs res]
  by (auto simp: rearranges_def)

theorem partial_sorts_correct_witness:
  "sorted (take 2 (partial_sort cxx_less [5, 3, 9, 1::int] 2 4))"
  using partial_sorts_correct [OF less.strict_weak_axioms, of 0 "[5, 3, 9, 1::int]" 2 4 "[]"]
  by (simp add: heap_from_def sorted_by_less)

end
