(* ===== verification/CxxCalendarFields.thy ===== *)
theory CxxCalendarFields
  imports CxxInts CxxRanges
begin

text \<open>
  The calendar fields of include/linux/c++/v1/__chrono: day.h, month.h, year.h, weekday.h,
  monthday.h, \<open>month_weekday.h\<close> and \<open>year_month.h\<close>. Each class is a record with its
  members at their width: day, month, weekday and the index of a weekday are unsigned char,
  year is short. The duration types days, months and years have an int representation; a value
  of one is its count. An operator that may overflow int returns an option. The overloads that
  take local_days instead of sys_days have the same bodies and share the definition; a postfix
  operator returns the old value beside the new one.
\<close>

section \<open>class day\<close>

record day = day_d :: u8

definition mk_day :: "int \<Rightarrow> day" where
  "mk_day val = \<lparr>day_d = word_of_int val\<rparr>"

definition day_unsigned :: "day \<Rightarrow> int" where
  "day_unsigned d = uint (day_d d)"

definition day_inc :: "day \<Rightarrow> day" where
  "day_inc d = d\<lparr>day_d := day_d d + 1\<rparr>"

definition day_post_inc :: "day \<Rightarrow> day \<times> day" where
  "day_post_inc d = (d, day_inc d)"

definition day_dec :: "day \<Rightarrow> day" where
  "day_dec d = d\<lparr>day_d := day_d d - 1\<rparr>"

definition day_post_dec :: "day \<Rightarrow> day \<times> day" where
  "day_post_dec d = (d, day_dec d)"

definition day_ok :: "day \<Rightarrow> bool" where
  "day_ok d \<longleftrightarrow> 1 \<le> uint (day_d d) \<and> uint (day_d d) \<le> 31"

definition day_eq :: "day \<Rightarrow> day \<Rightarrow> bool" where
  "day_eq lhs rhs \<longleftrightarrow> day_unsigned lhs = day_unsigned rhs"

definition day_cmp :: "day \<Rightarrow> day \<Rightarrow> strong_ordering" where
  "day_cmp lhs rhs = compare_with (day_unsigned lhs) (day_unsigned rhs)"

definition day_plus_days :: "day \<Rightarrow> int \<Rightarrow> day" where
  "day_plus_days lhs rhs = mk_day (uint32 (day_unsigned lhs + rhs))"

definition days_plus_day :: "int \<Rightarrow> day \<Rightarrow> day" where
  "days_plus_day lhs rhs = day_plus_days rhs lhs"

definition day_minus_days :: "day \<Rightarrow> int \<Rightarrow> day option" where
  "day_minus_days lhs rhs = do { n \<leftarrow> int32 (- rhs); Some (day_plus_days lhs n) }"

definition day_minus_day :: "day \<Rightarrow> day \<Rightarrow> int" where
  "day_minus_day lhs rhs = day_unsigned lhs - day_unsigned rhs"

definition day_add_assign :: "day \<Rightarrow> int \<Rightarrow> day" where
  "day_add_assign d dd = day_plus_days d dd"

definition day_sub_assign :: "day \<Rightarrow> int \<Rightarrow> day option" where
  "day_sub_assign d dd = day_minus_days d dd"

section \<open>class month\<close>

record month = month_m :: u8

definition mk_month :: "int \<Rightarrow> month" where
  "mk_month val = \<lparr>month_m = word_of_int val\<rparr>"

definition month_unsigned :: "month \<Rightarrow> int" where
  "month_unsigned m = uint (month_m m)"

definition month_ok :: "month \<Rightarrow> bool" where
  "month_ok m \<longleftrightarrow> 1 \<le> uint (month_m m) \<and> uint (month_m m) \<le> 12"

definition month_eq :: "month \<Rightarrow> month \<Rightarrow> bool" where
  "month_eq lhs rhs \<longleftrightarrow> month_unsigned lhs = month_unsigned rhs"

definition month_cmp :: "month \<Rightarrow> month \<Rightarrow> strong_ordering" where
  "month_cmp lhs rhs = compare_with (month_unsigned lhs) (month_unsigned rhs)"

definition month_plus_months :: "month \<Rightarrow> int \<Rightarrow> month option" where
  "month_plus_months lhs rhs = do {
     k \<leftarrow> int32 (rhs - 1);
     let mu = month_unsigned lhs + k;
     let yr = (if 0 \<le> mu then mu else mu - 11) sdiv 12;
     Some (mk_month (uint32 (mu - yr * 12 + 1))) }"

definition months_plus_month :: "int \<Rightarrow> month \<Rightarrow> month option" where
  "months_plus_month lhs rhs = month_plus_months rhs lhs"

definition month_minus_months :: "month \<Rightarrow> int \<Rightarrow> month option" where
  "month_minus_months lhs rhs = do { n \<leftarrow> int32 (- rhs); month_plus_months lhs n }"

definition month_minus_month :: "month \<Rightarrow> month \<Rightarrow> int" where
  "month_minus_month lhs rhs =
     (let dm = uint32 (month_unsigned lhs - month_unsigned rhs)
      in sint32 (if dm \<le> 11 then dm else uint32 (dm + 12)))"

definition month_add_assign :: "month \<Rightarrow> int \<Rightarrow> month option" where
  "month_add_assign m dm = month_plus_months m dm"

definition month_sub_assign :: "month \<Rightarrow> int \<Rightarrow> month option" where
  "month_sub_assign m dm = month_minus_months m dm"

definition month_inc :: "month \<Rightarrow> month option" where
  "month_inc m = month_add_assign m 1"

definition month_post_inc :: "month \<Rightarrow> (month \<times> month) option" where
  "month_post_inc m = map_option (Pair m) (month_inc m)"

definition month_dec :: "month \<Rightarrow> month option" where
  "month_dec m = month_sub_assign m 1"

definition month_post_dec :: "month \<Rightarrow> (month \<times> month) option" where
  "month_post_dec m = map_option (Pair m) (month_dec m)"

definition February :: month where
  "February = mk_month 2"

section \<open>class year\<close>

record year = year_y :: "16 word"

definition mk_year :: "int \<Rightarrow> year" where
  "mk_year val = \<lparr>year_y = word_of_int val\<rparr>"

definition year_int :: "year \<Rightarrow> int" where
  "year_int y = sint (year_y y)"

definition year_inc :: "year \<Rightarrow> year" where
  "year_inc y = y\<lparr>year_y := year_y y + 1\<rparr>"

definition year_post_inc :: "year \<Rightarrow> year \<times> year" where
  "year_post_inc y = (y, year_inc y)"

definition year_dec :: "year \<Rightarrow> year" where
  "year_dec y = y\<lparr>year_y := year_y y - 1\<rparr>"

definition year_post_dec :: "year \<Rightarrow> year \<times> year" where
  "year_post_dec y = (y, year_dec y)"

definition year_neg :: "year \<Rightarrow> year" where
  "year_neg y = mk_year (- year_int y)"

definition is_leap :: "year \<Rightarrow> bool" where
  "is_leap y \<longleftrightarrow> year_int y smod 4 = 0 \<and> (year_int y smod 100 \<noteq> 0 \<or> year_int y smod 400 = 0)"

definition year_min :: year where
  "year_min = mk_year (- 32767)"

definition year_max :: year where
  "year_max = mk_year 32767"

definition year_ok :: "year \<Rightarrow> bool" where
  "year_ok y \<longleftrightarrow> year_int year_min \<le> year_int y"

definition year_eq :: "year \<Rightarrow> year \<Rightarrow> bool" where
  "year_eq lhs rhs \<longleftrightarrow> year_int lhs = year_int rhs"

definition year_cmp :: "year \<Rightarrow> year \<Rightarrow> strong_ordering" where
  "year_cmp lhs rhs = compare_with (year_int lhs) (year_int rhs)"

definition year_plus_years :: "year \<Rightarrow> int \<Rightarrow> year option" where
  "year_plus_years lhs rhs = do { n \<leftarrow> int32 (year_int lhs + rhs); Some (mk_year n) }"

definition years_plus_year :: "int \<Rightarrow> year \<Rightarrow> year option" where
  "years_plus_year lhs rhs = year_plus_years rhs lhs"

definition year_minus_years :: "year \<Rightarrow> int \<Rightarrow> year option" where
  "year_minus_years lhs rhs = do { n \<leftarrow> int32 (- rhs); year_plus_years lhs n }"

definition year_minus_year :: "year \<Rightarrow> year \<Rightarrow> int" where
  "year_minus_year lhs rhs = year_int lhs - year_int rhs"

definition year_add_assign :: "year \<Rightarrow> int \<Rightarrow> year option" where
  "year_add_assign y dy = year_plus_years y dy"

definition year_sub_assign :: "year \<Rightarrow> int \<Rightarrow> year option" where
  "year_sub_assign y dy = year_minus_years y dy"

section \<open>class weekday, \<open>weekday_indexed\<close> and \<open>weekday_last\<close>\<close>

record weekday = weekday_wd :: u8

definition mk_weekday :: "int \<Rightarrow> weekday" where
  "mk_weekday val = \<lparr>weekday_wd = word_of_int (if val = 7 then 0 else val)\<rparr>"

definition weekday_from_days :: "int \<Rightarrow> (u8) option" where
  "weekday_from_days n =
     (if - 4 \<le> n then do { k \<leftarrow> int32 (n + 4); Some (word_of_int (uint32 (k smod 7))) }
      else do { k \<leftarrow> int32 (n + 5); Some (word_of_int (uint32 (k smod 7 + 6))) })"

definition weekday_of_sys_days :: "int \<Rightarrow> weekday option" where
  "weekday_of_sys_days sysd = map_option (\<lambda>w. \<lparr>weekday_wd = w\<rparr>) (weekday_from_days sysd)"

definition weekday_inc :: "weekday \<Rightarrow> weekday" where
  "weekday_inc w = w\<lparr>weekday_wd := (if weekday_wd w = 6 then 0 else weekday_wd w + 1)\<rparr>"

definition weekday_post_inc :: "weekday \<Rightarrow> weekday \<times> weekday" where
  "weekday_post_inc w = (w, weekday_inc w)"

definition weekday_dec :: "weekday \<Rightarrow> weekday" where
  "weekday_dec w = w\<lparr>weekday_wd := (if weekday_wd w = 0 then 6 else weekday_wd w - 1)\<rparr>"

definition weekday_post_dec :: "weekday \<Rightarrow> weekday \<times> weekday" where
  "weekday_post_dec w = (w, weekday_dec w)"

definition c_encoding :: "weekday \<Rightarrow> int" where
  "c_encoding w = uint (weekday_wd w)"

definition iso_encoding :: "weekday \<Rightarrow> int" where
  "iso_encoding w = (if weekday_wd w = 0 then 7 else uint (weekday_wd w))"

definition weekday_ok :: "weekday \<Rightarrow> bool" where
  "weekday_ok w \<longleftrightarrow> uint (weekday_wd w) \<le> 6"

definition weekday_eq :: "weekday \<Rightarrow> weekday \<Rightarrow> bool" where
  "weekday_eq lhs rhs \<longleftrightarrow> c_encoding lhs = c_encoding rhs"

definition weekday_plus_days :: "weekday \<Rightarrow> int \<Rightarrow> weekday" where
  "weekday_plus_days lhs rhs =
     (let mu = c_encoding lhs + rhs;
          yr = (if 0 \<le> mu then mu else mu - 6) sdiv 7
      in mk_weekday (uint32 (mu - yr * 7)))"

definition days_plus_weekday :: "int \<Rightarrow> weekday \<Rightarrow> weekday" where
  "days_plus_weekday lhs rhs = weekday_plus_days rhs lhs"

definition weekday_minus_days :: "weekday \<Rightarrow> int \<Rightarrow> weekday option" where
  "weekday_minus_days lhs rhs = do { n \<leftarrow> int32 (- rhs); Some (weekday_plus_days lhs n) }"

definition weekday_minus_weekday :: "weekday \<Rightarrow> weekday \<Rightarrow> int" where
  "weekday_minus_weekday lhs rhs =
     (let wdu = sint32 (uint32 (c_encoding lhs - c_encoding rhs));
          wk = (if 0 \<le> wdu then wdu else wdu - 6) sdiv 7
      in wdu - wk * 7)"

definition weekday_add_assign :: "weekday \<Rightarrow> int \<Rightarrow> weekday" where
  "weekday_add_assign w dd = weekday_plus_days w dd"

definition weekday_sub_assign :: "weekday \<Rightarrow> int \<Rightarrow> weekday option" where
  "weekday_sub_assign w dd = weekday_minus_days w dd"

record weekday_indexed = wdi_wd :: weekday  wdi_idx :: u8

definition mk_weekday_indexed :: "weekday \<Rightarrow> int \<Rightarrow> weekday_indexed" where
  "mk_weekday_indexed wdval idxval = \<lparr>wdi_wd = wdval, wdi_idx = word_of_int idxval\<rparr>"

definition wdi_index :: "weekday_indexed \<Rightarrow> int" where
  "wdi_index wdi = uint (wdi_idx wdi)"

definition wdi_ok :: "weekday_indexed \<Rightarrow> bool" where
  "wdi_ok wdi \<longleftrightarrow> weekday_ok (wdi_wd wdi) \<and> 1 \<le> uint (wdi_idx wdi) \<and> uint (wdi_idx wdi) \<le> 5"

definition wdi_eq :: "weekday_indexed \<Rightarrow> weekday_indexed \<Rightarrow> bool" where
  "wdi_eq lhs rhs \<longleftrightarrow> weekday_eq (wdi_wd lhs) (wdi_wd rhs) \<and> wdi_index lhs = wdi_index rhs"

record weekday_last = wdl_wd :: weekday

definition wdl_ok :: "weekday_last \<Rightarrow> bool" where
  "wdl_ok wdl \<longleftrightarrow> weekday_ok (wdl_wd wdl)"

definition wdl_eq :: "weekday_last \<Rightarrow> weekday_last \<Rightarrow> bool" where
  "wdl_eq lhs rhs \<longleftrightarrow> weekday_eq (wdl_wd lhs) (wdl_wd rhs)"

definition weekday_index :: "weekday \<Rightarrow> int \<Rightarrow> weekday_indexed" where
  "weekday_index w index = mk_weekday_indexed w index"

definition weekday_index_last :: "weekday \<Rightarrow> weekday_last" where
  "weekday_index_last w = \<lparr>wdl_wd = w\<rparr>"

section \<open>class \<open>month_day\<close> and \<open>month_day_last\<close>\<close>

record month_day = md_m :: month  md_d :: day

definition md_ok :: "month_day \<Rightarrow> bool" where
  "md_ok md =
     (if \<not> month_ok (md_m md) then False
      else let dval = day_unsigned (md_d md)
           in if dval < 1 \<or> 31 < dval then False
              else if dval \<le> 29 then True
              else let mval = month_unsigned (md_m md)
                   in if mval = 2 then False
                      else if mval = 4 \<or> mval = 6 \<or> mval = 9 \<or> mval = 11 then dval = 30
                      else True)"

definition md_eq :: "month_day \<Rightarrow> month_day \<Rightarrow> bool" where
  "md_eq lhs rhs \<longleftrightarrow> month_eq (md_m lhs) (md_m rhs) \<and> day_eq (md_d lhs) (md_d rhs)"

definition md_cmp :: "month_day \<Rightarrow> month_day \<Rightarrow> strong_ordering" where
  "md_cmp lhs rhs =
     (let c = month_cmp (md_m lhs) (md_m rhs)
      in if c \<noteq> SO_equal then c else day_cmp (md_d lhs) (md_d rhs))"

definition month_slash_day :: "month \<Rightarrow> day \<Rightarrow> month_day" where
  "month_slash_day lhs rhs = \<lparr>md_m = lhs, md_d = rhs\<rparr>"

definition day_slash_month :: "day \<Rightarrow> month \<Rightarrow> month_day" where
  "day_slash_month lhs rhs = month_slash_day rhs lhs"

definition month_slash_int :: "month \<Rightarrow> int \<Rightarrow> month_day" where
  "month_slash_int lhs rhs = month_slash_day lhs (mk_day rhs)"

definition int_slash_day :: "int \<Rightarrow> day \<Rightarrow> month_day" where
  "int_slash_day lhs rhs = month_slash_day (mk_month lhs) rhs"

definition day_slash_int :: "day \<Rightarrow> int \<Rightarrow> month_day" where
  "day_slash_int lhs rhs = month_slash_day (mk_month rhs) lhs"

record month_day_last = mdl_m :: month

definition mdl_ok :: "month_day_last \<Rightarrow> bool" where
  "mdl_ok mdl \<longleftrightarrow> month_ok (mdl_m mdl)"

definition mdl_eq :: "month_day_last \<Rightarrow> month_day_last \<Rightarrow> bool" where
  "mdl_eq lhs rhs \<longleftrightarrow> month_eq (mdl_m lhs) (mdl_m rhs)"

definition mdl_cmp :: "month_day_last \<Rightarrow> month_day_last \<Rightarrow> strong_ordering" where
  "mdl_cmp lhs rhs = month_cmp (mdl_m lhs) (mdl_m rhs)"

definition month_slash_last :: "month \<Rightarrow> month_day_last" where
  "month_slash_last lhs = \<lparr>mdl_m = lhs\<rparr>"

definition int_slash_last :: "int \<Rightarrow> month_day_last" where
  "int_slash_last lhs = \<lparr>mdl_m = mk_month lhs\<rparr>"

section \<open>class \<open>month_weekday\<close> and \<open>month_weekday_last\<close>\<close>

record month_weekday = mwd_m :: month  mwd_wdi :: weekday_indexed

definition mwd_ok :: "month_weekday \<Rightarrow> bool" where
  "mwd_ok mwd \<longleftrightarrow> month_ok (mwd_m mwd) \<and> wdi_ok (mwd_wdi mwd)"

definition mwd_eq :: "month_weekday \<Rightarrow> month_weekday \<Rightarrow> bool" where
  "mwd_eq lhs rhs \<longleftrightarrow> month_eq (mwd_m lhs) (mwd_m rhs) \<and> wdi_eq (mwd_wdi lhs) (mwd_wdi rhs)"

definition month_slash_wdi :: "month \<Rightarrow> weekday_indexed \<Rightarrow> month_weekday" where
  "month_slash_wdi lhs rhs = \<lparr>mwd_m = lhs, mwd_wdi = rhs\<rparr>"

definition int_slash_wdi :: "int \<Rightarrow> weekday_indexed \<Rightarrow> month_weekday" where
  "int_slash_wdi lhs rhs = \<lparr>mwd_m = mk_month lhs, mwd_wdi = rhs\<rparr>"

definition wdi_slash_month :: "weekday_indexed \<Rightarrow> month \<Rightarrow> month_weekday" where
  "wdi_slash_month lhs rhs = \<lparr>mwd_m = rhs, mwd_wdi = lhs\<rparr>"

definition wdi_slash_int :: "weekday_indexed \<Rightarrow> int \<Rightarrow> month_weekday" where
  "wdi_slash_int lhs rhs = \<lparr>mwd_m = mk_month rhs, mwd_wdi = lhs\<rparr>"

record month_weekday_last = mwdl_m :: month  mwdl_wdl :: weekday_last

definition mwdl_ok :: "month_weekday_last \<Rightarrow> bool" where
  "mwdl_ok mwdl \<longleftrightarrow> month_ok (mwdl_m mwdl) \<and> wdl_ok (mwdl_wdl mwdl)"

definition mwdl_eq :: "month_weekday_last \<Rightarrow> month_weekday_last \<Rightarrow> bool" where
  "mwdl_eq lhs rhs \<longleftrightarrow> month_eq (mwdl_m lhs) (mwdl_m rhs) \<and> wdl_eq (mwdl_wdl lhs) (mwdl_wdl rhs)"

definition month_slash_wdl :: "month \<Rightarrow> weekday_last \<Rightarrow> month_weekday_last" where
  "month_slash_wdl lhs rhs = \<lparr>mwdl_m = lhs, mwdl_wdl = rhs\<rparr>"

definition int_slash_wdl :: "int \<Rightarrow> weekday_last \<Rightarrow> month_weekday_last" where
  "int_slash_wdl lhs rhs = \<lparr>mwdl_m = mk_month lhs, mwdl_wdl = rhs\<rparr>"

definition wdl_slash_month :: "weekday_last \<Rightarrow> month \<Rightarrow> month_weekday_last" where
  "wdl_slash_month lhs rhs = \<lparr>mwdl_m = rhs, mwdl_wdl = lhs\<rparr>"

definition wdl_slash_int :: "weekday_last \<Rightarrow> int \<Rightarrow> month_weekday_last" where
  "wdl_slash_int lhs rhs = \<lparr>mwdl_m = mk_month rhs, mwdl_wdl = lhs\<rparr>"

section \<open>class \<open>year_month\<close>\<close>

record year_month = ym_y :: year  ym_m :: month

definition ym_ok :: "year_month \<Rightarrow> bool" where
  "ym_ok ym \<longleftrightarrow> year_ok (ym_y ym) \<and> month_ok (ym_m ym)"

definition year_slash_month :: "year \<Rightarrow> month \<Rightarrow> year_month" where
  "year_slash_month y m = \<lparr>ym_y = y, ym_m = m\<rparr>"

definition year_slash_int :: "year \<Rightarrow> int \<Rightarrow> year_month" where
  "year_slash_int y m = \<lparr>ym_y = y, ym_m = mk_month m\<rparr>"

definition ym_eq :: "year_month \<Rightarrow> year_month \<Rightarrow> bool" where
  "ym_eq lhs rhs \<longleftrightarrow> year_eq (ym_y lhs) (ym_y rhs) \<and> month_eq (ym_m lhs) (ym_m rhs)"

definition ym_cmp :: "year_month \<Rightarrow> year_month \<Rightarrow> strong_ordering" where
  "ym_cmp lhs rhs =
     (let c = year_cmp (ym_y lhs) (ym_y rhs)
      in if c \<noteq> SO_equal then c else month_cmp (ym_m lhs) (ym_m rhs))"

definition ym_plus_months :: "year_month \<Rightarrow> int \<Rightarrow> year_month option" where
  "ym_plus_months lhs rhs = do {
     dmi \<leftarrow> int32 (month_unsigned (ym_m lhs) - 1 + rhs);
     n \<leftarrow> (if 0 \<le> dmi then Some dmi else int32 (dmi - 11));
     let dy = n sdiv 12;
     dmi \<leftarrow> int32 (dmi - dy * 12 + 1);
     y \<leftarrow> year_plus_years (ym_y lhs) dy;
     Some (year_slash_month y (mk_month (uint32 dmi))) }"

definition months_plus_ym :: "int \<Rightarrow> year_month \<Rightarrow> year_month option" where
  "months_plus_ym lhs rhs = ym_plus_months rhs lhs"

definition ym_plus_years :: "year_month \<Rightarrow> int \<Rightarrow> year_month option" where
  "ym_plus_years lhs rhs = do { y \<leftarrow> year_plus_years (ym_y lhs) rhs; Some (year_slash_month y (ym_m lhs)) }"

definition years_plus_ym :: "int \<Rightarrow> year_month \<Rightarrow> year_month option" where
  "years_plus_ym lhs rhs = ym_plus_years rhs lhs"

text \<open>
  The difference of the years is a years duration; its sum with a months duration is in months,
  a year counting twelve of them.
\<close>

definition ym_minus_ym :: "year_month \<Rightarrow> year_month \<Rightarrow> int" where
  "ym_minus_ym lhs rhs =
     year_minus_year (ym_y lhs) (ym_y rhs) * 12 +
     sint32 (uint32 (month_unsigned (ym_m lhs) - month_unsigned (ym_m rhs)))"

definition ym_minus_months :: "year_month \<Rightarrow> int \<Rightarrow> year_month option" where
  "ym_minus_months lhs rhs = do { n \<leftarrow> int32 (- rhs); ym_plus_months lhs n }"

definition ym_minus_years :: "year_month \<Rightarrow> int \<Rightarrow> year_month option" where
  "ym_minus_years lhs rhs = do { n \<leftarrow> int32 (- rhs); ym_plus_years lhs n }"

definition ym_add_months_assign :: "year_month \<Rightarrow> int \<Rightarrow> year_month option" where
  "ym_add_months_assign ym dm = ym_plus_months ym dm"

definition ym_sub_months_assign :: "year_month \<Rightarrow> int \<Rightarrow> year_month option" where
  "ym_sub_months_assign ym dm = ym_minus_months ym dm"

definition ym_add_years_assign :: "year_month \<Rightarrow> int \<Rightarrow> year_month option" where
  "ym_add_years_assign ym dy = ym_plus_years ym dy"

definition ym_sub_years_assign :: "year_month \<Rightarrow> int \<Rightarrow> year_month option" where
  "ym_sub_years_assign ym dy = ym_minus_years ym dy"

section \<open>Fields as numbers\<close>

lemma sdiv_floor_12: "(if 0 \<le> z then z else z - 11) sdiv 12 = z div (12::int)"
  by (rule sdiv_floor) simp_all

lemma sdiv_floor_7: "(if 0 \<le> z then z else z - 6) sdiv 7 = z div (7::int)"
  by (rule sdiv_floor) simp_all

lemma mk_day_unsigned [simp]: "day_unsigned (mk_day n) = n mod 256"
  by (simp add: day_unsigned_def mk_day_def)

lemma mk_month_unsigned [simp]: "month_unsigned (mk_month n) = n mod 256"
  by (simp add: month_unsigned_def mk_month_def)

lemma mk_year_int [simp]: "year_int (mk_year n) = wrap_signed 16 n"
  by (simp add: year_int_def mk_year_def)

lemma day_unsigned_bounds: "0 \<le> day_unsigned d \<and> day_unsigned d < 256"
  unfolding day_unsigned_def by (rule uint_u8_bounds)

lemma month_unsigned_bounds: "0 \<le> month_unsigned m \<and> month_unsigned m < 256"
  unfolding month_unsigned_def by (rule uint_u8_bounds)

lemma year_int_bounds: "- 32768 \<le> year_int y \<and> year_int y < 32768"
  unfolding year_int_def by (rule sint_s16_bounds)

lemma c_encoding_bounds: "0 \<le> c_encoding w \<and> c_encoding w < 256"
  unfolding c_encoding_def by (rule uint_u8_bounds)

lemma day_eqI: "day_unsigned d = day_unsigned e \<Longrightarrow> d = (e :: day)"
  by (cases d; cases e) (simp add: day_unsigned_def word_uint_eq_iff)

lemma month_eqI: "month_unsigned m = month_unsigned n \<Longrightarrow> m = (n :: month)"
  by (cases m; cases n) (simp add: month_unsigned_def word_uint_eq_iff)

lemma year_eqI: "year_int y = year_int z \<Longrightarrow> y = (z :: year)"
  by (cases y; cases z) (simp add: year_int_def signed_word_eqI)

lemma weekday_eqI: "c_encoding v = c_encoding w \<Longrightarrow> v = (w :: weekday)"
  by (cases v; cases w) (simp add: c_encoding_def word_uint_eq_iff)

lemma month_ok_iff: "month_ok m \<longleftrightarrow> 1 \<le> month_unsigned m \<and> month_unsigned m \<le> 12"
  by (simp add: month_ok_def month_unsigned_def)

lemma day_ok_iff: "day_ok d \<longleftrightarrow> 1 \<le> day_unsigned d \<and> day_unsigned d \<le> 31"
  by (simp add: day_ok_def day_unsigned_def)

lemma weekday_ok_iff: "weekday_ok w \<longleftrightarrow> c_encoding w \<le> 6"
  by (simp add: weekday_ok_def c_encoding_def)

lemma year_ok_iff: "year_ok y \<longleftrightarrow> - 32767 \<le> year_int y"
  by (simp add: year_ok_def year_min_def wrap_signed_def)

lemma c_encoding_mk: "0 \<le> n \<Longrightarrow> n < 7 \<Longrightarrow> c_encoding (mk_weekday n) = n"
  by (simp add: c_encoding_def mk_weekday_def)

lemma weekday_plus_encoding: "c_encoding (weekday_plus_days w n) = (c_encoding w + n) mod 7"
proof -
  have "weekday_plus_days w n = mk_weekday (uint32 ((c_encoding w + n) mod 7))"
    unfolding weekday_plus_days_def Let_def sdiv_floor_7 by (simp add: minus_div_mult_eq_mod)
  moreover have "uint32 ((c_encoding w + n) mod 7) = (c_encoding w + n) mod 7"
    by (intro wrap_unsigned_id) (simp_all add: order.strict_trans [OF pos_mod_bound])
  ultimately show ?thesis by (simp add: c_encoding_mk)
qed

lemma sint32_uint32: "in_signed 32 x \<Longrightarrow> sint32 (uint32 x) = x"
  using wrap_signed_id [of 32 x] unfolding wrap_signed_def wrap_unsigned_def by (simp add: mod_simps)

lemma weekday_minus_eq: "weekday_minus_weekday v w = (c_encoding v - c_encoding w) mod 7"
proof -
  have "sint32 (uint32 (c_encoding v - c_encoding w)) = c_encoding v - c_encoding w"
    using c_encoding_bounds [of v] c_encoding_bounds [of w] by (intro sint32_uint32) (simp add: in_signed_def)
  then show ?thesis unfolding weekday_minus_weekday_def Let_def sdiv_floor_7 by (simp add: minus_div_mult_eq_mod)
qed

lemma smod_7_floor:
  "- 4 \<le> n \<Longrightarrow> (n + 4) smod 7 = (n + 4) mod (7::int)"
  "n < - 4 \<Longrightarrow> (n + 5) smod 7 + 6 = (n + 4) mod (7::int)"
proof -
  show "- 4 \<le> n \<Longrightarrow> (n + 4) smod 7 = (n + 4) mod (7::int)"
    by (simp add: signed_modulo_int_def signed_divide_int_def sgn_if minus_div_mult_eq_mod)
  assume n: "n < - 4"
  have "(n + 5) smod 7 = - ((- n - 5) mod 7)"
    using n by (cases "n = - 5") (auto simp: signed_modulo_int_def signed_divide_int_def sgn_if
        minus_div_mult_eq_mod [symmetric])
  then show "(n + 5) smod 7 + 6 = (n + 4) mod 7" by presburger
qed

lemma weekday_of_sys_days_encoding:
  assumes "in_signed 32 n" and "n < 2 ^ 31 - 4"
  shows "\<exists>w. weekday_of_sys_days n = Some w \<and> c_encoding w = (n + 4) mod 7"
proof -
  have "in_signed 32 (n + 4)" "n < - 4 \<Longrightarrow> in_signed 32 (n + 5)"
    using assms by (auto simp: in_signed_def)
  moreover have "uint32 ((n + 4) mod 7) = (n + 4) mod 7"
    by (intro wrap_unsigned_id) (simp_all add: order.strict_trans [OF pos_mod_bound])
  moreover have "(n + 4) mod 7 mod 256 = (n + 4) mod 7"
    by (intro mod_pos_pos_trivial) (simp_all add: order.strict_trans [OF pos_mod_bound])
  ultimately show ?thesis
    by (auto simp: weekday_of_sys_days_def weekday_from_days_def smod_7_floor checked_Some c_encoding_def)
qed

lemma month_plus_unsigned:
  assumes "in_signed 32 n" and "- (2 ^ 31) < n"
  shows "\<exists>m'. month_plus_months m n = Some m' \<and> month_unsigned m' = (month_unsigned m + n - 1) mod 12 + 1"
proof -
  let ?k = "(month_unsigned m + n - 1) mod 12"
  have k: "0 \<le> ?k" "?k < 12" by simp_all
  have "in_signed 32 (n - 1)" using assms by (auto simp: in_signed_def)
  then have "month_plus_months m n = Some (mk_month (uint32 (?k + 1)))"
    unfolding month_plus_months_def sdiv_floor_12 Let_def
    by (simp add: checked_Some minus_div_mult_eq_mod add.commute add_diff_eq)
  moreover have "uint32 (?k + 1) = ?k + 1" using k by (intro wrap_unsigned_id) simp_all
  ultimately show ?thesis using k by simp
qed

lemma month_minus_unsigned:
  assumes "month_ok a" and "month_ok b"
  shows "month_minus_month a b = (month_unsigned a - month_unsigned b) mod 12"
proof (cases "month_unsigned b \<le> month_unsigned a")
  case True
  then have u: "uint32 (month_unsigned a - month_unsigned b) = month_unsigned a - month_unsigned b"
    using month_unsigned_bounds [of a] month_unsigned_bounds [of b] by (intro wrap_unsigned_id) simp_all
  from True assms show ?thesis
    by (simp add: month_minus_month_def Let_def u month_ok_iff wrap_signed_def)
next
  case False
  let ?x = "month_unsigned a - month_unsigned b"
  have x: "- 11 \<le> ?x" "?x < 0" using False assms by (auto simp: month_ok_iff)
  have u: "uint32 ?x = ?x + 2 ^ 32"
    unfolding wrap_unsigned_def using x by (intro mod_neg_small) simp_all
  have "uint32 (?x + 2 ^ 32 + 12) = ?x + 12"
    unfolding wrap_unsigned_def using x by (intro int_mod_pos_eq [where q = 1]) simp_all
  moreover have "?x mod 12 = ?x + 12" using x by (intro int_mod_pos_eq [where q = "- 1"]) simp_all
  ultimately show ?thesis using x by (simp add: month_minus_month_def Let_def u wrap_signed_def)
qed

text \<open>The number of months since year 0, by which the arithmetic on year/month is specified.\<close>

definition ym_number :: "year_month \<Rightarrow> int" where
  "ym_number ym = year_int (ym_y ym) * 12 + (month_unsigned (ym_m ym) - 1)"

lemma ym_plus_number:
  assumes "month_ok (ym_m ym)" and "in_signed 32 n"
    and range: "- 32768 * 12 \<le> ym_number ym + n" "ym_number ym + n < 32768 * 12"
  shows "\<exists>ym'. ym_plus_months ym n = Some ym' \<and> month_ok (ym_m ym') \<and> ym_number ym' = ym_number ym + n"
proof -
  define k where "k = month_unsigned (ym_m ym) - 1 + n"
  define y where "y = year_int (ym_y ym) + k div 12"
  have k: "k = k div 12 * 12 + k mod 12" "0 \<le> k mod 12" "k mod 12 < 12" by simp_all
  have r: "- 32768 * 12 \<le> year_int (ym_y ym) * 12 + k" "year_int (ym_y ym) * 12 + k < 32768 * 12"
    using range by (simp_all add: ym_number_def k_def algebra_simps)
  have y: "- 32768 \<le> y" "y < 32768" using r k unfolding y_def by linarith+
  have kb: "- (2 ^ 20) < k" "k < 2 ^ 20" using r year_int_bounds [of "ym_y ym"] by simp_all
  then have s: "in_signed 32 k" "in_signed 32 (k - 11)" "in_signed 32 (k mod 12 + 1)" "in_signed 32 y"
    using y k by (auto simp: in_signed_def)
  have d: "k - k div 12 * 12 + 1 = k mod 12 + 1" by (simp add: minus_div_mult_eq_mod)
  have "ym_plus_months ym n = Some (year_slash_month (mk_year y) (mk_month (uint32 (k mod 12 + 1))))"
    unfolding ym_plus_months_def k_def [symmetric] year_plus_years_def
    using s sdiv_floor_12 [of k] d by (cases "0 \<le> k") (simp_all add: checked_Some y_def Let_def)
  moreover have "uint32 (k mod 12 + 1) = k mod 12 + 1" using k by (intro wrap_unsigned_id) simp_all
  moreover have "wrap_signed 16 y = y" using y by (intro wrap_signed_id) (simp_all add: in_signed_def)
  ultimately show ?thesis using k
    by (auto simp: month_ok_iff ym_number_def year_slash_month_def y_def k_def)
qed

lemma ym_number_inject:
  assumes "month_ok (ym_m a)" and "month_ok (ym_m b)" and "ym_number a = ym_number b"
  shows "a = b"
proof -
  have "year_int (ym_y a) = year_int (ym_y b) \<and> month_unsigned (ym_m a) = month_unsigned (ym_m b)"
    using assms unfolding ym_number_def month_ok_iff by presburger
  then show ?thesis using year_eqI month_eqI by (cases a; cases b) fastforce
qed

lemma ym_minus_number: "ym_minus_ym a b = ym_number a - ym_number b"
proof -
  have "sint32 (uint32 (month_unsigned (ym_m a) - month_unsigned (ym_m b))) = month_unsigned (ym_m a) - month_unsigned (ym_m b)"
    using month_unsigned_bounds [of "ym_m a"] month_unsigned_bounds [of "ym_m b"]
    by (intro sint32_uint32) (simp add: in_signed_def)
  then show ?thesis by (simp add: ym_minus_ym_def year_minus_year_def ym_number_def algebra_simps)
qed

section \<open>Properties\<close>

text \<open>
  Weekday arithmetic is arithmetic modulo 7. For every count n of days since 1970-01-01
  (a Thursday) whose sum with 4 is an int, the weekday is valid and its encoding is (n + 4) mod
  7; for the last four values of int the conversion overflows. Adding days, subtracting days
  and the difference of two weekdays agree with that arithmetic for every stored byte, valid or
  not; the increment and decrement of a valid weekday are the addition of 1 and - 1.
\<close>

theorem weekday_arithmetic:
  assumes "in_signed 32 n"
  shows "(if n < 2 ^ 31 - 4
          then \<exists>w. weekday_of_sys_days n = Some w \<and> weekday_ok w \<and> c_encoding w = (n + 4) mod 7
          else weekday_of_sys_days n = None)
       \<and> c_encoding (weekday_plus_days v n) = (c_encoding v + n) mod 7
       \<and> (n \<noteq> - (2 ^ 31) \<longrightarrow> (\<exists>w. weekday_sub_assign v n = Some w \<and> c_encoding w = (c_encoding v - n) mod 7))
       \<and> weekday_minus_weekday u v = (c_encoding u - c_encoding v) mod 7
       \<and> (weekday_ok u \<longrightarrow> weekday_plus_days v (weekday_minus_weekday u v) = u)
       \<and> (weekday_ok v \<longrightarrow> weekday_inc v = weekday_plus_days v 1 \<and> weekday_dec v = weekday_plus_days v (- 1))"
proof -
  have none: "weekday_of_sys_days n = None" if "\<not> n < 2 ^ 31 - 4"
    using that by (simp add: weekday_of_sys_days_def weekday_from_days_def checked_def in_signed_def)
  have ok: "\<exists>w. weekday_of_sys_days n = Some w \<and> weekday_ok w \<and> c_encoding w = (n + 4) mod 7" if "n < 2 ^ 31 - 4"
  proof -
    from weekday_of_sys_days_encoding [OF assms that]
    obtain w where "weekday_of_sys_days n = Some w" "c_encoding w = (n + 4) mod 7" by blast
    moreover have "(n + 4) mod 7 < 7" by simp
    ultimately show ?thesis by (auto simp: weekday_ok_iff)
  qed
  have sub: "\<exists>w. weekday_sub_assign v n = Some w \<and> c_encoding w = (c_encoding v - n) mod 7" if "n \<noteq> - (2 ^ 31)"
    using that assms weekday_plus_encoding [of v "- n"]
    by (auto simp: weekday_sub_assign_def weekday_minus_days_def checked_def in_signed_def)
  have rt: "weekday_plus_days v (weekday_minus_weekday u v) = u" if "weekday_ok u"
  proof (rule weekday_eqI)
    show "c_encoding (weekday_plus_days v (weekday_minus_weekday u v)) = c_encoding u"
      using that c_encoding_bounds [of u] unfolding weekday_plus_encoding weekday_minus_eq
      by (simp add: mod_simps weekday_ok_iff)
  qed
  have step: "weekday_inc v = weekday_plus_days v 1 \<and> weekday_dec v = weekday_plus_days v (- 1)" if "weekday_ok v"
  proof
    have v: "uint (weekday_wd v) \<in> {0, 1, 2, 3, 4, 5, 6}"
      using that uint_u8_bounds [of "weekday_wd v"] unfolding weekday_ok_def insert_iff empty_iff by presburger
    have "c_encoding (weekday_inc v) = (c_encoding v + 1) mod 7"
      using v by (auto simp: c_encoding_def weekday_inc_def uint_word_ariths word_uint_eq_iff)
    then show "weekday_inc v = weekday_plus_days v 1" by (intro weekday_eqI) (simp add: weekday_plus_encoding)
    have "c_encoding (weekday_dec v) = (c_encoding v - 1) mod 7"
      using v by (auto simp: c_encoding_def weekday_dec_def uint_word_ariths word_uint_eq_iff)
    then show "weekday_dec v = weekday_plus_days v (- 1)" by (intro weekday_eqI) (simp add: weekday_plus_encoding)
  qed
  show ?thesis using none ok sub rt step by (simp add: weekday_plus_encoding weekday_minus_eq)
qed

theorem weekday_arithmetic_witness:
  "weekday_minus_weekday (mk_weekday 1) (mk_weekday 6) = 2"
  using weekday_arithmetic [of 0 "mk_weekday 6" "mk_weekday 1"]
  by (simp add: in_signed_def c_encoding_def mk_weekday_def)

text \<open>
  Month arithmetic wraps within the year and year/month arithmetic counts months. For every
  int n except the smallest, month + months(n) is a valid month, n steps around the year from
  the given one (any byte), and b + (a - b) = a for valid months. For a year/month with a valid
  month whose sum with n months stays within the years of a short, the sum is the year/month n
  months later, the difference of the two is n, and subtracting n from the result gives the
  first one back; the three-way comparison is the order of the month numbers.
\<close>

theorem month_arithmetic:
  assumes "in_signed 32 n" and "- (2 ^ 31) < n"
  shows "(\<exists>m'. month_add_assign m n = Some m' \<and> month_ok m' \<and> month_unsigned m' = (month_unsigned m + n - 1) mod 12 + 1)
       \<and> (month_ok a \<and> month_ok b \<longrightarrow> month_plus_months b (month_minus_month a b) = Some a)
       \<and> (month_ok (ym_m ym) \<and> - 32768 * 12 \<le> ym_number ym + n \<and> ym_number ym + n < 32768 * 12 \<longrightarrow>
            (\<exists>ym'. ym_plus_months ym n = Some ym' \<and> month_ok (ym_m ym') \<and> ym_number ym' = ym_number ym + n \<and>
                   ym_minus_ym ym' ym = n \<and> ym_sub_months_assign ym' n = Some ym))
       \<and> (month_ok (ym_m p) \<and> month_ok (ym_m q) \<longrightarrow> ym_cmp p q = compare_with (ym_number p) (ym_number q))"
proof (intro conjI impI)
  show "\<exists>m'. month_add_assign m n = Some m' \<and> month_ok m' \<and> month_unsigned m' = (month_unsigned m + n - 1) mod 12 + 1"
  proof -
    obtain m' where "month_plus_months m n = Some m'" "month_unsigned m' = (month_unsigned m + n - 1) mod 12 + 1"
      using month_plus_unsigned [OF assms] by blast
    moreover have "0 \<le> (month_unsigned m + n - 1) mod 12" "(month_unsigned m + n - 1) mod 12 < 12" by simp_all
    ultimately show ?thesis unfolding month_add_assign_def month_ok_iff by (intro exI [of _ m']) linarith
  qed
next
  assume ab: "month_ok a \<and> month_ok b"
  define d where "d = (month_unsigned a - month_unsigned b) mod 12"
  have d: "0 \<le> d" "d < 12" by (simp_all add: d_def)
  have "in_signed 32 d" "- (2 ^ 31) < d" using d unfolding in_signed_def by simp_all
  from month_plus_unsigned [OF this, of b]
  obtain m' where m: "month_plus_months b d = Some m'" "month_unsigned m' = (month_unsigned b + d - 1) mod 12 + 1"
    by blast
  have "(month_unsigned b + d - 1) mod 12 = (month_unsigned b - 1 + d) mod 12" by (simp add: algebra_simps)
  also have "\<dots> = (month_unsigned a - 1) mod 12" unfolding d_def mod_add_right_eq by simp
  also have "\<dots> = month_unsigned a - 1" using ab by (intro mod_pos_pos_trivial) (auto simp: month_ok_iff)
  finally have "m' = a" using m(2) by (intro month_eqI) simp
  with m(1) ab show "month_plus_months b (month_minus_month a b) = Some a" by (simp add: month_minus_unsigned d_def)
next
  assume h: "month_ok (ym_m ym) \<and> - 32768 * 12 \<le> ym_number ym + n \<and> ym_number ym + n < 32768 * 12"
  then obtain ym' where y: "ym_plus_months ym n = Some ym'" "month_ok (ym_m ym')" "ym_number ym' = ym_number ym + n"
    using ym_plus_number [OF _ assms(1), of ym] by blast
  have b: "- 32768 * 12 \<le> ym_number ym" "ym_number ym < 32768 * 12"
    using h year_int_bounds [of "ym_y ym"] by (auto simp: ym_number_def month_ok_iff)
  have "in_signed 32 (- n)" using assms by (auto simp: in_signed_def)
  then obtain z where "ym_plus_months ym' (- n) = Some z" "month_ok (ym_m z)" "ym_number z = ym_number ym"
    using ym_plus_number [OF y(2), of "- n"] y(3) b by auto
  moreover from this h have "z = ym" by (intro ym_number_inject) simp_all
  ultimately show "\<exists>ym'. ym_plus_months ym n = Some ym' \<and> month_ok (ym_m ym') \<and> ym_number ym' = ym_number ym + n \<and>
      ym_minus_ym ym' ym = n \<and> ym_sub_months_assign ym' n = Some ym"
    using y \<open>in_signed 32 (- n)\<close>
    by (auto simp: ym_sub_months_assign_def ym_minus_months_def checked_Some ym_minus_number)
next
  assume "month_ok (ym_m p) \<and> month_ok (ym_m q)"
  then show "ym_cmp p q = compare_with (ym_number p) (ym_number q)"
    by (auto simp: ym_cmp_def year_cmp_def month_cmp_def compare_with_def Let_def ym_number_def month_ok_iff)
qed

theorem month_arithmetic_witness:
  "\<exists>m'. month_add_assign (mk_month 11) (- 25) = Some m' \<and> month_unsigned m' = 10"
  using month_arithmetic [of "- 25" "mk_month 11" "mk_month 1" "mk_month 1" "year_slash_int (mk_year 0) 1"
      "year_slash_int (mk_year 0) 1" "year_slash_int (mk_year 0) 1"] by (auto simp: in_signed_def)

end
