(* ===== verification/CxxCalendar.thy ===== *)
theory CxxCalendar
  imports CxxCalendarFields
begin

text \<open>
  The dates of include/linux/c++/v1/__chrono: \<open>year_month_day.h\<close> and
  \<open>year_month_weekday.h\<close>. A \<open>sys_days\<close> or \<open>local_days\<close> value is its count of days since
  1970-01-01, an int; the two conversions have the same bodies and share a definition.
\<close>

section \<open>class \<open>year_month_day\<close>\<close>

record year_month_day = ymd_y :: year  ymd_m :: month  ymd_d :: day

definition mk_ymd :: "year \<Rightarrow> month \<Rightarrow> day \<Rightarrow> year_month_day" where
  "mk_ymd yval mval dval = \<lparr>ymd_y = yval, ymd_m = mval, ymd_d = dval\<rparr>"

definition ymd_from_days :: "int \<Rightarrow> year_month_day option" where
  "ymd_from_days d = do {
     z \<leftarrow> int32 (d + 719468);
     n \<leftarrow> (if 0 \<le> z then Some z else int32 (z - 146096));
     let era = n sdiv 146097;
     e \<leftarrow> int32 (era * 146097);
     r \<leftarrow> int32 (z - e);
     let doe = uint32 r;
     let yoe = uint32 (doe - doe div 1460 + doe div 36524 - doe div 146096) div 365;
     c \<leftarrow> int32 (era * 400);
     yr \<leftarrow> int32 (sint32 yoe + c);
     let doy = uint32 (doe - (365 * yoe + yoe div 4 - yoe div 100));
     let mp = uint32 (5 * doy + 2) div 153;
     let dy = uint32 (doy - uint32 (153 * mp + 2) div 5 + 1);
     let mth = uint32 (mp + (if mp < 10 then 3 else - 9));
     y \<leftarrow> int32 (yr + (if mth \<le> 2 then 1 else 0));
     Some (mk_ymd (mk_year y) (mk_month mth) (mk_day dy)) }"

definition ymd_to_days :: "year_month_day \<Rightarrow> int option" where
  "ymd_to_days ymd = do {
     yr \<leftarrow> int32 (year_int (ymd_y ymd) - (if month_cmp (ymd_m ymd) February \<noteq> SO_greater then 1 else 0));
     let mth = month_unsigned (ymd_m ymd);
     let dy = day_unsigned (ymd_d ymd);
     n \<leftarrow> (if 0 \<le> yr then Some yr else int32 (yr - 399));
     let era = n sdiv 400;
     e \<leftarrow> int32 (era * 400);
     r \<leftarrow> int32 (yr - e);
     let yoe = uint32 r;
     let doy = uint32 (uint32 (153 * (mth + (if 2 < mth then - 3 else 9)) + 2) div 5 + dy - 1);
     let doe = uint32 (yoe * 365 + yoe div 4 - yoe div 100 + doy);
     a \<leftarrow> int32 (era * 146097);
     b \<leftarrow> int32 (a + sint32 doe);
     int32 (b - 719468) }"

definition ymd_eq :: "year_month_day \<Rightarrow> year_month_day \<Rightarrow> bool" where
  "ymd_eq lhs rhs \<longleftrightarrow> year_eq (ymd_y lhs) (ymd_y rhs) \<and> month_eq (ymd_m lhs) (ymd_m rhs) \<and> day_eq (ymd_d lhs) (ymd_d rhs)"

definition ymd_cmp :: "year_month_day \<Rightarrow> year_month_day \<Rightarrow> strong_ordering" where
  "ymd_cmp lhs rhs =
     (let c = year_cmp (ymd_y lhs) (ymd_y rhs)
      in if c \<noteq> SO_equal then c
         else let c = month_cmp (ymd_m lhs) (ymd_m rhs)
              in if c \<noteq> SO_equal then c else day_cmp (ymd_d lhs) (ymd_d rhs))"

definition ym_slash_day :: "year_month \<Rightarrow> day \<Rightarrow> year_month_day" where
  "ym_slash_day lhs rhs = mk_ymd (ym_y lhs) (ym_m lhs) rhs"

definition ym_slash_int :: "year_month \<Rightarrow> int \<Rightarrow> year_month_day" where
  "ym_slash_int lhs rhs = ym_slash_day lhs (mk_day rhs)"

definition year_slash_md :: "year \<Rightarrow> month_day \<Rightarrow> year_month_day" where
  "year_slash_md lhs rhs = ym_slash_day (year_slash_month lhs (md_m rhs)) (md_d rhs)"

definition int_slash_md :: "int \<Rightarrow> month_day \<Rightarrow> year_month_day" where
  "int_slash_md lhs rhs = year_slash_md (mk_year lhs) rhs"

definition md_slash_year :: "month_day \<Rightarrow> year \<Rightarrow> year_month_day" where
  "md_slash_year lhs rhs = year_slash_md rhs lhs"

definition md_slash_int :: "month_day \<Rightarrow> int \<Rightarrow> year_month_day" where
  "md_slash_int lhs rhs = year_slash_md (mk_year rhs) lhs"

definition ymd_plus_months :: "year_month_day \<Rightarrow> int \<Rightarrow> year_month_day option" where
  "ymd_plus_months lhs rhs = do {
     ym \<leftarrow> ym_plus_months (year_slash_month (ymd_y lhs) (ymd_m lhs)) rhs;
     Some (ym_slash_day ym (ymd_d lhs)) }"

definition months_plus_ymd :: "int \<Rightarrow> year_month_day \<Rightarrow> year_month_day option" where
  "months_plus_ymd lhs rhs = ymd_plus_months rhs lhs"

definition ymd_minus_months :: "year_month_day \<Rightarrow> int \<Rightarrow> year_month_day option" where
  "ymd_minus_months lhs rhs = do { n \<leftarrow> int32 (- rhs); ymd_plus_months lhs n }"

definition ymd_plus_years :: "year_month_day \<Rightarrow> int \<Rightarrow> year_month_day option" where
  "ymd_plus_years lhs rhs = do {
     y \<leftarrow> year_plus_years (ymd_y lhs) rhs;
     Some (ym_slash_day (year_slash_month y (ymd_m lhs)) (ymd_d lhs)) }"

definition years_plus_ymd :: "int \<Rightarrow> year_month_day \<Rightarrow> year_month_day option" where
  "years_plus_ymd lhs rhs = ymd_plus_years rhs lhs"

definition ymd_minus_years :: "year_month_day \<Rightarrow> int \<Rightarrow> year_month_day option" where
  "ymd_minus_years lhs rhs = do { n \<leftarrow> int32 (- rhs); ymd_plus_years lhs n }"

definition ymd_add_months_assign :: "year_month_day \<Rightarrow> int \<Rightarrow> year_month_day option" where
  "ymd_add_months_assign ymd dm = ymd_plus_months ymd dm"

definition ymd_sub_months_assign :: "year_month_day \<Rightarrow> int \<Rightarrow> year_month_day option" where
  "ymd_sub_months_assign ymd dm = ymd_minus_months ymd dm"

definition ymd_add_years_assign :: "year_month_day \<Rightarrow> int \<Rightarrow> year_month_day option" where
  "ymd_add_years_assign ymd dy = ymd_plus_years ymd dy"

definition ymd_sub_years_assign :: "year_month_day \<Rightarrow> int \<Rightarrow> year_month_day option" where
  "ymd_sub_years_assign ymd dy = ymd_minus_years ymd dy"

section \<open>class \<open>year_month_day_last\<close>\<close>

record year_month_day_last = ymdl_y :: year  ymdl_mdl :: month_day_last

definition ymdl_month :: "year_month_day_last \<Rightarrow> month" where
  "ymdl_month ymdl = mdl_m (ymdl_mdl ymdl)"

definition ymdl_day :: "year_month_day_last \<Rightarrow> day" where
  "ymdl_day ymdl =
     (let d = [mk_day 31, mk_day 28, mk_day 31, mk_day 30, mk_day 31, mk_day 30,
               mk_day 31, mk_day 31, mk_day 30, mk_day 31, mk_day 30, mk_day 31]
      in if (\<not> month_eq (ymdl_month ymdl) February \<or> \<not> is_leap (ymdl_y ymdl)) \<and> month_ok (ymdl_month ymdl)
         then d ! nat (month_unsigned (ymdl_month ymdl) - 1)
         else mk_day 29)"

definition ymdl_ok :: "year_month_day_last \<Rightarrow> bool" where
  "ymdl_ok ymdl \<longleftrightarrow> year_ok (ymdl_y ymdl) \<and> mdl_ok (ymdl_mdl ymdl)"

definition ymdl_to_sys_days :: "year_month_day_last \<Rightarrow> int option" where
  "ymdl_to_sys_days ymdl =
     ymd_to_days (ym_slash_day (year_slash_month (ymdl_y ymdl) (ymdl_month ymdl)) (ymdl_day ymdl))"

definition ymdl_eq :: "year_month_day_last \<Rightarrow> year_month_day_last \<Rightarrow> bool" where
  "ymdl_eq lhs rhs \<longleftrightarrow> year_eq (ymdl_y lhs) (ymdl_y rhs) \<and> mdl_eq (ymdl_mdl lhs) (ymdl_mdl rhs)"

definition ymdl_cmp :: "year_month_day_last \<Rightarrow> year_month_day_last \<Rightarrow> strong_ordering" where
  "ymdl_cmp lhs rhs =
     (let c = year_cmp (ymdl_y lhs) (ymdl_y rhs)
      in if c \<noteq> SO_equal then c else mdl_cmp (ymdl_mdl lhs) (ymdl_mdl rhs))"

definition ym_slash_last :: "year_month \<Rightarrow> year_month_day_last" where
  "ym_slash_last lhs = \<lparr>ymdl_y = ym_y lhs, ymdl_mdl = \<lparr>mdl_m = ym_m lhs\<rparr>\<rparr>"

definition year_slash_mdl :: "year \<Rightarrow> month_day_last \<Rightarrow> year_month_day_last" where
  "year_slash_mdl lhs rhs = \<lparr>ymdl_y = lhs, ymdl_mdl = rhs\<rparr>"

definition int_slash_mdl :: "int \<Rightarrow> month_day_last \<Rightarrow> year_month_day_last" where
  "int_slash_mdl lhs rhs = \<lparr>ymdl_y = mk_year lhs, ymdl_mdl = rhs\<rparr>"

definition mdl_slash_year :: "month_day_last \<Rightarrow> year \<Rightarrow> year_month_day_last" where
  "mdl_slash_year lhs rhs = year_slash_mdl rhs lhs"

definition mdl_slash_int :: "month_day_last \<Rightarrow> int \<Rightarrow> year_month_day_last" where
  "mdl_slash_int lhs rhs = year_slash_mdl (mk_year rhs) lhs"

definition ymdl_plus_months :: "year_month_day_last \<Rightarrow> int \<Rightarrow> year_month_day_last option" where
  "ymdl_plus_months lhs rhs = do {
     ym \<leftarrow> ym_plus_months (year_slash_month (ymdl_y lhs) (ymdl_month lhs)) rhs;
     Some (ym_slash_last ym) }"

definition months_plus_ymdl :: "int \<Rightarrow> year_month_day_last \<Rightarrow> year_month_day_last option" where
  "months_plus_ymdl lhs rhs = ymdl_plus_months rhs lhs"

definition ymdl_minus_months :: "year_month_day_last \<Rightarrow> int \<Rightarrow> year_month_day_last option" where
  "ymdl_minus_months lhs rhs = do { n \<leftarrow> int32 (- rhs); ymdl_plus_months lhs n }"

definition ymdl_plus_years :: "year_month_day_last \<Rightarrow> int \<Rightarrow> year_month_day_last option" where
  "ymdl_plus_years lhs rhs = do {
     y \<leftarrow> year_plus_years (ymdl_y lhs) rhs;
     Some \<lparr>ymdl_y = y, ymdl_mdl = ymdl_mdl lhs\<rparr> }"

definition years_plus_ymdl :: "int \<Rightarrow> year_month_day_last \<Rightarrow> year_month_day_last option" where
  "years_plus_ymdl lhs rhs = ymdl_plus_years rhs lhs"

definition ymdl_minus_years :: "year_month_day_last \<Rightarrow> int \<Rightarrow> year_month_day_last option" where
  "ymdl_minus_years lhs rhs = do { n \<leftarrow> int32 (- rhs); ymdl_plus_years lhs n }"

definition ymdl_add_months_assign :: "year_month_day_last \<Rightarrow> int \<Rightarrow> year_month_day_last option" where
  "ymdl_add_months_assign ymdl dm = ymdl_plus_months ymdl dm"

definition ymdl_sub_months_assign :: "year_month_day_last \<Rightarrow> int \<Rightarrow> year_month_day_last option" where
  "ymdl_sub_months_assign ymdl dm = ymdl_minus_months ymdl dm"

definition ymdl_add_years_assign :: "year_month_day_last \<Rightarrow> int \<Rightarrow> year_month_day_last option" where
  "ymdl_add_years_assign ymdl dy = ymdl_plus_years ymdl dy"

definition ymdl_sub_years_assign :: "year_month_day_last \<Rightarrow> int \<Rightarrow> year_month_day_last option" where
  "ymdl_sub_years_assign ymdl dy = ymdl_minus_years ymdl dy"

definition ymd_of_ymdl :: "year_month_day_last \<Rightarrow> year_month_day" where
  "ymd_of_ymdl ymdl = mk_ymd (ymdl_y ymdl) (ymdl_month ymdl) (ymdl_day ymdl)"

definition ymd_ok :: "year_month_day \<Rightarrow> bool" where
  "ymd_ok ymd =
     (if \<not> year_ok (ymd_y ymd) \<or> \<not> month_ok (ymd_m ymd) then False
      else day_cmp (mk_day 1) (ymd_d ymd) \<noteq> SO_greater \<and>
           day_cmp (ymd_d ymd) (ymdl_day (ym_slash_last (year_slash_month (ymd_y ymd) (ymd_m ymd)))) \<noteq> SO_greater)"

section \<open>class \<open>year_month_weekday\<close>\<close>

record year_month_weekday = ymwd_y :: year  ymwd_m :: month  ymwd_wdi :: weekday_indexed

definition ymwd_ok :: "year_month_weekday \<Rightarrow> bool option" where
  "ymwd_ok w =
     (if \<not> year_ok (ymwd_y w) \<or> \<not> month_ok (ymwd_m w) \<or> \<not> wdi_ok (ymwd_wdi w) then Some False
      else if wdi_index (ymwd_wdi w) \<le> 4 then Some True
      else do {
        sysd \<leftarrow> ymd_to_days (ym_slash_int (year_slash_month (ymwd_y w) (ymwd_m w)) 1);
        first \<leftarrow> weekday_of_sys_days sysd;
        nth \<leftarrow> int32 (weekday_minus_weekday (wdi_wd (ymwd_wdi w)) first +
                 sint32 (uint32 (uint32 (wdi_index (ymwd_wdi w) - 1) * 7 + 1)));
        Some (uint32 nth \<le> day_unsigned (ymdl_day (ym_slash_last (year_slash_month (ymwd_y w) (ymwd_m w))))) })"

definition ymwd_from_days :: "int \<Rightarrow> year_month_weekday option" where
  "ymwd_from_days d = do {
     wd \<leftarrow> weekday_of_sys_days d;
     ymd \<leftarrow> ymd_from_days d;
     Some \<lparr>ymwd_y = ymd_y ymd, ymwd_m = ymd_m ymd,
           ymwd_wdi = weekday_index wd (uint32 (uint32 (day_unsigned (ymd_d ymd) - 1) div 7 + 1))\<rparr> }"

definition ymwd_to_days :: "year_month_weekday \<Rightarrow> int option" where
  "ymwd_to_days w = do {
     sysd \<leftarrow> ymd_to_days (ym_slash_int (year_slash_month (ymwd_y w) (ymwd_m w)) 1);
     first \<leftarrow> weekday_of_sys_days sysd;
     n \<leftarrow> int32 (weekday_minus_weekday (wdi_wd (ymwd_wdi w)) first +
            sint32 (uint32 (uint32 (wdi_index (ymwd_wdi w) - 1) * 7)));
     int32 (sysd + n) }"

definition ymwd_eq :: "year_month_weekday \<Rightarrow> year_month_weekday \<Rightarrow> bool" where
  "ymwd_eq lhs rhs \<longleftrightarrow>
     year_eq (ymwd_y lhs) (ymwd_y rhs) \<and> month_eq (ymwd_m lhs) (ymwd_m rhs) \<and> wdi_eq (ymwd_wdi lhs) (ymwd_wdi rhs)"

definition ym_slash_wdi :: "year_month \<Rightarrow> weekday_indexed \<Rightarrow> year_month_weekday" where
  "ym_slash_wdi lhs rhs = \<lparr>ymwd_y = ym_y lhs, ymwd_m = ym_m lhs, ymwd_wdi = rhs\<rparr>"

definition year_slash_mwd :: "year \<Rightarrow> month_weekday \<Rightarrow> year_month_weekday" where
  "year_slash_mwd lhs rhs = \<lparr>ymwd_y = lhs, ymwd_m = mwd_m rhs, ymwd_wdi = mwd_wdi rhs\<rparr>"

definition int_slash_mwd :: "int \<Rightarrow> month_weekday \<Rightarrow> year_month_weekday" where
  "int_slash_mwd lhs rhs = year_slash_mwd (mk_year lhs) rhs"

definition mwd_slash_year :: "month_weekday \<Rightarrow> year \<Rightarrow> year_month_weekday" where
  "mwd_slash_year lhs rhs = year_slash_mwd rhs lhs"

definition mwd_slash_int :: "month_weekday \<Rightarrow> int \<Rightarrow> year_month_weekday" where
  "mwd_slash_int lhs rhs = year_slash_mwd (mk_year rhs) lhs"

definition ymwd_plus_months :: "year_month_weekday \<Rightarrow> int \<Rightarrow> year_month_weekday option" where
  "ymwd_plus_months lhs rhs = do {
     ym \<leftarrow> ym_plus_months (year_slash_month (ymwd_y lhs) (ymwd_m lhs)) rhs;
     Some (ym_slash_wdi ym (ymwd_wdi lhs)) }"

definition months_plus_ymwd :: "int \<Rightarrow> year_month_weekday \<Rightarrow> year_month_weekday option" where
  "months_plus_ymwd lhs rhs = ymwd_plus_months rhs lhs"

definition ymwd_minus_months :: "year_month_weekday \<Rightarrow> int \<Rightarrow> year_month_weekday option" where
  "ymwd_minus_months lhs rhs = do { n \<leftarrow> int32 (- rhs); ymwd_plus_months lhs n }"

definition ymwd_plus_years :: "year_month_weekday \<Rightarrow> int \<Rightarrow> year_month_weekday option" where
  "ymwd_plus_years lhs rhs = do {
     y \<leftarrow> year_plus_years (ymwd_y lhs) rhs;
     Some \<lparr>ymwd_y = y, ymwd_m = ymwd_m lhs, ymwd_wdi = ymwd_wdi lhs\<rparr> }"

definition years_plus_ymwd :: "int \<Rightarrow> year_month_weekday \<Rightarrow> year_month_weekday option" where
  "years_plus_ymwd lhs rhs = ymwd_plus_years rhs lhs"

definition ymwd_minus_years :: "year_month_weekday \<Rightarrow> int \<Rightarrow> year_month_weekday option" where
  "ymwd_minus_years lhs rhs = do { n \<leftarrow> int32 (- rhs); ymwd_plus_years lhs n }"

definition ymwd_add_months_assign :: "year_month_weekday \<Rightarrow> int \<Rightarrow> year_month_weekday option" where
  "ymwd_add_months_assign w dm = ymwd_plus_months w dm"

definition ymwd_sub_months_assign :: "year_month_weekday \<Rightarrow> int \<Rightarrow> year_month_weekday option" where
  "ymwd_sub_months_assign w dm = ymwd_minus_months w dm"

definition ymwd_add_years_assign :: "year_month_weekday \<Rightarrow> int \<Rightarrow> year_month_weekday option" where
  "ymwd_add_years_assign w dy = ymwd_plus_years w dy"

definition ymwd_sub_years_assign :: "year_month_weekday \<Rightarrow> int \<Rightarrow> year_month_weekday option" where
  "ymwd_sub_years_assign w dy = ymwd_minus_years w dy"

section \<open>class \<open>year_month_weekday_last\<close>\<close>

record year_month_weekday_last = ymwdl_y :: year  ymwdl_m :: month  ymwdl_wdl :: weekday_last

definition ymwdl_ok :: "year_month_weekday_last \<Rightarrow> bool" where
  "ymwdl_ok w \<longleftrightarrow> year_ok (ymwdl_y w) \<and> month_ok (ymwdl_m w) \<and> wdl_ok (ymwdl_wdl w)"

definition ymwdl_to_days :: "year_month_weekday_last \<Rightarrow> int option" where
  "ymwdl_to_days w = do {
     lst \<leftarrow> ymdl_to_sys_days (ym_slash_last (year_slash_month (ymwdl_y w) (ymwdl_m w)));
     wd \<leftarrow> weekday_of_sys_days lst;
     int32 (lst - weekday_minus_weekday wd (wdl_wd (ymwdl_wdl w))) }"

definition ymwdl_eq :: "year_month_weekday_last \<Rightarrow> year_month_weekday_last \<Rightarrow> bool" where
  "ymwdl_eq lhs rhs \<longleftrightarrow>
     year_eq (ymwdl_y lhs) (ymwdl_y rhs) \<and> month_eq (ymwdl_m lhs) (ymwdl_m rhs) \<and> wdl_eq (ymwdl_wdl lhs) (ymwdl_wdl rhs)"

definition ym_slash_wdl :: "year_month \<Rightarrow> weekday_last \<Rightarrow> year_month_weekday_last" where
  "ym_slash_wdl lhs rhs = \<lparr>ymwdl_y = ym_y lhs, ymwdl_m = ym_m lhs, ymwdl_wdl = rhs\<rparr>"

definition year_slash_mwdl :: "year \<Rightarrow> month_weekday_last \<Rightarrow> year_month_weekday_last" where
  "year_slash_mwdl lhs rhs = \<lparr>ymwdl_y = lhs, ymwdl_m = mwdl_m rhs, ymwdl_wdl = mwdl_wdl rhs\<rparr>"

definition int_slash_mwdl :: "int \<Rightarrow> month_weekday_last \<Rightarrow> year_month_weekday_last" where
  "int_slash_mwdl lhs rhs = year_slash_mwdl (mk_year lhs) rhs"

definition mwdl_slash_year :: "month_weekday_last \<Rightarrow> year \<Rightarrow> year_month_weekday_last" where
  "mwdl_slash_year lhs rhs = year_slash_mwdl rhs lhs"

definition mwdl_slash_int :: "month_weekday_last \<Rightarrow> int \<Rightarrow> year_month_weekday_last" where
  "mwdl_slash_int lhs rhs = year_slash_mwdl (mk_year rhs) lhs"

definition ymwdl_plus_months :: "year_month_weekday_last \<Rightarrow> int \<Rightarrow> year_month_weekday_last option" where
  "ymwdl_plus_months lhs rhs = do {
     ym \<leftarrow> ym_plus_months (year_slash_month (ymwdl_y lhs) (ymwdl_m lhs)) rhs;
     Some (ym_slash_wdl ym (ymwdl_wdl lhs)) }"

definition months_plus_ymwdl :: "int \<Rightarrow> year_month_weekday_last \<Rightarrow> year_month_weekday_last option" where
  "months_plus_ymwdl lhs rhs = ymwdl_plus_months rhs lhs"

definition ymwdl_minus_months :: "year_month_weekday_last \<Rightarrow> int \<Rightarrow> year_month_weekday_last option" where
  "ymwdl_minus_months lhs rhs = do { n \<leftarrow> int32 (- rhs); ymwdl_plus_months lhs n }"

definition ymwdl_plus_years :: "year_month_weekday_last \<Rightarrow> int \<Rightarrow> year_month_weekday_last option" where
  "ymwdl_plus_years lhs rhs = do {
     y \<leftarrow> year_plus_years (ymwdl_y lhs) rhs;
     Some \<lparr>ymwdl_y = y, ymwdl_m = ymwdl_m lhs, ymwdl_wdl = ymwdl_wdl lhs\<rparr> }"

definition years_plus_ymwdl :: "int \<Rightarrow> year_month_weekday_last \<Rightarrow> year_month_weekday_last option" where
  "years_plus_ymwdl lhs rhs = ymwdl_plus_years rhs lhs"

definition ymwdl_minus_years :: "year_month_weekday_last \<Rightarrow> int \<Rightarrow> year_month_weekday_last option" where
  "ymwdl_minus_years lhs rhs = do { n \<leftarrow> int32 (- rhs); ymwdl_plus_years lhs n }"

definition ymwdl_add_months_assign :: "year_month_weekday_last \<Rightarrow> int \<Rightarrow> year_month_weekday_last option" where
  "ymwdl_add_months_assign w dm = ymwdl_plus_months w dm"

definition ymwdl_sub_months_assign :: "year_month_weekday_last \<Rightarrow> int \<Rightarrow> year_month_weekday_last option" where
  "ymwdl_sub_months_assign w dm = ymwdl_minus_months w dm"

definition ymwdl_add_years_assign :: "year_month_weekday_last \<Rightarrow> int \<Rightarrow> year_month_weekday_last option" where
  "ymwdl_add_years_assign w dy = ymwdl_plus_years w dy"

definition ymwdl_sub_years_assign :: "year_month_weekday_last \<Rightarrow> int \<Rightarrow> year_month_weekday_last option" where
  "ymwdl_sub_years_assign w dy = ymwdl_minus_years w dy"

section \<open>The Gregorian calendar\<close>

text \<open>The reference: leap years, month lengths and the next date, on plain integers.\<close>

definition leap :: "int \<Rightarrow> bool" where
  "leap y \<longleftrightarrow> 4 dvd y \<and> (\<not> 100 dvd y \<or> 400 dvd y)"

definition month_length :: "int \<Rightarrow> int \<Rightarrow> int" where
  "month_length y m = (if m = 2 then (if leap y then 29 else 28)
     else if m = 4 \<or> m = 6 \<or> m = 9 \<or> m = 11 then 30 else 31)"

definition valid_date :: "int \<Rightarrow> int \<Rightarrow> int \<Rightarrow> bool" where
  "valid_date y m d \<longleftrightarrow> 1 \<le> m \<and> m \<le> 12 \<and> 1 \<le> d \<and> d \<le> month_length y m"

definition next_date :: "int \<times> int \<times> int \<Rightarrow> int \<times> int \<times> int" where
  "next_date = (\<lambda>(y, m, d). if d < month_length y m then (y, m, d + 1)
     else if m < 12 then (y, m + 1, 1) else (y + 1, 1, 1))"

text \<open>The closed form of the count of days, with the year starting in March.\<close>

definition march_year :: "int \<Rightarrow> int" where
  "march_year yr = 365 * yr + yr div 4 - yr div 100 + yr div 400"

definition civil_days :: "int \<Rightarrow> int \<Rightarrow> int \<Rightarrow> int" where
  "civil_days y m d =
     march_year (if m \<le> 2 then y - 1 else y) + (153 * (m + (if 2 < m then - 3 else 9)) + 2) div 5 + d - 1 - 719468"

lemma march_year_Suc: "march_year y - march_year (y - 1) = (if leap y then 366 else 365)"
proof -
  have "y div k - (y - 1) div k = (if k dvd y then 1 else 0)" if "1 < k" for k :: int
  proof (cases "k dvd y")
    case True
    then obtain c where c: "y = k * c" by (rule dvdE)
    have "(k * c - 1) div k = c - 1" using that
      by (intro int_div_pos_eq [where r = "k - 1"]) (simp_all add: algebra_simps)
    with c that True show ?thesis by simp
  next
    case False
    then have "0 < y mod k" using that by (simp add: dvd_eq_mod_eq_0 order.strict_iff_order)
    moreover have "y mod k < k" "y = k * (y div k) + y mod k" using that by simp_all
    ultimately have "(y - 1) div k = y div k"
      by (intro int_div_pos_eq [where r = "y mod k - 1"]) (simp_all add: algebra_simps)
    with False show ?thesis by simp
  qed
  note step = this
  have dvds: "400 dvd y \<Longrightarrow> 100 dvd y" "100 dvd y \<Longrightarrow> 4 dvd y" by (auto elim: dvd_trans [rotated])
  have "march_year y - march_year (y - 1) =
      365 + (y div 4 - (y - 1) div 4) - (y div 100 - (y - 1) div 100) + (y div 400 - (y - 1) div 400)"
    by (simp only: march_year_def) (simp only: algebra_simps)
  also have "\<dots> = 365 + (if 4 dvd y then 1 else 0) - (if 100 dvd y then 1 else 0) + (if 400 dvd y then 1 else 0)"
    by (simp only: step [of 4, simplified] step [of 100, simplified] step [of 400, simplified])
  finally show ?thesis using dvds by (auto simp only: leap_def split: if_split)
qed

lemma month_cases: "1 \<le> m \<Longrightarrow> m \<le> 12 \<Longrightarrow>
    m = 1 \<or> m = 2 \<or> m = 3 \<or> m = 4 \<or> m = 5 \<or> m = 6 \<or> m = 7 \<or> m = 8 \<or> m = 9 \<or> m = 10 \<or> m = 11 \<or> m = (12::int)"
  by presburger

lemma civil_days_add: "civil_days y m (d + k) = civil_days y m d + k"
  by (simp add: civil_days_def)

lemma civil_days_month:
  assumes "1 \<le> m" and "m \<le> 12"
  shows "(if m < 12 then civil_days y (m + 1) 1 else civil_days (y + 1) 1 1) = civil_days y m 1 + month_length y m"
proof -
  have "march_year y = march_year (y - 1) + (if leap y then 366 else 365)" using march_year_Suc [of y] by simp
  with month_cases [OF assms] show ?thesis
    by (elim disjE) (simp_all add: civil_days_def month_length_def)
qed

text \<open>Each date is one day after the one before.\<close>

lemma civil_days_next:
  assumes "valid_date y m d"
  shows "(case next_date (y, m, d) of (y', m', d') \<Rightarrow> civil_days y' m' d' = civil_days y m d + 1 \<and> valid_date y' m' d')"
proof -
  have m: "1 \<le> m" "m \<le> 12" "1 \<le> d" "d \<le> month_length y m" using assms by (auto simp: valid_date_def)
  have pos: "1 \<le> month_length y' m'" for y' m' by (simp add: month_length_def)
  show ?thesis
  proof (cases "d < month_length y m")
    case True
    with m show ?thesis by (simp add: next_date_def civil_days_add valid_date_def)
  next
    case False
    then have "civil_days y m d = civil_days y m 1 + month_length y m - 1"
      using m civil_days_add [of y m 1 "d - 1"] by simp
    with False m pos civil_days_month [OF m(1,2), of y] show ?thesis
      by (auto simp: next_date_def valid_date_def split: if_splits)
  qed
qed

section \<open>Months in order\<close>

definition month_start :: "int \<Rightarrow> int" where
  "month_start k = civil_days (k div 12) (k mod 12 + 1) 1"

lemma month_start_Suc: "month_start (k + 1) = month_start k + month_length (k div 12) (k mod 12 + 1)"
proof -
  define y m where "y = k div 12" and "m = k mod 12 + 1"
  have k: "k = 12 * y + (m - 1)" "1 \<le> m" "m \<le> 12" by (auto simp: y_def m_def)
  have "month_start (k + 1) = (if m < 12 then civil_days y (m + 1) 1 else civil_days (y + 1) 1 1)"
  proof (cases "m < 12")
    case True
    then have "(k + 1) div 12 = y" "(k + 1) mod 12 = m"
      using k by (auto intro: int_div_pos_eq [where r = m] int_mod_pos_eq [where q = y])
    with True show ?thesis by (simp add: month_start_def)
  next
    case False
    then have "(k + 1) div 12 = y + 1" "(k + 1) mod 12 = 0"
      using k by (auto intro: int_div_pos_eq [where r = 0] int_mod_pos_eq [where q = "y + 1"])
    with False show ?thesis by (simp add: month_start_def)
  qed
  with civil_days_month [OF k(2,3), of y] show ?thesis
    by (simp add: month_start_def y_def m_def)
qed

lemma month_start_less:
  assumes "k < k'"
  shows "month_start k + month_length (k div 12) (k mod 12 + 1) \<le> month_start k'"
proof -
  have "month_start (k + 1) \<le> month_start (k + 1 + int n)" for n
  proof (induction n)
    case (Suc n)
    have "0 \<le> month_length y m" for y m by (simp add: month_length_def)
    then have "month_start (k + 1 + int n) \<le> month_start (k + 1 + int n + 1)"
      unfolding month_start_Suc [of "k + 1 + int n"] by simp
    with Suc show ?case by (simp add: add.assoc)
  qed simp
  from this [of "nat (k' - k - 1)"] assms show ?thesis by (simp add: month_start_Suc)
qed

lemma month_index_div:
  assumes "1 \<le> m" and "m \<le> (12::int)"
  shows "(12 * y + (m - 1)) div 12 = y" and "(12 * y + (m - 1)) mod 12 = m - 1"
  using assms by (auto intro: int_div_pos_eq [where r = "m - 1"] int_mod_pos_eq [where q = y])

lemma civil_month_start: "1 \<le> m \<Longrightarrow> m \<le> 12 \<Longrightarrow> civil_days y m d = month_start (12 * y + (m - 1)) + (d - 1)"
  unfolding month_start_def month_index_div using civil_days_add [of y m 1 "d - 1"] by simp

lemma civil_days_less:
  assumes "valid_date y m d" and "valid_date y' m' d'" and "12 * y + (m - 1) < 12 * y' + (m' - 1)"
  shows "civil_days y m d < civil_days y' m' d'"
proof -
  have v: "1 \<le> m" "m \<le> 12" "d \<le> month_length y m" "1 \<le> m'" "m' \<le> 12" "1 \<le> d'"
    using assms(1,2) by (auto simp: valid_date_def)
  have "month_start (12 * y + (m - 1)) + month_length y m \<le> month_start (12 * y' + (m' - 1))"
    using month_start_less [OF assms(3)] unfolding month_index_div [OF v(1,2)] by simp
  with v show ?thesis unfolding civil_month_start [OF v(1,2)] civil_month_start [OF v(4,5)] by simp
qed

text \<open>The count of days is strictly increasing in the date.\<close>

lemma civil_days_less_iff:
  assumes "valid_date y m d" and "valid_date y' m' d'"
  shows "civil_days y m d < civil_days y' m' d' \<longleftrightarrow> y < y' \<or> y = y' \<and> (m < m' \<or> m = m' \<and> d < d')"
proof -
  have v: "1 \<le> m" "m \<le> 12" "1 \<le> m'" "m' \<le> 12" using assms by (auto simp: valid_date_def)
  consider "12 * y + (m - 1) < 12 * y' + (m' - 1)" | "12 * y' + (m' - 1) < 12 * y + (m - 1)"
    | "12 * y + (m - 1) = 12 * y' + (m' - 1)" by linarith
  then show ?thesis
  proof cases
    case 1
    with civil_days_less [OF assms 1] v show ?thesis by linarith
  next
    case 2
    with civil_days_less [OF assms(2,1) 2] v show ?thesis by linarith
  next
    case 3
    then have "y = y'" using month_index_div(1) [OF v(1,2), of y] month_index_div(1) [OF v(3,4), of y'] by simp
    with 3 have "m = m'" by simp
    with \<open>y = y'\<close>
    show ?thesis by (simp add: civil_days_def)
  qed
qed

lemma civil_days_inject:
  assumes "valid_date y m d" and "valid_date y' m' d'" and "civil_days y m d = civil_days y' m' d'"
  shows "y = y' \<and> m = m' \<and> d = d'"
  using civil_days_less_iff [OF assms(1,2)] civil_days_less_iff [OF assms(2,1)] assms(3) by linarith

section \<open>The conversion to days computes the closed form\<close>

lemma march_year_era:
  "march_year yr = yr div 400 * 146097 + (365 * (yr mod 400) + yr mod 400 div 4 - yr mod 400 div 100)"
proof -
  define e r where "e = yr div 400" and "r = yr mod 400"
  have yr: "yr = 400 * e + r" by (simp add: e_def r_def)
  have "(400 * e + r) div 4 = 100 * e + r div 4" "(400 * e + r) div 100 = 4 * e + r div 100"
    using div_mult_self2 [of 4 r "100 * e"] div_mult_self2 [of 100 r "4 * e"] by (simp_all add: algebra_simps)
  then show ?thesis
    unfolding march_year_def e_def [symmetric] r_def [symmetric] by (simp add: yr)
qed

lemma month_offset_bounds:
  assumes "0 \<le> m" and "m < (256::int)"
  shows "0 \<le> (153 * (m + (if 2 < m then - 3 else 9)) + 2) div 5"
    and "(153 * (m + (if 2 < m then - 3 else 9)) + 2) div 5 < 8192"
    and "uint32 (153 * (m + (if 2 < m then - 3 else 9)) + 2) = 153 * (m + (if 2 < m then - 3 else 9)) + 2"
  using assms by (auto simp: wrap_unsigned_def)

lemma ymd_to_days_closed:
  "ymd_to_days ymd = Some (civil_days (year_int (ymd_y ymd)) (month_unsigned (ymd_m ymd)) (day_unsigned (ymd_d ymd)))"
proof -
  define y m d where "y = year_int (ymd_y ymd)" and "m = month_unsigned (ymd_m ymd)" and "d = day_unsigned (ymd_d ymd)"
  define yr where "yr = (if m \<le> 2 then y - 1 else y)"
  define o' where "o' = (153 * (m + (if 2 < m then - 3 else 9)) + 2) div 5"
  define e r where "e = yr div 400" and "r = yr mod 400"
  define b where "b = 365 * (r) + r div 4 - r div 100"
  have y: "- 32769 \<le> yr" "yr < 32768" using year_int_bounds [of "ymd_y ymd"] by (simp_all add: yr_def y_def)
  have m: "0 \<le> m" "m < 256" and d: "0 \<le> d" "d < 256"
    using month_unsigned_bounds [of "ymd_m ymd"] day_unsigned_bounds [of "ymd_d ymd"] by (simp_all add: m_def d_def)
  have era: "- 82 \<le> e" "e \<le> 81" 
    using e_def zdiv_mono1 [OF y(1), of 400] zdiv_mono1 [of yr 32767 400] y(2) by simp_all
  have r: "0 \<le> r" "r < 400" "yr - e * 400 = r"
    by (simp_all add: e_def r_def minus_div_mult_eq_mod)
  have b: "0 \<le> b" "b < 400 * 366" using r unfolding b_def by auto
  have o': "0 \<le> o'" "o' < 8192" "uint32 (153 * (m + (if 2 < m then - 3 else 9)) + 2) div 5 = o'"
    using month_offset_bounds [OF m] by (simp_all add: o'_def)
  have feb: "month_cmp (ymd_m ymd) February \<noteq> SO_greater \<longleftrightarrow> m \<le> 2"
    by (simp add: month_cmp_def February_def m_def not_less)
  have doe: "sint32 (uint32 (r * 365 + r div 4 - r div 100 + uint32 (o' + d - 1))) = b + (o' + d - 1)"
  proof -
    have "uint32 (r * 365 + r div 4 - r div 100 + uint32 (o' + d - 1)) = uint32 (b + (o' + d - 1))"
      unfolding wrap_unsigned_def b_def by (simp add: mod_simps mult.commute)
    then show ?thesis using b o' d by (simp add: sint32_uint32 in_signed_def)
  qed
  have s: "in_signed 32 yr" "in_signed 32 (yr - 399)" "in_signed 32 (e * 400)" "in_signed 32 (r)"
      "in_signed 32 (e * 146097)" "in_signed 32 (e * 146097 + (b + (o' + d - 1)))"
      "in_signed 32 (e * 146097 + (b + (o' + d - 1)) - 719468)"
    using y era r b o' d unfolding in_signed_def by simp_all
  have fl: "(if 0 \<le> yr then yr else yr - 399) sdiv 400 = e" unfolding e_def by (rule sdiv_floor) simp_all
  have yoe: "uint32 (r) = r" using r by (intro wrap_unsigned_id) simp_all
  have n: "(if 0 \<le> yr then Some yr else int32 (yr - 399)) = Some (if 0 \<le> yr then yr else yr - 399)"
    using s(2) by (simp add: checked_Some)
  have yr': "year_int (ymd_y ymd) - (if m \<le> 2 then 1 else 0) = yr" by (simp add: yr_def y_def)
  have "ymd_to_days ymd = Some (e * 146097 + (b + (o' + d - 1)) - 719468)"
    unfolding ymd_to_days_def feb yr' Let_def m_def [symmetric] d_def [symmetric]
    by (simp only: checked_Some [OF s(1)] n bind.bind_lunit)
      (simp only: checked_Some s fl r(3) yoe o'(3) doe bind.bind_lunit)
  then show ?thesis
    unfolding civil_days_def y_def [symmetric] m_def [symmetric] d_def [symmetric] yr_def [symmetric] o'_def [symmetric]
      march_year_era [of yr] e_def [symmetric] r_def [symmetric] b_def [symmetric] by simp
qed

section \<open>The conversion from days inverts the closed form\<close>

text \<open>A year of an era as century c, four-year cycle q and year t of the cycle; r is the day of the year.\<close>

lemma year_of_era:
  fixes c q t r :: int
  assumes "0 \<le> c" "c \<le> 3" "0 \<le> q" "q \<le> 24" "0 \<le> t" "t \<le> 3" "0 \<le> r" "r \<le> 365"
    and full: "r = 365 \<Longrightarrow> t = 3 \<and> (q < 24 \<or> c = 3)"
  defines "yoe \<equiv> 100 * c + 4 * q + t"
  defines "doe \<equiv> 36524 * c + 1461 * q + 365 * t + r"
  shows "(doe - doe div 1460 + doe div 36524 - doe div 146096) div 365 = yoe"
    and "doe = 365 * yoe + yoe div 4 - yoe div 100 + r" and "0 \<le> yoe" and "yoe \<le> 399"
proof -
  have y4: "yoe div 4 = 25 * c + q" unfolding yoe_def using assms(5,6)
    by (intro int_div_pos_eq [where r = t]) simp_all
  have y100: "yoe div 100 = c" unfolding yoe_def using assms(3-6)
    by (intro int_div_pos_eq [where r = "4 * q + t"]) simp_all
  show "doe = 365 * yoe + yoe div 4 - yoe div 100 + r" unfolding y4 y100 by (simp add: doe_def yoe_def)
  show "0 \<le> yoe" "yoe \<le> 399" using assms(1-6) by (simp_all add: yoe_def)
  have top: "1461 * q + 365 * t + r \<le> 36524" using assms(3-8) by simp
  have last: "1461 * q + 365 * t + r = 36524 \<Longrightarrow> c = 3" using assms(3-8) full by (cases "r = 365") auto
  have d1: "doe div 36524 - doe div 146096 = c"
  proof (cases "1461 * q + 365 * t + r = 36524")
    case True
    with last have "doe = 146096" by (simp add: doe_def)
    with last True show ?thesis by simp
  next
    case False
    have "doe div 36524 = c" unfolding doe_def using assms(1-8) top False
      by (intro int_div_pos_eq [where r = "1461 * q + 365 * t + r"]) simp_all
    moreover have "doe div 146096 = 0" unfolding doe_def using assms(1-8) top False
      by (intro div_pos_pos_trivial) simp_all
    ultimately show ?thesis by simp
  qed
  obtain e where e: "doe div 1460 = 25 * c + q + e" "0 \<le> r - e" "r - e < 365"
  proof (cases "24 * c + q + 365 * t + r < 1460")
    case True
    have "doe div 1460 = 25 * c + q" unfolding doe_def using assms(1-8) True
      by (intro int_div_pos_eq [where r = "24 * c + q + 365 * t + r"]) simp_all
    moreover have "r < 365" using True assms full by (cases "r = 365") auto
    ultimately show ?thesis using that [of 0] assms(7) by simp
  next
    case False
    then have t: "t = 3" using assms(1-8) by simp
    have "doe div 1460 = 25 * c + q + 1" unfolding doe_def using assms(1-8) False t
      by (intro int_div_pos_eq [where r = "24 * c + q + 365 * t + r - 1460"]) simp_all
    with that [of 1] t False assms(1-8) show ?thesis by simp
  qed
  have "doe - doe div 1460 + doe div 36524 - doe div 146096 = 365 * yoe + (r - e)"
    using d1 e(1) by (simp add: doe_def yoe_def)
  moreover have "(365 * yoe + (r - e)) div 365 = yoe"
    using e(2,3) by (intro int_div_pos_eq [where r = "r - e"]) simp_all
  ultimately show "(doe - doe div 1460 + doe div 36524 - doe div 146096) div 365 = yoe" by simp
qed

text \<open>Every day of an era has such a decomposition.\<close>

lemma day_of_era_split:
  assumes "0 \<le> doe" and "doe \<le> (146096::int)"
  obtains c q t r :: int where "0 \<le> c" "c \<le> 3" "0 \<le> q" "q \<le> 24" "0 \<le> t" "t \<le> 3" "0 \<le> r" "r \<le> 365"
    "r = 365 \<Longrightarrow> t = 3 \<and> (q < 24 \<or> c = 3)" "doe = 36524 * c + 1461 * q + 365 * t + r"
proof -
  define c where "c = (if doe = 146096 then 3 else doe div 36524)"
  define r1 where "r1 = doe - 36524 * c"
  define q where "q = r1 div 1461"
  define r2 where "r2 = r1 mod 1461"
  define t where "t = (if r2 = 1460 then 3 else r2 div 365)"
  define r where "r = r2 - 365 * t"
  have c: "0 \<le> c" "c \<le> 3" "0 \<le> r1" "r1 \<le> 36523 \<or> c = 3 \<and> r1 = 36524"
  proof -
    define k where "k = doe div 36524"
    have k: "36524 * k \<le> doe" "doe < 36524 * k + 36524" "0 \<le> k" using assms(1) by (simp_all add: k_def)
    then show "0 \<le> c" "c \<le> 3" "0 \<le> r1" "r1 \<le> 36523 \<or> c = 3 \<and> r1 = 36524"
      using assms(2) unfolding c_def r1_def k_def [symmetric] by auto
  qed
  have r1: "r1 = 1461 * q + r2" "0 \<le> r2" "r2 \<le> 1460" by (simp_all add: q_def r2_def)
  have q: "0 \<le> q" "q \<le> 24" using r1 c(3,4) by auto
  have t: "0 \<le> t" "t \<le> 3" "0 \<le> r" "r \<le> 364 \<or> t = 3 \<and> r = 365 \<and> r2 = 1460"
  proof -
    define k where "k = r2 div 365"
    have k: "365 * k \<le> r2" "r2 < 365 * k + 365" "0 \<le> k" using r1(2) by (simp_all add: k_def)
    then show "0 \<le> t" "t \<le> 3" "0 \<le> r" "r \<le> 364 \<or> t = 3 \<and> r = 365 \<and> r2 = 1460"
      using r1(3) unfolding t_def r_def k_def [symmetric] by auto
  qed
  show ?thesis
  proof (rule that [of c q t r])
    show "doe = 36524 * c + 1461 * q + 365 * t + r" using r1(1) by (simp add: r_def r1_def)
    show "r = 365 \<Longrightarrow> t = 3 \<and> (q < 24 \<or> c = 3)" using t r1 q c by auto
  qed (use c q t in auto)
qed

lemma march_month_cases: "0 \<le> mp \<Longrightarrow> mp \<le> 11 \<Longrightarrow> mp \<in> {0, 1, 2, 3, 4, 5, 6, 7, 8, 9, 10, 11 :: int}"
  by (simp only: insert_iff empty_iff) presburger

text \<open>The month and the day from the day of the year.\<close>

lemma month_of_day:
  assumes "0 \<le> doy" and "doy \<le> (365::int)"
  defines "mp \<equiv> (5 * doy + 2) div 153"
  shows "0 \<le> mp \<and> mp \<le> 11 \<and> 1 \<le> doy - (153 * mp + 2) div 5 + 1 \<and>
    doy - (153 * mp + 2) div 5 + 1 \<le> (if mp = 11 then doy - 336 else if mp = 1 \<or> mp = 3 \<or> mp = 6 \<or> mp = 8 then 30 else 31)"
proof -
  have mp: "153 * mp \<le> 5 * doy + 2" "5 * doy + 2 < 153 * mp + 153" by (simp_all add: mp_def)
  then have "0 \<le> mp" "mp \<le> 11" using assms(1,2) by simp_all
  from march_month_cases [OF this] show ?thesis using mp assms(1,2) by (elim insertE emptyE) simp_all
qed

lemma leap_end_of_cycle:
  fixes c q e :: int
  assumes "0 \<le> q" "q \<le> 24" "q < 24 \<or> c = 3"
  shows "leap (400 * e + (100 * c + 4 * q + 3) + 1)"
proof (cases "q < 24")
  case True
  have eq: "400 * e + (100 * c + 4 * q + 3) + 1 = 100 * (4 * e + c) + 4 * (q + 1)" by simp
  have "(100 * (4 * e + c) + 4 * (q + 1)) mod 100 = 4 * (q + 1)"
    using True assms(1) by (intro int_mod_pos_eq [where q = "4 * e + c"]) simp_all
  then have "\<not> 100 dvd 100 * (4 * e + c) + 4 * (q + 1)" using assms(1) by (simp add: dvd_eq_mod_eq_0)
  moreover have "4 dvd 100 * (4 * e + c) + 4 * (q + 1)"
    by (intro dvd_add dvd_mult2) simp_all
  ultimately show ?thesis unfolding leap_def eq by simp
next
  case False
  then have "400 * e + (100 * c + 4 * q + 3) + 1 = 400 * (e + 1)" using assms by simp
  then show ?thesis unfolding leap_def by (simp add: dvd_mult2)
qed

text \<open>The date of a day number: e is the era, yoe the year of the era and doy the day of that March year.\<close>

lemma date_of_day:
  fixes e yoe doy :: int
  assumes yoe: "0 \<le> yoe" "yoe \<le> 399" and doy: "0 \<le> doy" "doy \<le> 365" and full: "doy = 365 \<Longrightarrow> leap (400 * e + yoe + 1)"
  defines "mp \<equiv> (5 * doy + 2) div 153"
  defines "m \<equiv> mp + (if mp < 10 then 3 else - 9)"
  defines "y \<equiv> 400 * e + yoe + (if m \<le> 2 then 1 else 0)"
  defines "d \<equiv> doy - (153 * mp + 2) div 5 + 1"
  shows "valid_date y m d" and "civil_days y m d = e * 146097 + (365 * yoe + yoe div 4 - yoe div 100 + doy) - 719468"
proof -
  note mp = month_of_day [OF doy, folded mp_def]
  have "mp \<in> {0, 1, 2, 3, 4, 5, 6, 7, 8, 9, 10, 11}" using mp by (intro march_month_cases) blast+
  then show "valid_date y m d"
    using mp full doy(2) unfolding valid_date_def month_length_def y_def m_def d_def
    by (elim insertE emptyE) (auto simp: order_le_less)
  have "m \<le> 2 \<longleftrightarrow> 10 \<le> mp" and unshift: "m + (if 2 < m then - 3 else 9) = mp" using mp unfolding m_def by auto
  then have yr: "(if m \<le> 2 then y - 1 else y) = 400 * e + yoe" by (simp add: y_def)
  have "(400 * e + yoe) div 400 = e" "(400 * e + yoe) mod 400 = yoe"
    using yoe by (auto intro: int_div_pos_eq [where r = yoe] int_mod_pos_eq [where q = e])
  then show "civil_days y m d = e * 146097 + (365 * yoe + yoe div 4 - yoe div 100 + doy) - 719468"
    unfolding civil_days_def yr unshift march_year_era [of "400 * e + yoe"] by (simp add: d_def)
qed

lemma ymd_from_days_closed:
  assumes "in_signed 32 n" and "n \<le> 2 ^ 31 - 1 - 719468"
  shows "\<exists>y m d. ymd_from_days n = Some (mk_ymd (mk_year y) (mk_month m) (mk_day d)) \<and> valid_date y m d \<and> civil_days y m d = n"
proof -
  define z e doe where "z = n + 719468" and "e = z div 146097" and "doe = z mod 146097"
  have z: "z = e * 146097 + doe" "0 \<le> doe" "doe \<le> 146096" by (simp_all add: e_def doe_def)
  have zb: "- (2 ^ 31) + 719468 \<le> z" "z < 2 ^ 31" using assms by (simp_all add: z_def in_signed_def)
  have eb: "- 14695 \<le> e" "e \<le> 14699" using zb z by simp_all
  obtain c q t doy :: int where sp: "0 \<le> c" "c \<le> 3" "0 \<le> q" "q \<le> 24" "0 \<le> t" "t \<le> 3" "0 \<le> doy" "doy \<le> 365"
      "doy = 365 \<Longrightarrow> t = 3 \<and> (q < 24 \<or> c = 3)" "doe = 36524 * c + 1461 * q + 365 * t + doy"
    using day_of_era_split [OF z(2,3)] by blast
  define yoe where "yoe = 100 * c + 4 * q + t"
  note yr = year_of_era [OF sp(1-9), folded yoe_def sp(10)]
  define mp where "mp = (5 * doy + 2) div 153"
  define m where "m = mp + (if mp < 10 then 3 else - 9)"
  define y where "y = 400 * e + yoe + (if m \<le> 2 then 1 else 0)"
  define d where "d = doy - (153 * mp + 2) div 5 + 1"
  have full: "leap (400 * e + yoe + 1)" if "doy = 365"
    using sp(9) [OF that] leap_end_of_cycle [OF sp(3,4), of c e] by (simp add: yoe_def)
  note date = date_of_day [OF yr(3,4) sp(7,8) full, folded mp_def, folded m_def d_def, folded y_def]
  have mp: "0 \<le> mp" "mp \<le> 11" "1 \<le> d" "d \<le> 31"
    using month_of_day [OF sp(7,8), folded mp_def, folded d_def] sp(8) by (auto split: if_splits)
  have u1: "uint32 (doe - doe div 1460 + doe div 36524 - doe div 146096) div 365 = yoe"
  proof -
    have "doe div 1460 \<le> doe" "0 \<le> doe div 36524" "doe div 36524 \<le> doe" "doe div 146096 \<le> doe div 36524" "0 \<le> doe div 1460" "0 \<le> doe div 146096"
      using z(2) by (simp_all add: zdiv_mono2 int_div_less_self div_le_dividend order_trans [OF _ zdiv_mono2])
    then have "uint32 (doe - doe div 1460 + doe div 36524 - doe div 146096) = doe - doe div 1460 + doe div 36524 - doe div 146096"
      using z(2,3) by (intro wrap_unsigned_id) simp_all
    with yr(1) show ?thesis by simp
  qed
  have u2: "uint32 (doe - (365 * yoe + yoe div 4 - yoe div 100)) = doy"
  proof -
    have "doe - (365 * yoe + yoe div 4 - yoe div 100) = doy" using yr(2) by linarith
    then show ?thesis using sp(7,8) by (simp add: wrap_unsigned_id)
  qed
  have u3: "uint32 (5 * doy + 2) div 153 = mp" using sp(7,8) by (simp add: wrap_unsigned_def mp_def)
  have u4: "uint32 (doy - uint32 (153 * mp + 2) div 5 + 1) = d"
  proof -
    have "uint32 (153 * mp + 2) = 153 * mp + 2" using mp by (intro wrap_unsigned_id) simp_all
    then show ?thesis using mp by (simp add: d_def [symmetric] wrap_unsigned_def)
  qed
  have u5: "uint32 (mp + (if mp < 10 then 3 else - 9)) = m"
    using mp unfolding m_def by (intro wrap_unsigned_id) auto
  have u0: "uint32 doe = doe" "sint32 yoe = yoe"
    using z(2,3) yr(3,4) by (auto intro!: wrap_unsigned_id wrap_signed_id simp: in_signed_def)
  have fl: "(if 0 \<le> z then z else z - 146096) sdiv 146097 = e" unfolding e_def by (rule sdiv_floor) simp_all
  have s: "in_signed 32 z" "in_signed 32 (z - 146096)" "in_signed 32 (e * 146097)" "in_signed 32 doe"
      "in_signed 32 (e * 400)" "in_signed 32 (yoe + e * 400)" "in_signed 32 y"
    using zb z eb yr(3,4) unfolding in_signed_def y_def by auto
  have nn: "(if 0 \<le> z then Some z else int32 (z - 146096)) = Some (if 0 \<le> z then z else z - 146096)"
    using s(2) by (simp add: checked_Some)
  have ze: "z - e * 146097 = doe" and ye: "yoe + e * 400 + (if m \<le> 2 then 1 else 0) = y"
    using z(1) by (simp_all add: y_def)
  have "ymd_from_days n = Some (mk_ymd (mk_year y) (mk_month m) (mk_day d))"
    unfolding ymd_from_days_def Let_def z_def [symmetric]
    by (simp only: checked_Some [OF s(1)] nn bind.bind_lunit)
      (simp only: checked_Some s fl ze u0 u1 u2 u3 u4 u5 ye bind.bind_lunit)
  moreover have "civil_days y m d = n" using date(2) yr(2) z(1) z_def by linarith
  ultimately show ?thesis using date(1) by blast
qed

lemma ymd_from_days_overflow: "2 ^ 31 - 1 - 719468 < n \<Longrightarrow> ymd_from_days n = None"
  by (simp add: ymd_from_days_def checked_def in_signed_def)

section \<open>Validity\<close>

lemma smod_eq_0_iff: "(a::int) smod b = 0 \<longleftrightarrow> b dvd a"
proof -
  have "a smod b = 0 \<longleftrightarrow> a = a sdiv b * b" using sdiv_mult_smod_eq [of a b] by auto
  moreover have "a sdiv b * b = a" if "b dvd a"
  proof -
    from that obtain k where "a = b * k" by (rule dvdE)
    then have "a sdiv b * b = (sgn b * sgn b) * (sgn k * \<bar>k\<bar>) * b"
      by (cases "b = 0") (simp_all add: signed_divide_int_def abs_mult sgn_mult)
    with \<open>a = b * k\<close> show ?thesis by (cases "b = 0") (simp_all add: sgn_if)
  qed
  ultimately show ?thesis by (metis dvd_triv_right)
qed

lemma is_leap_iff: "is_leap y \<longleftrightarrow> leap (year_int y)"
  by (simp add: is_leap_def leap_def smod_eq_0_iff)

lemma ymdl_day_length:
  assumes "month_ok m"
  shows "day_unsigned (ymdl_day (ym_slash_last (year_slash_month y m))) = month_length (year_int y) (month_unsigned m)"
proof -
  have m: "1 \<le> month_unsigned m" "month_unsigned m \<le> 12" using assms by (auto simp: month_ok_iff)
  have mm: "ymdl_month (ym_slash_last (year_slash_month y m)) = m" "ymdl_y (ym_slash_last (year_slash_month y m)) = y"
    by (simp_all add: ymdl_month_def ym_slash_last_def year_slash_month_def)
  from month_cases [OF m] show ?thesis unfolding ymdl_day_def mm
    by (elim disjE) (simp_all add: assms month_eq_def February_def is_leap_iff month_length_def)
qed

lemma ymd_ok_iff:
  "ymd_ok ymd \<longleftrightarrow> - 32767 \<le> year_int (ymd_y ymd) \<and>
     valid_date (year_int (ymd_y ymd)) (month_unsigned (ymd_m ymd)) (day_unsigned (ymd_d ymd))"
  by (cases "month_ok (ymd_m ymd)")
    (auto simp: ymd_ok_def year_ok_iff day_cmp_def ymdl_day_length valid_date_def month_ok_iff not_less)

lemma md_ok_iff:
  "md_ok md \<longleftrightarrow> valid_date 4 (month_unsigned (md_m md)) (day_unsigned (md_d md))"
proof (cases "month_ok (md_m md)")
  case True
  then have m: "1 \<le> month_unsigned (md_m md)" "month_unsigned (md_m md) \<le> 12" by (auto simp: month_ok_iff)
  have "leap 4" by (simp add: leap_def)
  with month_cases [OF m] True show ?thesis
    by (elim disjE) (auto simp: md_ok_def Let_def valid_date_def month_length_def)
qed (auto simp: md_ok_def month_ok_iff valid_date_def)

lemma month_length_bounds: "28 \<le> month_length y m \<and> month_length y m \<le> 31"
  by (simp add: month_length_def)

lemma mk_ymd_fields:
  assumes "valid_date y m d" and "- 32768 \<le> y" and "y < 32768"
  shows "year_int (ymd_y (mk_ymd (mk_year y) (mk_month m) (mk_day d))) = y"
    and "month_unsigned (ymd_m (mk_ymd (mk_year y) (mk_month m) (mk_day d))) = m"
    and "day_unsigned (ymd_d (mk_ymd (mk_year y) (mk_month m) (mk_day d))) = d"
  using assms month_length_bounds [of y m]
  by (simp_all add: mk_ymd_def valid_date_def wrap_signed_id in_signed_def)

lemma ymd_eqI:
  "year_int (ymd_y a) = year_int (ymd_y b) \<Longrightarrow> month_unsigned (ymd_m a) = month_unsigned (ymd_m b) \<Longrightarrow>
   day_unsigned (ymd_d a) = day_unsigned (ymd_d b) \<Longrightarrow> a = (b :: year_month_day)"
  by (cases a; cases b) (simp add: year_eqI month_eqI day_eqI)

lemma civil_days_first: "civil_days (- 32768) 1 1 = - 12687794"
  and civil_days_last: "civil_days 32767 12 31 = 11248737"
  by (simp_all add: civil_days_def march_year_def)

lemma civil_days_range:
  assumes "valid_date y m d"
  shows "- 12687794 \<le> civil_days y m d \<and> civil_days y m d \<le> 11248737 \<longleftrightarrow> - 32768 \<le> y \<and> y < 32768"
proof -
  have v: "valid_date (- 32768) 1 1" "valid_date 32767 12 31" by (simp_all add: valid_date_def month_length_def)
  have "1 \<le> m" "m \<le> 12" "1 \<le> d" "d \<le> month_length y m" using assms by (simp_all add: valid_date_def)
  then have d: "d \<le> 31" using month_length_bounds [of y m] by linarith
  have "civil_days y m d < - 12687794 \<longleftrightarrow> y < - 32768"
    using civil_days_less_iff [OF assms v(1)] \<open>1 \<le> m\<close> \<open>1 \<le> d\<close> unfolding civil_days_first by linarith
  moreover have "11248737 < civil_days y m d \<longleftrightarrow> 32767 < y"
    using civil_days_less_iff [OF v(2) assms] \<open>m \<le> 12\<close> d unfolding civil_days_last by linarith
  ultimately show ?thesis by linarith
qed

lemma compare_with_lex:
  fixes p q y m d y' m' d' :: int
  assumes "p < q \<longleftrightarrow> y < y' \<or> y = y' \<and> (m < m' \<or> m = m' \<and> d < d')"
    and "q < p \<longleftrightarrow> y' < y \<or> y' = y \<and> (m' < m \<or> m' = m \<and> d' < d)"
  shows "compare_with p q = (if compare_with y y' \<noteq> SO_equal then compare_with y y'
    else if compare_with m m' \<noteq> SO_equal then compare_with m m' else compare_with d d')"
proof -
  consider "y < y'" | "y' < y" | "y = y'" "m < m'" | "y = y'" "m' < m" | "y = y'" "m = m'" by linarith
  then show ?thesis
    using assms by cases (auto simp: compare_with_def)
qed

lemma ymd_from_to:
  assumes "valid_date (year_int (ymd_y ymd)) (month_unsigned (ymd_m ymd)) (day_unsigned (ymd_d ymd))"
  shows "\<exists>n. ymd_to_days ymd = Some n \<and> - 12687794 \<le> n \<and> n \<le> 11248737 \<and> ymd_from_days n = Some ymd"
proof -
  define n where "n = civil_days (year_int (ymd_y ymd)) (month_unsigned (ymd_m ymd)) (day_unsigned (ymd_d ymd))"
  have n: "- 12687794 \<le> n" "n \<le> 11248737"
    using civil_days_range [OF assms] year_int_bounds [of "ymd_y ymd"] unfolding n_def by auto
  then obtain y m d where f: "ymd_from_days n = Some (mk_ymd (mk_year y) (mk_month m) (mk_day d))"
      "valid_date y m d" "civil_days y m d = n"
    using ymd_from_days_closed [of n] by (auto simp: in_signed_def)
  have eq: "y = year_int (ymd_y ymd) \<and> m = month_unsigned (ymd_m ymd) \<and> d = day_unsigned (ymd_d ymd)"
    using civil_days_inject [OF f(2) assms] f(3) by (simp add: n_def)
  have yb: "- 32768 \<le> y" "y < 32768" using eq year_int_bounds [of "ymd_y ymd"] by simp_all
  have "mk_ymd (mk_year y) (mk_month m) (mk_day d) = ymd"
    using mk_ymd_fields [OF f(2) yb] eq by (intro ymd_eqI) simp_all
  with f(1) n show ?thesis by (auto simp: ymd_to_days_closed n_def)
qed

lemma ymd_to_from:
  assumes "- 12687794 \<le> n" and "n \<le> 11248737"
  shows "\<exists>ymd. ymd_from_days n = Some ymd \<and> ymd_to_days ymd = Some n \<and>
    valid_date (year_int (ymd_y ymd)) (month_unsigned (ymd_m ymd)) (day_unsigned (ymd_d ymd))"
proof -
  obtain y m d where f: "ymd_from_days n = Some (mk_ymd (mk_year y) (mk_month m) (mk_day d))"
      "valid_date y m d" "civil_days y m d = n"
    using ymd_from_days_closed [of n] assms by (auto simp: in_signed_def)
  have y: "- 32768 \<le> y" "y < 32768" using civil_days_range [OF f(2)] f(3) assms by auto
  show ?thesis using f mk_ymd_fields [OF f(2) y] by (simp add: ymd_to_days_closed)
qed

text \<open>The first day of a month, the weekday of a day of the month, and the n-th weekday of a month.\<close>

lemma first_of_month:
  assumes "month_ok m"
  shows "\<exists>w. ymd_to_days (ym_slash_int (year_slash_month y m) 1) = Some (civil_days (year_int y) (month_unsigned m) 1) \<and>
    - 12687794 \<le> civil_days (year_int y) (month_unsigned m) 1 \<and> civil_days (year_int y) (month_unsigned m) 1 \<le> 11248737 \<and>
    weekday_of_sys_days (civil_days (year_int y) (month_unsigned m) 1) = Some w \<and>
    c_encoding w = (civil_days (year_int y) (month_unsigned m) 1 + 4) mod 7"
proof -
  have m: "1 \<le> month_unsigned m" "month_unsigned m \<le> 12" using assms by (simp_all add: month_ok_iff)
  have v: "valid_date (year_int y) (month_unsigned m) 1"
    using m month_length_bounds [of "year_int y" "month_unsigned m"] by (simp add: valid_date_def)
  have r: "- 12687794 \<le> civil_days (year_int y) (month_unsigned m) 1" "civil_days (year_int y) (month_unsigned m) 1 \<le> 11248737"
    using civil_days_range [OF v] year_int_bounds [of y] by auto
  with weekday_of_sys_days_encoding [of "civil_days (year_int y) (month_unsigned m) 1"] show ?thesis
    by (auto simp: ymd_to_days_closed ym_slash_int_def ym_slash_day_def year_slash_month_def mk_ymd_def in_signed_def)
qed

lemma weekday_offset: "0 \<le> idx \<Longrightarrow> idx < 256 \<Longrightarrow> 0 \<le> k \<Longrightarrow> k < 8 \<Longrightarrow> 1 \<le> idx \<Longrightarrow>
    sint32 (uint32 (uint32 (idx - 1) * 7 + k)) = (idx - 1) * 7 + k"
  by (simp add: wrap_unsigned_id wrap_signed_id in_signed_def)

lemma ymwd_to_days_closed:
  assumes "month_ok (ymwd_m w)" and "1 \<le> wdi_index (ymwd_wdi w)"
  defines "s \<equiv> civil_days (year_int (ymwd_y w)) (month_unsigned (ymwd_m w)) 1"
  shows "ymwd_to_days w = Some (s + (c_encoding (wdi_wd (ymwd_wdi w)) - (s + 4)) mod 7 + (wdi_index (ymwd_wdi w) - 1) * 7)"
proof -
  obtain f where f: "ymd_to_days (ym_slash_int (year_slash_month (ymwd_y w) (ymwd_m w)) 1) = Some s"
      "- 12687794 \<le> s" "s \<le> 11248737" "weekday_of_sys_days s = Some f" "c_encoding f = (s + 4) mod 7"
    using first_of_month [OF assms(1), of "ymwd_y w"] unfolding s_def by blast
  define k where "k = (c_encoding (wdi_wd (ymwd_wdi w)) - (s + 4)) mod 7"
  define i where "i = wdi_index (ymwd_wdi w)"
  have i: "1 \<le> i" "i < 256" using assms(2) uint_u8_bounds [of "wdi_idx (ymwd_wdi w)"] by (simp_all add: i_def wdi_index_def)
  have k: "0 \<le> k" "k < 7" by (simp_all add: k_def)
  have "weekday_minus_weekday (wdi_wd (ymwd_wdi w)) f = k"
    unfolding weekday_minus_eq f(5) k_def by (simp add: mod_simps)
  moreover have "sint32 (uint32 (uint32 (i - 1) * 7)) = (i - 1) * 7"
    using weekday_offset [of i 0] i by simp
  moreover have "in_signed 32 (k + (i - 1) * 7)" "in_signed 32 (s + (k + (i - 1) * 7))"
    using i k f(2,3) by (simp_all add: in_signed_def)
  ultimately show ?thesis
    unfolding ymwd_to_days_def f(1) k_def [symmetric] i_def [symmetric] by (simp add: f(4) add.assoc checked_Some)
qed

lemma ymwd_ok_closed:
  assumes "month_ok (ymwd_m w)" and "year_ok (ymwd_y w)" and "wdi_ok (ymwd_wdi w)"
  defines "s \<equiv> civil_days (year_int (ymwd_y w)) (month_unsigned (ymwd_m w)) 1"
  shows "ymwd_ok w = Some ((c_encoding (wdi_wd (ymwd_wdi w)) - (s + 4)) mod 7 + (wdi_index (ymwd_wdi w) - 1) * 7 + 1
    \<le> month_length (year_int (ymwd_y w)) (month_unsigned (ymwd_m w)))"
proof -
  obtain f where f: "ymd_to_days (ym_slash_int (year_slash_month (ymwd_y w) (ymwd_m w)) 1) = Some s"
      "- 12687794 \<le> s" "s \<le> 11248737" "weekday_of_sys_days s = Some f" "c_encoding f = (s + 4) mod 7"
    using first_of_month [OF assms(1), of "ymwd_y w"] unfolding s_def by blast
  define k where "k = (c_encoding (wdi_wd (ymwd_wdi w)) - (s + 4)) mod 7"
  define i where "i = wdi_index (ymwd_wdi w)"
  have i: "1 \<le> i" "i \<le> 5" using assms(3) by (simp_all add: i_def wdi_index_def wdi_ok_def)
  have k: "0 \<le> k" "k < 7" by (simp_all add: k_def)
  note len = month_length_bounds [of "year_int (ymwd_y w)" "month_unsigned (ymwd_m w)"]
  have "weekday_minus_weekday (wdi_wd (ymwd_wdi w)) f = k"
    unfolding weekday_minus_eq f(5) k_def by (simp add: mod_simps)
  moreover have "sint32 (uint32 (uint32 (i - 1) * 7 + 1)) = (i - 1) * 7 + 1"
    using weekday_offset [of i 1] i by simp
  moreover have "in_signed 32 (k + ((i - 1) * 7 + 1))" "uint32 (k + ((i - 1) * 7 + 1)) = k + (i - 1) * 7 + 1"
    using i k by (simp_all add: in_signed_def wrap_unsigned_id)
  ultimately show ?thesis
    unfolding ymwd_ok_def f(1) k_def [symmetric] i_def [symmetric]
    using assms(1-3) i k len by (auto simp: f(4) ymdl_day_length checked_Some)
qed

text \<open>The d-th day of a month, as a count, a date and a weekday.\<close>

lemma day_of_month:
  assumes "month_ok m" and d: "1 \<le> d" "d \<le> month_length (year_int y) (month_unsigned m)"
  defines "n \<equiv> civil_days (year_int y) (month_unsigned m) d"
  shows "\<exists>v. ymd_from_days n = Some (mk_ymd y m (mk_day d)) \<and> in_signed 32 n \<and>
    weekday_of_sys_days n = Some v \<and> c_encoding v = (n + 4) mod 7"
proof -
  let ?ymd = "mk_ymd y m (mk_day d)"
  have f: "ymd_y ?ymd = y" "ymd_m ?ymd = m" "day_unsigned (ymd_d ?ymd) = d"
    using d month_length_bounds [of "year_int y" "month_unsigned m"] by (simp_all add: mk_ymd_def)
  have "valid_date (year_int y) (month_unsigned m) d"
    using assms(1) d by (simp add: valid_date_def month_ok_iff)
  then obtain k where k: "ymd_to_days ?ymd = Some k" "- 12687794 \<le> k" "k \<le> 11248737" "ymd_from_days k = Some ?ymd"
    using ymd_from_to [of ?ymd] unfolding f by blast
  have kn: "k = n" using k(1) unfolding ymd_to_days_closed f n_def by simp
  have s: "in_signed 32 n" "n < 2 ^ 31 - 4" using k(2,3) kn by (simp_all add: in_signed_def)
  from weekday_of_sys_days_encoding [OF s] s(1) k(4) kn show ?thesis by blast
qed

lemma ymwd_ok_round_trip:
  assumes "ymwd_ok w = Some True"
  shows "\<exists>n date. ymwd_to_days w = Some n \<and> ymd_from_days n = Some date \<and> ymd_y date = ymwd_y w \<and> ymd_m date = ymwd_m w \<and>
    weekday_of_sys_days n = Some (wdi_wd (ymwd_wdi w)) \<and> ymwd_from_days n = Some w"
proof -
  have ok: "month_ok (ymwd_m w)" "year_ok (ymwd_y w)" "wdi_ok (ymwd_wdi w)"
    using assms by (auto simp: ymwd_ok_def split: if_splits)
  define s where "s = civil_days (year_int (ymwd_y w)) (month_unsigned (ymwd_m w)) 1"
  define k where "k = (c_encoding (wdi_wd (ymwd_wdi w)) - (s + 4)) mod 7"
  define i where "i = wdi_index (ymwd_wdi w)"
  define d where "d = k + (i - 1) * 7 + 1"
  have i: "1 \<le> i" "i \<le> 5" using ok(3) by (simp_all add: i_def wdi_index_def wdi_ok_def)
  have k: "0 \<le> k" "k < 7" by (simp_all add: k_def)
  have dl: "1 \<le> d" "d \<le> month_length (year_int (ymwd_y w)) (month_unsigned (ymwd_m w))"
    using ymwd_ok_closed [OF ok] assms i k unfolding s_def [symmetric] k_def [symmetric] i_def [symmetric]
    by (simp_all add: d_def)
  define n where "n = civil_days (year_int (ymwd_y w)) (month_unsigned (ymwd_m w)) d"
  have n: "n = s + k + (i - 1) * 7" unfolding n_def s_def d_def using civil_days_add [of _ _ 1 "k + (i - 1) * 7"]
    by (simp add: algebra_simps)
  obtain v where v: "ymd_from_days n = Some (mk_ymd (ymwd_y w) (ymwd_m w) (mk_day d))"
      "weekday_of_sys_days n = Some v" "c_encoding v = (n + 4) mod 7"
    using day_of_month [OF ok(1) dl] unfolding n_def by blast
  have c: "0 \<le> c_encoding (wdi_wd (ymwd_wdi w))" "c_encoding (wdi_wd (ymwd_wdi w)) < 7"
    using ok(3) c_encoding_bounds by (auto simp: wdi_ok_def weekday_ok_iff le_less_trans)
  have "(n + 4) mod 7 = (s + 4 + k + 7 * (i - 1)) mod 7" unfolding n by (simp add: algebra_simps)
  also have "\<dots> = (s + 4 + k) mod 7" by (rule mod_mult_self2)
  also have "\<dots> = c_encoding (wdi_wd (ymwd_wdi w))"
    unfolding k_def mod_add_right_eq using c by simp
  finally have vw: "v = wdi_wd (ymwd_wdi w)" using v(3) by (intro weekday_eqI) simp
  have to: "ymwd_to_days w = Some n"
    using ymwd_to_days_closed [OF ok(1)] i unfolding s_def [symmetric] k_def [symmetric] i_def [symmetric] n by simp
  have d31: "d \<le> 31" using dl(2) month_length_bounds [of "year_int (ymwd_y w)" "month_unsigned (ymwd_m w)"] by linarith
  have "(d - 1) div 7 = i - 1" unfolding d_def using k by (intro int_div_pos_eq [where r = k]) simp_all
  then have idx: "uint32 (uint32 (day_unsigned (mk_day d) - 1) div 7 + 1) = i"
    using dl(1) d31 i by (simp add: wrap_unsigned_id)
  have wdi: "weekday_index (wdi_wd (ymwd_wdi w)) i = ymwd_wdi w"
    by (cases "ymwd_wdi w") (simp add: weekday_index_def mk_weekday_indexed_def i_def wdi_index_def)
  have "ymwd_from_days n = Some w"
    unfolding ymwd_from_days_def by (cases w) (use v vw idx wdi in \<open>simp add: mk_ymd_def\<close>)
  with to v(1,2) vw show ?thesis by (simp add: mk_ymd_def)
qed

lemma ymwdl_ok_last:
  assumes "ymwdl_ok l"
  shows "\<exists>n date. ymwdl_to_days l = Some n \<and> ymd_from_days n = Some date \<and> ymd_y date = ymwdl_y l \<and> ymd_m date = ymwdl_m l \<and>
    weekday_of_sys_days n = Some (wdl_wd (ymwdl_wdl l)) \<and>
    month_length (year_int (ymd_y date)) (month_unsigned (ymd_m date)) < day_unsigned (ymd_d date) + 7"
proof -
  have ok: "month_ok (ymwdl_m l)" "c_encoding (wdl_wd (ymwdl_wdl l)) < 7"
    using assms c_encoding_bounds by (auto simp: ymwdl_ok_def wdl_ok_def weekday_ok_iff)
  define len where "len = month_length (year_int (ymwdl_y l)) (month_unsigned (ymwdl_m l))"
  define e where "e = civil_days (year_int (ymwdl_y l)) (month_unsigned (ymwdl_m l)) len"
  have len: "28 \<le> len" "len \<le> 31" using month_length_bounds by (simp_all add: len_def)
  obtain f where f: "in_signed 32 e" "weekday_of_sys_days e = Some f" "c_encoding f = (e + 4) mod 7"
    using day_of_month [OF ok(1), of len "ymwdl_y l"] len unfolding e_def len_def [symmetric] by auto
  have ls: "ymdl_to_sys_days (ym_slash_last (year_slash_month (ymwdl_y l) (ymwdl_m l))) = Some e"
  proof -
    have "ymdl_month (ym_slash_last (year_slash_month (ymwdl_y l) (ymwdl_m l))) = ymwdl_m l"
        "ymdl_y (ym_slash_last (year_slash_month (ymwdl_y l) (ymwdl_m l))) = ymwdl_y l"
      by (simp_all add: ymdl_month_def ym_slash_last_def year_slash_month_def)
    then show ?thesis
      using ymdl_day_length [OF ok(1), of "ymwdl_y l"]
      by (simp add: ymdl_to_sys_days_def ymd_to_days_closed ym_slash_day_def mk_ymd_def year_slash_month_def e_def len_def)
  qed
  define k where "k = weekday_minus_weekday f (wdl_wd (ymwdl_wdl l))"
  have k: "0 \<le> k" "k < 7" by (simp_all add: k_def weekday_minus_eq)
  define d where "d = len - k"
  define n where "n = civil_days (year_int (ymwdl_y l)) (month_unsigned (ymwdl_m l)) d"
  have n: "n = e - k" unfolding n_def e_def d_def using civil_days_add [of _ _ "len - k" k] by (simp add: algebra_simps)
  have d: "1 \<le> d" "d \<le> len" using len k by (simp_all add: d_def)
  obtain v where v: "ymd_from_days n = Some (mk_ymd (ymwdl_y l) (ymwdl_m l) (mk_day d))" "in_signed 32 n"
      "weekday_of_sys_days n = Some v" "c_encoding v = (n + 4) mod 7"
    using day_of_month [OF ok(1), of d "ymwdl_y l"] d unfolding n_def len_def by blast
  have "ymwdl_to_days l = Some n"
    unfolding ymwdl_to_days_def ls using v(2) f(2) by (simp add: k_def [symmetric] n checked_Some)
  moreover have "v = wdl_wd (ymwdl_wdl l)"
  proof (rule weekday_eqI)
    have "(n + 4) mod 7 = (e + 4 - ((e + 4) - c_encoding (wdl_wd (ymwdl_wdl l))) mod 7) mod 7"
      unfolding n k_def weekday_minus_eq f(3) by (simp add: mod_simps algebra_simps)
    also have "\<dots> = c_encoding (wdl_wd (ymwdl_wdl l))"
      unfolding mod_diff_right_eq using ok(2) c_encoding_bounds [of "wdl_wd (ymwdl_wdl l)"] by simp
    finally show "c_encoding v = c_encoding (wdl_wd (ymwdl_wdl l))" using v(4) by simp
  qed
  moreover have "day_unsigned (mk_day d) = d" using d len by simp
  ultimately show ?thesis using v(1,3) k by (simp add: mk_ymd_def len_def d_def)
qed

section \<open>Properties\<close>

text \<open>
  C37. The conversions between dates and counts of days are inverse to each other. Every valid
  \<open>year_month_day\<close> (ok()) converts to a count from which \<open>__from_days\<close> gives the same date
  back; every count from - 12687794 (the first day of year - 32768) to 11248737 (the last day of
  year 32767) converts to a date with a valid month and a day of that month, whose
  \<open>__to_days\<close> is the count again. No signed operation overflows on the way.
\<close>

theorem ymd_days_round_trip:
  "(ymd_ok ymd \<longrightarrow> (\<exists>n. ymd_to_days ymd = Some n \<and> ymd_from_days n = Some ymd))
   \<and> (- 12687794 \<le> n \<and> n \<le> 11248737 \<longrightarrow>
        (\<exists>date. ymd_from_days n = Some date \<and> ymd_to_days date = Some n \<and>
           (ymd_ok date \<or> year_int (ymd_y date) = - 32768) \<and> md_ok \<lparr>md_m = ymd_m date, md_d = ymd_d date\<rparr>))"
proof (intro conjI impI)
  assume "ymd_ok ymd"
  then show "\<exists>n. ymd_to_days ymd = Some n \<and> ymd_from_days n = Some ymd"
    using ymd_from_to [of ymd] by (auto simp: ymd_ok_iff)
next
  assume "- 12687794 \<le> n \<and> n \<le> 11248737"
  then obtain date where d: "ymd_from_days n = Some date" "ymd_to_days date = Some n"
      "valid_date (year_int (ymd_y date)) (month_unsigned (ymd_m date)) (day_unsigned (ymd_d date))"
    using ymd_to_from by blast
  have "leap 4" by (simp add: leap_def)
  then have "month_length y m \<le> month_length 4 m" for y m by (simp add: month_length_def)
  with d(3) have "valid_date 4 (month_unsigned (ymd_m date)) (day_unsigned (ymd_d date))"
    unfolding valid_date_def by (meson order_trans)
  moreover have "ymd_ok date \<or> year_int (ymd_y date) = - 32768"
    using d(3) year_int_bounds [of "ymd_y date"] by (simp add: ymd_ok_iff) linarith
  ultimately show "\<exists>date. ymd_from_days n = Some date \<and> ymd_to_days date = Some n \<and>
      (ymd_ok date \<or> year_int (ymd_y date) = - 32768) \<and> md_ok \<lparr>md_m = ymd_m date, md_d = ymd_d date\<rparr>"
    using d by (auto simp: md_ok_iff)
qed

theorem ymd_days_round_trip_witness:
  "\<exists>date. ymd_from_days 19782 = Some date \<and> ymd_to_days date = Some 19782"
  using ymd_days_round_trip [of "mk_ymd (mk_year 2024) (mk_month 2) (mk_day 29)" 19782] by auto

text \<open>
  C38. The count of days of a date is the Gregorian one: 1970-01-01 is day 0, and for every valid
  date the next date of the calendar (the next day of the month, or the first of the next month,
  or the first of January of the next year, with leap years in years divisible by 4 but not by
  100, or by 400) has the next count. The three-way comparison of two valid dates is the
  comparison of their counts.
\<close>

theorem ymd_to_days_gregorian:
  "ymd_to_days (mk_ymd (mk_year 1970) (mk_month 1) (mk_day 1)) = Some 0
   \<and> (ymd_ok a \<and> next_date (year_int (ymd_y a), month_unsigned (ymd_m a), day_unsigned (ymd_d a)) =
        (year_int (ymd_y b), month_unsigned (ymd_m b), day_unsigned (ymd_d b)) \<longrightarrow>
        (\<exists>n. ymd_to_days a = Some n \<and> ymd_to_days b = Some (n + 1) \<and> ymd_ok b))
   \<and> (ymd_ok a \<and> ymd_ok b \<longrightarrow>
        (\<exists>m n. ymd_to_days a = Some m \<and> ymd_to_days b = Some n \<and> ymd_cmp a b = compare_with m n))"
proof (intro conjI impI)
  show "ymd_to_days (mk_ymd (mk_year 1970) (mk_month 1) (mk_day 1)) = Some 0"
    by (simp add: ymd_to_days_closed mk_ymd_def wrap_signed_def civil_days_def march_year_def)
next
  assume h: "ymd_ok a \<and> next_date (year_int (ymd_y a), month_unsigned (ymd_m a), day_unsigned (ymd_d a)) =
        (year_int (ymd_y b), month_unsigned (ymd_m b), day_unsigned (ymd_d b))"
  then have v: "valid_date (year_int (ymd_y a)) (month_unsigned (ymd_m a)) (day_unsigned (ymd_d a))"
    by (simp add: ymd_ok_iff)
  have "year_int (ymd_y a) \<le> year_int (ymd_y b)"
    using h by (auto simp: next_date_def split: if_splits)
  with civil_days_next [OF v] h show "\<exists>n. ymd_to_days a = Some n \<and> ymd_to_days b = Some (n + 1) \<and> ymd_ok b"
    by (auto simp: ymd_to_days_closed ymd_ok_iff)
next
  assume "ymd_ok a \<and> ymd_ok b"
  then have v: "valid_date (year_int (ymd_y a)) (month_unsigned (ymd_m a)) (day_unsigned (ymd_d a))"
      "valid_date (year_int (ymd_y b)) (month_unsigned (ymd_m b)) (day_unsigned (ymd_d b))"
    by (simp_all add: ymd_ok_iff)
  have "compare_with (civil_days (year_int (ymd_y a)) (month_unsigned (ymd_m a)) (day_unsigned (ymd_d a)))
      (civil_days (year_int (ymd_y b)) (month_unsigned (ymd_m b)) (day_unsigned (ymd_d b))) = ymd_cmp a b"
    unfolding ymd_cmp_def year_cmp_def month_cmp_def day_cmp_def Let_def
    by (rule compare_with_lex [OF civil_days_less_iff [OF v] civil_days_less_iff [OF v(2,1)]])
  then show "\<exists>m n. ymd_to_days a = Some m \<and> ymd_to_days b = Some n \<and> ymd_cmp a b = compare_with m n"
    by (auto simp: ymd_to_days_closed)
qed

theorem ymd_to_days_gregorian_witness:
  "\<exists>m n. ymd_to_days (mk_ymd (mk_year 2000) (mk_month 2) (mk_day 29)) = Some m \<and>
         ymd_to_days (mk_ymd (mk_year 2000) (mk_month 3) (mk_day 1)) = Some n \<and> n = m + 1"
  using ymd_to_days_gregorian [of "mk_ymd (mk_year 2000) (mk_month 2) (mk_day 29)"
      "mk_ymd (mk_year 2000) (mk_month 3) (mk_day 1)"]
  by (auto simp: ymd_ok_iff mk_ymd_def wrap_signed_def valid_date_def month_length_def leap_def next_date_def)

text \<open>
  Where the conversions are defined: \<open>__to_days\<close> overflows for no stored date, valid or
  not; \<open>__from_days\<close> of an int n overflows exactly when n + 719468 does, and otherwise gives a
  month from 1 to 12 and a day from 1 to 31.
\<close>

theorem ymd_conversions_defined:
  assumes "in_signed 32 n"
  shows "ymd_to_days ymd \<noteq> None
       \<and> (ymd_from_days n = None \<longleftrightarrow> 2 ^ 31 - 1 - 719468 < n)
       \<and> (\<forall>date. ymd_from_days n = Some date \<longrightarrow> month_ok (ymd_m date) \<and> day_ok (ymd_d date))"
proof (cases "2 ^ 31 - 1 - 719468 < n")
  case True
  then show ?thesis by (simp add: ymd_to_days_closed ymd_from_days_overflow)
next
  case False
  then obtain y m d where f: "ymd_from_days n = Some (mk_ymd (mk_year y) (mk_month m) (mk_day d))" "valid_date y m d"
    using ymd_from_days_closed [OF assms] by auto
  have "month_ok (mk_month m)" "day_ok (mk_day d)"
    using f(2) month_length_bounds [of y m] by (auto simp: valid_date_def month_ok_iff day_ok_iff)
  with f False show ?thesis by (simp add: ymd_to_days_closed mk_ymd_def)
qed

theorem ymd_conversions_defined_witness: "ymd_from_days 2147000000 = None"
  using ymd_conversions_defined [of 2147000000] by (simp add: in_signed_def)

text \<open>
  Dates given by a weekday are consistent with the calendar. For every valid
  \<open>year_month_weekday\<close> (ok() returns true) \<open>__to_days\<close> gives a day n of that year and month
  whose weekday is the given one, and \<open>__from_days\<close> of n gives the same value back. For every
  valid \<open>year_month_weekday_last\<close>, \<open>__to_days\<close> gives a day of that year and month with the
  given weekday, and the day a week later is no longer in the month.
\<close>

theorem year_month_weekday_correct:
  "(ymwd_ok w = Some True \<longrightarrow>
      (\<exists>n date v. ymwd_to_days w = Some n \<and> ymd_from_days n = Some date \<and>
         ymd_y date = ymwd_y w \<and> ymd_m date = ymwd_m w \<and>
         weekday_of_sys_days n = Some v \<and> v = wdi_wd (ymwd_wdi w) \<and> ymwd_from_days n = Some w))
   \<and> (ymwdl_ok l \<longrightarrow>
      (\<exists>n date v. ymwdl_to_days l = Some n \<and> ymd_from_days n = Some date \<and>
         ymd_y date = ymwdl_y l \<and> ymd_m date = ymwdl_m l \<and>
         weekday_of_sys_days n = Some v \<and> v = wdl_wd (ymwdl_wdl l) \<and>
         month_length (year_int (ymd_y date)) (month_unsigned (ymd_m date)) < day_unsigned (ymd_d date) + 7))"
proof (intro conjI impI)
  assume ok: "ymwd_ok w = Some True"
  show "\<exists>n date v. ymwd_to_days w = Some n \<and> ymd_from_days n = Some date \<and>
         ymd_y date = ymwd_y w \<and> ymd_m date = ymwd_m w \<and>
         weekday_of_sys_days n = Some v \<and> v = wdi_wd (ymwd_wdi w) \<and> ymwd_from_days n = Some w"
    using ymwd_ok_round_trip [OF ok] by blast
next
  assume ok: "ymwdl_ok l"
  show "\<exists>n date v. ymwdl_to_days l = Some n \<and> ymd_from_days n = Some date \<and>
         ymd_y date = ymwdl_y l \<and> ymd_m date = ymwdl_m l \<and>
         weekday_of_sys_days n = Some v \<and> v = wdl_wd (ymwdl_wdl l) \<and>
         month_length (year_int (ymd_y date)) (month_unsigned (ymd_m date)) < day_unsigned (ymd_d date) + 7"
    using ymwdl_ok_last [OF ok] by blast
qed

theorem year_month_weekday_correct_witness:
  "\<exists>n. ymwdl_to_days \<lparr>ymwdl_y = mk_year 2024, ymwdl_m = mk_month 5, ymwdl_wdl = weekday_index_last (mk_weekday 1)\<rparr> = Some n \<and>
       weekday_of_sys_days n = Some (mk_weekday 1)"
  using year_month_weekday_correct [of "\<lparr>ymwd_y = mk_year 2024, ymwd_m = mk_month 5, ymwd_wdi = weekday_index (mk_weekday 1) 1\<rparr>"
      "\<lparr>ymwdl_y = mk_year 2024, ymwdl_m = mk_month 5, ymwdl_wdl = weekday_index_last (mk_weekday 1)\<rparr>"]
  by (auto simp: ymwdl_ok_def year_ok_iff month_ok_iff wdl_ok_def weekday_ok_iff weekday_index_last_def
      wrap_signed_def c_encoding_mk)

end
