(* ===== verification/CxxBits.thy ===== *)
theory CxxBits
  imports CxxInts
begin

text \<open>
  The bit functions of include/linux/c++/v1/__bit: countl.h, countr.h, popcount.h, rotate.h,
  \<open>bit_log2.h\<close>, \<open>bit_width.h\<close>, \<open>bit_floor.h\<close>, \<open>bit_ceil.h\<close>, \<open>has_single_bit.h\<close>, blsr.h and \<open>invert_if.h\<close>,
  in the variant that does not use the generic builtins. A value of an unsigned type of w bits is
  a nat below 2 ^ w; a left shift is cut to w bits by \<open>take_bit\<close>. The builtins on the machine's
  own types are written out. A loop that could run forever returns an option.
\<close>

section \<open>Builtins\<close>

fun libcpp_ctz :: "nat \<Rightarrow> nat" where
  "libcpp_ctz x = (if x = 0 \<or> odd x then 0 else Suc (libcpp_ctz (x div 2)))"

fun libcpp_popcount :: "nat \<Rightarrow> nat" where
  "libcpp_popcount x = (if x = 0 then 0 else x mod 2 + libcpp_popcount (x div 2))"

declare libcpp_ctz.simps [simp del] libcpp_popcount.simps [simp del]

text \<open>The number of leading zero bits of a nonzero w-bit value (\<open>__builtin_clz\<close>).\<close>

definition libcpp_clz :: "nat \<Rightarrow> nat \<Rightarrow> nat" where
  "libcpp_clz w x = w - 1 - ilog2 x"

section \<open>Rotations and counts\<close>

definition rotl :: "nat \<Rightarrow> nat \<Rightarrow> int \<Rightarrow> nat" where
  "rotl n x s =
     (let r = s smod int n
      in if r = 0 then x
         else if 0 < r then take_bit n (push_bit (nat r) x OR drop_bit (n - nat r) x)
         else take_bit n (drop_bit (nat (- r)) x OR push_bit (nat (int n + r)) x))"

definition rotr :: "nat \<Rightarrow> nat \<Rightarrow> int \<Rightarrow> nat" where
  "rotr n x s =
     (let r = s smod int n
      in if r = 0 then x
         else if 0 < r then take_bit n (drop_bit (nat r) x OR push_bit (n - nat r) x)
         else take_bit n (push_bit (nat (- r)) x OR drop_bit (nat (int n + r)) x))"

text \<open>The loop over the 64-bit words of a wide value; the test of t only makes the function total.\<close>

function countr_loop :: "nat \<Rightarrow> nat \<Rightarrow> nat" where
  "countr_loop ret t =
     (if take_bit 64 t = 0 \<and> t \<noteq> 0 then countr_loop (ret + 64) (drop_bit 64 t) else ret + libcpp_ctz (take_bit 64 t))"
  by pat_completeness auto
termination
  by (relation "measure (\<lambda>(ret, t). t)") (auto simp: drop_bit_eq_div div_less_dividend)

definition countr_zero :: "nat \<Rightarrow> nat \<Rightarrow> nat" where
  "countr_zero w t = (if t = 0 then w else if w \<le> 64 then libcpp_ctz t else countr_loop 0 t)"

definition countr_one :: "nat \<Rightarrow> nat \<Rightarrow> nat" where
  "countr_one w t = (if t \<noteq> 2 ^ w - 1 then countr_zero w (2 ^ w - 1 - t) else w)"

text \<open>The counts of the types up to 64 bits, and the loop that rotates the words of a wider one.\<close>

definition countl_zero_64 :: "nat \<Rightarrow> nat \<Rightarrow> nat" where
  "countl_zero_64 w t =
     (if t = 0 then w else if w \<le> 32 then libcpp_clz 32 t - (32 - w) else libcpp_clz 64 t - (64 - w))"

partial_function (option) countl_loop :: "nat \<Rightarrow> nat \<Rightarrow> nat \<Rightarrow> nat option" where
  "countl_loop w t ret =
     (let t = rotl w t 64; iter = countl_zero_64 64 (take_bit 64 t)
      in if iter \<noteq> 64 then Some (ret + iter) else countl_loop w t (ret + iter))"

definition countl_zero :: "nat \<Rightarrow> nat \<Rightarrow> nat option" where
  "countl_zero w t = (if t = 0 \<or> w \<le> 64 then Some (countl_zero_64 w t) else countl_loop w t 0)"

definition countl_one :: "nat \<Rightarrow> nat \<Rightarrow> nat option" where
  "countl_one w t = (if t \<noteq> 2 ^ w - 1 then countl_zero w (2 ^ w - 1 - t) else Some w)"

function popcount_loop :: "nat \<Rightarrow> nat \<Rightarrow> nat" where
  "popcount_loop ret t = (if t \<noteq> 0 then popcount_loop (ret + libcpp_popcount (take_bit 64 t)) (drop_bit 64 t) else ret)"
  by pat_completeness auto
termination
  by (relation "measure (\<lambda>(ret, t). t)") (auto simp: drop_bit_eq_div div_less_dividend)

definition popcount :: "nat \<Rightarrow> nat \<Rightarrow> nat" where
  "popcount w t = (if w \<le> 64 then libcpp_popcount t else popcount_loop 0 t)"

declare countr_loop.simps [simp del] popcount_loop.simps [simp del]

section \<open>Powers of two\<close>

definition bit_log2 :: "nat \<Rightarrow> nat \<Rightarrow> nat option" where
  "bit_log2 w t = do { z \<leftarrow> countl_zero w t; Some (w - 1 - z) }"

definition bit_width :: "nat \<Rightarrow> nat \<Rightarrow> nat option" where
  "bit_width w t = (if t = 0 then Some 0 else do { l \<leftarrow> bit_log2 w t; Some (l + 1) })"

definition bit_floor :: "nat \<Rightarrow> nat \<Rightarrow> nat option" where
  "bit_floor w t = (if t = 0 then Some 0 else do { l \<leftarrow> bit_log2 w t; Some (take_bit w (push_bit l 1)) })"

text \<open>
  A type narrower than unsigned shifts in unsigned, moved up by the difference of the widths; a
  shift by the width of the type shifted or more is undefined.
\<close>

definition shift_one :: "nat \<Rightarrow> nat \<Rightarrow> nat option" where
  "shift_one w n = (if n < w then Some (push_bit n 1) else None)"

definition bit_ceil :: "nat \<Rightarrow> nat \<Rightarrow> nat option" where
  "bit_ceil w t =
     (if t < 2 then Some 1
      else do {
        z \<leftarrow> countl_zero w (t - 1);
        let n = w - z;
        if 32 \<le> w then shift_one w n
        else do { r \<leftarrow> shift_one 32 (n + (32 - w)); Some (take_bit w (drop_bit (32 - w) r)) } })"

definition has_single_bit :: "nat \<Rightarrow> bool" where
  "has_single_bit t \<longleftrightarrow> t \<noteq> 0 \<and> t AND (t - 1) = 0"

definition libcpp_blsr :: "nat \<Rightarrow> nat \<Rightarrow> nat" where
  "libcpp_blsr w x = x XOR (x AND (2 ^ w - x) mod 2 ^ w)"

definition invert_if :: "bool \<Rightarrow> nat \<Rightarrow> nat \<Rightarrow> nat" where
  "invert_if b w v = (if b then 2 ^ w - 1 - v else v)"

section \<open>Trailing zeros\<close>

lemma ctz_odd: "odd x \<Longrightarrow> libcpp_ctz x = 0"
  by (simp add: libcpp_ctz.simps [of x])

lemma ctz_double: "x \<noteq> 0 \<Longrightarrow> libcpp_ctz (2 * x) = Suc (libcpp_ctz x)"
  by (simp add: libcpp_ctz.simps [of "2 * x"])

lemma ctz_split: "x \<noteq> 0 \<Longrightarrow> \<exists>q. x = 2 ^ libcpp_ctz x * q \<and> odd q"
proof (induction x rule: less_induct)
  case (less x)
  show ?case
  proof (cases "odd x")
    case True
    then show ?thesis by (intro exI [of _ x]) (simp add: ctz_odd)
  next
    case False
    then obtain y where y: "x = 2 * y" by blast
    with less.prems have "y < x" "y \<noteq> 0" by auto
    from less.IH [OF this] obtain q where "y = 2 ^ libcpp_ctz y * q" "odd q" by blast
    with y \<open>y \<noteq> 0\<close> show ?thesis by (intro exI [of _ q]) (simp add: ctz_double)
  qed
qed

lemma ctz_unique: "odd q \<Longrightarrow> libcpp_ctz (2 ^ k * q) = k"
proof (induction k)
  case (Suc k)
  then have "2 ^ k * q \<noteq> 0" by (auto dest: odd_pos)
  with ctz_double [of "2 ^ k * q"] Suc show ?case by (simp add: mult.assoc)
qed (simp add: ctz_odd)

lemma ctz_shift: "x \<noteq> 0 \<Longrightarrow> libcpp_ctz (2 ^ k * x) = k + libcpp_ctz x"
  using ctz_split [of x] ctz_unique [of _ "k + libcpp_ctz x"] by (metis power_add mult.assoc)

lemma ctz_dvd: "x \<noteq> 0 \<Longrightarrow> 2 ^ k dvd x \<longleftrightarrow> k \<le> libcpp_ctz x"
proof -
  assume "x \<noteq> 0"
  then obtain q where q: "x = 2 ^ libcpp_ctz x * q" "odd q" using ctz_split by blast
  have "\<not> 2 ^ k dvd x" if "libcpp_ctz x < k"
  proof
    assume "2 ^ k dvd x"
    moreover have "(2::nat) ^ Suc (libcpp_ctz x) dvd 2 ^ k" using that by (intro le_imp_power_dvd) simp
    ultimately have "2 ^ libcpp_ctz x * 2 dvd 2 ^ libcpp_ctz x * q" using q(1) by (metis dvd_trans power_Suc2)
    with q(2) show False by simp
  qed
  moreover have "2 ^ k dvd x" if "k \<le> libcpp_ctz x" using that q(1) by (metis dvd_mult2 le_imp_power_dvd)
  ultimately show ?thesis by linarith
qed

lemma ctz_take_bit: "take_bit k x \<noteq> 0 \<Longrightarrow> libcpp_ctz (take_bit k x) = libcpp_ctz x"
proof -
  assume t: "take_bit k x \<noteq> 0"
  then have x: "x \<noteq> 0" by (cases "x = 0") simp_all
  define j where "j = libcpp_ctz (take_bit k x)"
  have eq: "2 ^ i dvd take_bit k x \<longleftrightarrow> 2 ^ i dvd x" if "i \<le> k" for i
  proof -
    have "(2::nat) ^ i dvd 2 ^ k" using that by (rule le_imp_power_dvd)
    then show ?thesis unfolding take_bit_eq_mod by (rule dvd_mod_iff)
  qed
  have "\<not> 2 ^ k dvd take_bit k x" using t eq [of k] by (auto simp: take_bit_eq_mod dvd_imp_mod_0)
  then have "j < k" using ctz_dvd [OF t, of k] by (simp add: j_def)
  then have "2 ^ j dvd x" "\<not> 2 ^ Suc j dvd x"
    using eq [of j] eq [of "Suc j"] ctz_dvd [OF t, of j] ctz_dvd [OF t, of "Suc j"] by (simp_all add: j_def)
  then show ?thesis unfolding ctz_dvd [OF x] j_def [symmetric] by simp
qed

lemma countr_loop_ctz: "t \<noteq> 0 \<Longrightarrow> countr_loop ret t = ret + libcpp_ctz t"
proof (induction ret t rule: countr_loop.induct)
  case (1 ret t)
  show ?case
  proof (cases "take_bit 64 t = 0")
    case True
    then have t: "t = 2 ^ 64 * drop_bit 64 t" by (simp add: take_bit_eq_mod drop_bit_eq_div mod_eq_0_iff_dvd)
    then have "drop_bit 64 t \<noteq> 0" using 1(2) by (metis mult_0_right)
    with 1 True t ctz_shift [of "drop_bit 64 t" 64] show ?thesis by (simp add: countr_loop.simps [of ret t])
  next
    case False
    then show ?thesis by (simp add: countr_loop.simps [of ret t] ctz_take_bit)
  qed
qed

lemma countr_zero_ctz: "t \<noteq> 0 \<Longrightarrow> countr_zero w t = libcpp_ctz t"
  by (simp add: countr_zero_def countr_loop_ctz)

lemma ctz_bit: "t \<noteq> 0 \<Longrightarrow> bit t (libcpp_ctz t) \<and> (\<forall>i<libcpp_ctz t. \<not> bit t i)"
proof -
  assume "t \<noteq> 0"
  then obtain q where q: "t = 2 ^ libcpp_ctz t * q" "odd q" using ctz_split by blast
  then have "t = push_bit (libcpp_ctz t) q" by (simp add: push_bit_eq_mult mult.commute)
  then have "bit t i \<longleftrightarrow> libcpp_ctz t \<le> i \<and> bit q (i - libcpp_ctz t)" for i by (metis bit_push_bit_iff_nat)
  with q(2) show ?thesis by (auto simp: bit_0)
qed

section \<open>Leading zeros\<close>

lemma ilog2_less: "t \<noteq> 0 \<Longrightarrow> t < 2 ^ w \<Longrightarrow> ilog2 t < w"
  using ilog2_le [of t] by (meson le_less_trans nat_power_less_imp_less gr0I zero_less_numeral)

lemma ilog2_bit: "t \<noteq> 0 \<Longrightarrow> bit t (ilog2 t) \<and> (\<forall>i>ilog2 t. \<not> bit t i)"
proof -
  assume t: "t \<noteq> 0"
  then have b: "2 ^ ilog2 t \<le> t" "t < 2 ^ Suc (ilog2 t)" by (simp_all add: ilog2_le ilog2_gt del: power_Suc)
  have "t div 2 ^ ilog2 t = 1" using b by (intro div_nat_eqI) simp_all
  then have "bit t (ilog2 t)" by (simp add: bit_iff_odd)
  moreover have "\<not> bit t i" if "ilog2 t < i" for i
  proof -
    have "(2::nat) ^ Suc (ilog2 t) \<le> 2 ^ i" using that by (intro power_increasing) simp_all
    with b(2) have "t < 2 ^ i" by (rule order.strict_trans2)
    then show ?thesis by (simp add: bit_iff_odd)
  qed
  ultimately show ?thesis by blast
qed

lemma ilog2_drop_bit: "drop_bit k t \<noteq> 0 \<Longrightarrow> ilog2 t = k + ilog2 (drop_bit k t)"
proof -
  assume h: "drop_bit k t \<noteq> 0"
  define m where "m = ilog2 (drop_bit k t)"
  have b: "2 ^ m \<le> t div 2 ^ k" "t div 2 ^ k < 2 ^ Suc m"
    using h by (simp_all add: m_def ilog2_le ilog2_gt drop_bit_eq_div del: power_Suc)
  then have "2 ^ (k + m) \<le> t" "t < 2 ^ Suc (k + m)"
    by (simp_all add: power_add less_eq_div_iff_mult_less_eq div_less_iff_less_mult mult.commute mult.left_commute)
  then have "ilog2 t = k + m" by (rule ilog2_unique)
  then show ?thesis by (simp add: m_def)
qed

text \<open>Both rotations, of a value of n bits, rotate left by the count's residue.\<close>

definition rot_left :: "nat \<Rightarrow> nat \<Rightarrow> nat \<Rightarrow> nat" where
  "rot_left n k x = take_bit n (push_bit k x OR drop_bit (n - k) x)"

lemma rot_left_0: "x < 2 ^ n \<Longrightarrow> rot_left n 0 x = x"
  by (simp add: rot_left_def take_bit_nat_eq_self drop_bit_eq_div)

lemma smod_mod: "0 < n \<Longrightarrow> s mod n = (if s smod n < 0 then s smod n + n else s smod (n::int))"
proof -
  assume n: "0 < n"
  define r where "r = s smod n"
  have r: "\<bar>r\<bar> < n" using n by (simp add: r_def signed_modulo_int_def abs_mult abs_sgn_eq)
  have "s = (s sdiv n) * n + r" unfolding r_def by (rule sdiv_mult_smod_eq [symmetric])
  then have "s mod n = r mod n" by (metis mod_mult_self3)
  with r n show ?thesis by (simp add: mod_neg_small mod_pos_pos_trivial r_def)
qed

lemma rotl_rot_left:
  assumes "0 < n" and "x < 2 ^ n"
  shows "rotl n x s = rot_left n (nat (s mod int n)) x"
proof -
  define r where "r = s smod int n"
  have "\<bar>r\<bar> < int n" using assms(1) by (simp add: r_def signed_modulo_int_def abs_mult abs_sgn_eq)
  moreover have "s mod int n = (if r < 0 then r + int n else r)" using smod_mod [of "int n" s] assms(1) by (simp add: r_def)
  moreover have "n - nat (int n + r) = nat (- r)" if "- int n < r" "r < 0" using that by linarith
  ultimately show ?thesis
    using rot_left_0 [OF assms(2)]
    by (auto simp: rotl_def Let_def r_def [symmetric] rot_left_def or.commute add.commute)
qed

lemma rotr_rot_left:
  assumes "0 < n" and "x < 2 ^ n"
  shows "rotr n x s = rot_left n (nat ((- s) mod int n)) x"
proof -
  define r where "r = s smod int n"
  have r: "\<bar>r\<bar> < int n" using assms(1) by (simp add: r_def signed_modulo_int_def abs_mult abs_sgn_eq)
  have "(- s) smod int n = - r" by (simp add: r_def signed_modulo_int_def sgn_if)
  then have "(- s) mod int n = (if 0 < r then int n - r else - r)" using smod_mod [of "int n" "- s"] assms(1) by simp
  moreover have "n - nat (int n - r) = nat r" "nat (int n - r) = n - nat r" if "0 < r" using that r by linarith+
  moreover have "n - nat (- r) = nat (int n + r)" if "r < 0" using that r by linarith
  ultimately show ?thesis
    using rot_left_0 [OF assms(2)]
    by (auto simp: rotr_def Let_def r_def [symmetric] rot_left_def or.commute)
qed

lemma bit_small: "x < 2 ^ n \<Longrightarrow> bit (x::nat) i \<Longrightarrow> i < n"
  by (metis bit_take_bit_iff take_bit_nat_eq_self)

lemma bit_rot_left:
  assumes "k < n" and "x < 2 ^ n" and "i < n"
  shows "bit (rot_left n k x) i \<longleftrightarrow> bit x (nat ((int i - int k) mod int n))"
proof (cases "k \<le> i")
  case True
  then have "nat ((int i - int k) mod int n) = i - k" using assms(3) by (subst mod_pos_pos_trivial) linarith+
  moreover have "\<not> bit x (n - k + i)" using bit_small [OF assms(2), of "n - k + i"] True by auto
  ultimately show ?thesis using True assms(3)
    by (simp add: rot_left_def bit_take_bit_iff bit_or_iff bit_push_bit_iff_nat bit_drop_bit_eq)
next
  case False
  then have "nat ((int i - int k) mod int n) = n - k + i" using assms by (subst mod_neg_small) linarith+
  with False assms(3) show ?thesis
    by (simp add: rot_left_def bit_take_bit_iff bit_or_iff bit_push_bit_iff_nat bit_drop_bit_eq)
qed

lemma rot_left_less: "rot_left n k x < 2 ^ n"
  unfolding rot_left_def by (rule take_bit_nat_less_exp)

lemma bit_rotl:
  assumes "x < 2 ^ n" and "i < n"
  shows "bit (rotl n x s) i \<longleftrightarrow> bit x (nat ((int i - s) mod int n))"
proof -
  have n: "0 < n" using assms(2) by simp
  then have k: "nat (s mod int n) < n" by (simp add: nat_less_iff)
  have "(int i - int (nat (s mod int n))) mod int n = (int i - s) mod int n" using n by (simp add: mod_diff_right_eq)
  with bit_rot_left [OF k assms] show ?thesis by (simp add: rotl_rot_left [OF n assms(1)])
qed

lemma nat_eq_bits: "x < 2 ^ n \<Longrightarrow> y < 2 ^ n \<Longrightarrow> (\<And>i. i < n \<Longrightarrow> bit x i = bit y i) \<Longrightarrow> x = (y::nat)"
  by (rule bit_eqI) (metis bit_small)

lemma rotl_less: "0 < n \<Longrightarrow> x < 2 ^ n \<Longrightarrow> rotl n x s < 2 ^ n"
  by (simp add: rotl_rot_left rot_left_less)

lemma rotl_rotl:
  assumes "0 < n" and "x < 2 ^ n"
  shows "rotl n (rotl n x a) b = rotl n x (a + b)"
proof (rule nat_eq_bits [of _ n])
  fix i assume i: "i < n"
  define j where "j = nat ((int i - b) mod int n)"
  have j: "j < n" "int j = (int i - b) mod int n" using assms(1) by (simp_all add: j_def nat_less_iff)
  have "bit (rotl n (rotl n x a) b) i = bit (rotl n x a) j"
    unfolding j_def using rotl_less [OF assms] i by (rule bit_rotl)
  also have "\<dots> = bit x (nat ((int j - a) mod int n))" using assms(2) j(1) by (rule bit_rotl)
  also have "(int j - a) mod int n = (int i - (a + b)) mod int n"
    unfolding j(2) by (simp add: mod_diff_left_eq algebra_simps)
  finally show "bit (rotl n (rotl n x a) b) i = bit (rotl n x (a + b)) i" using bit_rotl [OF assms(2) i] by simp
qed (simp_all add: rotl_less assms)

lemma rotr_rotl: "0 < n \<Longrightarrow> x < 2 ^ n \<Longrightarrow> rotr n x s = rotl n x (- s)"
  by (simp add: rotr_rot_left rotl_rot_left)

lemma rotl_0: "rotl n x 0 = x"
  by (simp add: rotl_def)

text \<open>The loop over the words of a 128-bit value sees the high word first, then the low one.\<close>

lemma countl_zero_small:
  assumes "w \<in> {8, 16, 32, 64}" and "t \<noteq> 0" and "t < 2 ^ w"
  shows "countl_zero w t = Some (w - 1 - ilog2 t)"
  using assms ilog2_less [OF assms(2,3)] by (auto simp: countl_zero_def countl_zero_64_def libcpp_clz_def)

lemma rotl_128_64: "t < 2 ^ 128 \<Longrightarrow> take_bit 64 (rotl 128 t 64) = drop_bit 64 t"
proof (rule nat_eq_bits [of _ 64])
  assume t: "t < 2 ^ 128"
  then show "drop_bit 64 t < 2 ^ 64" by (simp add: drop_bit_eq_div div_less_iff_less_mult)
  fix i :: nat assume "i < 64"
  then have "nat ((int i - 64) mod int 128) = 64 + i" by (subst mod_neg_small) linarith+
  with \<open>i < 64\<close> show "bit (take_bit 64 (rotl 128 t 64)) i = bit (drop_bit 64 t) i"
    using bit_rotl [OF t, of i 64] by (simp add: bit_take_bit_iff bit_drop_bit_eq)
qed (rule take_bit_nat_less_exp)

lemma rotl_full: "x < 2 ^ n \<Longrightarrow> rotl n x (int n) = x"
  by (simp add: rotl_def signed_modulo_int_def)

lemma countl_loop_128:
  assumes "t \<noteq> 0" and "t < 2 ^ 128"
  shows "countl_loop 128 t 0 = Some (127 - ilog2 t)"
proof -
  define h where "h = drop_bit 64 t"
  have h: "take_bit 64 (rotl 128 t 64) = h" unfolding h_def using assms(2) by (rule rotl_128_64)
  have h64: "h < 2 ^ 64" unfolding h [symmetric] by (rule take_bit_nat_less_exp)
  show ?thesis
  proof (cases "h = 0")
    case False
    then have "ilog2 t = 64 + ilog2 h" unfolding h_def by (rule ilog2_drop_bit)
    moreover have l: "ilog2 h < 64" using False h64 by (rule ilog2_less)
    moreover have "63 - ilog2 h \<noteq> 64" by arith
    ultimately show ?thesis
      using False by (subst countl_loop.simps) (simp add: Let_def h countl_zero_64_def libcpp_clz_def)
  next
    case True
    then have "t < 2 ^ 64" unfolding h_def by (simp add: drop_bit_eq_div div_eq_0_iff)
    moreover have "rotl 128 (rotl 128 t 64) 64 = t" using rotl_rotl [of 128 t 64 64] rotl_full [OF assms(2)] assms(2) by simp
    moreover have "ilog2 t < 64" using assms(1) \<open>t < 2 ^ 64\<close> by (rule ilog2_less)
    moreover have "63 - ilog2 t \<noteq> 64" by arith
    ultimately show ?thesis using True assms(1)
      by (subst countl_loop.simps, subst countl_loop.simps)
        (simp add: Let_def h countl_zero_64_def libcpp_clz_def take_bit_nat_eq_self)
  qed
qed

definition unsigned_width :: "nat \<Rightarrow> bool" where
  "unsigned_width w \<longleftrightarrow> w \<in> {8, 16, 32, 64, 128}"

lemma countl_zero_ilog2: "unsigned_width w \<Longrightarrow> t \<noteq> 0 \<Longrightarrow> t < 2 ^ w \<Longrightarrow> countl_zero w t = Some (w - 1 - ilog2 t)"
  using countl_zero_small [of w t] countl_loop_128 [of t]
  by (auto simp: unsigned_width_def countl_zero_def)

section \<open>Counts of bits\<close>

lemma bits_split: "{i. bit (t::nat) i} = {i. bit (take_bit k t) i} \<union> (+) k ` {i. bit (drop_bit k t) i}"
proof (rule set_eqI)
  fix i
  have "i \<in> (+) k ` {i. bit (drop_bit k t) i} \<longleftrightarrow> k \<le> i \<and> bit t i"
    by (auto simp: bit_drop_bit_eq image_iff le_iff_add)
  then show "i \<in> {i. bit t i} \<longleftrightarrow> i \<in> {i. bit (take_bit k t) i} \<union> (+) k ` {i. bit (drop_bit k t) i}"
    by (auto simp: bit_take_bit_iff)
qed

lemma finite_bits: "finite {i. bit (t::nat) i}"
  by (rule finite_subset [of _ "{..<t}"]) (auto intro: bit_small [OF less_exp])

lemma card_bits_split: "card {i. bit (t::nat) i} = card {i. bit (take_bit k t) i} + card {i. bit (drop_bit k t) i}"
proof -
  have "card {i. bit t i} = card {i. bit (take_bit k t) i} + card ((+) k ` {i. bit (drop_bit k t) i})"
    by (subst bits_split [of t k], rule card_Un_disjoint)
      (auto simp: finite_bits bit_take_bit_iff)
  then show ?thesis by (simp add: card_image)
qed

lemma libcpp_popcount_card: "libcpp_popcount t = card {i. bit t i}"
proof (induction t rule: libcpp_popcount.induct)
  case (1 t)
  have "{i. bit (take_bit (Suc 0) t) i} = (if odd t then {0} else {})" by (auto simp: bit_take_bit_iff bit_0)
  then have "card {i. bit t i} = t mod 2 + card {i. bit (t div 2) i}"
    using card_bits_split [of t 1] by (simp add: drop_bit_Suc odd_iff_mod_2_eq_one)
  with 1 show ?case by (simp add: libcpp_popcount.simps [of t])
qed

lemma popcount_loop_card: "popcount_loop ret t = ret + card {i. bit t i}"
proof (induction ret t rule: popcount_loop.induct)
  case (1 ret t)
  then show ?case
    using card_bits_split [of t 64] by (simp add: popcount_loop.simps [of ret t] libcpp_popcount_card)
qed

lemma popcount_card: "popcount w t = card {i. bit t i}"
  by (simp add: popcount_def libcpp_popcount_card popcount_loop_card)

text \<open>The bits of the complement of a value of w bits.\<close>

lemma bit_complement:
  assumes "(t::nat) < 2 ^ w" and "i < w"
  shows "bit (2 ^ w - 1 - t) i \<longleftrightarrow> \<not> bit t i"
proof -
  have "int (2 ^ w - 1 - t) = (- int t - 1) mod 2 ^ w"
  proof -
    have "int t < 2 ^ w" using assms(1) by simp
    then have "(- int t - 1) mod 2 ^ w = - int t - 1 + 2 ^ w" by (intro mod_neg_small) linarith+
    then show ?thesis using assms(1) by (simp add: of_nat_diff)
  qed
  also have "\<dots> = take_bit w (NOT (int t))" by (simp add: take_bit_eq_mod not_int_def)
  finally have "bit (int (2 ^ w - 1 - t)) i \<longleftrightarrow> bit (take_bit w (NOT (int t))) i" by simp
  with assms(2) show ?thesis by (simp add: bit_take_bit_iff bit_not_iff bit_of_nat_iff)
qed

lemma length_takeWhile_first:
  assumes "k \<le> length xs" and "\<And>i. i < k \<Longrightarrow> P (xs ! i)" and "k < length xs \<Longrightarrow> \<not> P (xs ! k)"
  shows "length (takeWhile P xs) = k"
proof -
  have "takeWhile P xs = take k xs"
    using assms by (cases "k < length xs") (auto intro: takeWhile_eq_take_P_nth simp: in_set_conv_nth)
  with assms(1) show ?thesis by simp
qed

lemma countr_zero_takeWhile:
  assumes "t < 2 ^ w"
  shows "countr_zero w t = length (takeWhile (\<lambda>i. \<not> bit t i) [0..<w])"
proof (cases "t = 0")
  case True
  then show ?thesis by (simp add: countr_zero_def takeWhile_eq_all_conv [THEN iffD2])
next
  case False
  note b = ctz_bit [OF False]
  from b have "libcpp_ctz t < w" using bit_small [OF assms] by blast
  with b have "length (takeWhile (\<lambda>i. \<not> bit t i) [0..<w]) = libcpp_ctz t"
    by (intro length_takeWhile_first) simp_all
  with False show ?thesis by (simp add: countr_zero_ctz)
qed

lemma countl_zero_takeWhile:
  assumes "unsigned_width w" and "t < 2 ^ w"
  shows "countl_zero w t = Some (length (takeWhile (\<lambda>i. \<not> bit t i) (rev [0..<w])))"
proof (cases "t = 0")
  case True
  then show ?thesis by (simp add: countl_zero_def countl_zero_64_def takeWhile_eq_all_conv [THEN iffD2])
next
  case False
  note b = ilog2_bit [OF False] and l = ilog2_less [OF False assms(2)]
  from b l have "length (takeWhile (\<lambda>i. \<not> bit t i) (rev [0..<w])) = w - 1 - ilog2 t"
    by (intro length_takeWhile_first) (auto simp: rev_nth)
  with countl_zero_ilog2 [OF assms(1) False assms(2)] show ?thesis by simp
qed

lemma takeWhile_complement:
  assumes "(t::nat) < 2 ^ w" and "set xs \<subseteq> {..<w}"
  shows "takeWhile (\<lambda>i. \<not> bit (2 ^ w - 1 - t) i) xs = takeWhile (bit t) xs"
  using assms(2) bit_complement [OF assms(1)] by (intro takeWhile_cong) auto

lemma takeWhile_ones: "set xs \<subseteq> {..<w} \<Longrightarrow> takeWhile (bit (2 ^ w - 1 :: nat)) xs = xs"
proof -
  assume "set xs \<subseteq> {..<w}"
  moreover have "bit (2 ^ w - 1 :: nat) i" if "i < w" for i
    unfolding mask_eq_exp_minus_1 [symmetric] using that by (simp add: bit_mask_iff)
  ultimately show ?thesis by (simp only: takeWhile_eq_all_conv) blast
qed

lemma complement_less: "(2::nat) ^ w - 1 - t < 2 ^ w"
  by (simp add: less_imp_diff_less)

lemma countr_one_takeWhile:
  assumes "t < 2 ^ w"
  shows "countr_one w t = length (takeWhile (bit t) [0..<w])"
proof -
  have xs: "set [0..<w] \<subseteq> {..<w}" by auto
  show ?thesis
    unfolding countr_one_def countr_zero_takeWhile [OF complement_less] takeWhile_complement [OF assms xs]
    by (cases "t = 2 ^ w - 1")
      (simp_all only: takeWhile_ones [OF xs] length_upt length_rev minus_nat.diff_0 simp_thms if_True if_False)
qed

lemma countl_one_takeWhile:
  assumes "unsigned_width w" and "t < 2 ^ w"
  shows "countl_one w t = Some (length (takeWhile (bit t) (rev [0..<w])))"
proof -
  have xs: "set (rev [0..<w]) \<subseteq> {..<w}" by auto
  show ?thesis
    unfolding countl_one_def countl_zero_takeWhile [OF assms(1) complement_less] takeWhile_complement [OF assms(2) xs]
    by (cases "t = 2 ^ w - 1")
      (simp_all only: takeWhile_ones [OF xs] length_upt length_rev minus_nat.diff_0 simp_thms if_True if_False)
qed

section \<open>Powers of two, proofs\<close>

lemma Least_exp: "t \<noteq> 0 \<Longrightarrow> (LEAST k. t < (2::nat) ^ k) = Suc (ilog2 t)"
proof (rule Least_equality)
  assume t: "t \<noteq> 0"
  then show "t < 2 ^ Suc (ilog2 t)" using ilog2_gt [of t] by simp
  fix k assume "t < 2 ^ k"
  with t show "Suc (ilog2 t) \<le> k" using ilog2_less [of t k] by simp
qed

lemma bit_log2_ilog2: "unsigned_width w \<Longrightarrow> t \<noteq> 0 \<Longrightarrow> t < 2 ^ w \<Longrightarrow> bit_log2 w t = Some (ilog2 t)"
  using ilog2_less [of t w] by (simp add: bit_log2_def countl_zero_ilog2)

lemma bit_width_Least: "unsigned_width w \<Longrightarrow> t < 2 ^ w \<Longrightarrow> bit_width w t = Some (LEAST k. t < 2 ^ k)"
  by (cases "t = 0") (simp_all add: bit_width_def Least_eq_0 bit_log2_ilog2 Least_exp)

lemma bit_floor_Greatest:
  assumes "unsigned_width w" and "t < 2 ^ w" and "t \<noteq> 0"
  shows "bit_floor w t = Some (2 ^ (GREATEST k. 2 ^ k \<le> t))"
proof -
  have "(GREATEST k. 2 ^ k \<le> t) = ilog2 t"
  proof (rule Greatest_equality)
    show "2 ^ ilog2 t \<le> t" using assms(3) by (simp add: ilog2_le)
    fix k assume "2 ^ k \<le> t"
    also have "t < 2 ^ Suc (ilog2 t)" using assms(3) by (simp add: ilog2_gt del: power_Suc)
    finally have "k < Suc (ilog2 t)" by (meson nat_power_less_imp_less zero_less_numeral)
    then show "k \<le> ilog2 t" by simp
  qed
  moreover have "(2::nat) ^ ilog2 t < 2 ^ w" using ilog2_less [OF assms(3,2)] by simp
  ultimately show ?thesis
    using bit_log2_ilog2 [OF assms(1,3,2)] assms(3) by (simp add: bit_floor_def take_bit_nat_eq_self push_bit_eq_mult)
qed

lemma Least_ge_exp: "2 \<le> t \<Longrightarrow> (LEAST k. t \<le> (2::nat) ^ k) = Suc (ilog2 (t - 1))"
proof -
  assume t: "2 \<le> t"
  then have "(t \<le> 2 ^ k) = (t - 1 < 2 ^ k)" for k by auto
  then show ?thesis using Least_exp [of "t - 1"] t by simp
qed

lemma bit_floor_correct:
  "unsigned_width w \<Longrightarrow> t < 2 ^ w \<Longrightarrow> bit_floor w t = Some (if t = 0 then 0 else 2 ^ (GREATEST k. 2 ^ k \<le> t))"
  by (cases "t = 0") (simp add: bit_floor_def, simp add: bit_floor_Greatest)

lemma bit_ceil_Least:
  assumes "unsigned_width w" and "t < 2 ^ w"
  shows "bit_ceil w t = (if t \<le> 2 ^ (w - 1) then Some (2 ^ (LEAST k. t \<le> 2 ^ k)) else None)"
proof (cases "t < 2")
  case True
  then have "(LEAST k. t \<le> (2::nat) ^ k) = 0" by (intro Least_eq_0) simp
  moreover have "t \<le> 2 ^ (w - 1)" using True by (simp add: le_trans [OF _ one_le_power])
  ultimately show ?thesis using True by (simp add: bit_ceil_def)
next
  case False
  define l where "l = ilog2 (t - 1)"
  have w: "w \<le> 32 \<or> 32 \<le> w" "0 < w" using assms(1) by (auto simp: unsigned_width_def)
  have l: "l < w" unfolding l_def using False assms(2) by (intro ilog2_less) auto
  have lw: "t \<le> 2 ^ (w - 1) \<longleftrightarrow> Suc l < w"
  proof -
    have "t - 1 < 2 ^ (w - 1) \<longleftrightarrow> l < w - 1"
      unfolding l_def using False ilog2_less [of "t - 1" "w - 1"] ilog2_gt [of "t - 1"]
        power_increasing [of "Suc (ilog2 (t - 1))" "w - 1" "2::nat"] by fastforce
    with False show ?thesis by auto
  qed
  have "countl_zero w (t - 1) = Some (w - 1 - l)"
    unfolding l_def using assms False by (intro countl_zero_ilog2) auto
  moreover have "w - (w - 1 - l) = Suc l" using l by simp
  moreover have "take_bit w (drop_bit (32 - w) (push_bit (Suc l + (32 - w)) 1)) = (2::nat) ^ Suc l" if "Suc l < w"
    using that
    by (simp add: push_bit_eq_mult drop_bit_eq_div power_add [of 2 "Suc l"] take_bit_nat_eq_self del: power_Suc add_Suc)
  ultimately show ?thesis
    using False l w lw by (auto simp: bit_ceil_def Let_def shift_one_def Least_ge_exp l_def push_bit_eq_mult)
qed

lemma and_pred_even: "m \<noteq> 0 \<Longrightarrow> (2 * m) AND (2 * m - 1) = 2 * (m AND (m - (1::nat)))"
proof -
  assume "m \<noteq> 0"
  then have "2 * m - 1 = 1 + 2 * (m - 1)" by simp
  then show ?thesis by (simp add: and_rec [of "2 * m"])
qed

lemma and_pred_odd: "odd t \<Longrightarrow> t AND (t - 1) = t - (1::nat)"
  by (elim oddE) (simp add: and_rec [of "Suc (2 * _)"])

text \<open>Both tests and resets of the lowest set bit rest on t AND (t - 1).\<close>

lemma and_pred: "t \<noteq> 0 \<Longrightarrow> t AND (t - 1) = t - 2 ^ libcpp_ctz t"
proof (induction t rule: less_induct)
  case (less t)
  show ?case
  proof (cases "odd t")
    case True
    then show ?thesis by (simp add: and_pred_odd ctz_odd del: One_nat_def)
  next
    case False
    then obtain m where t: "t = 2 * m" by blast
    with less.prems have m: "m \<noteq> 0" "m < t" by auto
    then have "t AND (t - 1) = 2 * (m - 2 ^ libcpp_ctz m)" unfolding t and_pred_even [OF m(1)] using less.IH t by simp
    with m t show ?thesis by (simp add: ctz_double diff_mult_distrib2)
  qed
qed

lemma has_single_bit_power: "has_single_bit t \<longleftrightarrow> (\<exists>k. t = 2 ^ k)"
proof (cases "t = 0")
  case False
  then have "t = 2 ^ libcpp_ctz t \<longleftrightarrow> (\<exists>k. t = 2 ^ k)" by (metis ctz_unique mult.right_neutral odd_one)
  moreover have "2 ^ libcpp_ctz t \<le> t" using False ctz_dvd [of t "libcpp_ctz t"] by (simp add: dvd_imp_le)
  ultimately show ?thesis using False and_pred [OF False] by (auto simp: has_single_bit_def)
qed (simp add: has_single_bit_def)

lemma and_less: "a < 2 ^ w \<Longrightarrow> b < 2 ^ w \<Longrightarrow> a AND b < (2::nat) ^ w"
  by (metis take_bit_and take_bit_nat_eq_self take_bit_nat_less_exp)

lemma xor_less: "a < 2 ^ w \<Longrightarrow> b < 2 ^ w \<Longrightarrow> a XOR b < (2::nat) ^ w"
  by (metis take_bit_xor take_bit_nat_eq_self take_bit_nat_less_exp)

lemma blsr_and_pred:
  assumes "x < 2 ^ w" and "x \<noteq> 0"
  shows "libcpp_blsr w x = x AND (x - 1)"
proof -
  define c where "c = 2 ^ w - 1 - (x - 1)"
  have c: "(2 ^ w - x) mod 2 ^ w = c" "c < 2 ^ w" using assms by (auto simp: c_def)
  have "bit c i \<longleftrightarrow> \<not> bit (x - 1) i" if "i < w" for i
    unfolding c_def using that assms(1) by (intro bit_complement) auto
  then show ?thesis
    unfolding libcpp_blsr_def c(1) using assms(1) c(2)
    by (intro nat_eq_bits [of _ w]) (auto simp: bit_xor_iff bit_and_iff and_less xor_less)
qed

section \<open>Properties\<close>

text \<open>
  C29. On every unsigned type (of 8 to 128 bits) the counts agree with the bits of the value:
  \<open>countr_zero\<close> and \<open>countr_one\<close> count the zeros and the ones from bit 0 upwards to the first other
  bit, \<open>countl_zero\<close> and \<open>countl_one\<close> from the top bit downwards, on 0 and on the value of all ones
  too (the loop over the 64-bit words of a wide value ends, on every value), and \<open>popcount\<close> is the
  number of set bits.
\<close>

theorem bit_counting_correct:
  assumes "unsigned_width w" and "t < 2 ^ w"
  shows "(countr_zero w t = length (takeWhile (\<lambda>i. \<not> bit t i) [0..<w])) \<and>
    (countr_one w t = length (takeWhile (bit t) [0..<w])) \<and>
    (countl_zero w t = Some (length (takeWhile (\<lambda>i. \<not> bit t i) (rev [0..<w])))) \<and>
    (countl_one w t = Some (length (takeWhile (bit t) (rev [0..<w])))) \<and>
    (popcount w t = card {i. bit t i})"
  using countr_zero_takeWhile [OF assms(2)] countr_one_takeWhile [OF assms(2)] countl_zero_takeWhile [OF assms]
    countl_one_takeWhile [OF assms] popcount_card by (intro conjI)

theorem bit_counting_correct_witness:
  "countl_zero 128 (2 ^ 70) = Some (length (takeWhile (\<lambda>i. \<not> bit (2 ^ 70 :: nat) i) (rev [0..<128])))"
proof -
  have "unsigned_width 128" "(2::nat) ^ 70 < 2 ^ 128" by (simp_all add: unsigned_width_def)
  then show ?thesis by (blast dest: bit_counting_correct)
qed

text \<open>
  The powers of two of every unsigned type: \<open>bit_width\<close> is the least number of bits that hold
  the value, \<open>bit_floor\<close> of a nonzero value is the largest power of two not above it, and
  \<open>bit_ceil\<close> is the least power of two not below it when the type can represent one, and is
  undefined (a shift by the width) exactly when it cannot. \<open>has_single_bit\<close> recognises the powers
  of two and \<open>blsr\<close> clears the lowest set bit of a nonzero value.
\<close>

theorem powers_of_two_correct:
  assumes "unsigned_width w" and "t < 2 ^ w"
  shows "(bit_width w t = Some (LEAST k. t < 2 ^ k)) \<and>
    (bit_floor w t = Some (if t = 0 then 0 else 2 ^ (GREATEST k. 2 ^ k \<le> t))) \<and>
    (bit_ceil w t = (if t \<le> 2 ^ (w - 1) then Some (2 ^ (LEAST k. t \<le> 2 ^ k)) else None)) \<and>
    (has_single_bit t \<longleftrightarrow> (\<exists>k. t = 2 ^ k)) \<and>
    (t \<noteq> 0 \<longrightarrow> libcpp_blsr w t = t - 2 ^ countr_zero w t)"
  using assms
  by (simp add: bit_width_Least bit_floor_correct bit_ceil_Least has_single_bit_power
      blsr_and_pred and_pred countr_zero_ctz del: One_nat_def)

theorem powers_of_two_correct_witness: "bit_ceil 16 40000 = None \<and> libcpp_blsr 8 12 = 12 - 2 ^ countr_zero 8 12"
  using powers_of_two_correct [of 16 40000] powers_of_two_correct [of 8 12] by (simp add: unsigned_width_def)

text \<open>
  The rotations of a value of n bits by any count, negative counts and counts beyond n
  included: \<open>rotl\<close> moves the bit at position i - s (mod n) to position i, \<open>rotr\<close> by s is \<open>rotl\<close> by
  - s, rotations compose by adding the counts, and each of the two undoes the other.
\<close>

theorem rotations_correct:
  assumes "0 < n" and "x < 2 ^ n"
  shows "(i < n \<longrightarrow> bit (rotl n x s) i \<longleftrightarrow> bit x (nat ((int i - s) mod int n))) \<and>
    (rotl n x s < 2 ^ n) \<and>
    (rotr n x s = rotl n x (- s)) \<and>
    (rotl n (rotl n x s) r = rotl n x (s + r)) \<and>
    (rotr n (rotl n x s) s = x) \<and>
    (rotl n (rotr n x s) s = x)"
  using assms by (simp add: bit_rotl rotl_less rotr_rotl rotl_rotl rotl_0)

theorem rotations_correct_witness: "rotr 8 (rotl 8 0x81 (- 11)) (- 11) = 0x81"
  using rotations_correct [of 8 "0x81" 0 "- 11" 0] by simp

end
