(* ===== verification/CxxToChars.thy ===== *)
theory CxxToChars
  imports CxxBits
begin

text \<open>
  Integers to text, include/linux/c++/v1/__charconv: tables.h, \<open>to_chars_base_10.h\<close>, the
  writing part of traits.h and \<open>to_chars_integral.h\<close>. A value of an unsigned type of w bits is
  a nat below 2 ^ w, a value of a signed type an int; casts to a narrower type are written as
  mod. What a function writes from first on is a string; cap is the number of characters the
  caller's buffer has.
\<close>

section \<open>tables.h\<close>

definition base_2_lut :: string where
  "base_2_lut = ''0000000100100011010001010110011110001001101010111100110111101111''"

definition base_8_lut :: string where
  "base_8_lut =
     ''0001020304050607101112131415161720212223242526273031323334353637404142434445464750515253545556576061'' @
     ''6263646566677071727374757677''"

definition base_16_lut :: string where
  "base_16_lut =
     ''000102030405060708090a0b0c0d0e0f101112131415161718191a1b1c1d1e1f202122232425262728292a2b2c2d2e2f3031'' @
     ''32333435363738393a3b3c3d3e3f404142434445464748494a4b4c4d4e4f505152535455565758595a5b5c5d5e5f60616263'' @
     ''6465666768696a6b6c6d6e6f707172737475767778797a7b7c7d7e7f808182838485868788898a8b8c8d8e8f909192939495'' @
     ''969798999a9b9c9d9e9fa0a1a2a3a4a5a6a7a8a9aaabacadaeafb0b1b2b3b4b5b6b7b8b9babbbcbdbebfc0c1c2c3c4c5c6c7'' @
     ''c8c9cacbcccdcecfd0d1d2d3d4d5d6d7d8d9dadbdcdddedfe0e1e2e3e4e5e6e7e8e9eaebecedeeeff0f1f2f3f4f5f6f7f8f9'' @
     ''fafbfcfdfeff''"

definition digits_base_10 :: string where
  "digits_base_10 =
     ''0001020304050607080910111213141516171819202122232425262728293031323334353637383940414243444546474849'' @
     ''5051525354555657585960616263646566676869707172737475767778798081828384858687888990919293949596979899''"

definition pow10_32 :: "nat list" where
  "pow10_32 =
     [0, 10, 100, 1000, 10000, 100000, 1000000, 10000000, 100000000, 1000000000]"

definition pow10_64 :: "nat list" where
  "pow10_64 =
     [0, 10, 100, 1000, 10000, 100000, 1000000, 10000000, 100000000, 1000000000, 10000000000, 100000000000,
      1000000000000, 10000000000000, 100000000000000, 1000000000000000, 10000000000000000,
      100000000000000000, 1000000000000000000, 10000000000000000000]"

definition pow10_128 :: "nat list" where
  "pow10_128 =
     [0, 10, 100, 1000, 10000, 100000, 1000000, 10000000, 100000000, 1000000000, 10000000000, 100000000000,
      1000000000000, 10000000000000, 100000000000000, 1000000000000000, 10000000000000000,
      100000000000000000, 1000000000000000000, 10000000000000000000, 10000000000000000000 * 10,
      10000000000000000000 * 100, 10000000000000000000 * 1000, 10000000000000000000 * 10000,
      10000000000000000000 * 100000, 10000000000000000000 * 1000000, 10000000000000000000 * 10000000,
      10000000000000000000 * 100000000, 10000000000000000000 * 1000000000,
      10000000000000000000 * 10000000000, 10000000000000000000 * 100000000000,
      10000000000000000000 * 1000000000000, 10000000000000000000 * 10000000000000,
      10000000000000000000 * 100000000000000, 10000000000000000000 * 1000000000000000,
      10000000000000000000 * 10000000000000000, 10000000000000000000 * 100000000000000000,
      10000000000000000000 * 1000000000000000000, 10000000000000000000 * 10000000000000000000,
      10000000000000000000 * 10000000000000000000 * 10]"

section \<open>\<open>to_chars_base_10.h\<close>\<close>

definition append1 :: "string \<Rightarrow> nat \<Rightarrow> string" where
  "append1 buf v = buf @ [char_of (48 + v)]"

definition append2 :: "string \<Rightarrow> nat \<Rightarrow> string" where
  "append2 buf v = buf @ take 2 (drop (v * 2) digits_base_10)"

definition append3 :: "string \<Rightarrow> nat \<Rightarrow> string" where
  "append3 buf v = append2 (append1 buf (v div 100)) (v mod 100)"

definition append4 :: "string \<Rightarrow> nat \<Rightarrow> string" where
  "append4 buf v = append2 (append2 buf (v div 100)) (v mod 100)"

definition append5 :: "string \<Rightarrow> nat \<Rightarrow> string" where
  "append5 buf v = append4 (append1 buf (v div 10000)) (v mod 10000)"

definition append6 :: "string \<Rightarrow> nat \<Rightarrow> string" where
  "append6 buf v = append4 (append2 buf (v div 10000)) (v mod 10000)"

definition append7 :: "string \<Rightarrow> nat \<Rightarrow> string" where
  "append7 buf v = append6 (append1 buf (v div 1000000)) (v mod 1000000)"

definition append8 :: "string \<Rightarrow> nat \<Rightarrow> string" where
  "append8 buf v = append6 (append2 buf (v div 1000000)) (v mod 1000000)"

definition append9 :: "string \<Rightarrow> nat \<Rightarrow> string" where
  "append9 buf v = append8 (append1 buf (v div 100000000)) (v mod 100000000)"

definition append10 :: "string \<Rightarrow> nat \<Rightarrow> string" where
  "append10 buf v = append8 (append2 buf (v div 100000000 mod 2 ^ 32)) (v mod 100000000 mod 2 ^ 32)"

definition base_10_u32 :: "string \<Rightarrow> nat \<Rightarrow> string" where
  "base_10_u32 buf v =
     (if v < 1000000
      then if v < 10000
           then if v < 100
                then if v < 10 then append1 buf v else append2 buf v
                else if v < 1000 then append3 buf v else append4 buf v
           else if v < 100000 then append5 buf v else append6 buf v
      else if v < 100000000
           then if v < 10000000 then append7 buf v else append8 buf v
           else if v < 1000000000 then append9 buf v else append10 buf v)"

definition base_10_u64 :: "string \<Rightarrow> nat \<Rightarrow> string" where
  "base_10_u64 buf v =
     (if v \<le> 2 ^ 32 - 1 then base_10_u32 buf (v mod 2 ^ 32)
      else let (buf, v) = (if 10000000000 \<le> v
                           then (base_10_u32 buf (v div 10000000000 mod 2 ^ 32), v mod 10000000000)
                           else (buf, v))
           in append10 buf v)"

definition pow_10 :: "nat \<Rightarrow> nat" where
  "pow_10 e = pow10_128 ! e"

definition base_10_u128 :: "string \<Rightarrow> nat \<Rightarrow> string" where
  "base_10_u128 buf v =
     (let (buf, v) =
        (if pow_10 38 \<le> v
         then let buf = append1 buf (v div pow_10 38 mod 2 ^ 32); v = v mod pow_10 38;
                  buf = append9 buf (v div pow_10 29 mod 2 ^ 32); v = v mod pow_10 29;
                  buf = append10 buf (v div pow_10 19 mod 2 ^ 64)
              in (buf, v mod pow_10 19)
         else (base_10_u64 buf (v div pow_10 19 mod 2 ^ 64), v mod pow_10 19));
        buf = append9 buf (v div 10000000000 mod 2 ^ 32)
      in append10 buf (v mod 10000000000 mod 2 ^ 64))"

section \<open>traits.h, the part used for writing\<close>

definition width_32 :: "nat \<Rightarrow> nat" where
  "width_32 v = (let t = (32 - libcpp_clz 32 (v OR 1)) * 1233 div 2 ^ 12
                 in t - (if v < pow10_32 ! t then 1 else 0) + 1)"

definition width_64 :: "nat \<Rightarrow> nat" where
  "width_64 v = (let t = (64 - libcpp_clz 64 (v OR 1)) * 1233 div 2 ^ 12
                 in t - (if v < pow10_64 ! t then 1 else 0) + 1)"

definition width_128 :: "nat \<Rightarrow> nat" where
  "width_128 v = (let t = (128 - libcpp_clz 64 (v div 2 ^ 64 mod 2 ^ 64)) * 1233 div 2 ^ 12
                  in t - (if v < pow10_128 ! t then 1 else 0) + 1)"

definition digits10_1 :: "nat \<Rightarrow> nat" where
  "digits10_1 w = w * 3 div 10 + 1"

definition complement :: "nat \<Rightarrow> nat \<Rightarrow> nat" where
  "complement w x = (2 ^ w - 1 - x + 1) mod 2 ^ w"

section \<open>\<open>to_chars_integral.h\<close>\<close>

datatype errc = EC_ok | EC_value_too_large | EC_invalid_argument | EC_result_out_of_range

text \<open>The characters written and the error code; the returned pointer is past them, or last on an error.\<close>

type_synonym to_chars_result = "string \<times> errc"

definition to_chars_itoa_32 :: "nat \<Rightarrow> nat \<Rightarrow> to_chars_result" where
  "to_chars_itoa_32 cap v =
     (if digits10_1 32 \<le> cap \<or> width_32 v \<le> cap then (base_10_u32 [] v, EC_ok) else ([], EC_value_too_large))"

definition to_chars_itoa_64 :: "nat \<Rightarrow> nat \<Rightarrow> to_chars_result" where
  "to_chars_itoa_64 cap v =
     (if digits10_1 64 \<le> cap \<or> width_64 v \<le> cap then (base_10_u64 [] v, EC_ok) else ([], EC_value_too_large))"

definition to_chars_itoa_128 :: "nat \<Rightarrow> nat \<Rightarrow> to_chars_result" where
  "to_chars_itoa_128 cap v =
     (if v \<le> 2 ^ 64 - 1 then to_chars_itoa_64 cap (v mod 2 ^ 64)
      else if digits10_1 128 \<le> cap \<or> width_128 v \<le> cap then (base_10_u128 [] v, EC_ok)
      else ([], EC_value_too_large))"

definition to_chars_itoa_unsigned :: "nat \<Rightarrow> nat \<Rightarrow> nat \<Rightarrow> to_chars_result" where
  "to_chars_itoa_unsigned w cap v =
     (if w \<le> 32 then to_chars_itoa_32 cap v else if w \<le> 64 then to_chars_itoa_64 cap v else to_chars_itoa_128 cap v)"

definition to_chars_itoa_signed :: "nat \<Rightarrow> nat \<Rightarrow> int \<Rightarrow> to_chars_result" where
  "to_chars_itoa_signed w cap v =
     (let x = nat (v mod 2 ^ w)
      in if v < 0 \<and> cap \<noteq> 0
         then let (s, ec) = to_chars_itoa_unsigned w (cap - 1) (complement w x) in (CHR ''-'' # s, ec)
         else to_chars_itoa_unsigned w cap x)"

text \<open>
  Bases 2, 8 and 16: n is the width, p the index in the buffer of the last character written,
  counted down from n.
\<close>

definition integral_width_2 :: "nat \<Rightarrow> nat \<Rightarrow> nat" where
  "integral_width_2 w v = w - libcpp_clz w (v OR 1)"

definition integral_width_8 :: "nat \<Rightarrow> nat \<Rightarrow> nat" where
  "integral_width_8 w v = (w - libcpp_clz w (v OR 1) + 2) div 3"

definition integral_width_16 :: "nat \<Rightarrow> nat \<Rightarrow> nat" where
  "integral_width_16 w v = (w - libcpp_clz w (v OR 1) + 3) div 4"

text \<open>
  The while loop, which writes k characters of the table for each digit of base divisor. The
  callers pass a divisor of at least 16, and \<open>to_chars\<close> asserts a base of at least 2: the tests
  of the divisor and the base in the loops below only make the functions total.
\<close>

function chunk_loop :: "string \<Rightarrow> nat \<Rightarrow> nat \<Rightarrow> nat \<Rightarrow> int \<Rightarrow> string \<Rightarrow> nat \<times> int \<times> string" where
  "chunk_loop lut k divisor v p out =
     (if divisor < v \<and> 1 < divisor
      then chunk_loop lut k divisor (v div divisor) (p - int k) (take k (drop (k * (v mod divisor)) lut) @ out)
      else (v, p, out))"
  by pat_completeness auto
termination
  by (relation "measure (\<lambda>(lut, k, divisor, v, p, out). v)") auto

text \<open>The do-while loop, one character for each digit of the base.\<close>

function digit_loop :: "string \<Rightarrow> nat \<Rightarrow> nat \<Rightarrow> int \<Rightarrow> string \<Rightarrow> int \<times> string" where
  "digit_loop alphabet base v p out =
     (let c = v mod base; v = v div base; p = p - 1; out = alphabet ! c # out
      in if v \<noteq> 0 \<and> 1 < base then digit_loop alphabet base v p out else (p, out))"
  by pat_completeness auto
termination
  by (relation "measure (\<lambda>(alphabet, base, v, p, out). v)") (auto simp: div_eq_0_iff)

definition to_chars_base_2 :: "nat \<Rightarrow> nat \<Rightarrow> nat \<Rightarrow> int \<times> to_chars_result" where
  "to_chars_base_2 w cap v =
     (let n = integral_width_2 w v
      in if cap < n then (0, [], EC_value_too_large)
         else let (v, p, out) = chunk_loop base_2_lut 4 16 v (int n) [];
                  (p, out) = digit_loop ''01'' 2 v p out
              in (p, out, EC_ok))"

definition to_chars_base_8 :: "nat \<Rightarrow> nat \<Rightarrow> nat \<Rightarrow> int \<times> to_chars_result" where
  "to_chars_base_8 w cap v =
     (let n = integral_width_8 w v
      in if cap < n then (0, [], EC_value_too_large)
         else let (v, p, out) = chunk_loop base_8_lut 2 64 v (int n) [];
                  (p, out) = digit_loop ''01234567'' 8 v p out
              in (p, out, EC_ok))"

definition to_chars_base_16 :: "nat \<Rightarrow> nat \<Rightarrow> nat \<Rightarrow> int \<times> to_chars_result" where
  "to_chars_base_16 w cap v =
     (let n = integral_width_16 w v
      in if cap < n then (0, [], EC_value_too_large)
         else let (v, p, out) = chunk_loop base_16_lut 2 256 v (int n) [];
                  (p, out) = (if n \<noteq> 0 then digit_loop ''0123456789abcdef'' 16 v p out else (p, out))
              in (p, out, EC_ok))"

function integral_width_loop :: "nat \<Rightarrow> nat \<Rightarrow> nat \<Rightarrow> nat" where
  "integral_width_loop base v r =
     (let base_2 = base * base; base_3 = base_2 * base; base_4 = base_2 * base_2
      in if v < base then r + 1
         else if v < base_2 then r + 2
         else if v < base_3 then r + 3
         else if v < base_4 \<or> base \<le> 1 then r + 4
         else integral_width_loop base (v div base_4) (r + 4))"
  by pat_completeness auto
termination
proof (relation "measure (\<lambda>(base, v, r). v)", simp, clarsimp)
  fix base v :: nat
  assume "\<not> v < base" and "\<not> base \<le> Suc 0"
  moreover from this have "1 < base * base * (base * base)" by (metis less_1_mult not_le One_nat_def)
  ultimately show "v div (base * base * (base * base)) < v" by (intro div_less_dividend) auto
qed

definition integral_width :: "nat \<Rightarrow> nat \<Rightarrow> nat" where
  "integral_width v base = integral_width_loop base v 0"

definition to_chars_integral_unsigned :: "nat \<Rightarrow> nat \<Rightarrow> nat \<Rightarrow> nat \<Rightarrow> int \<times> to_chars_result" where
  "to_chars_integral_unsigned w cap v base =
     (if base = 10 then (0, to_chars_itoa_unsigned w cap v)
      else if base = 2 then to_chars_base_2 w cap v
      else if base = 8 then to_chars_base_8 w cap v
      else if base = 16 then to_chars_base_16 w cap v
      else let n = integral_width v base
           in if cap < n then (0, [], EC_value_too_large)
              else let (p, out) = digit_loop ''0123456789abcdefghijklmnopqrstuvwxyz'' base v (int n) []
                   in (p, out, EC_ok))"

definition to_chars_integral_signed :: "nat \<Rightarrow> nat \<Rightarrow> int \<Rightarrow> nat \<Rightarrow> int \<times> to_chars_result" where
  "to_chars_integral_signed w cap v base =
     (let x = nat (v mod 2 ^ w)
      in if v < 0 \<and> cap \<noteq> 0
         then let (p, s, ec) = to_chars_integral_unsigned w (cap - 1) (complement w x) base in (p, CHR ''-'' # s, ec)
         else to_chars_integral_unsigned w cap x base)"

text \<open>\<open>to_chars\<close> converts its argument to the type of at least 32 bits first, which keeps the value.\<close>

definition make_32_64_or_128_bit :: "nat \<Rightarrow> nat" where
  "make_32_64_or_128_bit w = (if w \<le> 32 then 32 else if w \<le> 64 then 64 else 128)"

definition to_chars :: "nat \<Rightarrow> bool \<Rightarrow> nat \<Rightarrow> int \<Rightarrow> to_chars_result" where
  "to_chars w is_signed cap v =
     (if is_signed then to_chars_itoa_signed (make_32_64_or_128_bit w) cap v
      else to_chars_itoa_unsigned (make_32_64_or_128_bit w) cap (nat v))"

definition to_chars_in_base :: "nat \<Rightarrow> bool \<Rightarrow> nat \<Rightarrow> int \<Rightarrow> nat \<Rightarrow> int \<times> to_chars_result" where
  "to_chars_in_base w is_signed cap v base =
     (if is_signed then to_chars_integral_signed (make_32_64_or_128_bit w) cap v base
      else to_chars_integral_unsigned (make_32_64_or_128_bit w) cap (nat v) base)"

declare chunk_loop.simps [simp del] digit_loop.simps [simp del] integral_width_loop.simps [simp del]

section \<open>Positional notation\<close>

definition digit :: "nat \<Rightarrow> char" where
  "digit d = ''0123456789abcdefghijklmnopqrstuvwxyz'' ! d"

text \<open>The representation of a number in a base, without leading zeros; and its last k digits.\<close>

fun radix :: "nat \<Rightarrow> nat \<Rightarrow> string" where
  "radix b v = (if v < b \<or> b \<le> 1 then [digit v] else radix b (v div b) @ [digit (v mod b)])"

declare radix.simps [simp del]

fun pad :: "nat \<Rightarrow> nat \<Rightarrow> nat \<Rightarrow> string" where
  "pad b 0 v = []"
| "pad b (Suc k) v = pad b k (v div b) @ [digit (v mod b)]"

lemma length_pad [simp]: "length (pad b k v) = k"
  by (induction k arbitrary: v) simp_all

lemma pad_add: "0 < b \<Longrightarrow> pad b (j + k) v = pad b j (v div b ^ k) @ pad b k (v mod b ^ k)"
proof (induction k arbitrary: v)
  case (Suc k)
  have 1: "v div b ^ Suc k = v div b div b ^ k" by (simp add: div_mult2_eq)
  have 2: "v mod b ^ Suc k div b = v div b mod b ^ k"
    using mod_mult2_eq [of v b "b ^ k"] Suc.prems by simp
  have 3: "v mod b ^ Suc k mod b = v mod b" by (simp add: mod_mod_cancel)
  show ?case using Suc.IH [OF Suc.prems, of "v div b"] by (simp only: add_Suc_right pad.simps 1 2 3 append_assoc)
qed simp

lemma radix_pad: "1 < b \<Longrightarrow> v < b ^ Suc k \<Longrightarrow> k = 0 \<or> b ^ k \<le> v \<Longrightarrow> radix b v = pad b (Suc k) v"
proof (induction k arbitrary: v)
  case 0
  then show ?case by (simp add: radix.simps [of b v])
next
  case (Suc k)
  have "b \<le> b ^ Suc k" using Suc.prems(1) by (intro self_le_power) simp_all
  with Suc.prems(3) have "b \<le> v" by (meson nat.discI order_trans)
  moreover have "v div b < b ^ Suc k" using Suc.prems by (simp add: less_mult_imp_div_less mult.commute)
  moreover have "k = 0 \<or> b ^ k \<le> v div b" using Suc.prems by (auto simp: less_eq_div_iff_mult_less_eq mult.commute)
  ultimately show ?case using Suc.IH [of "v div b"] Suc.prems(1) by (simp add: radix.simps [of b v])
qed

lemma radix_digits: "1 < b \<Longrightarrow> v < b ^ n \<Longrightarrow> n = 1 \<or> 0 < n \<and> b ^ (n - 1) \<le> v \<Longrightarrow> radix b v = pad b n v"
  using radix_pad [of b v "n - 1"] by (cases n) auto

lemma radix_split:
  assumes "1 < b" and "0 < v div b ^ k"
  shows "radix b v = radix b (v div b ^ k) @ pad b k (v mod b ^ k)"
  using assms(2)
proof (induction k arbitrary: v)
  case (Suc k)
  have 1: "v div b ^ Suc k = v div b div b ^ k" by (simp add: div_mult2_eq)
  have 2: "v mod b ^ Suc k div b = v div b mod b ^ k"
    using mod_mult2_eq [of v b "b ^ k"] assms(1) by simp
  have 3: "v mod b ^ Suc k mod b = v mod b" by (simp add: mod_mod_cancel)
  have "b \<le> v" using Suc.prems assms(1) unfolding 1 by (metis div_less div_0 not_le less_irrefl)
  then have "radix b v = radix b (v div b) @ [digit (v mod b)]" using assms(1) by (simp add: radix.simps [of b v])
  with Suc.IH [of "v div b"] Suc.prems show ?case unfolding 1 by (simp only: pad.simps 2 3 append_assoc)
qed simp

declare pad.simps [simp del]

section \<open>Base 10 text\<close>

lemma digits_base_10_pairs: "v < 100 \<Longrightarrow> take 2 (drop (v * 2) digits_base_10) = pad 10 2 v"
proof -
  have "\<forall>v\<in>set [0..<100]. take 2 (drop (v * 2) digits_base_10) = pad 10 2 v" by code_simp
  then show "v < 100 \<Longrightarrow> ?thesis" by simp
qed

lemma append1_pad: "v < 10 \<Longrightarrow> append1 buf v = buf @ pad 10 1 v"
proof -
  have "\<forall>v\<in>set [0..<10]. [char_of (48 + v)] = pad 10 1 v" by code_simp
  then show "v < 10 \<Longrightarrow> ?thesis" by (simp add: append1_def)
qed

lemma append2_pad: "v < 100 \<Longrightarrow> append2 buf v = buf @ pad 10 2 v"
  by (simp add: append2_def digits_base_10_pairs)

lemma append3_pad: "v < 1000 \<Longrightarrow> append3 buf v = buf @ pad 10 3 v"
  using pad_add [of 10 1 2 v, unfolded one_plus_numeral add_num_simps] by (simp add: append3_def append1_pad append2_pad)

lemma append4_pad: "v < 10000 \<Longrightarrow> append4 buf v = buf @ pad 10 4 v"
  using pad_add [of 10 2 2 v] by (simp add: append4_def append2_pad)

lemma append5_pad: "v < 100000 \<Longrightarrow> append5 buf v = buf @ pad 10 5 v"
  using pad_add [of 10 1 4 v] by (simp add: append5_def append1_pad append4_pad)

lemma append6_pad: "v < 1000000 \<Longrightarrow> append6 buf v = buf @ pad 10 6 v"
  using pad_add [of 10 2 4 v] by (simp add: append6_def append2_pad append4_pad)

lemma append7_pad: "v < 10000000 \<Longrightarrow> append7 buf v = buf @ pad 10 7 v"
  using pad_add [of 10 1 6 v] by (simp add: append7_def append1_pad append6_pad)

lemma append8_pad: "v < 100000000 \<Longrightarrow> append8 buf v = buf @ pad 10 8 v"
  using pad_add [of 10 2 6 v] by (simp add: append8_def append2_pad append6_pad)

lemma append9_pad: "v < 1000000000 \<Longrightarrow> append9 buf v = buf @ pad 10 9 v"
  using pad_add [of 10 1 8 v] by (simp add: append9_def append1_pad append8_pad)

lemma append10_pad: "v < 10000000000 \<Longrightarrow> append10 buf v = buf @ pad 10 10 v"
  using pad_add [of 10 2 8 v] by (simp add: append10_def append2_pad append8_pad)

lemmas append_pad = append1_pad append2_pad append3_pad append4_pad append5_pad append6_pad append7_pad
  append8_pad append9_pad append10_pad

lemma base_10_u32_radix: "v < 10000000000 \<Longrightarrow> base_10_u32 buf v = buf @ radix 10 v"
  using radix_digits [of 10 v 1] radix_digits [of 10 v 2] radix_digits [of 10 v 3] radix_digits [of 10 v 4]
    radix_digits [of 10 v 5] radix_digits [of 10 v 6] radix_digits [of 10 v 7] radix_digits [of 10 v 8]
    radix_digits [of 10 v 9] radix_digits [of 10 v 10]
  by (simp add: base_10_u32_def append_pad)

lemma pow_10_values: "pow_10 38 = 10 ^ 38" "pow_10 29 = 10 ^ 29" "pow_10 19 = 10 ^ 19"
  by (simp_all add: pow_10_def pow10_128_def)

lemma base_10_u64_radix: "v < 2 ^ 64 \<Longrightarrow> base_10_u64 buf v = buf @ radix 10 v"
proof -
  assume v: "v < 2 ^ 64"
  show ?thesis
  proof (cases "v < 10000000000")
    case True
    then show ?thesis using radix_digits [of 10 v 10]
      by (simp add: base_10_u64_def base_10_u32_radix append10_pad)
  next
    case False
    then have "0 < v div 10 ^ 10" by (simp add: div_greater_zero_iff)
    with radix_split [of 10 v 10] v False show ?thesis
      by (simp add: base_10_u64_def base_10_u32_radix append10_pad less_mult_imp_div_less)
  qed
qed

lemma base_10_u128_radix:
  assumes "2 ^ 64 \<le> v" and "v < 2 ^ 128"
  shows "base_10_u128 buf v = buf @ radix 10 v"
proof -
  have low: "append10 (append9 b (u div 10000000000 mod 2 ^ 32)) (u mod 10000000000 mod 2 ^ 64) = b @ pad 10 19 u"
    if "u < 10 ^ 19" for b u
    using that pad_add [of 10 9 10 u] by (simp add: append9_pad append10_pad less_mult_imp_div_less)
  have hi: "0 < v div 10 ^ 19" using assms(1) by (simp add: div_greater_zero_iff)
  note split = radix_split [of 10 v 19, OF _ hi, simplified]
  show ?thesis
  proof (cases "10 ^ 38 \<le> v")
    case True
    define a u where "a = v div 10 ^ 38" and "u = v mod 10 ^ 38"
    have a: "0 < a" "a < 10" using True assms(2) by (simp_all add: a_def div_greater_zero_iff less_mult_imp_div_less)
    have u: "u < 10 ^ 38" by (simp add: u_def)
    have mid: "append10 (append9 b (u div 10 ^ 29 mod 2 ^ 32)) (u mod 10 ^ 29 div 10 ^ 19 mod 2 ^ 64) = b @ pad 10 19 (u div 10 ^ 19)" for b
    proof -
      have "u div 10 ^ 19 div 10 ^ 10 = u div 10 ^ 29" by (simp flip: div_mult2_eq)
      moreover have "u div 10 ^ 19 mod 10 ^ 10 = u mod 10 ^ 29 div 10 ^ 19"
        using mod_mult2_eq [of u "10 ^ 19" "10 ^ 10"] by simp
      moreover have "u div 10 ^ 29 < 1000000000" "u mod 10 ^ 29 div 10 ^ 19 < 10000000000"
        using u by (simp_all add: less_mult_imp_div_less)
      ultimately show ?thesis
        using pad_add [of 10 9 10 "u div 10 ^ 19"] by (simp add: append9_pad append10_pad)
    qed
    have "radix 10 v = pad 10 1 a @ pad 10 38 u"
      using radix_split [of 10 v 38] radix_pad [of 10 a 0] a by (simp add: a_def u_def)
    also have "\<dots> = pad 10 1 a @ pad 10 19 (u div 10 ^ 19) @ pad 10 19 (u mod 10 ^ 19)"
      using pad_add [of 10 19 19 u] by simp
    finally have r: "radix 10 v = pad 10 1 a @ pad 10 19 (u div 10 ^ 19) @ pad 10 19 (u mod 10 ^ 19)" .
    have um: "u mod 10 ^ 29 mod 10 ^ 19 = u mod 10 ^ 19" by (rule mod_mod_cancel) simp
    have "base_10_u128 buf v =
        append10 (append9 (append10 (append9 (append1 buf (a mod 2 ^ 32)) (u div 10 ^ 29 mod 2 ^ 32)) (u mod 10 ^ 29 div 10 ^ 19 mod 2 ^ 64))
          (u mod 10 ^ 29 mod 10 ^ 19 div 10000000000 mod 2 ^ 32)) (u mod 10 ^ 29 mod 10 ^ 19 mod 10000000000 mod 2 ^ 64)"
      using True unfolding base_10_u128_def pow_10_values Let_def a_def u_def by (simp only: if_True prod.case)
    moreover have "u mod 10 ^ 19 < 10 ^ 19" by simp
    ultimately show ?thesis unfolding mid um low [OF \<open>u mod 10 ^ 19 < 10 ^ 19\<close>] using a r by (simp add: append1_pad)
  next
    case False
    have "v div 10 ^ 19 < 2 ^ 64" using False by (simp add: less_mult_imp_div_less)
    then have "base_10_u128 buf v = (buf @ radix 10 (v div 10 ^ 19)) @ pad 10 19 (v mod 10 ^ 19)"
      using False low [of "v mod 10 ^ 19"] unfolding base_10_u128_def pow_10_values Let_def
      by (simp add: base_10_u64_radix)
    then show ?thesis using split by simp
  qed
qed

section \<open>Widths\<close>

definition top_bit :: "nat \<Rightarrow> nat \<Rightarrow> bool" where
  "top_bit v k \<longleftrightarrow> v < 2 ^ Suc k \<and> (2 ^ k \<le> v \<or> v = 0 \<and> k = 0)"

lemma top_bit_or_1: "top_bit v (ilog2 (v OR 1))"
proof (cases "v = 0")
  case True
  have "ilog2 1 = 0" by (rule ilog2_unique) simp_all
  with True show ?thesis by (simp add: top_bit_def)
next
  case False
  then have b: "2 ^ ilog2 v \<le> v" "v < 2 ^ Suc (ilog2 v)" by (simp_all add: ilog2_le ilog2_gt del: power_Suc)
  have "v OR 1 < 2 ^ Suc (ilog2 v)"
  proof (cases "even v")
    case True
    then have "v + 1 \<noteq> 2 ^ Suc (ilog2 v)" by (metis even_Suc Suc_eq_plus1 even_mult_iff even_numeral power_Suc)
    with True b(2) show ?thesis by (simp add: or_Suc_0_eq del: power_Suc)
  qed (use b(2) in \<open>simp add: or_Suc_0_eq del: power_Suc\<close>)
  moreover have "v \<le> v OR 1" by (simp add: or_Suc_0_eq)
  ultimately have "ilog2 (v OR 1) = ilog2 v" using b(1) by (intro ilog2_unique) simp_all
  with b show ?thesis by (simp add: top_bit_def)
qed

lemma top_bit_less: "top_bit v k \<Longrightarrow> v < 2 ^ w \<Longrightarrow> 0 < w \<Longrightarrow> k < w"
  unfolding top_bit_def by (metis le_less_trans power_less_imp_less_exp one_less_numeral_iff semiring_norm(76))

lemma clz_width: "top_bit v (ilog2 (v OR 1)) \<Longrightarrow> v < 2 ^ w \<Longrightarrow> 0 < w \<Longrightarrow> w - libcpp_clz w (v OR 1) = Suc (ilog2 (v OR 1))"
  using top_bit_less [of v "ilog2 (v OR 1)" w] by (simp add: libcpp_clz_def)

text \<open>The estimate of the decimal logarithm from the number of bits, checked for each number of bits.\<close>

definition width_entry :: "nat list \<Rightarrow> nat \<Rightarrow> bool" where
  "width_entry table k \<longleftrightarrow> (let t = Suc k * 1233 div 2 ^ 12 in
     t < length table \<and> table ! t = (if t = 0 then 0 else 10 ^ t) \<and>
     (0 < t \<longrightarrow> 10 ^ (t - 1) \<le> (2::nat) ^ k) \<and> (2::nat) ^ Suc k \<le> 10 ^ Suc t)"

lemma width_entries:
  "k < 32 \<Longrightarrow> width_entry pow10_32 k" "k < 64 \<Longrightarrow> width_entry pow10_64 k" "k < 128 \<Longrightarrow> width_entry pow10_128 k"
proof -
  have all: "list_all P (0 # 1 # [2..<n]) \<Longrightarrow> k < n \<Longrightarrow> P k" for P and n :: nat
    by (cases "k = 0 \<or> k = 1") (auto simp: list_all_iff)
  have "list_all (width_entry pow10_32) (0 # 1 # [2..<32])"
    by (simp add: width_entry_def pow10_32_def Let_def)
  then show "k < 32 \<Longrightarrow> width_entry pow10_32 k" by (rule all)
  have "list_all (width_entry pow10_64) (0 # 1 # [2..<64])"
    by (simp add: width_entry_def pow10_64_def Let_def)
  then show "k < 64 \<Longrightarrow> width_entry pow10_64 k" by (rule all)
  have "list_all (width_entry pow10_128) (0 # 1 # [2..<128])"
    by (simp add: width_entry_def pow10_128_def Let_def)
  then show "k < 128 \<Longrightarrow> width_entry pow10_128 k" by (rule all)
qed

lemma width_from_bits:
  assumes "width_entry table k" and "top_bit v k"
  shows "(let t = Suc k * 1233 div 2 ^ 12 in t - (if v < table ! t then 1 else 0) + 1) = length (radix 10 v)"
proof -
  define t where "t = Suc k * 1233 div 2 ^ 12"
  have e: "table ! t = (if t = 0 then 0 else 10 ^ t)" "0 < t \<Longrightarrow> 10 ^ (t - 1) \<le> (2::nat) ^ k" "(2::nat) ^ Suc k \<le> 10 ^ Suc t"
    using assms(1) unfolding width_entry_def t_def [symmetric] Let_def by auto
  have hi: "v < 10 ^ Suc t" using assms(2) e(3) unfolding top_bit_def by (meson less_le_trans)
  show ?thesis
  proof (cases "0 < t \<and> v < 10 ^ t")
    case True
    have "t = 1 \<or> 10 ^ (t - 1) \<le> v"
    proof (cases "v = 0")
      case True
      then have "k = 0" using assms(2) by (simp add: top_bit_def)
      then show ?thesis using \<open>0 < t \<and> v < 10 ^ t\<close> by (simp add: t_def)
    qed (use assms(2) e(2) True in \<open>auto simp: top_bit_def intro: order_trans\<close>)
    with True have "radix 10 v = pad 10 t v" by (intro radix_digits) auto
    with True e(1) show ?thesis unfolding t_def [symmetric] Let_def by simp
  next
    case False
    then have "radix 10 v = pad 10 (Suc t) v" using hi by (intro radix_digits) auto
    with False e(1) show ?thesis unfolding t_def [symmetric] Let_def by auto
  qed
qed

lemma width_32_radix: "v < 2 ^ 32 \<Longrightarrow> width_32 v = length (radix 10 v)"
  unfolding width_32_def
  using clz_width [OF top_bit_or_1, of v 32] width_from_bits [OF width_entries(1) top_bit_or_1]
    top_bit_less [OF top_bit_or_1, of v 32] by simp

lemma width_64_radix: "v < 2 ^ 64 \<Longrightarrow> width_64 v = length (radix 10 v)"
  unfolding width_64_def
  using clz_width [OF top_bit_or_1, of v 64] width_from_bits [OF width_entries(2) top_bit_or_1]
    top_bit_less [OF top_bit_or_1, of v 64] by simp

lemma width_128_radix:
  assumes "2 ^ 64 \<le> v" and "v < 2 ^ 128"
  shows "width_128 v = length (radix 10 v)"
proof -
  define h where "h = v div 2 ^ 64"
  have h: "0 < h" "h < 2 ^ 64" using assms by (simp_all add: h_def div_greater_zero_iff less_mult_imp_div_less)
  have hb: "2 ^ ilog2 h \<le> h" "h < 2 ^ Suc (ilog2 h)" using h(1) by (simp_all add: ilog2_le ilog2_gt del: power_Suc)
  have k: "ilog2 h < 64" using hb(1) h(2) by (meson le_less_trans nat_power_less_imp_less zero_less_numeral)
  have v: "v = 2 ^ 64 * h + v mod 2 ^ 64" by (simp add: h_def)
  have "v < 2 ^ 64 * Suc h" using mod_less_divisor [of "2 ^ 64" v] v by (simp add: algebra_simps)
  also have "\<dots> \<le> 2 ^ 64 * 2 ^ Suc (ilog2 h)" using hb(2) by (intro mult_left_mono) simp_all
  finally have "v < 2 ^ Suc (64 + ilog2 h)" by (simp add: power_add)
  moreover have "2 ^ (64 + ilog2 h) \<le> v"
  proof -
    have "2 ^ (64 + ilog2 h) \<le> 2 ^ 64 * h" unfolding power_add using hb(1) by (rule mult_le_mono2)
    also have "\<dots> \<le> v" using v by linarith
    finally show ?thesis .
  qed
  ultimately have "top_bit v (64 + ilog2 h)" by (simp add: top_bit_def)
  from width_from_bits [OF width_entries(3) this] k
  have "(let t = Suc (64 + ilog2 h) * 1233 div 2 ^ 12 in t - (if v < pow10_128 ! t then 1 else 0) + 1) = length (radix 10 v)"
    by simp
  moreover have "128 - libcpp_clz 64 (v div 2 ^ 64 mod 2 ^ 64) = Suc (64 + ilog2 h)"
    unfolding h_def [symmetric] using h(2) k by (simp add: libcpp_clz_def)
  ultimately show ?thesis unfolding width_128_def by simp
qed

lemma to_chars_itoa_radix:
  assumes "w = 32 \<or> w = 64 \<or> w = 128" and "v < 2 ^ w"
  shows "to_chars_itoa_unsigned w cap v =
    (if length (radix 10 v) \<le> cap then (radix 10 v, EC_ok) else ([], EC_value_too_large))"
proof -
  have len: "length (radix 10 v) \<le> n" if "v < 10 ^ n" "0 < n" for n
    using that
  proof (induction n arbitrary: v)
    case (Suc n)
    show ?case
    proof (cases "v < 10 \<or> n = 0")
      case True
      then show ?thesis using Suc.prems by (auto simp: radix.simps [of 10 v])
    next
      case False
      then have "length (radix 10 (v div 10)) \<le> n" using Suc by (intro Suc.IH) auto
      with False show ?thesis by (simp add: radix.simps [of 10 v])
    qed
  qed simp
  have "v < 2 ^ 32 \<Longrightarrow> length (radix 10 v) \<le> 10" "v < 2 ^ 64 \<Longrightarrow> length (radix 10 v) \<le> 20"
      "v < 2 ^ 128 \<Longrightarrow> length (radix 10 v) \<le> 39"
    by (rule len; simp)+
  with assms base_10_u32_radix [of v "[]"] base_10_u64_radix [of v "[]"] base_10_u128_radix [of v "[]"]
    width_32_radix [of v] width_64_radix [of v] width_128_radix [of v]
  show ?thesis
    unfolding to_chars_itoa_unsigned_def to_chars_itoa_32_def to_chars_itoa_64_def to_chars_itoa_128_def digits10_1_def
    by (elim disjE) (auto simp: not_le)
qed

section \<open>Other bases\<close>

lemma digit_loop_radix:
  assumes "1 < base" and "\<And>c. c < base \<Longrightarrow> alphabet ! c = digit c"
  shows "digit_loop alphabet base v p out = (p - int (length (radix base v)), radix base v @ out)"
proof (induction v arbitrary: p out rule: less_induct)
  case (less v)
  have c: "alphabet ! (v mod base) = digit (v mod base)" using assms by simp
  show ?case
  proof (cases "v < base")
    case True
    then show ?thesis using assms(1) c
      by (subst digit_loop.simps) (simp add: radix.simps [of base v] Let_def)
  next
    case False
    then have "v div base \<noteq> 0" "v div base < v" using assms(1) by (auto simp: div_eq_0_iff)
    with False less.IH [of "v div base"] assms(1) c show ?thesis
      by (subst digit_loop.simps) (simp add: radix.simps [of base v] Let_def)
  qed
qed

lemma chunk_loop_radix:
  assumes "1 < b" and "0 < k" and lut: "\<And>c. c < b ^ k \<Longrightarrow> take k (drop (k * c) lut) = pad b k c"
  shows "\<exists>v' p' out'. chunk_loop lut k (b ^ k) v p out = (v', p', out') \<and>
    radix b v' @ out' = radix b v @ out \<and> p' - int (length (radix b v')) = p - int (length (radix b v))"
proof (induction v arbitrary: p out rule: less_induct)
  case (less v)
  have B: "1 < b ^ k" using assms(1,2) by (rule one_less_power)
  show ?case
  proof (cases "b ^ k < v")
    case True
    have c: "take k (drop (k * (v mod b ^ k)) lut) = pad b k (v mod b ^ k)" using assms(1) by (intro lut mod_less_divisor) simp
    have pos: "0 < v div b ^ k" using True assms(1) by (simp add: div_greater_zero_iff)
    have "v div b ^ k < v" using B True by (intro div_less_dividend) simp_all
    from less.IH [OF this, of "p - int k" "pad b k (v mod b ^ k) @ out"]
    obtain v' p' out' where "chunk_loop lut k (b ^ k) (v div b ^ k) (p - int k) (pad b k (v mod b ^ k) @ out) = (v', p', out')"
        "radix b v' @ out' = radix b (v div b ^ k) @ pad b k (v mod b ^ k) @ out"
        "p' - int (length (radix b v')) = p - int k - int (length (radix b (v div b ^ k)))" by blast
    moreover have "radix b v = radix b (v div b ^ k) @ pad b k (v mod b ^ k)" using assms(1) pos by (rule radix_split)
    ultimately show ?thesis using True B c by (subst chunk_loop.simps) simp
  next
    case False
    then show ?thesis by (subst chunk_loop.simps) simp
  qed
qed

lemma base_2_chunks: "c < 2 ^ 4 \<Longrightarrow> take 4 (drop (4 * c) base_2_lut) = pad 2 4 c"
proof -
  have "\<forall>c\<in>set [0..<16]. take 4 (drop (4 * c) base_2_lut) = pad 2 4 c" by code_simp
  then show "c < 2 ^ 4 \<Longrightarrow> ?thesis" by simp
qed

lemma base_8_chunks: "c < 8 ^ 2 \<Longrightarrow> take 2 (drop (2 * c) base_8_lut) = pad 8 2 c"
proof -
  have "\<forall>c\<in>set [0..<64]. take 2 (drop (2 * c) base_8_lut) = pad 8 2 c" by code_simp
  then show "c < 8 ^ 2 \<Longrightarrow> ?thesis" by simp
qed

fun pairs :: "'a list \<Rightarrow> 'a list list" where
  "pairs (a # b # xs) = [a, b] # pairs xs"
| "pairs xs = []"

lemma pairs_nth: "c < length (pairs xs) \<Longrightarrow> pairs xs ! c = take 2 (drop (2 * c) xs)"
proof (induction xs arbitrary: c rule: pairs.induct)
  case (1 a b xs)
  then show ?case by (cases c) (simp_all add: numeral_2_eq_2)
qed simp_all

lemma base_16_chunks: "c < 16 ^ 2 \<Longrightarrow> take 2 (drop (2 * c) base_16_lut) = pad 16 2 c"
proof -
  have digits: "digit 0 = CHR ''0''" "digit (Suc 0) = CHR ''1''" "digit 2 = CHR ''2''" "digit 3 = CHR ''3''" "digit 4 = CHR ''4''"
      "digit 5 = CHR ''5''" "digit 6 = CHR ''6''" "digit 7 = CHR ''7''" "digit 8 = CHR ''8''" "digit 9 = CHR ''9''"
      "digit 10 = CHR ''a''" "digit 11 = CHR ''b''" "digit 12 = CHR ''c''" "digit 13 = CHR ''d''" "digit 14 = CHR ''e''" "digit 15 = CHR ''f''"
    by (simp_all add: digit_def)
  have two: "pad 16 2 c = [digit (c div 16 mod 16), digit (c mod 16)]" for c by (simp add: numeral_2_eq_2 pad.simps)
  have "pairs base_16_lut = map (pad 16 2) (0 # 1 # [2..<256])"
    by (simp add: base_16_lut_def two digits)
  then have "pairs base_16_lut = map (pad 16 2) [0..<256]"
    by (simp add: upt_conv_Cons [of 0] upt_conv_Cons [of "Suc 0"] numeral_2_eq_2)
  then show "c < 16 ^ 2 \<Longrightarrow> ?thesis" using pairs_nth [of c base_16_lut] by simp
qed

lemma length_radix_pow2:
  assumes "top_bit v k" and "0 < j" and n: "n = (k + j) div j"
  shows "length (radix (2 ^ j) v) = n"
proof -
  have kn: "j * (n - 1) \<le> k" "k < j * n" "0 < n"
    using assms(2) unfolding n by (auto simp: div_add_self2 algebra_simps dividend_less_times_div)
  have "(2 ^ j) ^ (n - 1) \<le> (2::nat) ^ k" unfolding power_mult [symmetric] using kn(1) by (intro power_increasing) simp_all
  moreover have "(2::nat) ^ Suc k \<le> (2 ^ j) ^ n" unfolding power_mult [symmetric] using kn(2) by (intro power_increasing) simp_all
  moreover have "n = 1" if "v = 0" "k = 0" using that assms(2) n by simp
  ultimately have "radix (2 ^ j) v = pad (2 ^ j) n v"
    using assms(1,2) kn(3) unfolding top_bit_def
    by (intro radix_digits one_less_power) (auto intro: order_trans less_le_trans)
  then show ?thesis by simp
qed

lemma integral_widths:
  assumes "v < 2 ^ w" and "0 < w"
  shows "integral_width_2 w v = length (radix 2 v)" "integral_width_8 w v = length (radix 8 v)"
    "integral_width_16 w v = length (radix 16 v)"
proof -
  note w = clz_width [OF top_bit_or_1 assms]
  show "integral_width_2 w v = length (radix 2 v)"
    using length_radix_pow2 [OF top_bit_or_1, of 1 _ v] unfolding integral_width_2_def w power_one_right by simp
  show "integral_width_8 w v = length (radix 8 v)"
    using length_radix_pow2 [OF top_bit_or_1, of 3 _ v] unfolding integral_width_8_def w by simp
  show "integral_width_16 w v = length (radix 16 v)"
    using length_radix_pow2 [OF top_bit_or_1, of 4 _ v] unfolding integral_width_16_def w by simp
qed

lemma length_radix_div:
  assumes "1 < b" and "b ^ k \<le> v"
  shows "length (radix b v) = length (radix b (v div b ^ k)) + k"
  using radix_split [of b v k] assms by (simp add: div_greater_zero_iff)

lemma integral_width_loop_radix: "1 < base \<Longrightarrow> integral_width_loop base v r = r + length (radix base v)"
proof (induction base v r rule: integral_width_loop.induct)
  case (1 base v r)
  have p: "base * base = base ^ 2" "base ^ 2 * base = base ^ 3" "base ^ 2 * base ^ 2 = base ^ 4"
    by (simp_all add: eval_nat_numeral)
  show ?case
  proof (cases "v < base ^ 4")
    case True
    have "v < base \<Longrightarrow> length (radix base v) = 1" "\<not> v < base \<Longrightarrow> v < base ^ 2 \<Longrightarrow> length (radix base v) = 2"
        "\<not> v < base ^ 2 \<Longrightarrow> v < base ^ 3 \<Longrightarrow> length (radix base v) = 3"
        "\<not> v < base ^ 3 \<Longrightarrow> length (radix base v) = 4"
      using radix_digits [of base v 1] radix_digits [of base v 2] radix_digits [of base v 3] radix_digits [of base v 4]
        True 1(2) by (auto simp: not_less)
    with True show ?thesis by (subst integral_width_loop.simps) (simp add: Let_def p)
  next
    case False
    have "base ^ 3 \<le> base ^ 4" "base ^ 2 \<le> base ^ 4" "base ^ 1 \<le> base ^ 4"
      using 1(2) by (intro power_increasing; simp)+
    with False have "\<not> v < base ^ 3" "\<not> v < base ^ 2" "\<not> v < base" unfolding power_one_right by linarith+
    with False 1 length_radix_div [of base 4 v] show ?thesis
      by (subst integral_width_loop.simps) (simp add: Let_def p not_less)
  qed
qed

lemma alphabet_digit: "n \<le> 36 \<Longrightarrow> c < n \<Longrightarrow> take n ''0123456789abcdefghijklmnopqrstuvwxyz'' ! c = digit c"
  by (simp add: digit_def)

lemma to_chars_unsigned_radix:
  assumes "w = 32 \<or> w = 64 \<or> w = 128" and "v < 2 ^ w" and "2 \<le> base" and "base \<le> 36"
  shows "to_chars_integral_unsigned w cap v base =
    (0, if length (radix base v) \<le> cap then (radix base v, EC_ok) else ([], EC_value_too_large))"
proof -
  have w: "0 < w" using assms(1) by auto
  have two: "to_chars_base_2 w cap v = (0, if length (radix 2 v) \<le> cap then (radix 2 v, EC_ok) else ([], EC_value_too_large))"
    using chunk_loop_radix [of 2 4 base_2_lut v "int (length (radix 2 v))" "[]"] base_2_chunks
      digit_loop_radix [of 2 "''01''"] alphabet_digit [of 2]
    by (auto simp: to_chars_base_2_def integral_widths [OF assms(2) w] Let_def not_less)
  have eight: "to_chars_base_8 w cap v = (0, if length (radix 8 v) \<le> cap then (radix 8 v, EC_ok) else ([], EC_value_too_large))"
    using chunk_loop_radix [of 8 2 base_8_lut v "int (length (radix 8 v))" "[]"] base_8_chunks
      digit_loop_radix [of 8 "''01234567''"] alphabet_digit [of 8]
    by (auto simp: to_chars_base_8_def integral_widths [OF assms(2) w] Let_def not_less)
  have ne: "radix b u \<noteq> []" for b u by (simp add: radix.simps [of b u])
  have sixteen: "to_chars_base_16 w cap v = (0, if length (radix 16 v) \<le> cap then (radix 16 v, EC_ok) else ([], EC_value_too_large))"
    using chunk_loop_radix [of 16 2 base_16_lut v "int (length (radix 16 v))" "[]"] base_16_chunks
      digit_loop_radix [of 16 "''0123456789abcdef''"] alphabet_digit [of 16] ne
    by (auto simp: to_chars_base_16_def integral_widths [OF assms(2) w] Let_def not_less)
  have any: "digit_loop ''0123456789abcdefghijklmnopqrstuvwxyz'' base v (int (length (radix base v))) [] = (0, radix base v)"
    using digit_loop_radix [of base "''0123456789abcdefghijklmnopqrstuvwxyz''" v] assms(3) by (simp add: digit_def)
  show ?thesis
    unfolding to_chars_integral_unsigned_def two eight sixteen to_chars_itoa_radix [OF assms(1,2)]
    using assms(3) any by (simp add: integral_width_def integral_width_loop_radix Let_def not_le)
qed

section \<open>The conversions\<close>

text \<open>The text of an integer, and the values of the types of w bits.\<close>

definition int_text :: "nat \<Rightarrow> int \<Rightarrow> string" where
  "int_text base v = (if v < 0 then CHR ''-'' # radix base (nat (- v)) else radix base (nat v))"

definition in_type :: "nat \<Rightarrow> bool \<Rightarrow> int \<Rightarrow> bool" where
  "in_type w is_signed v \<longleftrightarrow> (if is_signed then in_signed w v else 0 \<le> v \<and> v < 2 ^ w)"

lemma in_signed_abs: "in_signed w v \<Longrightarrow> 0 < w \<Longrightarrow> \<bar>v\<bar> < 2 ^ w"
proof -
  assume v: "in_signed w v" and w: "0 < w"
  define h :: int where "h = 2 ^ (w - 1)"
  have "0 < h" "2 ^ w = 2 * h" using w by (cases w; simp add: h_def)+
  moreover have "- h \<le> v" "v < h" using v by (simp_all add: in_signed_def h_def)
  ultimately show ?thesis by linarith
qed

lemma nat_less_power: "x < 2 ^ w \<Longrightarrow> nat x < 2 ^ w"
  by (simp add: nat_less_iff zless_nat_eq_int_zless)

lemma complement_negative: "in_signed w v \<Longrightarrow> v < 0 \<Longrightarrow> 0 < w \<Longrightarrow> complement w (nat (v mod 2 ^ w)) = nat (- v)"
proof -
  assume v: "in_signed w v" "v < 0" and w: "0 < w"
  define W :: int where "W = 2 ^ w"
  have p: "(2::nat) ^ w = nat W" by (simp add: W_def nat_power_eq)
  have "\<bar>v\<bar> < W" using in_signed_abs [OF v(1) w] by (simp add: W_def)
  moreover from this v(2) have "v mod W = v + W" by (intro mod_neg_small) simp_all
  ultimately have "nat W - 1 - nat (v mod W) + 1 = nat (- v)" "nat (- v) < nat W" using v(2) by linarith+
  then show ?thesis unfolding complement_def p W_def [symmetric] by simp
qed

lemma nonnegative_bits: "in_signed w v \<Longrightarrow> 0 \<le> v \<Longrightarrow> 0 < w \<Longrightarrow> nat (v mod 2 ^ w) = nat v"
  using in_signed_abs [of w v] by simp

lemma radix_not_Nil [simp]: "radix b v \<noteq> []"
  by (simp add: radix.simps [of b v])

lemma in_type_nat: "in_type w False v \<Longrightarrow> nat v < 2 ^ w"
  by (simp add: in_type_def nat_less_iff)

lemma in_signed_bits: "in_signed w v \<Longrightarrow> 0 < w \<Longrightarrow> nat (v mod 2 ^ w) < 2 ^ w \<and> nat \<bar>v\<bar> < 2 ^ w"
  using in_signed_abs [of w v] nat_less_power [of "v mod 2 ^ w" w] nat_less_power [of "\<bar>v\<bar>" w] by simp

text \<open>What is in the buffer after a conversion: a negative value has its sign written before the width is tested.\<close>

definition converted :: "nat \<Rightarrow> nat \<Rightarrow> int \<Rightarrow> to_chars_result" where
  "converted base cap v =
     (if length (int_text base v) \<le> cap then (int_text base v, EC_ok)
      else (if v < 0 \<and> cap \<noteq> 0 then ''-'' else [], EC_value_too_large))"

lemma to_chars_signed_converted:
  assumes w: "w = 32 \<or> w = 64 \<or> w = 128" and v: "in_signed w v" and base: "2 \<le> base" "base \<le> 36"
  shows "to_chars_integral_signed w cap v base = (0, converted base cap v)"
    and "to_chars_itoa_signed w cap v = converted 10 cap v"
proof -
  have p: "0 < w" using w by auto
  note bits = in_signed_bits [OF v p] complement_negative [OF v _ p] nonnegative_bits [OF v _ p]
  have n: "v < 0 \<Longrightarrow> nat (- v) < 2 ^ w" "0 \<le> v \<Longrightarrow> nat v < 2 ^ w" using bits(1) by simp_all
  note any = to_chars_unsigned_radix [OF w _ base] and ten = to_chars_itoa_radix [OF w]
  show "to_chars_integral_signed w cap v base = (0, converted base cap v)"
    using n bits any [of _ cap] any [of _ "cap - 1"]
    by (cases cap) (auto simp: to_chars_integral_signed_def converted_def int_text_def Let_def)
  show "to_chars_itoa_signed w cap v = converted 10 cap v"
    using n bits ten [of _ cap] ten [of _ "cap - 1"]
    by (cases cap) (auto simp: to_chars_itoa_signed_def converted_def int_text_def Let_def)
qed

lemma make_32_64_or_128_bit:
  "w \<in> {8, 16, 32, 64, 128} \<Longrightarrow>
    (make_32_64_or_128_bit w = 32 \<or> make_32_64_or_128_bit w = 64 \<or> make_32_64_or_128_bit w = 128) \<and>
    w \<le> make_32_64_or_128_bit w"
  by (auto simp: make_32_64_or_128_bit_def)

lemma to_chars_both:
  assumes w: "w \<in> {8, 16, 32, 64, 128}" and v: "in_type w is_signed v" and base: "2 \<le> base" "base \<le> 36"
  shows "to_chars_in_base w is_signed cap v base = (0, converted base cap v) \<and>
    to_chars w is_signed cap v = converted 10 cap v"
proof -
  define W where "W = make_32_64_or_128_bit w"
  have W: "W = 32 \<or> W = 64 \<or> W = 128" "w \<le> W" using make_32_64_or_128_bit [OF w] by (simp_all add: W_def)
  show ?thesis
  proof (cases is_signed)
    case True
    then have "in_signed W v" using v in_signed_mono [OF _ W(2)] by (simp add: in_type_def)
    from to_chars_signed_converted [OF W(1) this base] True show ?thesis
      by (simp add: to_chars_in_base_def to_chars_def W_def)
  next
    case False
    have "(2::int) ^ w \<le> 2 ^ W" using W(2) by (intro power_increasing) simp_all
    moreover have "v < 2 ^ w" "0 \<le> v" using v False by (simp_all add: in_type_def)
    ultimately have "nat v < 2 ^ W" "0 \<le> v" using nat_less_power [OF less_le_trans] by blast+
    with False show ?thesis
      using to_chars_unsigned_radix [OF W(1) _ base, of "nat v" cap] to_chars_itoa_radix [OF W(1), of "nat v" cap]
      by (simp add: to_chars_in_base_def to_chars_def W_def [symmetric] converted_def int_text_def)
  qed
qed

text \<open>
  C30. Writing an integer, functional: for every type of 8 to 128 bits, signed or not, every
  value of it, every base from 2 to 36 and every buffer size, \<open>to_chars\<close> writes exactly the
  representation of the value in the base (without leading zeros, a minus sign first) when it
  fits in the buffer, with no position of it left unwritten (the write position ends at 0), and
  reports \<open>value_too_large\<close> otherwise, after at most a minus sign; the two-digit tables, the
  splitting of 64- and 128-bit values into halves and the digit count from the leading zeros
  give the same result as the plain base 10 division.
\<close>
theorem to_chars_correct:
  assumes w: "w \<in> {8, 16, 32, 64, 128}" and v: "in_type w is_signed v" and base: "2 \<le> base" "base \<le> 36"
  shows "to_chars_in_base w is_signed cap v base = (0, converted base cap v) \<and>
    to_chars w is_signed cap v = converted 10 cap v"
  by (rule to_chars_both [OF assms])

theorem to_chars_correct_witness:
  "to_chars_in_base 8 True 9 (- 128) 2 = (0, converted 2 9 (- 128)) \<and> converted 2 9 (- 128) = (''-10000000'', EC_ok) \<and>
   converted 2 8 (- 128) = (''-'', EC_value_too_large)"
  using to_chars_correct [of 8 True "- 128" 2 9]
  by (simp add: in_type_def in_signed_def converted_def int_text_def radix.simps digit_def)

end
