(* ===== verification/CxxFromChars.thy ===== *)
theory CxxFromChars
  imports CxxToChars
begin

text \<open>
  Text to integers: \<open>from_chars_integral.h\<close> (base 10) and the reading part of traits.h in
  include/linux/c++/v1/__charconv. The character arguments are the list of the characters from
  first to last, and the returned pointer is the list of the characters from there on. The
  other bases, and the properties of both directions, are in \<open>CxxFromCharsBase\<close>.
\<close>

section \<open>\<open>from_chars_integral.h\<close>, base 10, and the reading part of traits.h\<close>

text \<open>
  The characters from the returned pointer on, the error code, and the value assigned to the
  output parameter (None when it is left alone).
\<close>

type_synonym 'v from_chars_result = "string \<times> errc \<times> 'v option"

definition in_pattern :: "char \<Rightarrow> bool" where
  "in_pattern c \<longleftrightarrow> (48::nat) \<le> of_char c \<and> of_char c \<le> (57::nat)"

definition traits_type :: "nat \<Rightarrow> nat" where
  "traits_type w = (if w \<le> 32 then 32 else if w \<le> 64 then 64 else 128)"

definition traits_pow :: "nat \<Rightarrow> nat list" where
  "traits_pow w = (if w \<le> 32 then pow10_32 else if w \<le> 64 then pow10_64 else pow10_128)"

fun inner_product :: "nat \<Rightarrow> nat list \<Rightarrow> nat list \<Rightarrow> nat \<Rightarrow> nat" where
  "inner_product tw (x # xs) (y # ys) init = inner_product tw xs ys ((init + x * y) mod 2 ^ tw)"
| "inner_product tw _ _ init = init"

definition mul_overflowed :: "nat \<Rightarrow> nat \<Rightarrow> nat \<Rightarrow> bool \<times> nat" where
  "mul_overflowed tw a b = (2 ^ tw \<le> a * b, a * b mod 2 ^ tw)"

text \<open>The loop of \<open>__read\<close>: cprod is the part of the array written so far, from index i on.\<close>

fun read_loop :: "nat \<Rightarrow> string \<Rightarrow> nat list \<Rightarrow> nat list \<times> string" where
  "read_loop (Suc i) (c # p) cprod =
     (if \<not> in_pattern c then (cprod, c # p)
      else let cprod = (of_char c - 48) # cprod
           in if p \<noteq> [] \<and> i \<noteq> 0 then read_loop i p cprod else (cprod, p))"
| "read_loop _ p cprod = (cprod, p)"

text \<open>\<open>__read\<close> returns the new position and the two summands a and b; - - p steps back one character.\<close>

definition traits_read :: "nat \<Rightarrow> string \<Rightarrow> string \<times> nat \<times> nat" where
  "traits_read w p =
     (let (cprod, q) = read_loop (digits10_1 w) p [];
          a = inner_product (traits_type w) (butlast (tl cprod)) (tl (traits_pow w)) (hd cprod);
          (overflow, b) = mul_overflowed (traits_type w) (last cprod) (traits_pow w ! (length cprod - 1))
      in (if overflow then drop (length p - length q - 1) p else q, a, b))"

text \<open>The combinator, with the test for a digit that its arguments select.\<close>

definition subject_seq_combinator ::
  "(char \<Rightarrow> bool) \<Rightarrow> (string \<Rightarrow> nat from_chars_result) \<Rightarrow> string \<Rightarrow> nat from_chars_result" where
  "subject_seq_combinator pat f s =
     (let p = dropWhile (\<lambda>c. c = CHR ''0'') s
      in if p = [] \<or> \<not> pat (hd p)
         then if length p = length s then (s, EC_invalid_argument, None) else (p, EC_ok, Some 0)
         else let (q, ec, v) = f p
              in if ec = EC_result_out_of_range then (dropWhile pat q, ec, v) else (q, ec, v))"

text \<open>The lambda of \<open>__from_chars_atoi\<close>.\<close>

definition atoi_body :: "nat \<Rightarrow> string \<Rightarrow> nat from_chars_result" where
  "atoi_body w f =
     (let (p, a, b) = traits_read w f; m = 2 ^ w - 1
      in if (p = [] \<or> \<not> in_pattern (hd p)) \<and> a \<le> m \<and> b \<le> m - a then (p, EC_ok, Some ((a + b) mod 2 ^ w))
         else (p, EC_result_out_of_range, None))"

definition from_chars_atoi :: "nat \<Rightarrow> string \<Rightarrow> nat from_chars_result" where
  "from_chars_atoi w s = subject_seq_combinator in_pattern (atoi_body w) s"

definition signed_of_bits :: "nat \<Rightarrow> nat \<Rightarrow> int" where
  "signed_of_bits w x = (if 2 ^ (w - 1) \<le> x then int x - 2 ^ w else int x)"

definition sign_combinator :: "nat \<Rightarrow> (string \<Rightarrow> nat from_chars_result) \<Rightarrow> string \<Rightarrow> int from_chars_result" where
  "sign_combinator w f s =
     (let neg = (s \<noteq> [] \<and> hd s = CHR ''-''); (p, ec, v) = f (if neg then tl s else s)
      in case ec of
           EC_invalid_argument \<Rightarrow> (s, ec, None)
         | EC_result_out_of_range \<Rightarrow> (p, ec, None)
         | _ \<Rightarrow> (case v of
               None \<Rightarrow> (p, ec, None)
             | Some x \<Rightarrow>
                 if neg
                 then if x \<le> complement w (2 ^ (w - 1)) then (p, ec, Some (signed_of_bits w (complement w x)))
                      else (p, EC_result_out_of_range, None)
                 else if x \<le> 2 ^ (w - 1) - 1 then (p, ec, Some (int x))
                      else (p, EC_result_out_of_range, None)))"

definition from_chars_atoi_signed :: "nat \<Rightarrow> string \<Rightarrow> int from_chars_result" where
  "from_chars_atoi_signed w s = sign_combinator w (from_chars_atoi w) s"

definition from_chars :: "nat \<Rightarrow> bool \<Rightarrow> string \<Rightarrow> int from_chars_result" where
  "from_chars w is_signed s =
     (if is_signed then from_chars_atoi_signed w s
      else let (p, ec, v) = from_chars_atoi w s in (p, ec, map_option int v))"

section \<open>Reading decimal text\<close>

fun lsd :: "nat list \<Rightarrow> nat" where
  "lsd [] = 0"
| "lsd (d # ds) = d + 10 * lsd ds"

text \<open>The number a decimal text stands for.\<close>

definition decimal :: "string \<Rightarrow> nat" where
  "decimal s = lsd (rev (map (\<lambda>c. of_char c - 48) s))"

lemma lsd_append: "lsd (xs @ ys) = lsd xs + 10 ^ length xs * lsd ys"
  by (induction xs) (simp_all add: algebra_simps)

lemma lsd_less: "(\<And>d. d \<in> set ds \<Longrightarrow> d < 10) \<Longrightarrow> lsd ds < 10 ^ length ds"
proof (induction ds)
  case (Cons d ds)
  then have "d < 10" "lsd ds < 10 ^ length ds" by simp_all
  then show ?case by simp
qed simp

lemma in_pattern_digit: "in_pattern c \<Longrightarrow> of_char c - 48 < (10::nat)"
  by (auto simp: in_pattern_def)

lemma digit_decimal: "d < 10 \<Longrightarrow> in_pattern (digit d) \<and> of_char (digit d) - 48 = d"
proof -
  have "\<forall>d\<in>set [0..<10]. in_pattern (digit d) \<and> of_char (digit d) - 48 = d" by code_simp
  then show "d < 10 \<Longrightarrow> ?thesis" by simp
qed

lemma decimal_radix: "decimal (radix 10 v) = v \<and> list_all in_pattern (radix 10 v)"
proof (induction v rule: less_induct)
  case (less v)
  show ?case
  proof (cases "v < 10")
    case True
    then show ?thesis using digit_decimal [of v] by (simp add: radix.simps [of 10 v] decimal_def)
  next
    case False
    then have "decimal (radix 10 (v div 10)) = v div 10 \<and> list_all in_pattern (radix 10 (v div 10))"
      by (intro less.IH) simp
    with False digit_decimal [of "v mod 10"] show ?thesis
      by (simp add: radix.simps [of 10 v] decimal_def)
  qed
qed

lemma inner_product_powers:
  assumes "\<And>i. i < length xs \<Longrightarrow> i < length ys \<and> ys ! i = 10 ^ (k + i)" and "init + 10 ^ k * lsd xs < 2 ^ tw"
  shows "inner_product tw xs ys init = init + 10 ^ k * lsd xs"
  using assms
proof (induction xs arbitrary: ys k init)
  case (Cons x xs)
  obtain y ys' where ys: "ys = y # ys'" using Cons.prems(1) [of 0] by (cases ys) auto
  have y: "y = 10 ^ k" using Cons.prems(1) [of 0] ys by simp
  have "init + x * y < 2 ^ tw" using Cons.prems(2) unfolding y by (simp add: algebra_simps)
  moreover have "inner_product tw xs ys' (init + x * y) = init + x * y + 10 ^ Suc k * lsd xs"
  proof (rule Cons.IH)
    show "i < length xs \<Longrightarrow> i < length ys' \<and> ys' ! i = 10 ^ (Suc k + i)" for i
      using Cons.prems(1) [of "Suc i"] ys by simp
    show "init + x * y + 10 ^ Suc k * lsd xs < 2 ^ tw" using Cons.prems(2) unfolding y by (simp add: algebra_simps)
  qed
  ultimately show ?case unfolding ys y by (simp add: algebra_simps)
qed simp

lemma read_loop_take:
  assumes "0 < n" and "p \<noteq> []" and "in_pattern (hd p)"
  defines "l \<equiv> min n (length (takeWhile in_pattern p))"
  shows "read_loop n p cprod = (rev (map (\<lambda>c. of_char c - 48) (take l p)) @ cprod, drop l p)"
  unfolding l_def using assms(1-3)
proof (induction n p cprod rule: read_loop.induct)
  case (1 i c p cprod)
  show ?case
  proof (cases "p \<noteq> [] \<and> i \<noteq> 0 \<and> in_pattern (hd p)")
    case True
    with 1 show ?thesis by (cases p) (auto simp: Let_def)
  next
    case False
    with 1(4) show ?thesis by (cases p; cases i) (auto simp: Let_def)
  qed
qed simp_all

text \<open>What the code relies on for each width: the table of powers and the two bounds on the number of digits.\<close>

definition width_ok :: "nat \<Rightarrow> bool" where
  "width_ok w \<longleftrightarrow> 0 < w \<and> w \<le> traits_type w \<and> digits10_1 w \<le> length (traits_pow w) \<and> hd (traits_pow w) = 0 \<and>
     (\<forall>i<digits10_1 w. 0 < i \<longrightarrow> traits_pow w ! i = 10 ^ i) \<and>
     10 ^ (digits10_1 w - 1) \<le> (2::nat) ^ traits_type w \<and> (2::nat) ^ w \<le> 10 ^ digits10_1 w"

lemma power_tables:
  "pow10_32 = 0 # 10 # map (\<lambda>i. 10 ^ i) [2..<10]" "pow10_64 = 0 # 10 # map (\<lambda>i. 10 ^ i) [2..<20]"
  "pow10_128 = 0 # 10 # map (\<lambda>i. 10 ^ i) [2..<40]"
  by (simp_all add: pow10_32_def pow10_64_def pow10_128_def)

lemma power_table_nth: "0 < i \<Longrightarrow> i < n \<Longrightarrow> (0 # 10 # map (\<lambda>i. 10 ^ i) [2..<n]) ! i = (10::nat) ^ i"
  by (cases i; cases "i - 1") simp_all

lemma width_okI:
  assumes "traits_pow w = 0 # 10 # map (\<lambda>i. 10 ^ i) [2..<n]" and "digits10_1 w \<le> n" and "2 \<le> n"
    and "0 < w" and "w \<le> traits_type w" and "(10::nat) ^ (digits10_1 w - 1) \<le> 2 ^ traits_type w"
    and "(2::nat) ^ w \<le> 10 ^ digits10_1 w"
  shows "width_ok w"
  using assms power_table_nth [of _ n] by (auto simp: width_ok_def)

lemma width_ok_widths: "w \<in> {8, 16, 32, 64, 128} \<Longrightarrow> width_ok w"
proof (elim insertE emptyE)
  show "w = 8 \<Longrightarrow> width_ok w" "w = 16 \<Longrightarrow> width_ok w" "w = 32 \<Longrightarrow> width_ok w"
    by (rule width_okI [where n = 10]; simp add: traits_pow_def power_tables digits10_1_def traits_type_def)+
  show "w = 64 \<Longrightarrow> width_ok w"
    by (rule width_okI [where n = 20]) (simp_all add: traits_pow_def power_tables digits10_1_def traits_type_def)
  show "w = 128 \<Longrightarrow> width_ok w"
    by (rule width_okI [where n = 40]) (simp_all add: traits_pow_def power_tables digits10_1_def traits_type_def)
qed

lemma take_takeWhile: "take (min n (length (takeWhile P p))) p = take n (takeWhile P p)"
proof (induction p arbitrary: n)
  case (Cons c p)
  then show ?case by (cases n) simp_all
qed simp

lemma traits_read_value:
  assumes w: "width_ok w" and p: "p \<noteq> []" "in_pattern (hd p)"
  defines "l \<equiv> min (digits10_1 w) (length (takeWhile in_pattern p))"
  shows "\<exists>a b. traits_read w p = (if 2 ^ traits_type w \<le> b then drop (l - 1) p else drop l p, a, b mod 2 ^ traits_type w) \<and>
    a + b = decimal (take l p) \<and> 1 \<le> l"
proof -
  let ?tw = "traits_type w"
  define ds :: "nat list" where "ds = map (\<lambda>c. of_char c - 48) (take l p)"
  have n: "0 < digits10_1 w" by (simp add: digits10_1_def)
  have l: "1 \<le> l" "l \<le> digits10_1 w" "l \<le> length p"
    using n p length_takeWhile_le [of in_pattern p] unfolding l_def by (cases p; auto)+
  have rl: "read_loop (digits10_1 w) p [] = (rev ds, drop l p)"
    using read_loop_take [OF n p, of "[]"] unfolding l_def [symmetric] ds_def by simp
  have len: "length ds = l" using l(3) by (simp add: ds_def)
  have dig: "d < 10" if "d \<in> set ds" for d
  proof -
    have "take l p = take (digits10_1 w) (takeWhile in_pattern p)" unfolding l_def take_takeWhile by simp
    with that show ?thesis unfolding ds_def by (auto dest!: in_set_takeD set_takeWhileD intro: in_pattern_digit)
  qed
  define b where "b = hd ds * traits_pow w ! (l - 1)"
  have last: "last (rev ds) = hd ds" using len l(1) by (cases ds) simp_all
  have read: "traits_read w p =
      (if 2 ^ ?tw \<le> b then drop (l - 1) p else drop l p,
       inner_product ?tw (butlast (tl (rev ds))) (tl (traits_pow w)) (hd (rev ds)), b mod 2 ^ ?tw)"
    using l(3) len last unfolding traits_read_def rl mul_overflowed_def b_def by simp
  show ?thesis
  proof (cases "l = 1")
    case True
    then obtain d where d: "ds = [d]" using len by (cases ds) auto
    have "traits_pow w ! 0 = 0" using w n by (cases "traits_pow w") (auto simp: width_ok_def)
    then have "b = 0" by (simp add: b_def True)
    moreover have "decimal (take l p) = d" unfolding decimal_def ds_def [symmetric] d by simp
    ultimately show ?thesis using read True d by (intro exI [of _ d] exI [of _ 0]) simp
  next
    case False
    obtain m mid x where ds: "ds = m # mid @ [x]"
      using len l(1) False by (cases ds; cases "tl ds" rule: rev_cases) auto
    have lm: "length mid = l - 2" "2 \<le> l" using ds len by auto
    have pow: "traits_pow w ! i = 10 ^ i" if "0 < i" "i < l" for i using w that l(2) by (simp add: width_ok_def)
    have "lsd (x # rev mid) < 10 ^ (l - 1)" using lsd_less [of "x # rev mid"] dig ds lm by (simp add: numeral_2_eq_2 Suc_diff_Suc)
    also have "(10::nat) ^ (l - 1) \<le> 10 ^ (digits10_1 w - 1)" using l(2) by (intro power_increasing) simp_all
    also have "\<dots> \<le> 2 ^ ?tw" using w by (simp add: width_ok_def)
    finally have small: "x + 10 ^ 1 * lsd (rev mid) < 2 ^ ?tw" by simp
    have "inner_product ?tw (rev mid) (tl (traits_pow w)) x = x + 10 ^ 1 * lsd (rev mid)"
    proof (rule inner_product_powers [OF _ small])
      fix i assume "i < length (rev mid)"
      then have "Suc i < l" "Suc i < length (traits_pow w)" using lm w l(2) by (auto simp: width_ok_def)
      then show "i < length (tl (traits_pow w)) \<and> tl (traits_pow w) ! i = 10 ^ (1 + i)"
        using pow [of "Suc i"] by (simp add: nth_tl)
    qed
    moreover have "b = m * 10 ^ (l - 1)" using pow [of "l - 1"] lm ds by (simp add: b_def)
    moreover have "decimal (take l p) = x + 10 * lsd (rev mid) + m * 10 ^ (l - 1)"
    proof -
      have "decimal (take l p) = lsd (rev ds)" by (simp add: decimal_def ds_def)
      also have "\<dots> = lsd ((x # rev mid) @ [m])" by (simp add: ds)
      also have "\<dots> = lsd (x # rev mid) + 10 ^ (l - 1) * m"
        unfolding lsd_append using lm by (simp add: numeral_2_eq_2 Suc_diff_Suc)
      finally show ?thesis by simp
    qed
    ultimately show ?thesis using read l(1) by (auto simp: ds)
  qed
qed

lemma dropWhile_drop: "k \<le> length (takeWhile P p) \<Longrightarrow> dropWhile P (drop k p) = dropWhile P p"
proof (induction p arbitrary: k)
  case (Cons c p)
  then show ?case by (cases k) (simp_all split: if_splits)
qed simp

lemma hd_drop_takeWhile: "k < length (takeWhile P p) \<Longrightarrow> drop k p \<noteq> [] \<and> P (hd (drop k p))"
proof (induction p arbitrary: k)
  case (Cons c p)
  then show ?case by (cases k) (simp_all split: if_splits)
qed simp

lemma decimal_Cons: "decimal (c # cs) = (of_char c - 48) * 10 ^ length cs + decimal cs"
  by (simp add: decimal_def lsd_append)

lemma decimal_Nil: "decimal [] = 0"
  by (simp add: decimal_def)

lemma decimal_lower: "in_pattern c \<Longrightarrow> c \<noteq> CHR ''0'' \<Longrightarrow> 10 ^ length cs \<le> decimal (c # cs)"
proof -
  assume c: "in_pattern c" "c \<noteq> CHR ''0''"
  then have "of_char c \<noteq> (of_char (CHR ''0'') :: nat)" by (simp only: of_char_eq_iff not_False_eq_True)
  then have "of_char c \<noteq> (48::nat)" by simp
  moreover have "(48::nat) \<le> of_char c" using c by (simp add: in_pattern_def)
  ultimately have "1 \<le> of_char c - (48::nat)" by linarith
  then have "1 * 10 ^ length cs \<le> (of_char c - 48) * (10::nat) ^ length cs" by (rule mult_right_mono) simp
  then show ?thesis unfolding decimal_Cons mult_1 by (rule trans_le_add1)
qed

section \<open>The interface of the combinators\<close>

text \<open>What the combinators promise: the value of the longest prefix of digits.\<close>

definition digits_prefix :: "(char \<Rightarrow> bool) \<Rightarrow> (string \<Rightarrow> nat) \<Rightarrow> nat \<Rightarrow> string \<Rightarrow> nat from_chars_result" where
  "digits_prefix pat val w s =
     (let ds = takeWhile pat s; rest = dropWhile pat s
      in if ds = [] then (s, EC_invalid_argument, None)
         else if val ds < 2 ^ w then (rest, EC_ok, Some (val ds))
         else (rest, EC_result_out_of_range, None))"

text \<open>What a function given to \<open>subject_seq_combinator\<close> does on a text that starts with a digit other than 0.\<close>

definition reads_digits :: "(char \<Rightarrow> bool) \<Rightarrow> (string \<Rightarrow> nat) \<Rightarrow> nat \<Rightarrow> (string \<Rightarrow> nat from_chars_result) \<Rightarrow> bool" where
  "reads_digits pat val w f \<longleftrightarrow>
     (\<forall>p. p \<noteq> [] \<longrightarrow> pat (hd p) \<longrightarrow> hd p \<noteq> CHR ''0'' \<longrightarrow>
       (if val (takeWhile pat p) < 2 ^ w then f p = (dropWhile pat p, EC_ok, Some (val (takeWhile pat p)))
        else \<exists>q. f p = (q, EC_result_out_of_range, None) \<and> dropWhile pat q = dropWhile pat p))"

text \<open>
  What \<open>from_chars\<close> promises: an optional minus sign of a signed type, the longest prefix of
  digits, and its value when the type holds it.
\<close>

definition parsed_digits :: "(char \<Rightarrow> bool) \<Rightarrow> (string \<Rightarrow> nat) \<Rightarrow> nat \<Rightarrow> bool \<Rightarrow> string \<Rightarrow> int from_chars_result" where
  "parsed_digits pat val w is_signed s =
     (let neg = (is_signed \<and> s \<noteq> [] \<and> hd s = CHR ''-''); t = (if neg then tl s else s);
          ds = takeWhile pat t; rest = dropWhile pat t;
          v = (if neg then - int (val ds) else int (val ds))
      in if ds = [] then (s, EC_invalid_argument, None)
         else if in_type w is_signed v then (rest, EC_ok, Some v)
         else (rest, EC_result_out_of_range, None))"

text \<open>
  What the combinators need of the digits they are given: 0 is one, and leading zeros do not
  change the value of a text.
\<close>

locale digit_text =
  fixes pat :: "char \<Rightarrow> bool" and val :: "string \<Rightarrow> nat"
  assumes pat_zero: "pat (CHR ''0'')"
    and val_zero: "val (CHR ''0'' # cs) = val cs"
    and val_Nil: "val [] = 0"
begin

lemma skip_zeros:
  defines "skip \<equiv> dropWhile (\<lambda>c. c = CHR ''0'')"
  shows "val (takeWhile pat (skip s)) = val (takeWhile pat s)"
    "dropWhile pat (skip s) = dropWhile pat s"
    "takeWhile pat s = [] \<longleftrightarrow> skip s = s \<and> takeWhile pat (skip s) = []"
    "length (skip s) = length s \<longleftrightarrow> skip s = s"
proof -
  show "val (takeWhile pat (skip s)) = val (takeWhile pat s)"
    unfolding skip_def by (induction s) (simp_all add: pat_zero val_zero)
  show "dropWhile pat (skip s) = dropWhile pat s"
    unfolding skip_def by (induction s) (simp_all add: pat_zero)
  show len: "length (skip s) = length s \<longleftrightarrow> skip s = s"
    unfolding skip_def by (metis dropWhile_eq_drop drop_0 length_drop diff_is_0_eq' diff_less length_greater_0_conv
      neq0_conv nless_le length_takeWhile_le takeWhile_dropWhile_id append_Nil length_append add_cancel_left_left)
  show "takeWhile pat s = [] \<longleftrightarrow> skip s = s \<and> takeWhile pat (skip s) = []"
  proof (cases s)
    case (Cons c cs)
    have "length (skip cs) \<le> length cs" unfolding skip_def by (rule length_dropWhile_le)
    then have "skip cs \<noteq> CHR ''0'' # cs" by auto
    with Cons pat_zero show ?thesis unfolding skip_def by auto
  qed (simp add: skip_def)
qed

lemma combinator_prefix:
  assumes f: "reads_digits pat val w f"
  shows "subject_seq_combinator pat f s = digits_prefix pat val w s"
proof -
  define p where "p = dropWhile (\<lambda>c. c = CHR ''0'') s"
  note skip = skip_zeros [of s, folded p_def]
  show ?thesis
  proof (cases "p = [] \<or> \<not> pat (hd p)")
    case True
    then have e: "takeWhile pat p = []" "dropWhile pat p = p" by (cases p; simp)+
    then have "val (takeWhile pat s) = 0" "dropWhile pat s = p" using skip(1,2) by (simp_all add: val_Nil)
    with True skip(3,4) e show ?thesis
      by (auto simp: subject_seq_combinator_def digits_prefix_def p_def [symmetric] Let_def)
  next
    case False
    then have "hd p \<noteq> CHR ''0''" unfolding p_def by (metis (mono_tags) hd_dropWhile)
    with f False have fp: "if val (takeWhile pat p) < 2 ^ w
        then f p = (dropWhile pat p, EC_ok, Some (val (takeWhile pat p)))
        else \<exists>q. f p = (q, EC_result_out_of_range, None) \<and> dropWhile pat q = dropWhile pat p"
      unfolding reads_digits_def by blast
    have ne: "takeWhile pat s \<noteq> []" using False skip(3) by (cases p) auto
    show ?thesis
    proof (cases "val (takeWhile pat s) < 2 ^ w")
      case True
      with fp False ne skip(1,2) show ?thesis
        by (simp add: subject_seq_combinator_def digits_prefix_def p_def [symmetric])
    next
      case big: False
      with fp skip(1,2) obtain q where "f p = (q, EC_result_out_of_range, None)" "dropWhile pat q = dropWhile pat s"
        by auto
      with big False ne show ?thesis
        by (simp add: subject_seq_combinator_def digits_prefix_def p_def [symmetric])
    qed
  qed
qed

end

interpretation decimal: digit_text in_pattern decimal
  by unfold_locales (simp_all add: in_pattern_def decimal_Cons decimal_Nil)

text \<open>The sign in front of the digits, whatever the digits are.\<close>

lemma complement_min: "0 < w \<Longrightarrow> complement w (2 ^ (w - 1)) = 2 ^ (w - 1)"
proof -
  assume w: "0 < w"
  define h :: nat where "h = 2 ^ (w - 1)"
  have "0 < h" "2 ^ w = 2 * h" using w by (cases w; simp add: h_def)+
  then show ?thesis unfolding complement_def h_def [symmetric] by simp
qed

lemma signed_of_complement:
  assumes "0 < w" and "x \<le> 2 ^ (w - 1)"
  shows "signed_of_bits w (complement w x) = - int x"
proof -
  define h :: nat where "h = 2 ^ (w - 1)"
  have h: "0 < h" "2 ^ w = 2 * h" "(2::int) ^ w = 2 * int h" "x \<le> h" using assms by (cases w; simp add: h_def)+
  show ?thesis
  proof (cases "x = 0")
    case True
    with h show ?thesis unfolding signed_of_bits_def complement_def h_def [symmetric] by simp
  next
    case False
    then have "complement w x = 2 * h - x" using h unfolding complement_def by simp
    with h False show ?thesis unfolding signed_of_bits_def h_def [symmetric] by (simp add: of_nat_diff)
  qed
qed

lemma sign_combinator_parsed:
  assumes p: "0 < w" and f: "\<And>t. f t = digits_prefix pat val w t"
  shows "sign_combinator w f s = parsed_digits pat val w True s"
proof -
  define neg where "neg = (s \<noteq> [] \<and> hd s = CHR ''-'')"
  define t where "t = (if neg then tl s else s)"
  define x where "x = val (takeWhile pat t)"
  define h :: nat where "h = 2 ^ (w - 1)"
  have h: "0 < h" "2 ^ w = 2 * h" "(2::int) ^ (w - 1) = int h" using p by (cases w; simp add: h_def)+
  have range: "in_type w True (- int x) \<longleftrightarrow> x \<le> h" "in_type w True (int x) \<longleftrightarrow> x \<le> h - 1"
    unfolding in_type_def in_signed_def h(3) using h(1) by auto
  have big: "\<not> x < 2 ^ w \<Longrightarrow> \<not> x \<le> h \<and> \<not> x \<le> h - 1" unfolding h(2) using h(1) by linarith
  have neg_val: "x \<le> h \<Longrightarrow> signed_of_bits w (complement w x) = - int x"
    using signed_of_complement [OF p] by (simp add: h_def)
  have min: "complement w h = h" using complement_min [OF p] by (simp add: h_def)
  show ?thesis
    unfolding sign_combinator_def parsed_digits_def neg_def [symmetric] simp_thms t_def [symmetric]
      Let_def f digits_prefix_def x_def [symmetric] h_def [symmetric] min
    using range neg_val big by auto
qed

lemma unsigned_parsed:
  "(let (p, ec, v) = digits_prefix pat val w s in (p, ec, map_option int v)) = parsed_digits pat val w False s"
  by (auto simp: parsed_digits_def digits_prefix_def in_type_def Let_def)

lemma atoi_body_value:
  assumes w: "width_ok w" and p: "p \<noteq> []" "in_pattern (hd p)" "hd p \<noteq> CHR ''0''"
  defines "D \<equiv> takeWhile in_pattern p" and "rest \<equiv> dropWhile in_pattern p"
  shows "if decimal D < 2 ^ w then atoi_body w p = (rest, EC_ok, Some (decimal D))
    else \<exists>q. atoi_body w p = (q, EC_result_out_of_range, None) \<and> dropWhile in_pattern q = rest"
proof -
  define N l where "N = digits10_1 w" and "l = min N (length D)"
  define m :: nat where "m = 2 ^ w - 1"
  obtain a b where read: "traits_read w p = (if 2 ^ traits_type w \<le> b then drop (l - 1) p else drop l p, a, b mod 2 ^ traits_type w)"
      and ab: "a + b = decimal (take l p)" and l: "1 \<le> l"
    using traits_read_value [OF w p(1,2)] unfolding l_def N_def D_def by blast
  have lD: "l - 1 < length D" "l \<le> length D" using l unfolding l_def by linarith+
  have rd: "drop (l - 1) p \<noteq> []" "in_pattern (hd (drop (l - 1) p))" "dropWhile in_pattern (drop (l - 1) p) = rest"
      "dropWhile in_pattern (drop l p) = rest"
    using hd_drop_takeWhile [of "l - 1" in_pattern p] dropWhile_drop [of "l - 1" in_pattern p]
      dropWhile_drop [of l in_pattern p] lD unfolding D_def rest_def by simp_all
  have wt: "(2::nat) ^ w \<le> 2 ^ traits_type w" using w by (simp add: width_ok_def)
  obtain c cs where D: "D = c # cs" "in_pattern c" "c \<noteq> CHR ''0''" using p unfolding D_def by (cases p) auto
  show ?thesis
  proof (cases "length D \<le> N")
    case True
    then have "l = length D" by (simp add: l_def)
    then have "take l p = D" "drop l p = rest"
      unfolding D_def rest_def by (simp only: takeWhile_eq_take [symmetric], simp only: dropWhile_eq_drop)
    moreover have "rest = [] \<or> \<not> in_pattern (hd rest)" unfolding rest_def by (metis hd_dropWhile)
    moreover have "2 ^ traits_type w \<le> b \<Longrightarrow> \<not> a + b < 2 ^ w" using wt by linarith
    moreover have "b < 2 ^ traits_type w \<Longrightarrow> a \<le> m \<and> b \<le> m - a \<longleftrightarrow> a + b < 2 ^ w"
      unfolding m_def using zero_less_power [of "2::nat" w] by linarith
    ultimately show ?thesis using read ab rd unfolding atoi_body_def m_def [symmetric] by auto
  next
    case False
    have "2 ^ w \<le> (10::nat) ^ N" using w by (simp add: width_ok_def N_def)
    also have "\<dots> \<le> 10 ^ length cs" using False D(1) by (intro power_increasing) simp_all
    also have "\<dots> \<le> decimal D" unfolding D(1) by (rule decimal_lower [OF D(2,3)])
    finally have big: "\<not> decimal D < 2 ^ w" by simp
    moreover have "drop l p \<noteq> []" "in_pattern (hd (drop l p))"
      using hd_drop_takeWhile [of l in_pattern p] False unfolding l_def D_def by auto
    ultimately show ?thesis using read rd unfolding atoi_body_def by auto
  qed
qed

lemma from_chars_atoi_decimal: "width_ok w \<Longrightarrow> from_chars_atoi w s = digits_prefix in_pattern decimal w s"
  unfolding from_chars_atoi_def
  by (rule decimal.combinator_prefix) (simp add: reads_digits_def atoi_body_value)

abbreviation parsed :: "nat \<Rightarrow> bool \<Rightarrow> string \<Rightarrow> int from_chars_result" where
  "parsed \<equiv> parsed_digits in_pattern decimal"

lemma from_chars_parsed:
  assumes w: "width_ok w"
  shows "from_chars w is_signed s = parsed w is_signed s"
proof -
  have "0 < w" using w by (simp add: width_ok_def)
  then show ?thesis
    using sign_combinator_parsed [of w "from_chars_atoi w" in_pattern decimal s] unsigned_parsed [of in_pattern decimal w s]
    by (simp add: from_chars_def from_chars_atoi_signed_def from_chars_atoi_decimal [OF w])
qed

text \<open>Reading back a printed integer, whatever the digits are, with other text behind it.\<close>

lemma parsed_int_text:
  assumes val: "\<And>n. val (radix b n) = n \<and> list_all pat (radix b n)" and minus: "\<not> pat (CHR ''-'')"
    and v: "in_type w is_signed v" and t: "t = [] \<or> \<not> pat (hd t)"
  shows "parsed_digits pat val w is_signed (int_text b v @ t) = (t, EC_ok, Some v)"
proof -
  have "takeWhile pat t = []" "dropWhile pat t = t" using t by (cases t; simp)+
  moreover have "\<And>n c. c \<in> set (radix b n) \<Longrightarrow> pat c" using val by (simp add: list_all_iff)
  ultimately have split: "takeWhile pat (radix b n @ t) = radix b n" "dropWhile pat (radix b n @ t) = t" for n by simp_all
  have ne: "radix b n \<noteq> []" for n by (simp add: radix.simps [of b n])
  have first: "hd (radix b n @ t) \<noteq> CHR ''-''" for n
    using val [of n] minus ne [of n] by (cases "radix b n") auto
  show ?thesis
    using v first [of "nat v"] split val ne
    by (cases is_signed) (auto simp: parsed_digits_def int_text_def Let_def in_type_def)
qed

end
