(* ===== verification/CxxFromCharsBase.thy ===== *)
theory CxxFromCharsBase
  imports CxxFromChars DeviceFloat
begin

text \<open>
  Text to integers in the bases 2 to 36: the second half of \<open>from_chars_integral.h\<close> in
  include/linux/c++/v1/__charconv. The number of digits that cannot overflow is computed in
  float from a table of logarithms; its arithmetic is that of \<open>DeviceFloat\<close>. Characters are
  signed, as the ABI of the target has them.
\<close>

section \<open>\<open>from_chars_integral.h\<close>, every base\<close>

definition schar :: "char \<Rightarrow> int" where
  "schar c = (let k = of_char c :: nat in if 128 \<le> k then int k - 256 else int k)"

text \<open>The result of the test: whether the character is a digit, and its value then.\<close>

type_synonym in_pattern_result = "bool \<times> int"

definition in_pattern_base :: "nat \<Rightarrow> char \<Rightarrow> in_pattern_result" where
  "in_pattern_base base c =
     (if base \<le> 10 then (48 \<le> schar c \<and> schar c < 48 + int base, schar c - 48)
      else if in_pattern c then (True, schar c - 48)
      else if 97 \<le> schar c \<and> schar c < 97 + int base - 10 then (True, schar c - 97 + 10)
      else (65 \<le> schar c \<and> schar c < 65 + int base - 10, schar c - 65 + 10))"

abbreviation is_digit :: "nat \<Rightarrow> char \<Rightarrow> bool" where
  "is_digit base c \<equiv> fst (in_pattern_base base c)"

text \<open>A float initialised by a decimal literal of type double.\<close>

fun fp_narrow :: "fp \<Rightarrow> fp" where
  "fp_narrow (FFin s m e) = fp_round binary32 s m 1 e"
| "fp_narrow x = x"

definition float_lit :: "int \<Rightarrow> int \<Rightarrow> fp" where
  "float_lit m k = fp_narrow (fp_dec binary64 m k)"

definition from_chars_log2f_lut :: "fp list" where
  "from_chars_log2f_lut =
     [fp_of_int binary32 1, float_lit 15849625 (-7), fp_of_int binary32 2, float_lit 2321928 (-6),
      float_lit 25849626 (-7), float_lit 2807355 (-6), fp_of_int binary32 3, float_lit 3169925 (-6),
      float_lit 3321928 (-6),
      float_lit 34594316 (-7), float_lit 35849626 (-7), float_lit 37004397 (-7), float_lit 3807355 (-6),
      float_lit 39068906 (-7), fp_of_int binary32 4, float_lit 4087463 (-6), float_lit 4169925 (-6),
      float_lit 42479277 (-7),
      float_lit 4321928 (-6), float_lit 43923173 (-7), float_lit 44594316 (-7), float_lit 4523562 (-6),
      float_lit 45849624 (-7), float_lit 4643856 (-6), float_lit 470044 (-5), float_lit 47548876 (-7),
      float_lit 4807355 (-6),
      float_lit 4857981 (-6), float_lit 49068904 (-7), float_lit 49541965 (-7), fp_of_int binary32 5,
      float_lit 5044394 (-6), float_lit 5087463 (-6), float_lit 5129283 (-6), float_lit 5169925 (-6)]"

text \<open>\<open>__digits - 1\<close>, in float, and the comparison of the counter i with it.\<close>

definition digits_limit :: "nat \<Rightarrow> fp \<Rightarrow> fp" where
  "digits_limit w l = fp_sub binary32 (fp_div binary32 (fp_of_int binary32 (int w)) l) (fp_of_int binary32 1)"

definition more_digits :: "nat \<Rightarrow> nat \<Rightarrow> nat \<Rightarrow> bool" where
  "more_digits w b i = fp_lt (fp_of_int binary32 (int i)) (digits_limit w (from_chars_log2f_lut ! (b - 2)))"

text \<open>The loop of the lambda: the position it stops at, and the variables x and y there.\<close>

fun base_loop :: "nat \<Rightarrow> nat \<Rightarrow> nat \<Rightarrow> nat \<Rightarrow> string \<Rightarrow> string \<times> nat \<times> nat" where
  "base_loop w b i x [] = ([], x, 0)"
| "base_loop w b i x (c # p) =
     (let (ok, v) = in_pattern_base b c
      in if ok
         then if more_digits w b i then base_loop w b (i + 1) (nat ((int x * int b + v) mod 2 ^ w)) p
              else let (overflow, x) = mul_overflowed w x b
                   in (if \<not> overflow then p else c # p, x, nat (v mod 2 ^ w))
         else (c # p, x, 0))"

definition base_finish :: "nat \<Rightarrow> nat \<Rightarrow> string \<times> nat \<times> nat \<Rightarrow> nat from_chars_result" where
  "base_finish w b = (\<lambda>(p, x, y).
     if (p = [] \<or> \<not> is_digit b (hd p)) \<and> y \<le> (2 ^ w - 1) - x then (p, EC_ok, Some ((x + y) mod 2 ^ w))
     else (p, EC_result_out_of_range, None))"

definition base_body :: "nat \<Rightarrow> nat \<Rightarrow> string \<Rightarrow> nat from_chars_result" where
  "base_body w b p =
     base_finish w b (base_loop w b 1 (nat (snd (in_pattern_base b (hd p)) mod 2 ^ w)) (tl p))"

definition from_chars_integral :: "nat \<Rightarrow> nat \<Rightarrow> string \<Rightarrow> nat from_chars_result" where
  "from_chars_integral w base s =
     (if base = 10 then from_chars_atoi w s
      else subject_seq_combinator (is_digit base) (base_body w base) s)"

definition from_chars_integral_signed :: "nat \<Rightarrow> nat \<Rightarrow> string \<Rightarrow> int from_chars_result" where
  "from_chars_integral_signed w base s = sign_combinator w (from_chars_integral w base) s"

definition from_chars_base :: "nat \<Rightarrow> bool \<Rightarrow> string \<Rightarrow> nat \<Rightarrow> int from_chars_result" where
  "from_chars_base w is_signed s base =
     (if is_signed then from_chars_integral_signed w base s
      else let (p, ec, v) = from_chars_integral w base s in (p, ec, map_option int v))"

section \<open>The float bound on the number of digits\<close>

lemma dy_add_val: "real_of_int (dy_add M e N f) * 2 powi min e f = real_of_int M * 2 powi e + real_of_int N * 2 powi f"
proof -
  have split: "(2::real) ^ nat (k - min e f) * 2 powi min e f = 2 powi k" if "min e f \<le> k" for k
  proof -
    have "(2::real) ^ nat (k - min e f) = 2 powi (k - min e f)" using that by (simp add: power_int_nonneg_exp)
    then show ?thesis by (simp add: power_int_diff)
  qed
  show ?thesis
    using split [of e] split [of f] by (simp add: dy_add_def distrib_right mult.assoc del: min_le_iff_disj)
qed

lemma fp_lt_val: "fp_lt (FFin s m e) (FFin t n f) \<longleftrightarrow> fp_val (FFin s m e) < fp_val (FFin t n f)"
proof -
  define z y where "z = dy_add (smant s m) e (- smant t n) f" and "y = (2::real) powi min e f"
  have "0 < y" by (simp add: y_def)
  then have "z < 0 \<longleftrightarrow> real_of_int z * y < 0" by (auto simp: mult_less_0_iff)
  also have "real_of_int z * y = fp_val (FFin s m e) - fp_val (FFin t n f)"
    unfolding z_def y_def dy_add_val by simp
  finally show ?thesis by (simp add: z_def)
qed

text \<open>
  What the loop needs of its bound x, in exact arithmetic: counting below x is counting below K,
  K digits fit the type, and K + 2 digits never do.
\<close>

fun limit_digits :: "fp \<Rightarrow> nat" where
  "limit_digits (FFin s m e) = (m + 2 ^ nat (- e) - 1) div 2 ^ nat (- e)"
| "limit_digits x = 0"

fun limit_ok :: "nat \<Rightarrow> nat \<Rightarrow> fp \<Rightarrow> bool" where
  "limit_ok w b (FFin s m e) \<longleftrightarrow> \<not> s \<and> e \<le> 0 \<and>
     (let K = limit_digits (FFin s m e) in 1 \<le> K \<and> b ^ K \<le> 2 ^ w \<and> 2 ^ w \<le> b ^ (K + 1))"
| "limit_ok w b x \<longleftrightarrow> False"

lemma less_ceiling_div: "0 < P \<Longrightarrow> i < (m + P - 1) div P \<longleftrightarrow> i * P < (m::nat)"
proof -
  assume P: "0 < P"
  then have "i < (m + P - 1) div P \<longleftrightarrow> Suc i * P \<le> m + P - 1" by (simp add: Suc_le_eq [symmetric] less_eq_div_iff_mult_less_eq)
  also have "\<dots> \<longleftrightarrow> i * P < m" using P by auto
  finally show ?thesis .
qed

lemma fp_lt_limit:
  assumes "limit_ok w b x" and "0 < i" and "i < 2 ^ 24"
  shows "fp_lt (fp_of_int binary32 (int i)) x \<longleftrightarrow> i < limit_digits x"
proof -
  obtain m e where x: "x = FFin False m e" "e \<le> 0" using assms(1) by (cases x) auto
  define P :: nat where "P = 2 ^ nat (- e)"
  have "i < 2 ^ prec binary32" "emin binary32 \<le> 1 - int (prec binary32)" "0 \<le> emax binary32"
    using assms(3) by (simp_all add: format_constants)
  then obtain m' e' where i: "fp_of_int binary32 (int i) = FFin False m' e'" "fp_val (FFin False m' e') = real i"
    using fp_of_int_exact [OF assms(2)] by metis
  have "(2::real) powi e = 1 / real P" using x(2) by (simp add: P_def power_int_def inverse_eq_divide power_one_over)
  then have "fp_val x = real m / real P" by (simp add: x smant_def)
  then have "fp_lt (fp_of_int binary32 (int i)) x \<longleftrightarrow> real i < real m / real P" using i by (simp only: x fp_lt_val)
  also have "\<dots> \<longleftrightarrow> real (i * P) < real m" by (simp add: P_def pos_less_divide_eq)
  also have "\<dots> \<longleftrightarrow> i * P < m" by (simp only: of_nat_less_iff)
  also have "\<dots> \<longleftrightarrow> i < limit_digits x"
    using less_ceiling_div [of P i m] by (simp add: x P_def)
  finally show ?thesis .
qed

text \<open>The table, rounded, and the bound it gives for every width and base.\<close>

lemma lut_values: "from_chars_log2f_lut =
     [FFin False 8388608 (-23), FFin False 13295629 (-23), FFin False 8388608 (-22), FFin False 9738872 (-22),
      FFin False 10842119 (-22), FFin False 11774900 (-22), FFin False 12582912 (-22), FFin False 13295629 (-22),
      FFin False 13933176 (-22), FFin False 14509908 (-22), FFin False 15036423 (-22), FFin False 15520769 (-22),
      FFin False 15969204 (-22), FFin False 16386687 (-22), FFin False 8388608 (-21), FFin False 8572031 (-21),
      FFin False 8744967 (-21), FFin False 8908550 (-21), FFin False 9063740 (-21), FFin False 9211357 (-21),
      FFin False 9352106 (-21), FFin False 9486597 (-21), FFin False 9615363 (-21), FFin False 9738872 (-21),
      FFin False 9857537 (-21), FFin False 9971722 (-21), FFin False 10081754 (-21), FFin False 10187925 (-21),
      FFin False 10290495 (-21), FFin False 10389703 (-21), FFin False 10485760 (-21), FFin False 10578861 (-21),
      FFin False 10669183 (-21), FFin False 10756886 (-21), FFin False 10842119 (-21)]"
  by (simp add: from_chars_log2f_lut_def float_lit_def fp_simps)

definition lut_ok :: "nat \<Rightarrow> bool" where
  "lut_ok w \<longleftrightarrow> list_all2 (\<lambda>b l. limit_ok w b (digits_limit w l)) [2..<37] from_chars_log2f_lut"

lemma base_range: "[2..<37] = [2, 3, 4, 5, 6, 7, 8, 9, 10, 11, 12, 13, 14, 15, 16, 17, 18, 19, 20, 21, 22, 23, 24,
    25, 26, 27, 28, 29, 30, 31, 32, 33, 34, 35, 36 :: nat]"
  by (simp add: upt_rec)

lemma lut_ok_widths: "lut_ok 8" "lut_ok 16" "lut_ok 32" "lut_ok 64" "lut_ok 128"
  by (simp_all add: lut_ok_def lut_values base_range digits_limit_def fp_simps)

lemma digit_limit:
  assumes w: "w \<in> {8, 16, 32, 64, 128}" and b: "2 \<le> b" "b \<le> 36"
  obtains K where "1 \<le> K" and "b ^ K \<le> 2 ^ w" and "2 ^ w \<le> b ^ (K + 1)"
    and "\<And>i. 1 \<le> i \<Longrightarrow> i \<le> K \<Longrightarrow> more_digits w b i \<longleftrightarrow> i < K"
proof -
  define x where "x = digits_limit w (from_chars_log2f_lut ! (b - 2))"
  have "lut_ok w" using w lut_ok_widths by auto
  then have "limit_ok w ([2..<37] ! (b - 2)) x"
    using b unfolding lut_ok_def x_def by (elim list_all2_nthD) simp
  moreover have "[2..<37] ! (b - 2) = b" using b by (subst nth_upt) simp_all
  ultimately have ok: "limit_ok w b x" by (simp only:)
  define K where "K = limit_digits x"
  have K: "1 \<le> K" "b ^ K \<le> 2 ^ w" "2 ^ w \<le> b ^ (K + 1)"
    using ok unfolding K_def by (cases x; simp add: Let_def)+
  have "(2::nat) ^ K \<le> b ^ K" using b by (intro power_mono) simp_all
  with K(2) have "(2::nat) ^ K \<le> 2 ^ w" by linarith
  with w have "K \<le> 128" by auto
  then have "more_digits w b i \<longleftrightarrow> i < K" if "1 \<le> i" "i \<le> K" for i
    using fp_lt_limit [OF ok, of i] that unfolding more_digits_def x_def K_def by simp
  with K show ?thesis using that by blast
qed

section \<open>Reading text in a base\<close>

definition digit_value :: "nat \<Rightarrow> char \<Rightarrow> nat" where
  "digit_value b c = nat (snd (in_pattern_base b c))"

text \<open>The number a text stands for in a base.\<close>

definition based_from :: "nat \<Rightarrow> nat \<Rightarrow> string \<Rightarrow> nat" where
  "based_from b x s = foldl (\<lambda>a c. a * b + digit_value b c) x s"

abbreviation based :: "nat \<Rightarrow> string \<Rightarrow> nat" where
  "based b \<equiv> based_from b 0"

lemma based_from_simps [simp]:
  "based_from b x [] = x" "based_from b x (c # s) = based_from b (x * b + digit_value b c) s"
  by (simp_all add: based_from_def)

lemma based_from_ge: "1 \<le> b \<Longrightarrow> x \<le> based_from b x s"
proof (induction s arbitrary: x)
  case (Cons c s)
  have "x * 1 \<le> x * b" using Cons.prems by (intro mult_le_mono2)
  with Cons.IH [OF Cons.prems, of "x * b + digit_value b c"] show ?case unfolding based_from_simps by linarith
qed simp

lemma is_digit_value:
  assumes "is_digit b c"
  shows "snd (in_pattern_base b c) = int (digit_value b c)" and "1 \<le> b \<Longrightarrow> b \<le> 36 \<Longrightarrow> digit_value b c < b"
proof -
  show "snd (in_pattern_base b c) = int (digit_value b c)"
    using assms by (auto simp: digit_value_def in_pattern_base_def in_pattern_def schar_def Let_def split: if_splits)
  show "1 \<le> b \<Longrightarrow> b \<le> 36 \<Longrightarrow> digit_value b c < b"
    using assms by (auto simp: digit_value_def in_pattern_base_def in_pattern_def schar_def Let_def split: if_splits)
qed

interpretation base: digit_text "is_digit (Suc b)" "based (Suc b)"
  by unfold_locales (simp_all add: in_pattern_base_def in_pattern_def digit_value_def schar_def)


lemma schar_code:
  "in_pattern c \<longleftrightarrow> 48 \<le> schar c \<and> schar c \<le> 57" "0 \<le> schar c \<Longrightarrow> nat (schar c) = of_char c"
proof -
  define k :: nat where "k = of_char c"
  have "k < 256" unfolding k_def by (rule nat_of_char_less_256)
  then show "in_pattern c \<longleftrightarrow> 48 \<le> schar c \<and> schar c \<le> 57" "0 \<le> schar c \<Longrightarrow> nat (schar c) = of_char c"
    unfolding in_pattern_def schar_def k_def [symmetric] by (auto simp: Let_def)
qed

lemma digit_nonzero:
  assumes "is_digit b c" and "c \<noteq> CHR ''0''"
  shows "1 \<le> digit_value b c"
proof -
  have "of_char c \<noteq> (of_char (CHR ''0'') :: nat)" using assms(2) by (simp only: of_char_eq_iff not_False_eq_True)
  then have "schar c \<noteq> 48" using schar_code(2) [of c] by auto
  with assms(1) show ?thesis
    by (auto simp: digit_value_def in_pattern_base_def schar_code(1) split: if_splits)
qed

lemma nat_int_mod: "n < 2 ^ w \<Longrightarrow> nat (int n mod 2 ^ w) = n"
  by (simp add: nat_mod_distrib nat_power_eq)

lemma next_digit_bounds:
  assumes "1 \<le> i" and "b ^ (i - 1) \<le> x" and "x < b ^ i" and "d < (b::nat)"
  shows "b ^ i \<le> x * b + d" and "x * b + d < b ^ Suc i"
proof -
  have "b ^ (i - 1) * b \<le> x * b" using assms(2) by (rule mult_le_mono1)
  moreover have "b ^ i = b ^ (i - 1) * b" using assms(1) by (cases i) simp_all
  ultimately show "b ^ i \<le> x * b + d" by linarith
  have "(x + 1) * b \<le> b ^ i * b" using assms(3) by (intro mult_le_mono1) simp
  then have "x * b + b \<le> b ^ Suc i" by (simp add: mult_ac)
  with assms(4) show "x * b + d < b ^ Suc i" by linarith
qed

text \<open>The last digit that is multiplied in: the product, the sum and a further digit may each overflow.\<close>

lemma last_digit:
  fixes p :: string
  assumes b: "1 \<le> b" "b \<le> 2 ^ w" and K: "2 ^ w \<le> b ^ (K + 1)" and big: "b ^ (K + 1) \<le> x * b * b"
    and d: "d < b" and c: "is_digit b c"
  defines "V \<equiv> based_from b (x * b + d) (takeWhile (is_digit b) p)" and "r \<equiv> dropWhile (is_digit b) p"
    and "fin \<equiv> base_finish w b (if x * b < 2 ^ w then p else c # p, x * b mod 2 ^ w, d mod 2 ^ w)"
  shows "if V < 2 ^ w then fin = (r, EC_ok, Some V)
    else \<exists>q. fin = (q, EC_result_out_of_range, None) \<and> dropWhile (is_digit b) q = r"
proof -
  have V: "x * b + d \<le> V" unfolding V_def using b(1) by (rule based_from_ge)
  consider "2 ^ w \<le> x * b" | "x * b < 2 ^ w" "p \<noteq> []" "is_digit b (hd p)" | "x * b < 2 ^ w" "p = [] \<or> \<not> is_digit b (hd p)"
    by linarith
  then show ?thesis
  proof cases
    case 1
    with V have "\<not> V < 2 ^ w" by linarith
    with 1 c show ?thesis by (simp add: fin_def base_finish_def r_def)
  next
    case 2
    then obtain e es where p: "p = e # es" by (cases p) auto
    have "(x * b + d) * b + digit_value b e \<le> V"
      using 2 based_from_ge [OF b(1)] by (simp add: V_def p)
    then have "x * b * b \<le> V" by (simp add: distrib_right)
    with K big have "\<not> V < 2 ^ w" by linarith
    with 2 show ?thesis by (simp add: fin_def base_finish_def r_def)
  next
    case 3
    then have t: "takeWhile (is_digit b) p = []" "r = p" unfolding r_def by (cases p; simp)+
    then have "V = x * b + d" by (simp add: V_def)
    moreover have "d mod 2 ^ w = d" "d \<le> 2 ^ w - 1 - x * b \<longleftrightarrow> x * b + d < 2 ^ w" using d b 3(1) by auto
    ultimately show ?thesis using 3 t by (simp add: fin_def base_finish_def r_def)
  qed
qed

lemma base_loop_value:
  assumes b: "1 \<le> b" "b \<le> 36" and K: "b ^ K \<le> 2 ^ w" "2 ^ w \<le> b ^ (K + 1)"
    and more: "\<And>i. 1 \<le> i \<Longrightarrow> i \<le> K \<Longrightarrow> more_digits w b i \<longleftrightarrow> i < K"
    and i: "1 \<le> i" "i \<le> K" and x: "b ^ (i - 1) \<le> x" "x < b ^ i"
  defines "value_of \<equiv> \<lambda>x p. based_from b x (takeWhile (is_digit b) p)" and "rest \<equiv> dropWhile (is_digit b)"
  shows "if value_of x p < 2 ^ w then base_finish w b (base_loop w b i x p) = (rest p, EC_ok, Some (value_of x p))
    else \<exists>q. base_finish w b (base_loop w b i x p) = (q, EC_result_out_of_range, None) \<and> rest q = rest p"
  using i x
proof (induction p arbitrary: i x)
  case Nil
  have "b ^ i \<le> b ^ K" using b Nil by (intro power_increasing) simp_all
  with Nil K have "x < 2 ^ w" by linarith
  then show ?case by (simp add: value_of_def rest_def base_finish_def)
next
  case (Cons c p)
  have "b ^ i \<le> b ^ K" using b Cons.prems by (intro power_increasing) simp_all
  with Cons.prems K have xw: "x < 2 ^ w" by linarith
  show ?case
  proof (cases "is_digit b c")
    case False
    then show ?thesis using xw by (simp add: value_of_def rest_def base_finish_def split_beta)
  next
    case True
    define d where "d = digit_value b c"
    have pat: "in_pattern_base b c = (True, int d)" "d < b"
      using is_digit_value [OF True] True b by (simp_all add: d_def prod_eq_iff)
    have val: "value_of x (c # p) = value_of (x * b + d) p" "rest (c # p) = rest p"
      using True by (simp_all add: value_of_def rest_def d_def)
    show ?thesis
    proof (cases "i < K")
      case True
      have lo: "b ^ i \<le> x * b + d" and hi: "x * b + d < b ^ (i + 1)"
        using next_digit_bounds [OF Cons.prems(1,3,4) pat(2)] by simp_all
      have "b ^ (i + 1) \<le> b ^ K" using b True by (intro power_increasing) simp_all
      with hi K have "x * b + d < 2 ^ w" by linarith
      then have "nat ((int x * int b + int d) mod 2 ^ w) = x * b + d"
        using nat_int_mod [of "x * b + d" w] by simp
      then have loop: "base_loop w b i x (c # p) = base_loop w b (i + 1) (x * b + d) p"
        using pat more Cons.prems True by simp
      show ?thesis unfolding loop val by (rule Cons.IH) (use lo hi True in simp_all)
    next
      case False
      with Cons.prems have iK: "i = K" by simp
      have "b ^ 1 \<le> b ^ K" using b Cons.prems(1) iK by (intro power_increasing) simp_all
      with K have bw: "b \<le> 2 ^ w" by simp
      have big: "b ^ (K + 1) \<le> x * b * b"
        using mult_le_mono1 [OF Cons.prems(3), of "b * b"] Cons.prems(1) unfolding iK
        by (cases K) (simp_all add: mult_ac)
      have loop: "base_loop w b i x (c # p) = (if x * b < 2 ^ w then p else c # p, x * b mod 2 ^ w, d mod 2 ^ w)"
        using pat more [of K] Cons.prems iK by (simp add: mul_overflowed_def nat_mod_distrib nat_power_eq)
      show ?thesis unfolding loop val
        unfolding value_of_def rest_def by (rule last_digit [OF b(1) bw K(2) big pat(2) \<open>is_digit b c\<close>])
    qed
  qed
qed


lemma base_body_reads:
  assumes w: "w \<in> {8, 16, 32, 64, 128}" and b: "2 \<le> b" "b \<le> 36"
  shows "reads_digits (is_digit b) (based b) w (base_body w b)"
  unfolding reads_digits_def
proof (intro allI impI)
  fix p assume p: "p \<noteq> []" "is_digit b (hd p)" "hd p \<noteq> CHR ''0''"
  obtain K where K: "1 \<le> K" "b ^ K \<le> 2 ^ w" "2 ^ w \<le> b ^ (K + 1)"
      "\<And>i. 1 \<le> i \<Longrightarrow> i \<le> K \<Longrightarrow> more_digits w b i \<longleftrightarrow> i < K"
    using digit_limit [OF w b] by blast
  obtain c cs where c: "p = c # cs" using p(1) by (cases p) auto
  define d where "d = digit_value b c"
  have pat: "in_pattern_base b c = (True, int d)" "d < b" "1 \<le> d"
    using is_digit_value [of b c] p(2,3) b c digit_nonzero [of b c] by (simp_all add: d_def prod_eq_iff)
  have "b ^ 1 \<le> b ^ K" using b K(1) by (intro power_increasing) simp_all
  with K(2) pat(2) have "d < 2 ^ w" by simp
  then have body: "base_body w b p = base_finish w b (base_loop w b 1 d cs)"
    by (simp add: base_body_def c pat nat_int_mod)
  have val: "based b (takeWhile (is_digit b) p) = based_from b d (takeWhile (is_digit b) cs)"
      "dropWhile (is_digit b) p = dropWhile (is_digit b) cs"
    using p(2) by (simp_all add: c d_def)
  show "if based b (takeWhile (is_digit b) p) < 2 ^ w
      then base_body w b p = (dropWhile (is_digit b) p, EC_ok, Some (based b (takeWhile (is_digit b) p)))
      else \<exists>q. base_body w b p = (q, EC_result_out_of_range, None) \<and> dropWhile (is_digit b) q = dropWhile (is_digit b) p"
    unfolding body val by (rule base_loop_value [OF _ b(2) K(2-4)]) (use b K(1) pat in simp_all)
qed

text \<open>Base 10 has its own test and its own loop, with the same meaning.\<close>

lemma base_10: "is_digit 10 = in_pattern"
  by (auto simp: fun_eq_iff in_pattern_base_def schar_code(1))

lemma based_10: "list_all in_pattern s \<Longrightarrow> based_from 10 x s = x * 10 ^ length s + decimal s"
proof (induction s arbitrary: x)
  case (Cons c s)
  then have "digit_value 10 c = of_char c - 48"
    using schar_code(2) [of c] by (simp add: digit_value_def in_pattern_base_def schar_code(1) nat_diff_distrib)
  with Cons show ?case by (simp add: decimal_Cons algebra_simps)
qed (simp add: decimal_Nil)

lemma base_10_prefix: "digits_prefix (is_digit 10) (based 10) w s = digits_prefix in_pattern decimal w s"
proof -
  have "list_all in_pattern (takeWhile in_pattern s)" by (auto simp: list_all_iff dest: set_takeWhileD)
  then have "based 10 (takeWhile in_pattern s) = decimal (takeWhile in_pattern s)" by (simp add: based_10)
  then show ?thesis unfolding digits_prefix_def base_10 Let_def by simp
qed

lemma from_chars_integral_prefix:
  assumes w: "w \<in> {8, 16, 32, 64, 128}" and b: "2 \<le> b" "b \<le> 36"
  shows "from_chars_integral w b s = digits_prefix (is_digit b) (based b) w s"
proof (cases "b = 10")
  case True
  then show ?thesis
    using from_chars_atoi_decimal [OF width_ok_widths [OF w]] by (simp add: from_chars_integral_def base_10_prefix)
next
  case False
  have "subject_seq_combinator (is_digit b) (base_body w b) s = digits_prefix (is_digit b) (based b) w s"
    using base.combinator_prefix [of "b - 1" w "base_body w b" s] base_body_reads [OF w b] b by simp
  with False show ?thesis by (simp add: from_chars_integral_def)
qed


lemma from_chars_base_parsed:
  assumes w: "w \<in> {8, 16, 32, 64, 128}" and b: "2 \<le> b" "b \<le> 36"
  shows "from_chars_base w is_signed s b = parsed_digits (is_digit b) (based b) w is_signed s"
proof -
  have "0 < w" using w by auto
  then show ?thesis
    using sign_combinator_parsed [of w "from_chars_integral w b" "is_digit b" "based b" s]
      unsigned_parsed [of "is_digit b" "based b" w s]
    by (simp add: from_chars_base_def from_chars_integral_signed_def from_chars_integral_prefix [OF w b])
qed

text \<open>The text \<open>to_chars\<close> writes is in the digits \<open>from_chars\<close> reads.\<close>

lemma schar_digit: "d < 36 \<Longrightarrow> schar (digit d) = (if d < 10 then 48 + int d else 87 + int d)"
proof -
  have "\<forall>d\<in>set [0..<36]. schar (digit d) = (if d < 10 then 48 + int d else 87 + int d)" by code_simp
  then show "d < 36 \<Longrightarrow> ?thesis" by simp
qed

lemma digit_of_base: "d < b \<Longrightarrow> b \<le> 36 \<Longrightarrow> is_digit b (digit d) \<and> digit_value b (digit d) = d"
  using schar_digit [of d] by (auto simp: in_pattern_base_def digit_value_def schar_code(1))

lemma based_append: "based_from b x (s @ t) = based_from b (based_from b x s) t"
  by (simp add: based_from_def)

lemma based_radix:
  assumes b: "2 \<le> b" "b \<le> 36"
  shows "based b (radix b v) = v \<and> list_all (is_digit b) (radix b v)"
proof (induction v rule: less_induct)
  case (less v)
  show ?case
  proof (cases "v < b")
    case True
    then show ?thesis using digit_of_base [of v b] b by (simp add: radix.simps [of b v])
  next
    case False
    then have "based b (radix b (v div b)) = v div b \<and> list_all (is_digit b) (radix b (v div b))"
      using b by (intro less.IH) simp
    with False digit_of_base [of "v mod b" b] b show ?thesis
      by (simp add: radix.simps [of b v] based_append)
  qed
qed


section \<open>Both directions\<close>

text \<open>
  C31. Reading an integer, error: for every type of 8 to 128 bits, signed or not, every base from 2
  to 36 and every text, \<open>from_chars\<close> reads an optional minus sign (of a signed type) and the
  longest prefix of digits of the base, letters of either case included. It fails with
  \<open>invalid_argument\<close> and the start of the text exactly when there is no digit there; with
  \<open>result_out_of_range\<close> and the end of the digits, and no value stored, exactly when the type does
  not hold the number, however many digits it has; and otherwise stores the number and returns
  the end of the digits. The overload without a base reads base 10. The split of a decimal number
  into a leading digit and an inner product never loses a carry, and the number of digits taken
  from the table of logarithms in float never lets the product wrap unnoticed.
\<close>
theorem from_chars_correct:
  assumes "w \<in> {8, 16, 32, 64, 128}" and "2 \<le> base" and "base \<le> 36"
  shows "from_chars_base w is_signed s base = parsed_digits (is_digit base) (based base) w is_signed s \<and>
    from_chars w is_signed s = parsed w is_signed s"
  using from_chars_base_parsed [OF assms] from_chars_parsed [OF width_ok_widths [OF assms(1)]] by simp

theorem from_chars_correct_witness:
  "from_chars_base 8 False ''fFx'' 16 = (''x'', EC_ok, Some 255) \<and>
   from_chars_base 8 False ''100g'' 16 = (''g'', EC_result_out_of_range, None) \<and>
   from_chars 8 True ''-128x'' = (''x'', EC_ok, Some (- 128)) \<and> from_chars 8 False ''-1'' = (''-1'', EC_invalid_argument, None)"
  using from_chars_correct [of 8 16 False "''fFx''"] from_chars_correct [of 8 16 False "''100g''"]
    from_chars_correct [of 8 16 True "''-128x''"] from_chars_correct [of 8 16 False "''-1''"]
  by (simp add: parsed_digits_def in_pattern_base_def digit_value_def schar_def in_pattern_def decimal_def in_type_def
    in_signed_def)

text \<open>
  C32. Round trip of the conversions: whatever \<open>to_chars\<close> writes in a base from 2 to 36 for a value
  of a type of 8 to 128 bits in a large enough buffer, \<open>from_chars\<close> of the same type and base
  reads back as that value, also with other text behind it, as long as that does not go on with
  a digit of the base, and it stops exactly at that text. The same holds of the two overloads
  without a base.
\<close>
theorem charconv_round_trip:
  assumes w: "w \<in> {8, 16, 32, 64, 128}" and v: "in_type w is_signed v" and base: "2 \<le> base" "base \<le> 36"
  shows "(to_chars_in_base w is_signed cap v base = (0, s, EC_ok) \<longrightarrow> t = [] \<or> \<not> is_digit base (hd t) \<longrightarrow>
      from_chars_base w is_signed (s @ t) base = (t, EC_ok, Some v)) \<and>
    (to_chars w is_signed cap v = (s, EC_ok) \<longrightarrow> t = [] \<or> \<not> in_pattern (hd t) \<longrightarrow>
      from_chars w is_signed (s @ t) = (t, EC_ok, Some v))"
proof (intro conjI impI)
  assume "to_chars_in_base w is_signed cap v base = (0, s, EC_ok)" and t: "t = [] \<or> \<not> is_digit base (hd t)"
  then have s: "s = int_text base v"
    using to_chars_both [OF w v base] by (simp add: converted_def split: if_splits)
  have "\<not> is_digit base (CHR ''-'')" by (simp add: in_pattern_base_def in_pattern_def schar_def)
  then show "from_chars_base w is_signed (s @ t) base = (t, EC_ok, Some v)"
    unfolding from_chars_base_parsed [OF w base] s using based_radix [OF base] v t by (intro parsed_int_text)
next
  assume "to_chars w is_signed cap v = (s, EC_ok)" and t: "t = [] \<or> \<not> in_pattern (hd t)"
  then have s: "s = int_text 10 v"
    using to_chars_both [OF w v base] by (simp add: converted_def split: if_splits)
  have "\<not> in_pattern (CHR ''-'')" by (simp add: in_pattern_def)
  then show "from_chars w is_signed (s @ t) = (t, EC_ok, Some v)"
    unfolding from_chars_parsed [OF width_ok_widths [OF w]] s using decimal_radix v t by (intro parsed_int_text)
qed

theorem charconv_round_trip_witness:
  "to_chars_in_base 32 True 4 (- 120) 16 = (0, ''-78'', EC_ok) \<and>
   from_chars_base 32 True (''-78'' @ '' px'') 16 = ('' px'', EC_ok, Some (- 120))"
proof -
  have "to_chars_in_base 32 True 4 (- 120) 16 = (0, ''-78'', EC_ok)"
    using to_chars_both [of 32 True "- 120" 16 4]
    by (simp add: in_type_def in_signed_def converted_def int_text_def radix.simps digit_def)
  moreover have "from_chars_base 32 True (''-78'' @ '' px'') 16 = ('' px'', EC_ok, Some (- 120))"
    using charconv_round_trip [of 32 True "- 120" 16 4 "''-78''" "'' px''"] calculation
    by (simp add: in_type_def in_signed_def in_pattern_base_def in_pattern_def schar_def)
  ultimately show ?thesis by simp
qed

end
