(* ===== verification/CxxNumeric.thy ===== *)
theory CxxNumeric
  imports CxxBits
begin

text \<open>
  The integer algorithms of include/linux/c++/v1/__numeric: \<open>gcd_lcm.h\<close>, midpoint.h (the integral
  and the pointer overload) and \<open>saturation_arithmetic.h\<close>, with the comparisons of
  \<open>__utility/cmp.h\<close>. An integer type is a value of \<open>ity\<close>, and a C++ value of it an int in its
  range; conversions wrap, and signed arithmetic that overflows is None.
\<close>

section \<open>Integer types\<close>

datatype ity = Unsigned nat | Signed nat

fun ity_width :: "ity \<Rightarrow> nat" where
  "ity_width (Unsigned w) = w"
| "ity_width (Signed w) = w"

fun tmin :: "ity \<Rightarrow> int" where
  "tmin (Unsigned w) = 0"
| "tmin (Signed w) = - (2 ^ (w - 1))"

fun tmax :: "ity \<Rightarrow> int" where
  "tmax (Unsigned w) = 2 ^ w - 1"
| "tmax (Signed w) = 2 ^ (w - 1) - 1"

definition in_ity :: "ity \<Rightarrow> int \<Rightarrow> bool" where
  "in_ity t x \<longleftrightarrow> tmin t \<le> x \<and> x \<le> tmax t"

text \<open>A conversion to the type, and an operation whose operands have it (after the promotions).\<close>

fun conv :: "ity \<Rightarrow> int \<Rightarrow> int" where
  "conv (Unsigned w) x = wrap_unsigned w x"
| "conv (Signed w) x = wrap_signed w x"

fun arith :: "ity \<Rightarrow> int \<Rightarrow> int option" where
  "arith (Unsigned w) x = (if w < 32 then checked 32 x else Some (wrap_unsigned w x))"
| "arith (Signed w) x = checked (max 32 w) x"

definition int_type :: "ity \<Rightarrow> bool" where
  "int_type t \<longleftrightarrow> unsigned_width (ity_width t)"

text \<open>The usual arithmetic conversions, which \<open>common_type_t\<close> of two different types goes by.\<close>

definition promote :: "ity \<Rightarrow> ity" where
  "promote t = (if ity_width t < 32 then Signed 32 else t)"

fun balance :: "ity \<Rightarrow> ity \<Rightarrow> ity" where
  "balance (Unsigned v) (Unsigned w) = Unsigned (max v w)"
| "balance (Signed v) (Signed w) = Signed (max v w)"
| "balance (Unsigned v) (Signed w) = (if w \<le> v then Unsigned v else Signed w)"
| "balance (Signed v) (Unsigned w) = (if v \<le> w then Unsigned w else Signed v)"

definition common_type :: "ity \<Rightarrow> ity \<Rightarrow> ity" where
  "common_type t u = (if t = u then t else balance (promote t) (promote u))"

section \<open>Greatest common divisor and least common multiple\<close>

definition ct_abs :: "ity \<Rightarrow> ity \<Rightarrow> int \<Rightarrow> int option" where
  "ct_abs r s t =
     (case s of
        Unsigned _ \<Rightarrow> Some (conv r t)
      | Signed _ \<Rightarrow>
          if 0 \<le> t then Some (conv r t)
          else if t = tmin s then do { x \<leftarrow> arith r (- conv r t); Some (conv r x) }
          else do { x \<leftarrow> arith s (- t); Some (conv r x) })"

partial_function (option) gcd_loop :: "nat \<Rightarrow> nat \<Rightarrow> nat \<Rightarrow> nat option" where
  "gcd_loop w a b =
     (let t = drop_bit (countr_zero w b) b;
          (a, b) = (if t < a then (t, a - t) else (a, t - a))
      in if b \<noteq> 0 then gcd_loop w a b else Some a)"

definition gcd_unsigned :: "nat \<Rightarrow> nat \<Rightarrow> nat \<Rightarrow> nat option" where
  "gcd_unsigned w a b =
     (let (a, b) = (if a < b then (b, a) else (a, b))
      in if b = 0 then Some a
         else let a = a mod b
              in if a = 0 then Some b
                 else let c = a OR b;
                          shift = countr_zero w c;
                          a = drop_bit (countr_zero w a) a
                      in do { a \<leftarrow> gcd_loop w a b; Some (take_bit w (push_bit shift a)) })"

definition cxx_gcd :: "ity \<Rightarrow> ity \<Rightarrow> int \<Rightarrow> int \<Rightarrow> int option" where
  "cxx_gcd t u m n =
     (let r = common_type t u; w = ity_width r
      in do {
        a \<leftarrow> ct_abs r t m;
        b \<leftarrow> ct_abs r u n;
        g \<leftarrow> gcd_unsigned w (nat (conv (Unsigned w) a)) (nat (conv (Unsigned w) b));
        Some (conv r (int g)) })"

text \<open>
  The flag says whether the hardening mode of the library compiles the assertion that the product
  does not overflow; a failed assertion ends the program, None. Without it the result is what
  \<open>__builtin_mul_overflow\<close> stored, the wrapped product.
\<close>

definition cxx_lcm :: "bool \<Rightarrow> ity \<Rightarrow> ity \<Rightarrow> int \<Rightarrow> int \<Rightarrow> int option" where
  "cxx_lcm asserts t u m n =
     (if m = 0 \<or> n = 0 then Some 0
      else let r = common_type t u
        in do {
          a \<leftarrow> ct_abs r t m;
          g \<leftarrow> cxx_gcd t u m n;
          let val1 = conv r (a sdiv g);
          val2 \<leftarrow> ct_abs r u n;
          let overflow = \<not> in_ity r (val1 * val2);
          if asserts \<and> overflow then None else Some (conv r (val1 * val2)) })"

section \<open>Midpoints\<close>

definition midpoint :: "ity \<Rightarrow> int \<Rightarrow> int \<Rightarrow> int" where
  "midpoint t a b =
     (let u = Unsigned (ity_width t);
          bitshift = ity_width t - 1;
          diff = conv u (conv u b - conv u a);
          sign_bit = (if b < a then 1 else 0);
          half_diff = conv u (diff div 2 + push_bit bitshift sign_bit + (sign_bit AND diff))
      in conv t (a + half_diff))"

text \<open>Pointers into one array are their indices; their difference is a \<open>ptrdiff_t\<close>.\<close>

definition midpoint_pointer :: "int \<Rightarrow> int \<Rightarrow> int" where
  "midpoint_pointer a b = a + midpoint (Signed 64) 0 (b - a)"

section \<open>Saturating arithmetic\<close>

text \<open>The overflow builtins: the wrapped result and whether the exact one left the type.\<close>

definition builtin_overflow :: "ity \<Rightarrow> int \<Rightarrow> int \<times> bool" where
  "builtin_overflow t x = (conv t x, \<not> in_ity t x)"

definition add_sat :: "ity \<Rightarrow> int \<Rightarrow> int \<Rightarrow> int" where
  "add_sat t x y =
     (let (sum, overflow) = builtin_overflow t (x + y)
      in if \<not> overflow then sum
         else case t of Unsigned _ \<Rightarrow> tmax t | Signed _ \<Rightarrow> if 0 < x then tmax t else tmin t)"

definition sub_sat :: "ity \<Rightarrow> int \<Rightarrow> int \<Rightarrow> int" where
  "sub_sat t x y =
     (let (sub, overflow) = builtin_overflow t (x - y)
      in if \<not> overflow then sub
         else case t of Unsigned _ \<Rightarrow> tmin t | Signed _ \<Rightarrow> if 0 \<le> x then tmax t else tmin t)"

definition mul_sat :: "ity \<Rightarrow> int \<Rightarrow> int \<Rightarrow> int" where
  "mul_sat t x y =
     (let (mul, overflow) = builtin_overflow t (x * y)
      in if \<not> overflow then mul
         else case t of
             Unsigned _ \<Rightarrow> tmax t
           | Signed _ \<Rightarrow> if 0 < x \<and> 0 < y \<or> x < 0 \<and> y < 0 then tmax t else tmin t)"

definition div_sat :: "ity \<Rightarrow> int \<Rightarrow> int \<Rightarrow> int option" where
  "div_sat t x y =
     (if y = 0 then None
      else case t of
          Unsigned _ \<Rightarrow> Some (x div y)
        | Signed _ \<Rightarrow> if x = tmin t \<and> y = - 1 then Some (tmax t) else Some (x sdiv y))"

text \<open>The comparisons of mixed signedness: a negative operand is decided before the conversion.\<close>

fun unsigned_of :: "ity \<Rightarrow> ity" where
  "unsigned_of t = Unsigned (ity_width t)"

definition compare_less :: "ity \<Rightarrow> ity \<Rightarrow> int \<Rightarrow> int \<Rightarrow> bool" where
  "compare_less t u x y = (conv (common_type t u) x < conv (common_type t u) y)"

definition cmp_less :: "ity \<Rightarrow> ity \<Rightarrow> int \<Rightarrow> int \<Rightarrow> bool" where
  "cmp_less t u x y =
     (case (t, u) of
        (Signed _, Unsigned _) \<Rightarrow> if x < 0 then True else compare_less (unsigned_of t) u (conv (unsigned_of t) x) y
      | (Unsigned _, Signed _) \<Rightarrow> if y < 0 then False else compare_less t (unsigned_of u) x (conv (unsigned_of u) y)
      | _ \<Rightarrow> compare_less t u x y)"

definition compare_equal :: "ity \<Rightarrow> ity \<Rightarrow> int \<Rightarrow> int \<Rightarrow> bool" where
  "compare_equal t u x y = (conv (common_type t u) x = conv (common_type t u) y)"

definition cmp_equal :: "ity \<Rightarrow> ity \<Rightarrow> int \<Rightarrow> int \<Rightarrow> bool" where
  "cmp_equal t u x y =
     (case (t, u) of
        (Signed _, Unsigned _) \<Rightarrow> if x < 0 then False else compare_equal (unsigned_of t) u (conv (unsigned_of t) x) y
      | (Unsigned _, Signed _) \<Rightarrow> if y < 0 then False else compare_equal t (unsigned_of u) x (conv (unsigned_of u) y)
      | _ \<Rightarrow> compare_equal t u x y)"

definition cmp_not_equal :: "ity \<Rightarrow> ity \<Rightarrow> int \<Rightarrow> int \<Rightarrow> bool" where
  "cmp_not_equal t u x y = (\<not> cmp_equal t u x y)"

definition cmp_greater :: "ity \<Rightarrow> ity \<Rightarrow> int \<Rightarrow> int \<Rightarrow> bool" where
  "cmp_greater t u x y = cmp_less u t y x"

definition cmp_less_equal :: "ity \<Rightarrow> ity \<Rightarrow> int \<Rightarrow> int \<Rightarrow> bool" where
  "cmp_less_equal t u x y = (\<not> cmp_greater t u x y)"

definition cmp_greater_equal :: "ity \<Rightarrow> ity \<Rightarrow> int \<Rightarrow> int \<Rightarrow> bool" where
  "cmp_greater_equal t u x y = (\<not> cmp_less t u x y)"

definition cmp_in_range :: "ity \<Rightarrow> ity \<Rightarrow> int \<Rightarrow> bool" where
  "cmp_in_range t u y = (cmp_less_equal u t y (tmax t) \<and> cmp_greater_equal u t y (tmin t))"

definition saturate_cast :: "ity \<Rightarrow> ity \<Rightarrow> int \<Rightarrow> int" where
  "saturate_cast r t x =
     (if cmp_less t r x (tmin r) then tmin r
      else if cmp_greater t r x (tmax r) then tmax r
      else conv r x)"

section \<open>Conversions\<close>

lemma int_type_pos: "int_type t \<Longrightarrow> 0 < ity_width t"
  by (auto simp: int_type_def unsigned_width_def)

lemma conv_mod: "conv t x mod 2 ^ ity_width t = x mod 2 ^ ity_width t"
proof (cases t)
  case (Signed w)
  have "((x + 2 ^ (w - 1)) mod 2 ^ w - 2 ^ (w - 1)) mod 2 ^ w = (x + 2 ^ (w - 1) - 2 ^ (w - 1)) mod 2 ^ w"
    by (rule mod_diff_left_eq)
  with Signed show ?thesis by (simp add: wrap_signed_def)
qed (simp add: wrap_unsigned_def)

lemma conv_cong: "x mod 2 ^ ity_width t = y mod 2 ^ ity_width t \<Longrightarrow> conv t x = conv t y"
proof (cases t)
  case (Signed w)
  assume "x mod 2 ^ ity_width t = y mod 2 ^ ity_width t"
  then have "(x + 2 ^ (w - 1)) mod 2 ^ ity_width t = (y + 2 ^ (w - 1)) mod 2 ^ ity_width t" by (rule mod_add_cong) (rule refl)
  with Signed show ?thesis by (simp add: wrap_signed_def)
qed (simp add: wrap_unsigned_def)

lemma conv_id: "int_type t \<Longrightarrow> in_ity t x \<Longrightarrow> conv t x = x"
  using int_type_pos [of t]
  by (cases t) (auto simp: in_ity_def wrap_unsigned_id intro!: wrap_signed_id simp: in_signed_def)

lemma in_ity_conv: "int_type t \<Longrightarrow> in_ity t (conv t x)"
proof (cases t)
  case (Signed w)
  assume "int_type t"
  with Signed have "(2::int) ^ w = 2 ^ (w - 1) + 2 ^ (w - 1)" using int_type_pos [of t] by (cases w) simp_all
  moreover have "0 \<le> (x + 2 ^ (w - 1)) mod 2 ^ w" "(x + 2 ^ (w - 1)) mod 2 ^ w < 2 ^ w" by simp_all
  ultimately show ?thesis using Signed by (simp add: in_ity_def wrap_signed_def)
qed (use wrap_unsigned_bounds in \<open>auto simp: in_ity_def\<close>)

section \<open>Greatest common divisors, proofs\<close>

lemma ctz_or: "a \<noteq> 0 \<Longrightarrow> b \<noteq> 0 \<Longrightarrow> libcpp_ctz (a OR b) = min (libcpp_ctz a) (libcpp_ctz b)"
proof -
  assume ab: "a \<noteq> 0" "b \<noteq> 0"
  then have "a OR b \<noteq> 0" by (simp add: or_eq_0_iff)
  from ctz_bit [OF this] ctz_bit [OF ab(1)] ctz_bit [OF ab(2)] show ?thesis
    by (metis bit_or_iff linorder_neqE_nat min_def not_le)
qed

lemma gcd_odd_power: "odd p \<Longrightarrow> gcd p (2 ^ k * q) = gcd p (q::nat)"
proof -
  assume "odd p"
  then have "coprime p (2 ^ k)" by simp
  then show ?thesis by (simp add: gcd_mult_right_left_cancel coprime_commute)
qed

lemma gcd_powers:
  assumes "odd p" and "odd q" and "i \<le> j"
  shows "gcd (2 ^ i * p) (2 ^ j * q) = 2 ^ i * gcd p (q::nat)"
proof -
  have "(2::nat) ^ j * q = 2 ^ i * (2 ^ (j - i) * q)" using assms(3) by (simp add: power_add [symmetric] mult.assoc [symmetric])
  then have "gcd (2 ^ i * p) (2 ^ j * q) = 2 ^ i * gcd p (2 ^ (j - i) * q)" by (simp only: gcd_mult_distrib_nat [symmetric])
  with assms(1) show ?thesis by (simp add: gcd_odd_power)
qed

lemma drop_ctz: "b \<noteq> 0 \<Longrightarrow> odd (drop_bit (countr_zero w b) b) \<and> b = 2 ^ countr_zero w b * drop_bit (countr_zero w b) b"
proof -
  assume b: "b \<noteq> 0"
  then obtain q where q: "b = 2 ^ libcpp_ctz b * q" "odd q" using ctz_split by blast
  then have "drop_bit (libcpp_ctz b) b = q" by (metis drop_bit_eq_div nonzero_mult_div_cancel_left power_not_zero zero_neq_numeral)
  with b q show ?thesis by (simp add: countr_zero_ctz)
qed

text \<open>The loop of the binary algorithm ends, and returns the divisor of an odd a and any b.\<close>

lemma gcd_loop_gcd: "odd a \<Longrightarrow> b \<noteq> 0 \<Longrightarrow> gcd_loop w a b = Some (gcd a b)"
proof (induction "a + b" arbitrary: a b rule: less_induct)
  case less
  define t where "t = drop_bit (countr_zero w b) b"
  have t: "odd t" "gcd a b = gcd a t" "t \<le> b"
    using drop_ctz [OF less.prems(2), of w] gcd_odd_power [OF less.prems(1)] by (metis t_def, metis t_def, simp add: t_def drop_bit_eq_div)
  have a: "0 < a" "0 < t" using less.prems(1) t(1) by (auto intro: odd_pos)
  consider "t < a" | "a = t" | "a < t" by linarith
  then show ?case
  proof cases
    case 1
    then have "gcd_loop w t (a - t) = Some (gcd t (a - t))" using less.prems(2) t(1) by (intro less.hyps) auto
    moreover have "gcd t (a - t) = gcd a t" using 1 by (metis gcd.commute gcd_diff1_nat less_imp_le)
    ultimately show ?thesis using 1 t(2) by (subst gcd_loop.simps) (simp add: t_def [symmetric])
  next
    case 2
    then show ?thesis using t(2) by (subst gcd_loop.simps) (simp add: t_def [symmetric])
  next
    case 3
    then have "gcd_loop w a (t - a) = Some (gcd a (t - a))" using a t(3) less.prems by (intro less.hyps) auto
    moreover have "gcd a (t - a) = gcd a t" using 3 by (metis gcd.commute gcd_diff1_nat less_imp_le)
    ultimately show ?thesis using 3 t(2) by (subst gcd_loop.simps) (simp add: t_def [symmetric])
  qed
qed

lemma gcd_split:
  assumes "a \<noteq> 0" and "b \<noteq> 0"
  shows "gcd a b = 2 ^ countr_zero w (a OR b) * gcd (drop_bit (countr_zero w a) a) b"
proof -
  define i j p q where "i = countr_zero w a" and "j = countr_zero w b"
    and "p = drop_bit i a" and "q = drop_bit j b"
  have p: "odd p" "a = 2 ^ i * p" and q: "odd q" "b = 2 ^ j * q"
    using drop_ctz [OF assms(1), of w] drop_ctz [OF assms(2), of w] by (simp_all add: i_def j_def p_def q_def)
  have "countr_zero w (a OR b) = min i j"
    using assms by (simp add: i_def j_def countr_zero_ctz ctz_or or_eq_0_iff)
  moreover have "gcd a b = 2 ^ min i j * gcd p q"
    using gcd_powers [OF p(1) q(1), of i j] gcd_powers [OF q(1) p(1), of j i]
    by (subst p(2), subst q(2)) (simp add: min_def gcd.commute)
  moreover have "gcd p b = gcd p q" by (subst q(2)) (rule gcd_odd_power [OF p(1)])
  ultimately show ?thesis by (simp add: p_def i_def)
qed

lemma gcd_unsigned_gcd:
  assumes "a < 2 ^ w" and "b < 2 ^ w"
  shows "gcd_unsigned w a b = Some (gcd a b)"
proof -
  have main: "gcd_unsigned w a b = Some (gcd a b)" if "b \<le> a" "b < 2 ^ w" "a < 2 ^ w" for a b
  proof -
    define r where "r = a mod b"
    have step: "gcd a b = gcd r b" if "b \<noteq> 0" using that unfolding r_def by (metis gcd.commute gcd_red_nat)
    have less: "gcd r b < 2 ^ w" if "b \<noteq> 0" using that \<open>b < 2 ^ w\<close> by (metis gcd_le2_nat le_less_trans)
    show ?thesis
    proof (cases "b = 0 \<or> r = 0")
      case True
      with that step show ?thesis by (auto simp: gcd_unsigned_def Let_def r_def)
    next
      case False
      then have odd: "odd (drop_bit (countr_zero w r) r)" using drop_ctz [of r w] by simp
      have "gcd r b = push_bit (countr_zero w (r OR b)) (gcd (drop_bit (countr_zero w r) r) b)"
        using False gcd_split [of r b w] by (simp add: push_bit_eq_mult mult.commute)
      with False that step less odd show ?thesis
        by (simp add: gcd_unsigned_def Let_def r_def [symmetric] gcd_loop_gcd take_bit_nat_eq_self not_less)
    qed
  qed
  show ?thesis
  proof (cases "a < b")
    case True
    then have "gcd_unsigned w a b = gcd_unsigned w b a" by (simp add: gcd_unsigned_def)
    with main [of a b] True assms show ?thesis by (simp add: gcd.commute)
  qed (use main assms in simp)
qed

lemma int_type_common: "int_type t \<Longrightarrow> int_type u \<Longrightarrow> int_type (common_type t u)"
  by (cases t; cases u) (auto simp: common_type_def promote_def int_type_def unsigned_width_def max_def)

lemma arith_unsigned:
  assumes "\<bar>y\<bar> < 2 ^ v"
  shows "\<exists>x. arith (Unsigned v) y = Some x \<and> conv (Unsigned v) x = conv (Unsigned v) y"
proof (cases "v < 32")
  case True
  then have "(2::int) ^ v \<le> 2 ^ 31" by (intro power_increasing) simp_all
  with assms True show ?thesis by (simp add: checked_def in_signed_def abs_less_iff)
qed (simp add: wrap_unsigned_def)

lemma arith_signed: "in_signed v y \<Longrightarrow> arith (Signed v) y = Some y"
  by (simp add: in_signed_mono)

lemma in_ity_abs: "in_ity r t \<Longrightarrow> \<bar>t\<bar> \<le> tmax r \<Longrightarrow> in_ity r \<bar>t\<bar>"
  by (cases r) (auto simp: in_ity_def)

lemma in_ity_nonneg: "0 \<le> t \<Longrightarrow> t \<le> tmax r \<Longrightarrow> in_ity r t"
  by (cases r) (auto simp: in_ity_def intro: order_trans [of _ 0])

lemma ct_abs_abs:
  assumes r: "int_type r" and t: "in_ity s t" "\<bar>t\<bar> \<le> tmax r"
  shows "ct_abs r s t = Some \<bar>t\<bar>"
proof -
  have conv: "conv r \<bar>t\<bar> = \<bar>t\<bar>" using r t(2) by (intro conv_id in_ity_nonneg) simp_all
  show ?thesis
  proof (cases "0 \<le> t")
    case True
    with conv show ?thesis by (cases s) (simp_all add: ct_abs_def)
  next
    case neg: False
    then obtain w where s: "s = Signed w" using t(1) by (cases s) (simp_all add: in_ity_def)
    show ?thesis
    proof (cases "t = tmin s")
      case True
      have "\<exists>x. arith r (- conv r t) = Some x \<and> conv r x = conv r (- conv r t)"
      proof (cases r)
        case (Unsigned v)
        then have "\<bar>- conv r t\<bar> < 2 ^ v" using wrap_unsigned_bounds [of v t] by simp
        with arith_unsigned [of "- conv r t" v] show ?thesis by (simp only: Unsigned)
      next
        case (Signed v)
        with t(2) neg have "in_ity r t" "in_signed v (- t)" by (simp_all add: in_ity_def in_signed_def)
        moreover from this r have "conv r t = t" by (simp add: conv_id)
        ultimately show ?thesis using arith_signed [of v "- t"] by (simp only: Signed) blast
      qed
      moreover have "conv r (- conv r t) = conv r (- t)" by (rule conv_cong) (metis conv_mod mod_minus_eq)
      ultimately show ?thesis using True neg conv s by (auto simp: ct_abs_def)
    next
      case False
      with t(1) neg s have "in_signed w (- t)" by (simp add: in_ity_def in_signed_def)
      then have "arith s (- t) = Some (- t)" unfolding s by (rule arith_signed)
      with False neg conv s show ?thesis by (simp add: ct_abs_def del: arith.simps)
    qed
  qed
qed

text \<open>Both arguments have absolute values that the common type represents.\<close>

definition abs_fit :: "ity \<Rightarrow> ity \<Rightarrow> int \<Rightarrow> int \<Rightarrow> bool" where
  "abs_fit t u m n \<longleftrightarrow>
     int_type t \<and> int_type u \<and> in_ity t m \<and> in_ity u n \<and> \<bar>m\<bar> \<le> tmax (common_type t u) \<and> \<bar>n\<bar> \<le> tmax (common_type t u)"

lemma cxx_gcd_gcd:
  assumes "abs_fit t u m n"
  shows "cxx_gcd t u m n = Some (gcd m n)"
proof -
  define r w where "r = common_type t u" and "w = ity_width r"
  have r: "int_type r" using assms int_type_common by (simp add: r_def abs_fit_def)
  have bound: "tmax r < 2 ^ w"
  proof (cases r)
    case (Signed v)
    have "(2::int) ^ (v - 1) \<le> 2 ^ v" by (intro power_increasing) simp_all
    then show ?thesis unfolding w_def Signed tmax.simps ity_width.simps by linarith
  qed (simp add: w_def)
  then have b: "\<bar>m\<bar> < 2 ^ w" "\<bar>n\<bar> < 2 ^ w" using assms by (auto simp: abs_fit_def r_def)
  then have "gcd_unsigned w (nat \<bar>m\<bar>) (nat \<bar>n\<bar>) = Some (gcd (nat \<bar>m\<bar>) (nat \<bar>n\<bar>))"
    by (intro gcd_unsigned_gcd) (simp_all add: nat_less_iff)
  moreover have "int (gcd (nat \<bar>m\<bar>) (nat \<bar>n\<bar>)) = gcd m n" by simp
  moreover have "conv r (gcd m n) = gcd m n"
  proof (rule conv_id [OF r in_ity_nonneg])
    have "gcd m n \<le> \<bar>m\<bar>" if "m \<noteq> 0" using that by (intro zdvd_imp_le) simp_all
    then show "gcd m n \<le> tmax r" using assms by (cases "m = 0") (auto simp: abs_fit_def r_def)
  qed simp
  ultimately show ?thesis
    using assms r b by (simp add: cxx_gcd_def Let_def r_def [symmetric] w_def [symmetric] ct_abs_abs abs_fit_def wrap_unsigned_id)
qed

lemma cxx_lcm_lcm:
  assumes "abs_fit t u m n"
  shows "cxx_lcm asserts t u m n =
    (if asserts \<and> tmax (common_type t u) < lcm m n then None else Some (conv (common_type t u) (lcm m n)))"
proof (cases "m = 0 \<or> n = 0")
  case True
  have "conv (common_type t u) 0 = 0"
    using assms by (intro conv_id int_type_common in_ity_nonneg) (auto simp: abs_fit_def)
  moreover have "\<not> tmax (common_type t u) < 0" using assms by (auto simp: abs_fit_def)
  ultimately show ?thesis using True by (auto simp: cxx_lcm_def)
next
  case False
  define r where "r = common_type t u"
  have r: "int_type r" using assms int_type_common by (simp add: r_def abs_fit_def)
  have g: "0 < gcd m n" using False by (auto simp: gcd_pos_int)
  then have "\<bar>m\<bar> sdiv gcd m n = \<bar>m\<bar> div gcd m n" by (simp add: signed_divide_int_eq_divide_int)
  moreover have "conv r (\<bar>m\<bar> div gcd m n) = \<bar>m\<bar> div gcd m n"
  proof (rule conv_id [OF r in_ity_nonneg])
    have "\<bar>m\<bar> div gcd m n \<le> \<bar>m\<bar>" using zdiv_mono2 [of "\<bar>m\<bar>" 1 "gcd m n"] g by simp
    then show "\<bar>m\<bar> div gcd m n \<le> tmax r" using assms by (simp add: abs_fit_def r_def)
    show "0 \<le> \<bar>m\<bar> div gcd m n" by (simp add: div_int_pos_iff)
  qed
  moreover have "\<bar>m\<bar> div gcd m n * \<bar>n\<bar> = lcm m n"
    unfolding lcm_altdef_int by (simp add: dvd_div_mult)
  moreover have "in_ity r (lcm m n) \<longleftrightarrow> \<not> tmax r < lcm m n"
    using in_ity_nonneg [of "lcm m n" r] by (auto simp: in_ity_def)
  ultimately show ?thesis
    using False assms r cxx_gcd_gcd [OF assms] by (simp add: cxx_lcm_def Let_def r_def [symmetric] ct_abs_abs abs_fit_def)
qed

section \<open>Midpoints, proofs\<close>

lemma in_ity_diff: "in_ity t a \<Longrightarrow> in_ity t b \<Longrightarrow> int_type t \<Longrightarrow> b - a < 2 ^ ity_width t"
proof (cases t)
  case (Signed w)
  assume *: "in_ity t a" "in_ity t b" "int_type t"
  with Signed have "(2::int) ^ w = 2 ^ (w - 1) + 2 ^ (w - 1)" using int_type_pos [of t] by (cases w) simp_all
  with * Signed show ?thesis by (simp add: in_ity_def)
qed (auto simp: in_ity_def)

lemma midpoint_sdiv:
  assumes t: "int_type t" and a: "in_ity t a" and b: "in_ity t b"
  shows "midpoint t a b = a + (b - a) sdiv 2"
proof -
  define w M where "w = ity_width t" and "M = (2::int) ^ w"
  define H where "H = (2::int) ^ (w - 1)"
  have M: "M = 2 * H" using int_type_pos [OF t] by (cases w) (simp_all add: M_def H_def w_def)
  have H: "0 < H" by (simp add: H_def)
  define half where "half = (let diff = (b - a) mod M; s = (if b < a then 1 else 0)
    in (diff div 2 + push_bit (w - 1) s + (s AND diff)) mod M)"
  have "conv (Unsigned w) (conv (Unsigned w) b - conv (Unsigned w) a) = (b - a) mod M"
    by (simp add: wrap_unsigned_def M_def mod_simps)
  then have mid: "midpoint t a b = conv t (a + half)"
    by (simp add: midpoint_def Let_def half_def w_def [symmetric] wrap_unsigned_def [of w "_ + _"] M_def)
  have "(a + half) mod M = (a + (b - a) sdiv 2) mod M \<and> in_ity t (a + (b - a) sdiv 2)"
  proof (cases "b < a")
    case False
    then have "(b - a) mod M = b - a" using in_ity_diff [OF a b t] by (simp add: M_def w_def)
    moreover have "(b - a) sdiv 2 = (b - a) div 2" using False by (simp add: signed_divide_int_def sgn_if)
    ultimately have "(a + half) mod M = (a + (b - a) sdiv 2) mod M" using False by (simp add: half_def mod_simps)
    moreover have "a + (b - a) div 2 \<le> b" "a \<le> a + (b - a) div 2" using False by linarith+
    ultimately show ?thesis using a b \<open>(b - a) sdiv 2 = (b - a) div 2\<close> by (simp add: in_ity_def)
  next
    case True
    define d where "d = a - b"
    have d: "0 < d" "d < M" using True in_ity_diff [OF b a t] by (simp_all add: d_def M_def w_def)
    have diff: "(b - a) mod M = M - d" using d mod_neg_small [of M "- d"] by (simp add: d_def)
    have "(1::int) AND (M - d) = (M - d) mod 2" by (simp add: and_one_eq and.commute [of 1])
    then have "half = ((M - d) div 2 + H + (M - d) mod 2) mod M"
      using True by (simp add: half_def diff push_bit_eq_mult H_def Let_def)
    moreover have "(M - d) div 2 + H + (M - d) mod 2 = M - d div 2" using M by presburger
    ultimately have "half = (- (d div 2)) mod M" by simp
    then have "(a + half) mod M = (a - d div 2) mod M" by (simp add: mod_add_right_eq)
    moreover have s: "(b - a) sdiv 2 = - (d div 2)" using True by (simp add: signed_divide_int_def sgn_if d_def)
    moreover have "in_ity t (a - d div 2)" using a b True d_def unfolding in_ity_def by linarith
    ultimately show ?thesis by simp
  qed
  then show ?thesis unfolding mid using conv_cong [of "a + half" t] conv_id [OF t] by (simp add: M_def w_def)
qed

section \<open>Saturation, proofs\<close>

definition clamp_to :: "ity \<Rightarrow> int \<Rightarrow> int" where
  "clamp_to t x = max (tmin t) (min (tmax t) x)"

lemma tmin_le_tmax: "tmin t \<le> tmax t"
proof (cases t)
  case (Signed w)
  have "0 < (2::int) ^ (w - 1)" by simp
  then show ?thesis unfolding Signed tmin.simps tmax.simps by linarith
qed simp

lemma builtin_overflow_eq: "int_type t \<Longrightarrow> builtin_overflow t z = (if in_ity t z then (z, False) else (conv t z, True))"
  by (simp add: builtin_overflow_def conv_id)

lemma clamp_in: "in_ity t x \<Longrightarrow> clamp_to t x = x"
  and clamp_above: "tmax t < x \<Longrightarrow> clamp_to t x = tmax t"
  and clamp_below: "x < tmin t \<Longrightarrow> clamp_to t x = tmin t"
  using tmin_le_tmax [of t] by (auto simp: in_ity_def clamp_to_def)

text \<open>An overflowing result leaves the type on the side the sign tests of the code tell.\<close>

lemma add_sat_clamp: "int_type t \<Longrightarrow> in_ity t x \<Longrightarrow> in_ity t y \<Longrightarrow> add_sat t x y = clamp_to t (x + y)"
  by (cases "in_ity t (x + y)"; cases t)
    (auto simp: add_sat_def builtin_overflow_eq clamp_in, auto simp: in_ity_def clamp_to_def)

lemma sub_sat_clamp: "int_type t \<Longrightarrow> in_ity t x \<Longrightarrow> in_ity t y \<Longrightarrow> sub_sat t x y = clamp_to t (x - y)"
  by (cases "in_ity t (x - y)"; cases t)
    (auto simp: sub_sat_def builtin_overflow_eq clamp_in, auto simp: in_ity_def clamp_to_def)

lemma mul_sat_clamp:
  assumes "int_type t" and "in_ity t x" and "in_ity t y"
  shows "mul_sat t x y = clamp_to t (x * y)"
proof (cases "in_ity t (x * y)")
  case True
  with assms(1) show ?thesis by (simp add: mul_sat_def builtin_overflow_eq clamp_in)
next
  case False
  have pos: "0 \<le> x * y \<longleftrightarrow> 0 \<le> x \<and> 0 \<le> y \<or> x \<le> 0 \<and> y \<le> 0" by (rule zero_le_mult_iff)
  have zero: "x \<noteq> 0 \<and> y \<noteq> 0" using False in_ity_nonneg [of 0 t] tmin_le_tmax [of t] assms(2)
    by (cases t) (auto simp: in_ity_def)
  show ?thesis
  proof (cases t)
    case (Unsigned w)
    with assms have "0 \<le> x * y" by (simp add: in_ity_def)
    with False Unsigned have "tmax t < x * y" by (simp add: in_ity_def)
    with False assms(1) Unsigned show ?thesis by (simp add: mul_sat_def builtin_overflow_eq clamp_above)
  next
    case (Signed w)
    have "tmin t \<le> 0" "0 \<le> tmax t" using Signed by simp_all
    with False have "tmax t < x * y" if "0 \<le> x * y" using that by (simp add: in_ity_def)
    moreover have "x * y < tmin t" if "\<not> 0 \<le> x * y" using that False \<open>0 \<le> tmax t\<close> by (simp add: in_ity_def)
    ultimately show ?thesis using False assms(1) Signed pos zero
      by (cases "0 \<le> x * y") (auto simp: mul_sat_def builtin_overflow_eq clamp_above clamp_below simp del: tmin.simps tmax.simps)
  qed
qed

lemma div_sat_clamp:
  assumes "int_type t" and "in_ity t x" and "in_ity t y" and "y \<noteq> 0"
  shows "div_sat t x y = Some (clamp_to t (x sdiv y))"
proof (cases t)
  case (Unsigned w)
  then have xy: "0 \<le> x" "0 < y" "x \<le> tmax t" using assms by (simp_all add: in_ity_def)
  then have eq: "x sdiv y = x div y" by (simp add: signed_divide_int_def sgn_if)
  have "x div y \<le> x" "0 \<le> x div y" using xy zdiv_mono2 [of x 1 y] by (simp_all add: pos_imp_zdiv_nonneg_iff)
  with xy Unsigned have "in_ity t (x div y)" by (simp add: in_ity_def)
  with Unsigned eq assms(4) show ?thesis by (simp add: div_sat_def clamp_in)
next
  case (Signed w)
  show ?thesis
  proof (cases "x = tmin t \<and> y = - 1")
    case True
    then have "x sdiv y = tmax t + 1" using Signed by (simp add: signed_divide_int_def)
    then have "clamp_to t (x sdiv y) = tmax t" by (simp add: clamp_above)
    with True Signed show ?thesis by (simp add: div_sat_def)
  next
    case False
    define H where "H = (2::int) ^ (w - 1)"
    have lim: "tmin t = - H" "tmax t = H - 1" using Signed by (simp_all add: H_def)
    have q: "\<bar>x sdiv y\<bar> = \<bar>x\<bar> div \<bar>y\<bar>" using assms(4)
      by (simp add: signed_divide_int_def abs_mult abs_sgn_eq div_int_pos_iff abs_of_nonneg) (auto simp: sgn_if)
    have "x sdiv y \<noteq> H"
    proof
      assume h: "x sdiv y = H"
      have "0 < H" by (simp add: H_def)
      moreover from this h have "H \<le> \<bar>x\<bar>" using sdiv_int_range [of x y] by auto
      ultimately have x: "x = - H" using assms(2) unfolding in_ity_def lim by linarith
      have "\<not> 1 < \<bar>y\<bar>" using q h x \<open>0 < H\<close> int_div_less_self [of "\<bar>x\<bar>" "\<bar>y\<bar>"] by auto
      with assms(4) have "y = 1 \<or> y = - 1" by linarith
      with False x h lim \<open>0 < H\<close> show False by auto
    qed
    moreover have "- \<bar>x\<bar> \<le> x sdiv y" "x sdiv y \<le> \<bar>x\<bar>" using sdiv_int_range [of x y] by auto
    ultimately have "in_ity t (x sdiv y)" using assms(2) lim unfolding in_ity_def by linarith
    with False Signed assms(4) show ?thesis by (auto simp: div_sat_def clamp_in simp del: tmin.simps tmax.simps)
  qed
qed

section \<open>Comparisons, proofs\<close>

text \<open>Two types of the same signedness have a common type of that signedness that holds both.\<close>

lemma in_ity_unsigned: "in_ity (Unsigned v) x \<Longrightarrow> v \<le> w \<Longrightarrow> in_ity (Unsigned w) x"
proof -
  assume "in_ity (Unsigned v) x" "v \<le> w"
  moreover have "(2::int) ^ v \<le> 2 ^ w" using \<open>v \<le> w\<close> by (intro power_increasing) simp_all
  ultimately show ?thesis unfolding in_ity_def tmin.simps tmax.simps by linarith
qed

lemma in_ity_signed: "in_ity (Signed v) x \<Longrightarrow> v \<le> w \<Longrightarrow> in_ity (Signed w) x"
  using in_signed_mono [of v x w] by (simp add: in_ity_def in_signed_def)

lemma in_ity_unsigned_signed: "in_ity (Unsigned v) x \<Longrightarrow> v < w \<Longrightarrow> in_ity (Signed w) x"
proof -
  assume x: "in_ity (Unsigned v) x" and "v < w"
  then have "(2::int) ^ v \<le> 2 ^ (w - 1)" by (intro power_increasing) simp_all
  with x have "0 \<le> x" "x \<le> tmax (Signed w)" unfolding in_ity_def tmin.simps tmax.simps by linarith+
  then show ?thesis by (rule in_ity_nonneg)
qed

lemma in_ity_promote: "int_type t \<Longrightarrow> in_ity t x \<Longrightarrow> in_ity (promote t) x"
  by (cases t) (auto simp: promote_def intro: in_ity_unsigned_signed in_ity_signed)

fun is_signed :: "ity \<Rightarrow> bool" where
  "is_signed (Unsigned _) = False"
| "is_signed (Signed _) = True"

lemma in_ity_balance:
  assumes "in_ity t x"
  shows "is_signed t = is_signed u \<Longrightarrow> in_ity (balance t u) x \<and> in_ity (balance u t) x"
  using assms by (cases t; cases u) (auto intro: in_ity_unsigned in_ity_signed simp: max.commute)

lemma in_ity_common:
  assumes "int_type t" and "int_type u" and "in_ity t x" and "is_signed t = is_signed u"
  shows "in_ity (common_type t u) x \<and> in_ity (common_type u t) x"
proof (cases "is_signed (promote t) = is_signed (promote u)")
  case True
  with in_ity_balance [OF in_ity_promote [OF assms(1,3)] this] assms show ?thesis by (auto simp: common_type_def)
next
  case False
  with assms(4) obtain v w where tu: "t = Unsigned v" "u = Unsigned w" "v < 32 \<longleftrightarrow> \<not> w < 32"
    by (cases t; cases u) (auto simp: promote_def split: if_splits)
  show ?thesis
  proof (cases "v < 32")
    case True
    then have "in_ity (Unsigned w) x" using assms(3) tu by (auto intro: in_ity_unsigned)
    with True tu show ?thesis by (simp add: common_type_def promote_def)
  next
    case False
    with tu assms(3) show ?thesis by (simp add: common_type_def promote_def)
  qed
qed

lemma same_sign_compare:
  assumes "int_type t" and "int_type u" and "in_ity t x" and "in_ity u y" and "is_signed t = is_signed u"
  shows "compare_less t u x y \<longleftrightarrow> x < y" and "compare_equal t u x y \<longleftrightarrow> x = y"
  using assms in_ity_common [OF assms(1,2,3,5)] in_ity_common [OF assms(2,1,4)] int_type_common [OF assms(1,2)]
  by (simp_all add: compare_less_def compare_equal_def conv_id)

lemma make_unsigned:
  assumes "int_type t" and "in_ity t x" and "0 \<le> x"
  shows "conv (unsigned_of t) x = x" and "in_ity (unsigned_of t) x" and "int_type (unsigned_of t)"
proof -
  show i: "int_type (unsigned_of t)" using assms(1) by (simp add: int_type_def)
  have "x < 2 ^ ity_width t"
  proof -
    have "in_ity t 0" using assms(2,3) by (intro in_ity_nonneg) (auto simp: in_ity_def)
    then show ?thesis using in_ity_diff [of t 0 x] assms by simp
  qed
  with assms(3) show "in_ity (unsigned_of t) x" by (simp add: in_ity_def)
  with i show "conv (unsigned_of t) x = x" by (rule conv_id)
qed

lemma mixed_compare:
  assumes "int_type t" and "int_type u" and "in_ity t x" and "in_ity u y" and "\<not> is_signed u" and "0 \<le> x"
  shows "compare_less (unsigned_of t) u (conv (unsigned_of t) x) y \<longleftrightarrow> x < y"
    and "compare_less u (unsigned_of t) y (conv (unsigned_of t) x) \<longleftrightarrow> y < x"
    and "compare_equal (unsigned_of t) u (conv (unsigned_of t) x) y \<longleftrightarrow> x = y"
    and "compare_equal u (unsigned_of t) y (conv (unsigned_of t) x) \<longleftrightarrow> y = x"
proof -
  have s: "is_signed (unsigned_of t) = is_signed u" using assms(5) by simp
  note m = make_unsigned [OF assms(1,3,6)]
  note same_sign_compare [OF m(3) assms(2) m(2) assms(4) s] same_sign_compare [OF assms(2) m(3) assms(4) m(2) s [symmetric]]
  then show "compare_less (unsigned_of t) u (conv (unsigned_of t) x) y \<longleftrightarrow> x < y"
    "compare_less u (unsigned_of t) y (conv (unsigned_of t) x) \<longleftrightarrow> y < x"
    "compare_equal (unsigned_of t) u (conv (unsigned_of t) x) y \<longleftrightarrow> x = y"
    "compare_equal u (unsigned_of t) y (conv (unsigned_of t) x) \<longleftrightarrow> y = x"
    unfolding m(1) by simp_all
qed

lemma cmp_iff:
  assumes "int_type t" and "int_type u" and "in_ity t x" and "in_ity u y"
  shows "cmp_less t u x y \<longleftrightarrow> x < y" and "cmp_equal t u x y \<longleftrightarrow> x = y"
proof -
  have sign: "0 \<le> z" if "in_ity s z" "\<not> is_signed s" for s z using that by (cases s) (simp_all add: in_ity_def)
  show "cmp_less t u x y \<longleftrightarrow> x < y"
    using same_sign_compare(1) [OF assms] mixed_compare(1) [OF assms] mixed_compare(2) [OF assms(2,1,4,3)]
      sign [OF assms(3)] sign [OF assms(4)]
    by (cases t; cases u) (auto simp: cmp_less_def simp del: conv.simps unsigned_of.simps)
  show "cmp_equal t u x y \<longleftrightarrow> x = y"
    using same_sign_compare(2) [OF assms] mixed_compare(3) [OF assms] mixed_compare(4) [OF assms(2,1,4,3)]
      sign [OF assms(3)] sign [OF assms(4)]
    by (cases t; cases u) (auto simp: cmp_equal_def simp del: conv.simps unsigned_of.simps)
qed

lemma in_ity_limits: "in_ity t (tmin t)" "in_ity t (tmax t)"
  using tmin_le_tmax by (simp_all add: in_ity_def)

lemma saturate_cast_clamp:
  assumes "int_type r" and "int_type t" and "in_ity t x"
  shows "saturate_cast r t x = clamp_to r x"
proof -
  have "cmp_less t r x (tmin r) \<longleftrightarrow> x < tmin r" "cmp_greater t r x (tmax r) \<longleftrightarrow> tmax r < x"
    using assms in_ity_limits by (simp_all add: cmp_iff cmp_greater_def)
  moreover have "conv r x = x" if "\<not> x < tmin r" "\<not> tmax r < x"
    using that assms(1) by (intro conv_id) (simp_all add: in_ity_def)
  ultimately show ?thesis using tmin_le_tmax [of r] by (auto simp: saturate_cast_def clamp_to_def)
qed

section \<open>Properties\<close>

text \<open>
  C28. The greatest common divisor and the least common multiple, for every pair of integer types
  and all arguments whose absolute values the common type represents (the least value of a signed
  type and mixed signedness included): the binary algorithm's loop ends, no signed operation
  overflows, and the result of \<open>gcd\<close> is the greatest common divisor. The result of \<open>lcm\<close> is the
  least common multiple whenever the common type represents it, in every hardening mode; when it
  does not, \<open>lcm\<close> ends in the assertion in the modes that check it, and returns the least common
  multiple wrapped to the common type in the others.
\<close>

theorem gcd_lcm_correct:
  assumes "abs_fit t u m n"
  shows "cxx_gcd t u m n = Some (gcd m n) \<and>
    (lcm m n \<le> tmax (common_type t u) \<longrightarrow> cxx_lcm asserts t u m n = Some (lcm m n)) \<and>
    (tmax (common_type t u) < lcm m n \<longrightarrow>
      cxx_lcm True t u m n = None \<and> cxx_lcm False t u m n = Some (conv (common_type t u) (lcm m n)))"
proof -
  have "conv (common_type t u) (lcm m n) = lcm m n" if "lcm m n \<le> tmax (common_type t u)"
    using assms that by (intro conv_id int_type_common in_ity_nonneg) (simp_all add: abs_fit_def)
  then show ?thesis using cxx_gcd_gcd [OF assms] cxx_lcm_lcm [OF assms] by auto
qed

theorem gcd_lcm_correct_witness:
  "cxx_gcd (Signed 8) (Unsigned 32) (- 128) 48 = Some 16 \<and> cxx_lcm True (Signed 8) (Unsigned 32) (- 128) 48 = Some 384 \<and>
   cxx_lcm True (Signed 8) (Signed 8) 126 125 = None"
proof -
  have fit: "abs_fit (Signed 8) (Unsigned 32) (- 128) 48" "abs_fit (Signed 8) (Signed 8) 126 125"
    by (simp_all add: abs_fit_def in_ity_def int_type_def unsigned_width_def common_type_def promote_def)
  have "gcd (- 128) (48::int) = 16" "lcm (- 128) (48::int) = 384" "lcm 126 (125::int) = 15750" by code_simp+
  with gcd_lcm_correct [OF fit(1), of True] gcd_lcm_correct [OF fit(2)] show ?thesis
    by (simp add: common_type_def promote_def wrap_unsigned_def)
qed

text \<open>
  For every integer type, \<open>midpoint\<close> returns the value half-way from a to b rounded towards a,
  although the difference of the two may not fit in the type; the pointer overload returns the
  element at the same place between two elements of one array.
\<close>

theorem midpoint_correct:
  assumes "int_type t" and "in_ity t a" and "in_ity t b"
  shows "midpoint t a b = a + (b - a) sdiv 2 \<and> in_ity t (midpoint t a b) \<and>
    (in_ity (Signed 64) (j - i) \<longrightarrow> midpoint_pointer i j = i + (j - i) sdiv 2)"
proof -
  have "midpoint t a b = a + (b - a) sdiv 2" using assms by (rule midpoint_sdiv)
  moreover have "in_ity t (midpoint t a b)" unfolding midpoint_def Let_def using assms(1) by (rule in_ity_conv)
  moreover have "midpoint (Signed 64) 0 (j - i) = 0 + (j - i - 0) sdiv 2" if "in_ity (Signed 64) (j - i)"
    using that by (intro midpoint_sdiv) (simp_all add: int_type_def unsigned_width_def in_ity_def)
  ultimately show ?thesis by (simp add: midpoint_pointer_def)
qed

theorem midpoint_correct_witness: "midpoint (Signed 8) 127 (- 128) = 0"
  using midpoint_correct [of "Signed 8" 127 "- 128" 0 0] by (simp add: int_type_def unsigned_width_def in_ity_def)

text \<open>
  The saturating operations return the exact sum, difference, product or quotient clamped to
  the range of the type, for every integer type and all arguments in it (a division by zero is
  the only undefined case), and a saturating conversion clamps the value to the target's range.
\<close>

theorem saturation_clamps:
  assumes "int_type t" and "in_ity t x" and "in_ity t y" and "int_type r"
  shows "add_sat t x y = clamp_to t (x + y) \<and>
    sub_sat t x y = clamp_to t (x - y) \<and>
    mul_sat t x y = clamp_to t (x * y) \<and>
    div_sat t x y = (if y = 0 then None else Some (clamp_to t (x sdiv y))) \<and>
    saturate_cast r t x = clamp_to r x"
  using assms by (simp add: add_sat_clamp sub_sat_clamp mul_sat_clamp div_sat_clamp saturate_cast_clamp) (simp add: div_sat_def)

theorem saturation_clamps_witness:
  "mul_sat (Signed 32) (- 70000) 70000 = - 2147483648 \<and> div_sat (Signed 32) (- 2147483648) (- 1) = Some 2147483647"
  using saturation_clamps [of "Signed 32" "- 70000" 70000 "Signed 8"]
    saturation_clamps [of "Signed 32" "- 2147483648" "- 1" "Signed 8"]
  by (simp add: int_type_def unsigned_width_def in_ity_def clamp_to_def)

text \<open>
  The comparison functions of mixed types decide the order of the mathematical values, whatever
  the widths and the signedness of the two types.
\<close>

theorem mixed_comparisons_correct:
  assumes "int_type t" and "int_type u" and "in_ity t x" and "in_ity u y"
  shows "cmp_equal t u x y = (x = y) \<and> cmp_not_equal t u x y = (x \<noteq> y) \<and> cmp_less t u x y = (x < y) \<and>
    cmp_greater t u x y = (y < x) \<and> cmp_less_equal t u x y = (x \<le> y) \<and> cmp_greater_equal t u x y = (y \<le> x) \<and>
    cmp_in_range t u y = in_ity t y"
  using assms in_ity_limits [of t]
  by (auto simp: cmp_iff cmp_not_equal_def cmp_greater_def cmp_less_equal_def cmp_greater_equal_def cmp_in_range_def in_ity_def)

end
