(* ===== verification/CxxSeedSeq.thy ===== *)
theory CxxSeedSeq
  imports Prelude
begin

text \<open>
  The seed sequence of include/linux/c++/v1/__random/seed_seq.h: the stored words and the algorithm
  of generate, which fills a range of 32-bit words. The code keeps four indices modulo the length
  by incrementing and resetting them; the specification computes each index with a remainder.
\<close>

unbundle bit_operations_syntax

section \<open>The class\<close>

text \<open>The state is the vector of words; a constructor keeps the low 32 bits of each number.\<close>

definition seed_seq_init :: "int list \<Rightarrow> u32 list" where
  "seed_seq_init is = map (\<lambda>i. word_of_int i AND 0xFFFFFFFF) is"

definition seed_seq_T :: "u32 \<Rightarrow> u32" where
  "seed_seq_T x = x XOR drop_bit 27 x"

record seed_st =
  st_first :: "u32 list"
  st_k :: nat
  st_k1 :: nat
  st_kp :: nat
  st_kq :: nat

definition seed_inc :: "nat \<Rightarrow> nat \<Rightarrow> nat" where
  "seed_inc n k = (if k + 1 = n then 0 else k + 1)"

definition seed_advance :: "nat \<Rightarrow> seed_st \<Rightarrow> seed_st" where
  "seed_advance n st =
     st\<lparr>st_k := seed_inc n (st_k st), st_k1 := seed_inc n (st_k1 st),
        st_kp := seed_inc n (st_kp st), st_kq := seed_inc n (st_kq st)\<rparr>"

text \<open>The bodies of the loops: the first two differ in what they add, the third mixes by xor.\<close>

definition seed_mix :: "u32 list \<Rightarrow> nat \<Rightarrow> nat \<Rightarrow> nat \<Rightarrow> nat \<Rightarrow> u32 \<Rightarrow> u32 list" where
  "seed_mix first k k1 kp kq add =
     (let r = 1664525 * seed_seq_T (first ! k XOR first ! kp XOR first ! k1);
          first = first[kp := first ! kp + r];
          r = r + add;
          first = first[kq := first ! kq + r]
      in first[k := r])"

definition seed_step :: "nat \<Rightarrow> u32 \<Rightarrow> seed_st \<Rightarrow> seed_st" where
  "seed_step n v st =
     (let st = seed_advance n st
      in st\<lparr>st_first := seed_mix (st_first st) (st_k st) (st_k1 st) (st_kp st) (st_kq st) (of_nat (st_k st) + v)\<rparr>)"

definition seed_xor :: "u32 list \<Rightarrow> nat \<Rightarrow> nat \<Rightarrow> nat \<Rightarrow> nat \<Rightarrow> u32 list" where
  "seed_xor first k k1 kp kq =
     (let r = 1566083941 * seed_seq_T (first ! k + first ! kp + first ! k1);
          first = first[kp := first ! kp XOR r];
          r = r - of_nat k;
          first = first[kq := first ! kq XOR r]
      in first[k := r])"

definition seed_last :: "nat \<Rightarrow> seed_st \<Rightarrow> seed_st" where
  "seed_last n st =
     (let st = seed_advance n st
      in st\<lparr>st_first := seed_xor (st_first st) (st_k st) (st_k1 st) (st_kp st) (st_kq st)\<rparr>)"

definition seed_t :: "nat \<Rightarrow> nat" where
  "seed_t n = (if 623 \<le> n then 11 else if 68 \<le> n then 7 else if 39 \<le> n then 5 else if 7 \<le> n then 3 else (n - 1) div 2)"

definition seed_generate :: "u32 list \<Rightarrow> nat \<Rightarrow> u32 list" where
  "seed_generate v n =
     (if n = 0 then []
      else let first = replicate n 0x8b8b8b8b;
               s = length v;
               t = seed_t n;
               p = (n - t) div 2;
               q = p + t;
               m = max (s + 1) n;
               first = seed_mix first 0 (n - 1) p q (of_nat s);
               st = \<lparr>st_first = first, st_k = 0, st_k1 = n - 1, st_kp = p mod n, st_kq = q mod n\<rparr>;
               st = fold (seed_step n) v st;
               st = (seed_step n 0 ^^ (m - (s + 1))) st;
               st = (seed_last n ^^ n) st
           in st_first st)"

section \<open>The specification\<close>

text \<open>Step k of the standard's algorithm, with every index taken modulo n.\<close>

definition spec_mix :: "u32 list \<Rightarrow> nat \<Rightarrow> nat \<Rightarrow> nat \<Rightarrow> nat \<Rightarrow> u32 list \<Rightarrow> u32 list" where
  "spec_mix v n p q k x =
     (let r1 = 1664525 * seed_seq_T (x ! (k mod n) XOR x ! ((k + p) mod n) XOR x ! ((k + n - 1) mod n));
          r2 = r1 + (if k = 0 then of_nat (length v)
                     else if k \<le> length v then of_nat (k mod n) + v ! (k - 1)
                     else of_nat (k mod n));
          x = x[(k + p) mod n := x ! ((k + p) mod n) + r1];
          x = x[(k + q) mod n := x ! ((k + q) mod n) + r2]
      in x[k mod n := r2])"

definition spec_xor :: "nat \<Rightarrow> nat \<Rightarrow> nat \<Rightarrow> nat \<Rightarrow> u32 list \<Rightarrow> u32 list" where
  "spec_xor n p q k x =
     (let r3 = 1566083941 * seed_seq_T (x ! (k mod n) + x ! ((k + p) mod n) + x ! ((k + n - 1) mod n));
          r4 = r3 - of_nat (k mod n);
          x = x[(k + p) mod n := x ! ((k + p) mod n) XOR r3];
          x = x[(k + q) mod n := x ! ((k + q) mod n) XOR r4]
      in x[k mod n := r4])"

definition seed_spec :: "u32 list \<Rightarrow> nat \<Rightarrow> u32 list" where
  "seed_spec v n =
     (let t = seed_t n; p = (n - t) div 2; q = p + t; m = max (length v + 1) n
      in fold (spec_xor n p q) [m..<m + n] (fold (spec_mix v n p q) [0..<m] (replicate n 0x8b8b8b8b)))"

section \<open>Proofs\<close>

text \<open>The state before step k + 1: the indices of step k, and the words.\<close>

definition seed_at :: "nat \<Rightarrow> nat \<Rightarrow> nat \<Rightarrow> nat \<Rightarrow> u32 list \<Rightarrow> seed_st" where
  "seed_at n p q k x =
     \<lparr>st_first = x, st_k = k mod n, st_k1 = (k + n - 1) mod n, st_kp = (k + p) mod n, st_kq = (k + q) mod n\<rparr>"

lemma seed_inc_mod: "0 < n \<Longrightarrow> seed_inc n (j mod n) = Suc j mod n"
  by (simp add: seed_inc_def mod_Suc)

lemma seed_advance_at:
  assumes "0 < n"
  shows "seed_advance n (seed_at n p q k x) = seed_at n p q (Suc k) x"
proof -
  have "Suc (k + n - 1) = Suc k + n - 1" using assms by simp
  then show ?thesis using assms by (simp add: seed_advance_def seed_at_def seed_inc_mod del: mod_Suc)
qed

lemma seed_step_at:
  assumes "0 < n" and "u = (if Suc k \<le> length v then v ! k else 0)"
  shows "seed_step n u (seed_at n p q k x) = seed_at n p q (Suc k) (spec_mix v n p q (Suc k) x)"
  using assms
  by (simp add: seed_step_def seed_advance_at Let_def) (simp add: seed_at_def seed_mix_def spec_mix_def Let_def)

lemma seed_last_at: "0 < n \<Longrightarrow> seed_last n (seed_at n p q k x) = seed_at n p q (Suc k) (spec_xor n p q (Suc k) x)"
  by (simp add: seed_last_def seed_advance_at Let_def) (simp add: seed_at_def seed_xor_def spec_xor_def Let_def)

text \<open>The first loop runs over the stored words, the second over the steps beyond them.\<close>

lemma fold_seed_step:
  assumes "0 < n"
  shows "j \<le> length v \<Longrightarrow>
    fold (seed_step n) (take j v) (seed_at n p q 0 x) = seed_at n p q j (fold (spec_mix v n p q) [1..<Suc j] x)"
proof (induction j)
  case (Suc j)
  then have "take (Suc j) v = take j v @ [v ! j]" by (simp add: take_Suc_conv_app_nth)
  with Suc assms show ?case by (simp add: seed_step_at [of n "v ! j" j v])
qed simp

lemma funpow_seed_step:
  assumes "0 < n"
  shows "(seed_step n 0 ^^ j) (seed_at n p q (length v) x) =
    seed_at n p q (length v + j) (fold (spec_mix v n p q) [Suc (length v)..<Suc (length v + j)] x)"
  by (induction j) (use assms in \<open>simp_all add: seed_step_at [of n 0 "length v + _" v]\<close>)

lemma funpow_seed_last:
  assumes "0 < n"
  shows "(seed_last n ^^ j) (seed_at n p q k x) = seed_at n p q (k + j) (fold (spec_xor n p q) [Suc k..<Suc (k + j)] x)"
  by (induction j) (use assms in \<open>simp_all add: seed_last_at\<close>)

lemma seed_indices:
  assumes "0 < n"
  shows "(n - seed_t n) div 2 < n" and "(n - seed_t n) div 2 + seed_t n < n"
  using assms by (auto simp: seed_t_def)

lemma length_fold: "(\<And>a x. length (f a x) = length x) \<Longrightarrow> length (fold f as x) = length x"
  by (induction as arbitrary: x) simp_all

lemma length_seed_spec: "length (seed_spec v n) = n"
  by (simp add: seed_spec_def Let_def length_fold spec_xor_def spec_mix_def)

lemma seed_first_step:
  assumes "0 < n" and "p < n" and "q < n"
  shows "seed_mix x 0 (n - 1) p q (of_nat (length v)) = spec_mix v n p q 0 x"
  using assms by (simp add: seed_mix_def spec_mix_def Let_def)

lemma upt_blocks:
  assumes "Suc s \<le> m"
  shows "[0..<m] = 0 # [1..<Suc s] @ [Suc s..<m]"
proof -
  have "[0..<m] = [0..<Suc s] @ [Suc s..<m]" using assms by (metis le_Suc_ex upt_add_eq_append zero_le)
  moreover have "[0..<Suc s] = 0 # [1..<Suc s]" by (simp add: upt_conv_Cons)
  ultimately show ?thesis by simp
qed

section \<open>Properties\<close>

text \<open>
  C21. The words that generate stores are those of the standard's algorithm, for every stored
  sequence (an empty one included) and every length of the range: the four indices that the loops
  keep by incrementing and resetting are the remainders of k, k - 1, k + p and k + q by the length
  at every step, so each access stays inside the range.
\<close>

theorem seed_generate_correct: "seed_generate v n = seed_spec v n \<and> length (seed_generate v n) = n"
proof (cases "n = 0")
  case True
  then show ?thesis using length_seed_spec [of v n] by (simp add: seed_generate_def)
next
  case False
  then have n: "0 < n" by simp
  define t p q m s where "t = seed_t n" and "p = (n - t) div 2" and "q = p + t" and "m = max (length v + 1) n"
    and "s = length v"
  have pq: "p < n" "q < n" using seed_indices [OF n] by (simp_all add: p_def q_def t_def)
  define x where "x = spec_mix v n p q 0 (replicate n 0x8b8b8b8b)"
  have "seed_generate v n =
    st_first ((seed_last n ^^ n) ((seed_step n 0 ^^ (m - (s + 1))) (fold (seed_step n) v (seed_at n p q 0 x))))"
    using False pq seed_first_step [OF n pq, of _ v]
    by (simp add: seed_generate_def Let_def t_def p_def q_def m_def s_def x_def seed_at_def)
  also have "fold (seed_step n) v (seed_at n p q 0 x) = seed_at n p q s (fold (spec_mix v n p q) [1..<Suc s] x)"
    using fold_seed_step [OF n, of s v p q x] by (simp add: s_def)
  also have "(seed_step n 0 ^^ (m - (s + 1))) \<dots> =
      seed_at n p q (m - 1) (fold (spec_mix v n p q) [Suc s..<m] (fold (spec_mix v n p q) [1..<Suc s] x))"
  proof -
    have "s + (m - (s + 1)) = m - 1" "Suc (m - 1) = m" by (simp_all add: m_def s_def)
    then show ?thesis using funpow_seed_step [OF n, of "m - (s + 1)" p q v] by (simp add: s_def)
  qed
  also have "fold (spec_mix v n p q) [Suc s..<m] (fold (spec_mix v n p q) [1..<Suc s] x) =
      fold (spec_mix v n p q) [0..<m] (replicate n 0x8b8b8b8b)"
    by (subst upt_blocks [of s]) (simp_all add: m_def s_def x_def)
  also have "st_first ((seed_last n ^^ n) (seed_at n p q (m - 1) \<dots>)) = seed_spec v n"
  proof -
    have "Suc (m - 1) = m" "Suc (m - 1 + n) = m + n" using n by (simp_all add: m_def)
    then show ?thesis
      unfolding funpow_seed_last [OF n] by (simp add: seed_at_def seed_spec_def Let_def t_def p_def q_def m_def)
  qed
  finally show ?thesis by (simp add: length_seed_spec)
qed

end
