(* ===== verification/CxxLcg.thy ===== *)
theory CxxLcg
  imports CxxBits
begin

text \<open>
  The linear congruential engine of include/linux/c++/v1/__random/linear_congruential_engine.h: the
  choice of the algorithm by the parameters (\<open>lce_alg_picker\<close>), the step at each width, seeding and
  the generating functions. Values are ints; the arithmetic of a w-bit unsigned type wraps by
  \<open>wrap_unsigned\<close>. A seed sequence is the function from a number of words to the words that its
  generate member fills in.
\<close>

section \<open>The step\<close>

datatype lce_alg_type = LCE_Full | LCE_Part | LCE_Schrage | LCE_Promote

definition lce_alg_picker :: "int \<Rightarrow> int \<Rightarrow> int \<Rightarrow> int \<Rightarrow> lce_alg_type" where
  "lce_alg_picker a c m mp =
     (let has_overflow = (a \<noteq> 0 \<and> m AND (wrap_unsigned 64 (m - 1)) \<noteq> 0);
          full = (\<not> has_overflow \<or> m - 1 \<le> (mp - c) div a);
          part = (\<not> has_overflow \<or> m - 1 \<le> mp div a);
          schrage = (has_overflow \<and> m mod a \<le> m div a)
      in if full then LCE_Full else if part then LCE_Part else if schrage then LCE_Schrage else LCE_Promote)"

definition lce_add :: "nat \<Rightarrow> int \<Rightarrow> int \<Rightarrow> int \<Rightarrow> int" where
  "lce_add w c m x = wrap_unsigned w (x + (c - (if m - c \<le> x then 1 else 0) * m))"

definition lce_full :: "nat \<Rightarrow> int \<Rightarrow> int \<Rightarrow> int \<Rightarrow> int \<Rightarrow> int" where
  "lce_full w a c m x =
     (if m = 0 then wrap_unsigned w (a * x + c) else wrap_unsigned w (a * x + c) mod m)"

definition lce_part :: "nat \<Rightarrow> int \<Rightarrow> int \<Rightarrow> int \<Rightarrow> int \<Rightarrow> int" where
  "lce_part w a c m x = lce_add w c m (wrap_unsigned w (a * x) mod m)"

definition lce_schrage :: "nat \<Rightarrow> int \<Rightarrow> int \<Rightarrow> int \<Rightarrow> int \<Rightarrow> int" where
  "lce_schrage w a c m x =
     (let q = m div a;
          r = m mod a;
          t0 = wrap_unsigned w (a * (x mod q));
          t1 = wrap_unsigned w (r * (x div q));
          x = wrap_unsigned w (t0 + (if t0 < t1 then 1 else 0) * m - t1)
      in if c = 0 then x else lce_add w c m x)"

definition lce_ta_64 :: "int \<Rightarrow> int \<Rightarrow> int \<Rightarrow> int \<Rightarrow> int" where
  "lce_ta_64 a c m x =
     (case lce_alg_picker a c m (2 ^ 64 - 1) of
        LCE_Promote \<Rightarrow> wrap_unsigned 64 (wrap_unsigned 128 (a * x + c) mod m)
      | LCE_Schrage \<Rightarrow> lce_schrage 64 a c m x
      | LCE_Part \<Rightarrow> lce_part 64 a c m x
      | LCE_Full \<Rightarrow> lce_full 64 a c m x)"

definition lce_ta_32 :: "int \<Rightarrow> int \<Rightarrow> int \<Rightarrow> int \<Rightarrow> int" where
  "lce_ta_32 a c m x =
     (case lce_alg_picker a c m (2 ^ 32 - 1) of
        LCE_Promote \<Rightarrow> wrap_unsigned 32 (lce_ta_64 a c m x)
      | LCE_Schrage \<Rightarrow> lce_schrage 32 (wrap_unsigned 32 a) (wrap_unsigned 32 c) (wrap_unsigned 32 m) x
      | LCE_Part \<Rightarrow> lce_part 32 (wrap_unsigned 32 a) (wrap_unsigned 32 c) (wrap_unsigned 32 m) x
      | LCE_Full \<Rightarrow> lce_full 32 (wrap_unsigned 32 a) (wrap_unsigned 32 c) (wrap_unsigned 32 m) x)"

definition lce_ta_16 :: "int \<Rightarrow> int \<Rightarrow> int \<Rightarrow> int \<Rightarrow> int" where
  "lce_ta_16 a c m x = wrap_unsigned 16 (lce_ta_32 a c m x)"

section \<open>The engine\<close>

text \<open>The template parameters, under the \<open>static_assert\<close>s of the class.\<close>

record lcg =
  lcg_w :: nat
  lcg_a :: int
  lcg_c :: int
  lcg_m :: int

definition lcg_params :: "lcg \<Rightarrow> bool" where
  "lcg_params e \<longleftrightarrow>
     lcg_w e \<in> {16, 32, 64} \<and> 0 \<le> lcg_a e \<and> lcg_a e < 2 ^ lcg_w e \<and> 0 \<le> lcg_c e \<and> lcg_c e < 2 ^ lcg_w e \<and>
     0 \<le> lcg_m e \<and> lcg_m e < 2 ^ lcg_w e \<and>
     (lcg_m e = 0 \<or> lcg_a e < lcg_m e) \<and> (lcg_m e = 0 \<or> lcg_c e < lcg_m e) \<and>
     (if lcg_c e = 0 then 1 else 0) < wrap_unsigned (lcg_w e) (lcg_m e - 1)"

definition lcg_min :: "lcg \<Rightarrow> int" where
  "lcg_min e = (if lcg_c e = 0 then 1 else 0)"

definition lcg_max :: "lcg \<Rightarrow> int" where
  "lcg_max e = wrap_unsigned (lcg_w e) (lcg_m e - 1)"

definition lcg_seed :: "lcg \<Rightarrow> int \<Rightarrow> int" where
  "lcg_seed e s =
     (if lcg_m e = 0 then (if lcg_c e = 0 then (if s = 0 then 1 else s) else s)
      else if lcg_c e = 0 then (if s mod lcg_m e = 0 then 1 else s mod lcg_m e)
      else s mod lcg_m e)"

definition lcg_next :: "lcg \<Rightarrow> int \<Rightarrow> int \<times> int" where
  "lcg_next e x =
     (let y = wrap_unsigned (lcg_w e)
        (if lcg_w e = 16 then lce_ta_16 (lcg_a e) (lcg_c e) (lcg_m e) x
         else if lcg_w e = 32 then lce_ta_32 (lcg_a e) (lcg_c e) (lcg_m e) x
         else lce_ta_64 (lcg_a e) (lcg_c e) (lcg_m e) x)
      in (y, y))"

primrec lcg_discard :: "lcg \<Rightarrow> nat \<Rightarrow> int \<Rightarrow> int" where
  "lcg_discard e 0 x = x"
| "lcg_discard e (Suc z) x = lcg_discard e z (snd (lcg_next e x))"

text \<open>Seeding from a sequence: one word or two of it; a zero modulus makes the remainder undefined.\<close>

definition lcg_seed_words :: "lcg \<Rightarrow> nat" where
  "lcg_seed_words e = 1 + (if lcg_m e = 0 then (lcg_w e - 1) div 32 else if 0x100000000 < lcg_m e then 1 else 0)"

definition lcg_seed_seq :: "lcg \<Rightarrow> (nat \<Rightarrow> int list) \<Rightarrow> int option" where
  "lcg_seed_seq e generate =
     (let k = lcg_seed_words e; ar = generate (k + 3)
      in if lcg_m e = 0 then None
         else let s = wrap_unsigned (lcg_w e)
                ((if k = 1 then ar ! 3 else wrap_unsigned 64 (ar ! 3 + push_bit 32 (ar ! 4))) mod lcg_m e)
              in Some (if lcg_c e = 0 \<and> s = 0 then 1 else s))"

section \<open>Proofs\<close>

lemma lce_add_mod:
  assumes "0 \<le> x" and "x < m" and "0 \<le> c" and "c < m" and "m < 2 ^ w"
  shows "lce_add w c m x = (x + c) mod m"
proof (cases "m - c \<le> x")
  case True
  then have "(x + c) mod m = x + c - m" using assms by (intro mod_pos_pos_trivial [of "x + c - m" m, simplified]) auto
  with True assms show ?thesis by (simp add: lce_add_def wrap_unsigned_id)
next
  case False
  with assms show ?thesis by (simp add: lce_add_def wrap_unsigned_id)
qed

lemma schrage_mod:
  assumes a: "0 < (a::int)" "a < m" and r: "m mod a \<le> m div a" and x: "0 \<le> x" "x < m"
  defines "t0 \<equiv> a * (x mod (m div a))" and "t1 \<equiv> m mod a * (x div (m div a))"
  shows "0 \<le> t0" "t0 < m" "0 \<le> t1" "t1 < m" and "(a * x) mod m = t0 + (if t0 < t1 then 1 else 0) * m - t1"
proof -
  define q where "q = m div a"
  have q: "0 < q" "a * q + m mod a = m" using a by (simp_all add: q_def pos_imp_zdiv_pos_iff)
  have "x mod q \<le> q - 1" using q(1) pos_mod_bound [of q x] by simp
  then have "a * (x mod q) \<le> a * (q - 1)" using a by (intro mult_left_mono) simp_all
  also have "\<dots> = m - m mod a - a" using q(2) by (simp add: algebra_simps)
  finally show t0: "t0 < m" using a pos_mod_sign [of a m] unfolding t0_def q_def by linarith
  show t0': "0 \<le> t0" using a q(1) by (simp add: t0_def q_def [symmetric])
  have xq: "0 \<le> x div q" using x(1) q(1) by (simp add: pos_imp_zdiv_nonneg_iff)
  have "m mod a * (x div q) \<le> q * (x div q)" using r xq by (intro mult_right_mono) (simp_all add: q_def)
  also have "\<dots> \<le> x" using q(1) pos_mod_sign [of q x] mult_div_mod_eq [of q x] by linarith
  finally show t1: "t1 < m" using x by (simp add: t1_def q_def)
  show t1': "0 \<le> t1" using a xq by (simp add: t1_def q_def)
  have "x = q * (x div q) + x mod q" by simp
  then have "a * x = a * q * (x div q) + a * (x mod q)" by (metis distrib_left mult.assoc)
  also have "a * q * (x div q) = (x div q) * m - m mod a * (x div q)"
    using arg_cong [OF q(2), of "\<lambda>z. z * (x div q)"] by (simp add: algebra_simps)
  finally have "a * x = (x div q) * m + (t0 - t1)" by (simp add: t0_def t1_def q_def)
  then have "(a * x) mod m = (t0 - t1) mod m" by (simp only: mod_mult_self3)
  also have "\<dots> = t0 + (if t0 < t1 then 1 else 0) * m - t1"
    using t0 t0' t1 t1' mod_neg_small [of m "t0 - t1"] by simp
  finally show "(a * x) mod m = t0 + (if t0 < t1 then 1 else 0) * m - t1" .
qed

text \<open>Parameters and state of a step of width w, with the modulus it works by.\<close>

definition lce_ok :: "nat \<Rightarrow> int \<Rightarrow> int \<Rightarrow> int \<Rightarrow> int \<Rightarrow> bool" where
  "lce_ok w a c m x \<longleftrightarrow> 0 \<le> a \<and> a < 2 ^ w \<and> 0 \<le> c \<and> c < 2 ^ w \<and> 0 \<le> m \<and> m < 2 ^ w \<and>
     (m \<noteq> 0 \<longrightarrow> a < m \<and> c < m \<and> x < m) \<and> 0 \<le> x \<and> x < 2 ^ w"

definition lce_spec :: "nat \<Rightarrow> int \<Rightarrow> int \<Rightarrow> int \<Rightarrow> int \<Rightarrow> int" where
  "lce_spec w a c m x = (a * x + c) mod (if m = 0 then 2 ^ w else m)"

lemma single_bit_int:
  assumes "0 \<le> m" and "m < 2 ^ 64" and "m AND wrap_unsigned 64 (m - 1) = 0"
  shows "m = 0 \<or> (\<exists>k. m = 2 ^ k)"
proof (cases "m = 0")
  case False
  define n where "n = nat m"
  have n: "m = int n" "n \<noteq> 0" using assms(1) False by (auto simp: n_def)
  then have "wrap_unsigned 64 (m - 1) = int (n - 1)" using assms(2) by (subst wrap_unsigned_id) auto
  with assms(3) n have "n AND (n - 1) = 0" by (metis of_nat_and_eq of_nat_eq_0_iff)
  with n(2) have "has_single_bit n" by (simp add: has_single_bit_def)
  then obtain k where "n = 2 ^ k" using has_single_bit_power by blast
  then have "m = 2 ^ k" using n(1) by simp
  then show ?thesis by blast
qed simp

lemma wrap_mod_power: "m = 2 ^ k \<Longrightarrow> m < 2 ^ w \<Longrightarrow> wrap_unsigned w z mod m = z mod m"
proof -
  assume m: "m = 2 ^ k" "m < 2 ^ w"
  then have "k < w" by (metis power_less_imp_less_exp one_less_numeral_iff semiring_norm(76))
  then have "m dvd 2 ^ w" unfolding m(1) by (simp add: le_imp_power_dvd)
  then show ?thesis by (simp add: wrap_unsigned_def mod_mod_cancel)
qed

text \<open>What each choice of the picker guarantees of the products.\<close>

lemma picker_cases:
  assumes ok: "lce_ok w a c m x" and w: "w \<le> 64"
  shows "lce_alg_picker a c m (2 ^ w - 1) = LCE_Full \<Longrightarrow>
      a = 0 \<or> m = 0 \<or> (\<exists>k. m = 2 ^ k) \<or> m \<noteq> 0 \<and> a * x + c < 2 ^ w"
    and "lce_alg_picker a c m (2 ^ w - 1) = LCE_Part \<Longrightarrow> m \<noteq> 0 \<and> a * x < 2 ^ w"
    and "lce_alg_picker a c m (2 ^ w - 1) = LCE_Schrage \<Longrightarrow> m \<noteq> 0 \<and> 0 < a \<and> m mod a \<le> m div a"
    and "lce_alg_picker a c m (2 ^ w - 1) = LCE_Promote \<Longrightarrow> m \<noteq> 0"
proof -
  have m64: "m < 2 ^ 64" using ok w power_increasing [of w 64 "2::int"] by (simp add: lce_ok_def)
  have single: "a = 0 \<or> m = 0 \<or> (\<exists>k. m = 2 ^ k)" if "\<not> (a \<noteq> 0 \<and> m AND (wrap_unsigned 64 (m - 1)) \<noteq> 0)"
    using single_bit_int [of m] that ok m64 by (auto simp: lce_ok_def)
  have le: "a * x \<le> z" if "m - 1 \<le> z div a" "m \<noteq> 0" "a \<noteq> 0" for z
  proof -
    have "x \<le> z div a" using that ok by (simp add: lce_ok_def)
    then have "a * x \<le> a * (z div a)" using ok by (intro mult_left_mono) (simp_all add: lce_ok_def)
    also have "\<dots> \<le> z"
    proof -
      have "0 < a" using that(3) ok by (simp add: lce_ok_def)
      then show ?thesis using pos_mod_sign [of a z] mult_div_mod_eq [of a z] by linarith
    qed
    finally show ?thesis .
  qed
  show "a = 0 \<or> m = 0 \<or> (\<exists>k. m = 2 ^ k) \<or> m \<noteq> 0 \<and> a * x + c < 2 ^ w" if "lce_alg_picker a c m (2 ^ w - 1) = LCE_Full"
    using that single le [of "2 ^ w - 1 - c"] by (auto simp: lce_alg_picker_def Let_def split: if_splits)
  show "m \<noteq> 0 \<and> a * x < 2 ^ w" if "lce_alg_picker a c m (2 ^ w - 1) = LCE_Part"
    using that le [of "2 ^ w - 1"] by (cases "m = 0") (auto simp: lce_alg_picker_def Let_def split: if_splits)
  show "m \<noteq> 0 \<and> 0 < a \<and> m mod a \<le> m div a" if "lce_alg_picker a c m (2 ^ w - 1) = LCE_Schrage"
    using that ok by (auto simp: lce_alg_picker_def Let_def lce_ok_def split: if_splits)
  show "m \<noteq> 0" if "lce_alg_picker a c m (2 ^ w - 1) = LCE_Promote"
    using that by (auto simp: lce_alg_picker_def Let_def split: if_splits)
qed

lemma lce_full_spec:
  assumes "lce_ok w a c m x" and "w \<le> 64" and "lce_alg_picker a c m (2 ^ w - 1) = LCE_Full"
  shows "lce_full w a c m x = lce_spec w a c m x"
proof -
  have ok: "0 \<le> a" "0 \<le> x" "0 \<le> c" "c < 2 ^ w" "m < 2 ^ w" using assms(1) by (simp_all add: lce_ok_def)
  consider "a = 0" | "m = 0" | k where "m = 2 ^ k" | "m \<noteq> 0" "a * x + c < 2 ^ w"
    using picker_cases(1) [OF assms] by blast
  then show ?thesis
    by cases (use ok in \<open>simp_all add: lce_full_def lce_spec_def wrap_unsigned_id wrap_mod_power\<close>, simp add: wrap_unsigned_def)
qed

lemma lce_part_spec:
  assumes "lce_ok w a c m x" and "w \<le> 64" and "lce_alg_picker a c m (2 ^ w - 1) = LCE_Part"
  shows "lce_part w a c m x = lce_spec w a c m x"
proof -
  have m: "m \<noteq> 0" "a * x < 2 ^ w" using picker_cases(2) [OF assms] by simp_all
  then have ok: "0 \<le> a * x" "0 < m" "m < 2 ^ w" "0 \<le> c" "c < m" using assms(1) by (simp_all add: lce_ok_def)
  have "lce_part w a c m x = ((a * x) mod m + c) mod m"
    unfolding lce_part_def using m ok by (subst lce_add_mod) (simp_all add: wrap_unsigned_id)
  with m show ?thesis by (simp add: lce_spec_def mod_add_left_eq)
qed

lemma lce_schrage_spec:
  assumes "lce_ok w a c m x" and "m \<noteq> 0" and "0 < a" and "m mod a \<le> m div a"
  shows "lce_schrage w a c m x = lce_spec w a c m x"
proof -
  have ok: "0 < m" "m < 2 ^ w" "0 \<le> c" "c < m" "a < m" "0 \<le> x" "x < m" using assms(1,2) by (simp_all add: lce_ok_def)
  define t0 t1 where "t0 = a * (x mod (m div a))" and "t1 = m mod a * (x div (m div a))"
  note s = schrage_mod [OF assms(3) ok(5) assms(4) ok(6,7), folded t0_def t1_def]
  have wr: "wrap_unsigned w t0 = t0" "wrap_unsigned w t1 = t1" using s(1-4) ok(2) by (auto intro!: wrap_unsigned_id)
  have "wrap_unsigned w ((a * x) mod m) = (a * x) mod m"
    using ok pos_mod_bound [of m "a * x"] by (intro wrap_unsigned_id) (simp, linarith)
  then have "lce_schrage w a c m x = (if c = 0 then (a * x) mod m else lce_add w c m ((a * x) mod m))"
    by (simp add: lce_schrage_def Let_def t0_def [symmetric] t1_def [symmetric] wr s(5))
  also have "\<dots> = ((a * x) mod m + c) mod m" using ok by (simp add: lce_add_mod)
  also have "\<dots> = lce_spec w a c m x" using assms(2) by (simp add: lce_spec_def mod_add_left_eq)
  finally show ?thesis .
qed

lemma lce_spec_bounds: "lce_ok w a c m x \<Longrightarrow> 0 \<le> lce_spec w a c m x \<and> lce_spec w a c m x < (if m = 0 then 2 ^ w else m)"
  by (simp add: lce_spec_def lce_ok_def)

lemma lce_spec_wrap: "lce_ok w a c m x \<Longrightarrow> wrap_unsigned w (lce_spec w a c m x) = lce_spec w a c m x"
  using lce_spec_bounds [of w a c m x] by (intro wrap_unsigned_id) (auto simp: lce_ok_def split: if_splits)

lemma lce_ta_64_spec:
  assumes ok: "lce_ok 64 a c m x"
  shows "lce_ta_64 a c m x = lce_spec 64 a c m x"
proof (cases "lce_alg_picker a c m (2 ^ 64 - 1)")
  case LCE_Promote
  then have m: "m \<noteq> 0" using picker_cases(4) [OF ok] by simp
  have "0 \<le> a * x + c" "a * x + c < 2 ^ 128"
  proof -
    have "a * x \<le> (2 ^ 64 - 1) * (2 ^ 64 - 1)" using ok by (intro mult_mono) (simp_all add: lce_ok_def)
    then show "a * x + c < 2 ^ 128" using ok by (simp add: lce_ok_def)
  qed (use ok in \<open>simp add: lce_ok_def\<close>)
  then have "wrap_unsigned 128 (a * x + c) mod m = lce_spec 64 a c m x"
    using m by (simp add: wrap_unsigned_id lce_spec_def)
  with LCE_Promote lce_spec_wrap [OF ok] show ?thesis by (simp add: lce_ta_64_def)
qed (use ok picker_cases [OF ok] in \<open>simp_all add: lce_ta_64_def lce_full_spec lce_part_spec lce_schrage_spec\<close>)

lemma lce_ok_mono: "lce_ok v a c m x \<Longrightarrow> v \<le> w \<Longrightarrow> lce_ok w a c m x"
proof -
  assume "lce_ok v a c m x" "v \<le> w"
  moreover from this(2) have "z < 2 ^ v \<Longrightarrow> z < 2 ^ w" for z :: int
    by (meson order_less_le_trans power_increasing one_le_numeral)
  ultimately show ?thesis unfolding lce_ok_def by blast
qed

lemma lce_spec_mono: "v \<le> w \<Longrightarrow> lce_spec w a c m x mod 2 ^ v = lce_spec v a c m x mod 2 ^ v"
  by (simp add: lce_spec_def mod_mod_cancel le_imp_power_dvd)

lemma lce_ta_32_spec:
  assumes ok: "lce_ok 32 a c m x"
  shows "lce_ta_32 a c m x = lce_spec 32 a c m x"
proof -
  have casts: "wrap_unsigned 32 a = a" "wrap_unsigned 32 c = c" "wrap_unsigned 32 m = m"
    using ok by (auto simp: lce_ok_def intro!: wrap_unsigned_id)
  have "wrap_unsigned 32 (lce_ta_64 a c m x) = lce_spec 32 a c m x"
    using lce_ta_64_spec [OF lce_ok_mono [OF ok]] lce_spec_mono [of 32 64 a c m x] lce_spec_wrap [OF ok]
    by (simp add: wrap_unsigned_def)
  with ok picker_cases [OF ok] show ?thesis
    by (cases "lce_alg_picker a c m (2 ^ 32 - 1)")
      (simp_all add: lce_ta_32_def casts lce_full_spec lce_part_spec lce_schrage_spec)
qed

lemma lce_ta_16_spec: "lce_ok 16 a c m x \<Longrightarrow> lce_ta_16 a c m x = lce_spec 16 a c m x"
  using lce_ta_32_spec [OF lce_ok_mono [of 16 a c m x 32]] lce_spec_mono [of 16 32 a c m x] lce_spec_wrap [of 16 a c m x]
  by (simp add: lce_ta_16_def wrap_unsigned_def)

definition lcg_modulus :: "lcg \<Rightarrow> int" where
  "lcg_modulus e = (if lcg_m e = 0 then 2 ^ lcg_w e else lcg_m e)"

definition lcg_inv :: "lcg \<Rightarrow> int \<Rightarrow> bool" where
  "lcg_inv e x \<longleftrightarrow> 0 \<le> x \<and> x < lcg_modulus e"

lemma lcg_ok: "lcg_params e \<Longrightarrow> lcg_inv e x \<Longrightarrow> lce_ok (lcg_w e) (lcg_a e) (lcg_c e) (lcg_m e) x"
  by (auto simp: lcg_params_def lcg_inv_def lce_ok_def lcg_modulus_def)

lemma lcg_next_spec:
  assumes "lcg_params e" and "lcg_inv e x"
  shows "lcg_next e x = (let y = (lcg_a e * x + lcg_c e) mod lcg_modulus e in (y, y))"
proof -
  note ok = lcg_ok [OF assms]
  have "lcg_w e = 16 \<or> lcg_w e = 32 \<or> lcg_w e = 64" using assms(1) by (auto simp: lcg_params_def)
  then have "lcg_next e x = (let y = lce_spec (lcg_w e) (lcg_a e) (lcg_c e) (lcg_m e) x in (y, y))"
    using ok lce_spec_wrap [OF ok] by (auto simp: lcg_next_def lce_ta_16_spec lce_ta_32_spec lce_ta_64_spec Let_def)
  then show ?thesis by (simp add: lce_spec_def lcg_modulus_def)
qed

lemma lcg_modulus_pos: "lcg_params e \<Longrightarrow> 1 < lcg_modulus e"
proof (cases "lcg_m e = 0")
  case False
  assume *: "lcg_params e"
  with False have "wrap_unsigned (lcg_w e) (lcg_m e - 1) = lcg_m e - 1"
    by (intro wrap_unsigned_id) (auto simp: lcg_params_def)
  with * False show ?thesis by (auto simp: lcg_params_def lcg_modulus_def split: if_splits)
qed (auto simp: lcg_params_def lcg_modulus_def)

lemma lcg_inv_next: "lcg_params e \<Longrightarrow> lcg_inv e x \<Longrightarrow> lcg_inv e (snd (lcg_next e x))"
  using lcg_modulus_pos [of e] by (simp add: lcg_next_spec lcg_inv_def Let_def)

lemma lcg_seed_inv: "lcg_params e \<Longrightarrow> 0 \<le> s \<Longrightarrow> s < 2 ^ lcg_w e \<Longrightarrow> lcg_inv e (lcg_seed e s) \<and> (lcg_c e = 0 \<longrightarrow> lcg_seed e s \<noteq> 0)"
  using lcg_modulus_pos [of e] by (auto simp: lcg_params_def lcg_inv_def lcg_seed_def lcg_modulus_def)

lemma lcg_discard_closed:
  assumes "lcg_params e"
  shows "lcg_inv e x \<Longrightarrow> lcg_discard e n x = (lcg_a e ^ n * x + lcg_c e * (\<Sum>i<n. lcg_a e ^ i)) mod lcg_modulus e"
proof (induction n arbitrary: x)
  case 0
  then show ?case by (simp add: lcg_inv_def)
next
  case (Suc n)
  define a c M where "a = lcg_a e" and "c = lcg_c e" and "M = lcg_modulus e"
  have "lcg_discard e (Suc n) x = lcg_discard e n ((a * x + c) mod M)"
    using Suc.prems assms by (simp add: lcg_next_spec Let_def a_def c_def M_def)
  also have "\<dots> = (a ^ n * ((a * x + c) mod M) + c * (\<Sum>i<n. a ^ i)) mod M"
    using Suc.IH [of "(a * x + c) mod M"] lcg_modulus_pos [OF assms] by (simp add: lcg_inv_def a_def c_def M_def)
  also have "\<dots> = (a ^ n * (a * x + c) + c * (\<Sum>i<n. a ^ i)) mod M" by (metis mod_add_left_eq mod_mult_right_eq)
  also have "a ^ n * (a * x + c) + c * (\<Sum>i<n. a ^ i) = a ^ Suc n * x + c * (\<Sum>i<Suc n. a ^ i)" by (simp add: algebra_simps)
  finally show ?case by (simp add: a_def c_def M_def)
qed

text \<open>
  With a zero increment the minimum is 1: a state that is not 0 stays so when the multiplier and
  the modulus have no common divisor.
\<close>

definition lcg_live :: "lcg \<Rightarrow> int \<Rightarrow> bool" where
  "lcg_live e x \<longleftrightarrow> lcg_inv e x \<and> lcg_min e \<le> x"

lemma lcg_live_next:
  assumes "lcg_params e" and "lcg_c e = 0 \<longrightarrow> coprime (lcg_a e) (lcg_modulus e)" and "lcg_live e x"
  shows "lcg_live e (snd (lcg_next e x)) \<and> lcg_min e \<le> fst (lcg_next e x) \<and> fst (lcg_next e x) \<le> lcg_max e"
proof -
  define y where "y = (lcg_a e * x + lcg_c e) mod lcg_modulus e"
  have M: "1 < lcg_modulus e" using assms(1) by (rule lcg_modulus_pos)
  have x: "lcg_inv e x" using assms(3) by (simp add: lcg_live_def)
  have n: "lcg_next e x = (y, y)" using assms(1) x by (simp add: lcg_next_spec y_def Let_def)
  have y: "0 \<le> y" "y < lcg_modulus e" using M by (simp_all add: y_def)
  have "y \<noteq> 0" if "lcg_c e = 0"
  proof
    assume "y = 0"
    with that have "lcg_modulus e dvd x * lcg_a e" by (simp add: y_def mod_eq_0_iff_dvd mult.commute)
    then have "lcg_modulus e dvd x" using assms(2) that by (simp add: coprime_dvd_mult_left_iff coprime_commute)
    then show False using assms(3) that zdvd_not_zless [of x "lcg_modulus e"] by (simp add: lcg_live_def lcg_inv_def lcg_min_def)
  qed
  with y have "lcg_min e \<le> y" by (auto simp: lcg_min_def)
  moreover have "lcg_max e = lcg_modulus e - 1"
  proof (cases "lcg_m e = 0")
    case True
    then show ?thesis by (simp add: lcg_max_def lcg_modulus_def wrap_unsigned_def zmod_minus1)
  next
    case False
    with assms(1) show ?thesis by (auto simp: lcg_max_def lcg_modulus_def lcg_params_def intro!: wrap_unsigned_id)
  qed
  ultimately show ?thesis using n y by (simp add: lcg_live_def lcg_inv_def)
qed

section \<open>Properties\<close>

text \<open>
  C22. Whatever algorithm the parameters select (the plain product, the product reduced before the
  addition, Schrage's decomposition or the promotion to a wider type) and at each width, one call
  of the engine moves the state x to (a x + c) mod m, with m = 0 standing for 2 ^ w, although the
  machine arithmetic wraps; the state stays below the modulus; discarding n values reaches the
  state of the closed form; and seeding gives a valid state, different from 0 when c is 0.
\<close>

theorem lcg_steps_correct:
  assumes "lcg_params e" and "lcg_inv e x" and "0 \<le> s" and "s < 2 ^ lcg_w e"
  shows "lcg_next e x = ((lcg_a e * x + lcg_c e) mod lcg_modulus e, (lcg_a e * x + lcg_c e) mod lcg_modulus e) \<and>
    lcg_inv e (snd (lcg_next e x)) \<and>
    lcg_discard e n x = (lcg_a e ^ n * x + lcg_c e * (\<Sum>i<n. lcg_a e ^ i)) mod lcg_modulus e \<and>
    lcg_inv e (lcg_seed e s) \<and> (lcg_c e = 0 \<longrightarrow> lcg_seed e s \<noteq> 0)"
  using lcg_seed_inv [OF assms(1,3,4)] lcg_next_spec [OF assms(1,2)] lcg_inv_next [OF assms(1,2)]
    lcg_discard_closed [OF assms(1,2)] by (simp add: Let_def)

text \<open>The engines \<open>minstd_rand0\<close> and \<open>minstd_rand\<close>, of a 64-bit type here.\<close>

definition minstd_rand0 :: lcg where
  "minstd_rand0 = \<lparr>lcg_w = 64, lcg_a = 16807, lcg_c = 0, lcg_m = 2147483647\<rparr>"

definition minstd_rand :: lcg where
  "minstd_rand = \<lparr>lcg_w = 64, lcg_a = 48271, lcg_c = 0, lcg_m = 2147483647\<rparr>"

lemma minstd_params: "lcg_params minstd_rand0" "lcg_params minstd_rand"
  by (simp_all add: lcg_params_def minstd_rand0_def minstd_rand_def wrap_unsigned_def)

theorem lcg_steps_correct_witness: "lcg_discard minstd_rand0 2 1 = 282475249"
proof -
  have "lcg_inv minstd_rand0 1" by (simp add: lcg_inv_def lcg_modulus_def minstd_rand0_def)
  from lcg_steps_correct [OF minstd_params(1) this, of 1 2] show ?thesis
    by (simp add: minstd_rand0_def lcg_modulus_def)
qed

text \<open>
  C23. Seeding an engine from a seed sequence, which fills in 32-bit words. With a nonzero modulus
  the new state is valid, and different from 0 when c is 0. With the modulus 0, which stands for
  2 ^ w and which the class accepts, the remainder by the modulus divides by zero: the seeding is
  undefined, whatever the sequence.
\<close>

theorem lcg_seed_seq_correct:
  assumes "lcg_params e" and "\<And>n. length (generate n) = n" and "\<And>n v. v \<in> set (generate n) \<Longrightarrow> 0 \<le> v \<and> v < 2 ^ 32"
  shows "(lcg_m e = 0 \<longrightarrow> lcg_seed_seq e generate = None) \<and>
    (lcg_m e \<noteq> 0 \<longrightarrow> (\<exists>x. lcg_seed_seq e generate = Some x \<and> lcg_inv e x \<and> (lcg_c e = 0 \<longrightarrow> x \<noteq> 0)))"
proof -
  have "wrap_unsigned (lcg_w e) (z mod lcg_m e) = z mod lcg_m e" "0 \<le> z mod lcg_m e" "z mod lcg_m e < lcg_m e"
    if "lcg_m e \<noteq> 0" for z
  proof -
    have m: "0 < lcg_m e" "lcg_m e < 2 ^ lcg_w e" using that assms(1) by (simp_all add: lcg_params_def)
    then show "0 \<le> z mod lcg_m e" "z mod lcg_m e < lcg_m e" by simp_all
    with m show "wrap_unsigned (lcg_w e) (z mod lcg_m e) = z mod lcg_m e" by (intro wrap_unsigned_id) linarith+
  qed
  then show ?thesis using lcg_modulus_pos [OF assms(1)]
    by (auto simp: lcg_seed_seq_def Let_def lcg_inv_def lcg_modulus_def)
qed

theorem lcg_seed_seq_correct_witness:
  "lcg_seed_seq \<lparr>lcg_w = 32, lcg_a = 1664525, lcg_c = 1013904223, lcg_m = 0\<rparr> (\<lambda>n. replicate n 7) = None"
proof -
  have "lcg_params \<lparr>lcg_w = 32, lcg_a = 1664525, lcg_c = 1013904223, lcg_m = 0\<rparr>"
    by (simp add: lcg_params_def wrap_unsigned_def)
  then show ?thesis using lcg_seed_seq_correct [of _ "\<lambda>n. replicate n 7"] by (simp split: if_splits)
qed

end
