(* ===== verification/CxxEngines.thy ===== *)
theory CxxEngines
  imports CxxSeedSeq CxxLcg
begin

text \<open>
  The engines of include/linux/c++/v1/__random that keep a ring of words: \<open>mersenne_twister_engine.h\<close>
  and \<open>subtract_with_carry_engine.h\<close>. The state is an array and the index of its oldest word; a
  call overwrites that word with the new one and moves the index. The specification is a shift
  register: the ring read from the index on, from which a call drops the head and to which it
  appends the new word. The type 'a is the result type, of at least w bits.
\<close>

section \<open>Rings\<close>

text \<open>
  std::equal of a range and the start of another one; reading past the end of the second range is
  None. A range of an array is given by its bounds.
\<close>

fun equal_iter :: "'a list \<Rightarrow> 'a list \<Rightarrow> bool option" where
  "equal_iter [] ys = Some True"
| "equal_iter (x # xs) [] = None"
| "equal_iter (x # xs) (y # ys) = (if x \<noteq> y then Some False else equal_iter xs ys)"

definition segment :: "'a list \<Rightarrow> nat \<Rightarrow> nat \<Rightarrow> 'a list" where
  "segment xs a b = drop a (take b xs)"

definition and_then :: "bool option \<Rightarrow> bool option \<Rightarrow> bool option" where
  "and_then p q = (case p of None \<Rightarrow> None | Some False \<Rightarrow> Some False | Some True \<Rightarrow> q)"

text \<open>The comparison of two engines, whose rings may start at different indices.\<close>

definition ring_equal :: "nat \<Rightarrow> 'a list \<Rightarrow> nat \<Rightarrow> 'a list \<Rightarrow> nat \<Rightarrow> bool option" where
  "ring_equal n x xi y yi =
     (if xi = yi then equal_iter (segment x 0 n) y
      else if xi = 0 \<or> yi = 0 then
        (let j = min (n - xi) (n - yi)
         in and_then (equal_iter (segment x xi (xi + j)) (drop yi y))
              (if xi = 0 then equal_iter (segment x j n) y
               else equal_iter (segment x 0 (n - j)) (drop j y)))
      else if xi < yi then
        (let j = n - yi
         in and_then (equal_iter (segment x xi (xi + j)) (drop yi y))
              (and_then (equal_iter (segment x (xi + j) n) y)
                (equal_iter (segment x 0 xi) (drop (n - (xi + j)) y))))
      else
        (let j = n - xi
         in and_then (equal_iter (segment y yi (yi + j)) (drop xi x))
              (and_then (equal_iter (segment y (yi + j) n) x)
                (equal_iter (segment y 0 yi) (drop (n - (yi + j)) x)))))"

lemma equal_iter_take: "length xs \<le> length ys \<Longrightarrow> equal_iter xs ys = Some (xs = take (length xs) ys)"
  by (induction xs ys rule: equal_iter.induct) auto

lemma length_segment [simp]: "b \<le> length xs \<Longrightarrow> length (segment xs a b) = b - a"
  by (simp add: segment_def)

lemma and_then_Some [simp]: "and_then (Some p) (Some q) = Some (p \<and> q)"
  by (cases p) (simp_all add: and_then_def)

text \<open>Two rings are equal when they agree at every distance from their starts.\<close>

lemma rotate_eq_nth:
  assumes "length x = n" and "length y = n" and "xi < n" and "yi < n"
  shows "rotate xi x = rotate yi y \<longleftrightarrow> (\<forall>k<n. x ! ((xi + k) mod n) = y ! ((yi + k) mod n))"
  using assms by (simp add: list_eq_iff_nth_eq nth_rotate)

lemma nth_segment: "k < b - a \<Longrightarrow> b \<le> length xs \<Longrightarrow> segment xs a b ! k = xs ! (a + k)"
  by (simp add: segment_def add.commute)

lemma equal_iter_segment:
  assumes "b \<le> length xs" and "c + (b - a) \<le> length ys"
  shows "equal_iter (segment xs a b) (drop c ys) = Some (\<forall>k<b - a. xs ! (a + k) = ys ! (c + k))"
  using assms by (subst equal_iter_take) (auto simp: list_eq_iff_nth_eq nth_segment)

lemma all_less_add: "(\<forall>k<a + b. P k) \<longleftrightarrow> (\<forall>k<a. P k) \<and> (\<forall>k<b. P (a + k :: nat))"
proof -
  have "P k" if "\<forall>k<a. P k" "\<forall>k<b. P (a + k)" "k < a + b" for k
    using that by (cases "k < a") (auto dest: spec [of _ "k - a"])
  then show ?thesis by auto
qed

lemma ring_mod: "i + k < n \<Longrightarrow> (i + k) mod n = i + (k::nat)" "n \<le> i + k \<Longrightarrow> i + k < 2 * n \<Longrightarrow> (i + k) mod n = i + k - n"
  by (simp_all add: le_mod_geq)

text \<open>A run of distances that wraps in neither ring, or in one of them.\<close>

definition run_eq :: "'a list \<Rightarrow> nat \<Rightarrow> 'a list \<Rightarrow> nat \<Rightarrow> nat \<Rightarrow> bool" where
  "run_eq x a y c l \<longleftrightarrow> (\<forall>k<l. x ! (a + k) = y ! (c + k))"

lemma run_eq_mod:
  assumes "a + l \<le> n" and "c + l \<le> n" and "\<And>k. (xi + s + k) mod n = (a + k) mod n" and "\<And>k. (yi + s + k) mod n = (c + k) mod n"
  shows "(\<forall>k<l. x ! ((xi + (s + k)) mod n) = y ! ((yi + (s + k)) mod n)) \<longleftrightarrow> run_eq x a y c l"
  unfolding run_eq_def
proof (intro all_cong)
  fix k assume "k < l"
  then have "(a + k) mod n = a + k" "(c + k) mod n = c + k" using assms(1,2) by simp_all
  with assms(3) [of k] assms(4) [of k]
  show "(x ! ((xi + (s + k)) mod n) = y ! ((yi + (s + k)) mod n)) = (x ! (a + k) = y ! (c + k))" by (simp add: add.assoc)
qed

lemma run_eq_sym: "run_eq x a y c l = run_eq y c x a l"
  by (auto simp: run_eq_def)

lemma run_eq_drop [simp]: "c \<le> length y \<Longrightarrow> run_eq x a (drop c y) 0 l = run_eq x a y c l"
  by (simp add: run_eq_def)

lemma rings_two_runs:
  assumes "length x = n" and "length y = n" and "0 < yi" and "yi < n"
  shows "x = rotate yi y \<longleftrightarrow> run_eq x 0 y yi (n - yi) \<and> run_eq x (n - yi) y 0 yi"
proof -
  have "x = rotate yi y \<longleftrightarrow> (\<forall>k<(n - yi) + yi. x ! ((0 + k) mod n) = y ! ((yi + k) mod n))"
    using assms rotate_eq_nth [of x n y 0 yi] by simp
  also have "\<dots> \<longleftrightarrow> (\<forall>k<n - yi. x ! ((0 + (0 + k)) mod n) = y ! ((yi + (0 + k)) mod n)) \<and>
      (\<forall>k<yi. x ! ((0 + (n - yi + k)) mod n) = y ! ((yi + (n - yi + k)) mod n))"
    unfolding all_less_add by simp
  also have "(\<forall>k<n - yi. x ! ((0 + (0 + k)) mod n) = y ! ((yi + (0 + k)) mod n)) \<longleftrightarrow> run_eq x 0 y yi (n - yi)"
    using assms by (intro run_eq_mod) simp_all
  also have "(\<forall>k<yi. x ! ((0 + (n - yi + k)) mod n) = y ! ((yi + (n - yi + k)) mod n)) \<longleftrightarrow> run_eq x (n - yi) y 0 yi"
    using assms by (intro run_eq_mod) simp_all
  finally show ?thesis .
qed

lemma rings_three_runs:
  assumes "length x = n" and "length y = n" and "xi < yi" and "yi < n"
  shows "rotate xi x = rotate yi y \<longleftrightarrow>
    run_eq x xi y yi (n - yi) \<and> run_eq x (xi + (n - yi)) y 0 (yi - xi) \<and> run_eq x 0 y (yi - xi) xi"
proof -
  have "rotate xi x = rotate yi y \<longleftrightarrow> (\<forall>k<(n - yi) + ((yi - xi) + xi). x ! ((xi + k) mod n) = y ! ((yi + k) mod n))"
    using assms rotate_eq_nth [of x n y xi yi] by simp
  also have "\<dots> \<longleftrightarrow> (\<forall>k<n - yi. x ! ((xi + (0 + k)) mod n) = y ! ((yi + (0 + k)) mod n)) \<and>
      (\<forall>k<yi - xi. x ! ((xi + (n - yi + k)) mod n) = y ! ((yi + (n - yi + k)) mod n)) \<and>
      (\<forall>k<xi. x ! ((xi + (n - xi + k)) mod n) = y ! ((yi + (n - xi + k)) mod n))"
  proof -
    have eq: "n - yi + (yi - xi + k) = n - xi + k" for k using assms by simp
    show ?thesis unfolding all_less_add by (simp only: eq add_0)
  qed
  also have "(\<forall>k<n - yi. x ! ((xi + (0 + k)) mod n) = y ! ((yi + (0 + k)) mod n)) \<longleftrightarrow> run_eq x xi y yi (n - yi)"
    using assms by (intro run_eq_mod) simp_all
  also have "(\<forall>k<yi - xi. x ! ((xi + (n - yi + k)) mod n) = y ! ((yi + (n - yi + k)) mod n)) \<longleftrightarrow>
      run_eq x (xi + (n - yi)) y 0 (yi - xi)"
    using assms by (intro run_eq_mod) simp_all
  also have "(\<forall>k<xi. x ! ((xi + (n - xi + k)) mod n) = y ! ((yi + (n - xi + k)) mod n)) \<longleftrightarrow> run_eq x 0 y (yi - xi) xi"
  proof (rule run_eq_mod)
    fix k
    have "yi + (n - xi) + k = yi - xi + k + n" using assms by simp
    then show "(yi + (n - xi) + k) mod n = (yi - xi + k) mod n" by (simp only: mod_add_self2)
  qed (use assms in simp_all)
  finally show ?thesis .
qed

lemma equal_iter_run:
  "b \<le> length xs \<Longrightarrow> c + (b - a) \<le> length ys \<Longrightarrow> equal_iter (segment xs a b) (drop c ys) = Some (run_eq xs a ys c (b - a))"
  by (simp add: equal_iter_segment run_eq_def)

lemma equal_iter_run0:
  "b \<le> length xs \<Longrightarrow> b - a \<le> length ys \<Longrightarrow> equal_iter (segment xs a b) ys = Some (run_eq xs a ys 0 (b - a))"
  using equal_iter_run [of b xs 0 a ys] by simp

lemma ring_equal_rotate:
  assumes "length x = n" and "length y = n" and "xi < n" and "yi < n"
  shows "ring_equal n x xi y yi = Some (rotate xi x = rotate yi y)"
proof -
  consider "xi = yi" | "xi = 0" "0 < yi" | "0 < xi" "yi = 0" | "0 < xi" "xi < yi" | "0 < yi" "yi < xi" by linarith
  then show ?thesis
  proof cases
    case 1
    have "rotate (n - xi) (rotate xi z) = z" if "length z = n" for z using that assms(3) by (simp add: rotate_rotate rotate_id)
    then have "rotate xi x = rotate yi y \<longleftrightarrow> x = y" using 1 assms by metis
    moreover have "run_eq x 0 y 0 n \<longleftrightarrow> x = y" using assms by (auto simp: run_eq_def list_eq_iff_nth_eq)
    ultimately show ?thesis using 1 assms by (simp add: ring_equal_def equal_iter_run0)
  next
    case 2
    then show ?thesis using assms rings_two_runs [of x n y yi] by (simp add: ring_equal_def Let_def equal_iter_run equal_iter_run0)
  next
    case 3
    then have "rotate xi x = rotate yi y \<longleftrightarrow> y = rotate xi x" by auto
    with 3 show ?thesis using assms rings_two_runs [of y n x xi] run_eq_sym [of y] run_eq_sym [of y "n - xi"]
      by (simp add: ring_equal_def Let_def equal_iter_run equal_iter_run0)
  next
    case 4
    then show ?thesis using assms rings_three_runs [of x n y xi yi]
      by (simp add: ring_equal_def Let_def equal_iter_run equal_iter_run0)
  next
    case 5
    then show ?thesis using assms rings_three_runs [of y n x yi xi]
      by (auto simp: ring_equal_def Let_def equal_iter_run equal_iter_run0)
  qed
qed

section \<open>The shift register of a ring\<close>

definition ring_reg :: "'a list \<Rightarrow> nat \<Rightarrow> 'a list" where
  "ring_reg x i = rotate i x"

lemma ring_reg_nth: "k < length x \<Longrightarrow> ring_reg x i ! k = x ! ((i + k) mod length x)"
  by (simp add: ring_reg_def nth_rotate)

text \<open>Overwriting the oldest word and moving the index shifts the register by one word.\<close>

lemma ring_reg_push:
  assumes "i < length x"
  shows "ring_reg (x[i := v]) (Suc i mod length x) = tl (ring_reg x i) @ [v]"
proof -
  have "ring_reg x i = drop i x @ take i x" using assms by (simp add: ring_reg_def rotate_drop_take)
  then have "tl (ring_reg x i) = drop (Suc i) x @ take i x" using assms by (simp add: drop_Suc tl_drop)
  moreover have "ring_reg (x[i := v]) (Suc i mod length x) = rotate (Suc i) (x[i := v])"
    by (simp only: ring_reg_def rotate_conv_mod [of "Suc i"] length_list_update)
  moreover have "rotate (Suc i) (x[i := v]) = drop (Suc i) x @ take i x @ [v]"
  proof -
    have "x[i := v] = (take i x @ [v]) @ drop (Suc i) x" using assms by (simp add: upd_conv_take_nth_drop)
    moreover have "length (take i x @ [v]) = Suc i" using assms by simp
    ultimately show ?thesis using rotate_append [of "take i x @ [v]" "drop (Suc i) x"] by simp
  qed
  ultimately show ?thesis by simp
qed

section \<open>The Mersenne twister\<close>

record 'v mt =
  mt_w :: nat
  mt_n :: nat
  mt_m :: nat
  mt_r :: nat
  mt_a :: 'v
  mt_u :: nat
  mt_d :: 'v
  mt_s :: nat
  mt_b :: 'v
  mt_t :: nat
  mt_c :: 'v
  mt_l :: nat
  mt_f :: 'v

record 'v ring =
  ring_x :: "'v list"
  ring_i :: nat

definition engine_max :: "nat \<Rightarrow> 'a::len word" where
  "engine_max w = (if w = LENGTH('a) then NOT 0 else push_bit w 1 - 1)"

definition mt_params :: "'a::len word mt \<Rightarrow> bool" where
  "mt_params p \<longleftrightarrow>
     0 < mt_m p \<and> mt_m p \<le> mt_n p \<and> mt_w p \<le> LENGTH('a) \<and> 2 \<le> mt_w p \<and> mt_r p \<le> mt_w p \<and>
     mt_u p \<le> mt_w p \<and> mt_s p \<le> mt_w p \<and> mt_t p \<le> mt_w p \<and> mt_l p \<le> mt_w p \<and>
     0 < (engine_max (mt_w p) :: 'a word) \<and> mt_a p \<le> engine_max (mt_w p) \<and> mt_b p \<le> engine_max (mt_w p) \<and>
     mt_c p \<le> engine_max (mt_w p) \<and> mt_d p \<le> engine_max (mt_w p) \<and> mt_f p \<le> engine_max (mt_w p)"

definition mt_lshift :: "'a::len word mt \<Rightarrow> nat \<Rightarrow> 'a word \<Rightarrow> 'a word" where
  "mt_lshift p count x = (if count < mt_w p then push_bit count x AND engine_max (mt_w p) else 0)"

definition mt_rshift :: "nat \<Rightarrow> 'a::len word \<Rightarrow> 'a word" where
  "mt_rshift count x = (if count < LENGTH('a) then drop_bit count x else 0)"

text \<open>
  The product of the multiplier and a word: result types narrower than int are promoted to int,
  where a product of 2^31 or more is undefined; the wider ones are unsigned and wrap.
\<close>

definition mt_product :: "'a::len word \<Rightarrow> 'a word \<Rightarrow> 'a word option" where
  "mt_product a b = (if LENGTH('a) < 32 \<and> 2 ^ 31 \<le> unat a * unat b then None else Some (a * b))"

primrec mt_seed_words :: "'a::len word mt \<Rightarrow> 'a word \<Rightarrow> nat \<Rightarrow> 'a word list option" where
  "mt_seed_words p sd 0 = Some [sd AND engine_max (mt_w p)]"
| "mt_seed_words p sd (Suc i) =
     do { xs \<leftarrow> mt_seed_words p sd i;
          let y = xs ! i;
          v \<leftarrow> mt_product (mt_f p) (y XOR mt_rshift (mt_w p - 2) y);
          Some (xs @ [(v + of_nat (Suc i)) AND engine_max (mt_w p)]) }"

definition mt_seed :: "'a::len word mt \<Rightarrow> 'a word \<Rightarrow> 'a word ring option" where
  "mt_seed p sd = map_option (\<lambda>xs. \<lparr>ring_x = xs, ring_i = 0\<rparr>) (mt_seed_words p sd (mt_n p - 1))"

definition mt_mask :: "'a::len word mt \<Rightarrow> 'a word" where
  "mt_mask p = (if mt_r p = LENGTH('a) then NOT 0 else push_bit (mt_r p) 1 - 1)"

text \<open>The words of a seed sequence, one or two of them for each word of the state.\<close>

definition seq_words :: "nat \<Rightarrow> nat \<Rightarrow> (nat \<Rightarrow> u32 list) \<Rightarrow> 'a::len word list" where
  "seq_words w n generate =
     (let k = 1 + (w - 1) div 32; ar = generate (n * k)
      in map (\<lambda>i. (if k = 1 then ucast (ar ! i)
                   else ucast (ucast (ar ! (2 * i)) + push_bit 32 (ucast (ar ! (2 * i + 1)) :: u64))) AND engine_max w)
           [0..<n])"

definition mt_seed_seq :: "'a::len word mt \<Rightarrow> (nat \<Rightarrow> u32 list) \<Rightarrow> 'a word ring" where
  "mt_seed_seq p generate =
     (let x = seq_words (mt_w p) (mt_n p) generate
      in \<lparr>ring_x = if x ! 0 AND NOT (mt_mask p) = 0 \<and> \<not> list_ex (\<lambda>v. v \<noteq> 0) (drop 1 x)
            then x[0 := push_bit (mt_w p - 1) 1] else x,
          ring_i = 0\<rparr>)"

definition mt_next :: "'a::len word mt \<Rightarrow> 'a word ring \<Rightarrow> 'a word \<times> 'a word ring" where
  "mt_next p st =
     (let x = ring_x st;
          i = ring_i st;
          j = (i + 1) mod mt_n p;
          mask = mt_mask p;
          yp = (x ! i AND NOT mask) OR (x ! j AND mask);
          k = (i + mt_m p) mod mt_n p;
          x = x[i := x ! k XOR mt_rshift 1 yp XOR (mt_a p * (yp AND 1))];
          z = x ! i XOR (mt_rshift (mt_u p) (x ! i) AND mt_d p);
          z = z XOR (mt_lshift p (mt_s p) z AND mt_b p);
          z = z XOR (mt_lshift p (mt_t p) z AND mt_c p)
      in (z XOR mt_rshift (mt_l p) z, \<lparr>ring_x = x, ring_i = j\<rparr>))"

definition mt_equal :: "'a::len word mt \<Rightarrow> 'a word ring \<Rightarrow> 'a word ring \<Rightarrow> bool option" where
  "mt_equal p s t = ring_equal (mt_n p) (ring_x s) (ring_i s) (ring_x t) (ring_i t)"

section \<open>Subtraction with carry\<close>

record swc =
  swc_w :: nat
  swc_s :: nat
  swc_r :: nat

record 'v swc_ring = "'v ring" +
  swc_carry :: 'v

text \<open>The constructor from a number seeds through a linear congruential engine.\<close>

definition swc_params :: "nat \<Rightarrow> swc \<Rightarrow> bool" where
  "swc_params dt p \<longleftrightarrow> 0 < swc_w p \<and> swc_w p \<le> dt \<and> 0 < swc_s p \<and> swc_s p < swc_r p"

definition swc_seed_engine :: "nat \<Rightarrow> lcg" where
  "swc_seed_engine dt = \<lparr>lcg_w = dt, lcg_a = 40014, lcg_c = 0, lcg_m = 2147483563\<rparr>"

primrec swc_seed_words :: "swc \<Rightarrow> nat \<Rightarrow> int \<Rightarrow> 'a::len word list" where
  "swc_seed_words p 0 e = []"
| "swc_seed_words p (Suc i) e =
     (let g = swc_seed_engine LENGTH('a);
          (e0, e) = lcg_next g e
      in if (swc_w p - 1) div 32 = 0
         then (word_of_int e0 AND engine_max (swc_w p)) # swc_seed_words p i e
         else let (e1, e) = lcg_next g e
              in (ucast (word_of_int e0 + push_bit 32 (word_of_int e1) :: u64) AND engine_max (swc_w p))
                   # swc_seed_words p i e)"

definition swc_start :: "swc \<Rightarrow> 'a::len word list \<Rightarrow> 'a word swc_ring" where
  "swc_start p x = \<lparr>ring_x = x, ring_i = 0, swc_carry = (if x ! (swc_r p - 1) = 0 then 1 else 0)\<rparr>"

definition swc_seed :: "swc \<Rightarrow> 'a::len word \<Rightarrow> 'a word swc_ring" where
  "swc_seed p sd =
     (let g = swc_seed_engine LENGTH('a);
          e = lcg_seed g (uint (if sd = 0 then 19780503 else sd))
      in swc_start p (swc_seed_words p (swc_r p) e))"

definition swc_seed_seq :: "swc \<Rightarrow> (nat \<Rightarrow> u32 list) \<Rightarrow> 'a::len word swc_ring" where
  "swc_seed_seq p generate = swc_start p (seq_words (swc_w p) (swc_r p) generate)"

definition swc_next :: "swc \<Rightarrow> 'a::len word swc_ring \<Rightarrow> 'a word \<times> 'a word swc_ring" where
  "swc_next p st =
     (let x = ring_x st;
          i = ring_i st;
          c = swc_carry st;
          xs = x ! ((i + (swc_r p - swc_s p)) mod swc_r p);
          xr = x ! i;
          new_c = (if (if c = 0 then xs < xr else if xs \<noteq> 0 then xs \<le> xr else True) then 1 else 0);
          y = (xs - xr - c) AND engine_max (swc_w p)
      in (y, \<lparr>ring_x = x[i := y], ring_i = (i + 1) mod swc_r p, swc_carry = new_c\<rparr>))"

definition swc_equal :: "swc \<Rightarrow> 'a::len word swc_ring \<Rightarrow> 'a word swc_ring \<Rightarrow> bool option" where
  "swc_equal p s t =
     (if swc_carry s \<noteq> swc_carry t then Some False
      else ring_equal (swc_r p) (ring_x s) (ring_i s) (ring_x t) (ring_i t))"

text \<open>Discarding is calling; both classes, and the adaptors, have the same loop.\<close>

primrec engine_discard :: "('s \<Rightarrow> 'v \<times> 's) \<Rightarrow> nat \<Rightarrow> 's \<Rightarrow> 's" where
  "engine_discard next 0 e = e"
| "engine_discard next (Suc z) e = engine_discard next z (snd (next e))"

section \<open>Words below the maximum\<close>

lemma engine_max_mask: "(engine_max w :: 'a::len word) = mask w"
  by (cases "w = LENGTH('a)") (simp_all add: engine_max_def mask_eq_exp_minus_1 push_bit_of_1)

definition fits :: "nat \<Rightarrow> 'a::len word \<Rightarrow> bool" where
  "fits w v \<longleftrightarrow> (\<forall>i. bit v i \<longrightarrow> i < w)"

lemma fits_and1: "fits w a \<Longrightarrow> fits w (a AND b)"
  and fits_and2: "fits w b \<Longrightarrow> fits w (a AND b)"
  and fits_or: "fits w a \<Longrightarrow> fits w b \<Longrightarrow> fits w (a OR b)"
  and fits_xor: "fits w a \<Longrightarrow> fits w b \<Longrightarrow> fits w (a XOR b)"
  and fits_0: "fits w 0"
  and fits_max: "fits w (engine_max w)"
  by (auto simp: fits_def bit_and_iff bit_or_iff bit_xor_iff engine_max_mask bit_mask_iff)

lemma fits_drop: "fits w a \<Longrightarrow> fits w (mt_rshift k a)"
  unfolding fits_def mt_rshift_def by (auto simp: bit_drop_bit_eq)

lemma fits_le:
  assumes "w \<le> LENGTH('a)"
  shows "fits w (v :: 'a::len word) \<longleftrightarrow> v \<le> engine_max w"
proof -
  have "fits w v \<longleftrightarrow> take_bit w v = v"
    by (auto simp: fits_def bit_eq_iff bit_take_bit_iff dest: bit_imp_le_length)
  also have "\<dots> \<longleftrightarrow> take_bit w (unat v) = unat v" by (metis unsigned_take_bit_eq unsigned_word_eqI)
  also have "\<dots> \<longleftrightarrow> unat v < 2 ^ w" by (rule take_bit_nat_eq_self_iff)
  also have "\<dots> \<longleftrightarrow> unat v \<le> 2 ^ w - 1" by (simp add: less_eq_Suc_le le_diff_conv2)
  also have "(2::nat) ^ w - 1 = unat (mask w :: 'a word)"
  proof -
    have "unat (mask w :: 'a word) = take_bit w (mask LENGTH('a))"
      by (metis take_bit_minus_one_eq_mask unsigned_minus_1_eq_mask unsigned_take_bit_eq)
    also have "\<dots> = mask w" using assms by (simp add: take_bit_of_mask min_absorb1)
    finally show ?thesis by (simp only: mask_eq_exp_minus_1)
  qed
  finally show ?thesis by (simp add: engine_max_mask word_le_nat_alt)
qed

lemmas fits_intros = fits_and1 fits_or fits_xor fits_0 fits_drop

text \<open>The invariant of a ring engine of n words of w bits.\<close>

definition ring_inv :: "nat \<Rightarrow> nat \<Rightarrow> 'a::len word list \<Rightarrow> nat \<Rightarrow> bool" where
  "ring_inv w n x i \<longleftrightarrow> length x = n \<and> i < n \<and> (\<forall>v\<in>set x. fits w v)"

lemma ring_inv_update: "ring_inv w n x i \<Longrightarrow> fits w v \<Longrightarrow> ring_inv w n (x[i := v]) (Suc i mod n)"
  using set_update_subset_insert [of x i v] by (auto simp: ring_inv_def)

lemma ring_inv_nth: "ring_inv w n x i \<Longrightarrow> j < n \<Longrightarrow> fits w (x ! j)"
  by (simp add: ring_inv_def)

section \<open>The shift register of the Mersenne twister\<close>

text \<open>
  The recurrence: the new word is the one m places after the oldest, xored with the twisted
  concatenation of the w - r upper bits of the oldest and the r lower bits of the next; the value
  returned is the new word tempered.
\<close>

definition mt_twist :: "'a::len word mt \<Rightarrow> 'a word list \<Rightarrow> 'a word" where
  "mt_twist p reg =
     (let y = (reg ! 0 AND NOT (mask (mt_r p))) OR take_bit (mt_r p) (reg ! (1 mod mt_n p))
      in reg ! (mt_m p mod mt_n p) XOR drop_bit 1 y XOR (if odd y then mt_a p else 0))"

definition mt_temper :: "'a::len word mt \<Rightarrow> 'a word \<Rightarrow> 'a word" where
  "mt_temper p v =
     (let z = v XOR (drop_bit (mt_u p) v AND mt_d p);
          z = z XOR (take_bit (mt_w p) (push_bit (mt_s p) z) AND mt_b p);
          z = z XOR (take_bit (mt_w p) (push_bit (mt_t p) z) AND mt_c p)
      in z XOR drop_bit (mt_l p) z)"

definition mt_shift :: "'a::len word mt \<Rightarrow> 'a word list \<Rightarrow> 'a word \<times> 'a word list" where
  "mt_shift p reg = (let v = mt_twist p reg in (mt_temper p v, tl reg @ [v]))"

definition mt_reg :: "'a ring \<Rightarrow> 'a list" where
  "mt_reg st = ring_reg (ring_x st) (ring_i st)"

definition mt_inv :: "'a::len word mt \<Rightarrow> 'a word ring \<Rightarrow> bool" where
  "mt_inv p st \<longleftrightarrow> ring_inv (mt_w p) (mt_n p) (ring_x st) (ring_i st)"

lemma mt_rshift_drop: "mt_rshift k (x :: 'a::len word) = drop_bit k x"
  by (auto simp: mt_rshift_def bit_eq_iff bit_drop_bit_eq dest: bit_imp_le_length)

lemma mt_lshift_push: "mt_lshift p k x = take_bit (mt_w p) (push_bit k x)"
  by (auto simp: mt_lshift_def engine_max_mask take_bit_eq_mask bit_eq_iff bit_and_iff bit_mask_iff bit_push_bit_iff)

lemma mt_mask_mask: "mt_mask p = mask (mt_r p)"
  unfolding mt_mask_def engine_max_def [of "mt_r p", symmetric] by (rule engine_max_mask)

lemma times_and_one: "a * (y AND 1) = (if odd y then a else 0)" for a y :: "'a::len word"
  by (simp add: and_one_eq odd_iff_mod_2_eq_one even_iff_mod_2_eq_zero)

lemma mt_next_shift:
  assumes "mt_inv p st"
  shows "mt_shift p (mt_reg st) = (fst (mt_next p st), mt_reg (snd (mt_next p st)))"
proof -
  define x i n where "x = ring_x st" and "i = ring_i st" and "n = mt_n p"
  have n: "length x = n" "i < n" using assms by (simp_all add: mt_inv_def ring_inv_def x_def i_def n_def)
  have nth: "mt_reg st ! k = x ! ((i + k) mod n)" if "k < n" for k
    using that n by (simp add: mt_reg_def ring_reg_nth x_def i_def)
  define y where "y = (x ! i AND NOT (mask (mt_r p))) OR (x ! ((i + 1) mod n) AND mask (mt_r p))"
  define v where "v = x ! ((i + mt_m p) mod n) XOR drop_bit 1 y XOR (if odd y then mt_a p else 0)"
  have "mt_twist p (mt_reg st) = v"
    using n nth [of 0] nth [of "1 mod n"] nth [of "mt_m p mod n"]
    by (simp add: mt_twist_def Let_def n_def [symmetric] v_def y_def mod_add_right_eq take_bit_eq_mask)
  moreover have "mt_next p st = (mt_temper p v, \<lparr>ring_x = x[i := v], ring_i = Suc i mod n\<rparr>)"
  proof -
    have i: "i < length x" using n by simp
    show ?thesis
      unfolding mt_next_def mt_temper_def Let_def mt_rshift_drop mt_lshift_push mt_mask_mask times_and_one
        x_def [symmetric] i_def [symmetric] n_def [symmetric] y_def [symmetric] v_def [symmetric]
      by (simp only: nth_list_update_eq [OF i] Suc_eq_plus1)
  qed
  moreover have "ring_reg (x[i := v]) (Suc i mod n) = tl (mt_reg st) @ [v]"
    using n ring_reg_push [of i x v] by (simp add: mt_reg_def x_def i_def)
  ultimately show ?thesis by (simp add: mt_shift_def mt_reg_def)
qed

lemma mt_inv_next:
  assumes "mt_params p" and "mt_inv p st"
  shows "mt_inv p (snd (mt_next p st)) \<and> fits (mt_w p) (fst (mt_next p st))"
proof -
  define x i n w where "x = ring_x st" and "i = ring_i st" and "n = mt_n p" and "w = mt_w p"
  have inv: "ring_inv w n x i" using assms(2) by (simp add: mt_inv_def x_def i_def n_def w_def)
  then have n: "i < n" by (simp add: ring_inv_def)
  then have mods: "(i + 1) mod n < n" "(i + mt_m p) mod n < n" by (auto intro: mod_less_divisor)
  have a: "fits w (mt_a p)" "fits w (mt_b p)" "fits w (mt_c p)"
    using assms(1) by (simp_all add: mt_params_def w_def fits_le)
  define y where "y = (x ! i AND NOT (mt_mask p)) OR (x ! ((i + 1) mod n) AND mt_mask p)"
  define v where "v = x ! ((i + mt_m p) mod n) XOR mt_rshift 1 y XOR (mt_a p * (y AND 1))"
  have "fits w y" unfolding y_def using ring_inv_nth [OF inv n] ring_inv_nth [OF inv mods(1)] by (intro fits_or fits_and1)
  moreover have "fits w (mt_a p * (y AND 1))" using a(1) by (simp add: times_and_one fits_0)
  ultimately have v: "fits w v" unfolding v_def using ring_inv_nth [OF inv mods(2)] by (intro fits_xor fits_drop)
  define z0 where "z0 = v XOR (mt_rshift (mt_u p) v AND mt_d p)"
  define z1 where "z1 = z0 XOR (mt_lshift p (mt_s p) z0 AND mt_b p)"
  define z2 where "z2 = z1 XOR (mt_lshift p (mt_t p) z1 AND mt_c p)"
  have "fits w z0" unfolding z0_def using v by (intro fits_xor fits_and1 fits_drop)
  then have "fits w z1" unfolding z1_def using a(2) by (intro fits_xor fits_and2)
  then have z: "fits w z2" unfolding z2_def using a(3) by (intro fits_xor fits_and2)
  have i: "i < length x" using inv by (simp add: ring_inv_def)
  have "mt_next p st = (z2 XOR mt_rshift (mt_l p) z2, \<lparr>ring_x = x[i := v], ring_i = Suc i mod n\<rparr>)"
    unfolding mt_next_def Let_def x_def [symmetric] i_def [symmetric] n_def [symmetric] y_def [symmetric] v_def [symmetric]
    by (simp only: nth_list_update_eq [OF i] Suc_eq_plus1 z0_def z1_def z2_def)
  moreover have "fits w (z2 XOR mt_rshift (mt_l p) z2)" using z by (intro fits_xor fits_drop)
  ultimately show ?thesis
    using ring_inv_update [OF inv v] by (simp add: mt_inv_def n_def [symmetric] w_def [symmetric])
qed

text \<open>The words of the seed, by the recurrence on natural numbers.\<close>

definition mt_seed_spec :: "'a::len word mt \<Rightarrow> 'a word \<Rightarrow> 'a word list \<Rightarrow> bool" where
  "mt_seed_spec p sd xs \<longleftrightarrow> unat (xs ! 0) = unat sd mod 2 ^ mt_w p \<and>
     (\<forall>i. Suc i < length xs \<longrightarrow> unat (xs ! Suc i) =
       (unat (mt_f p) * (unat (xs ! i) XOR unat (xs ! i) div 2 ^ (mt_w p - 2)) + Suc i) mod 2 ^ mt_w p)"

lemma unat_and_max: "w \<le> LENGTH('a) \<Longrightarrow> unat (x AND engine_max w :: 'a::len word) = unat x mod 2 ^ w"
  by (simp add: engine_max_mask take_bit_eq_mask [symmetric] unsigned_take_bit_eq) (simp add: take_bit_eq_mod)

lemma mod_pow2_mod:
  assumes "w \<le> n"
  shows "(a mod 2 ^ n) mod 2 ^ w = a mod (2 ^ w :: nat)"
  using assms by (simp add: mod_mod_cancel le_imp_power_dvd)

lemma unat_mt_rshift: "unat (mt_rshift k (y :: 'a::len word)) = unat y div 2 ^ k"
proof -
  have "take_bit LENGTH('a) (unat y) = unat y" by (rule take_bit_nat_eq_self) (rule unsigned_less)
  then show ?thesis by (simp add: mt_rshift_drop unsigned_drop_bit_eq) (simp add: drop_bit_eq_div)
qed

lemma mt_seed_word:
  fixes y :: "'a::len word"
  assumes "w \<le> LENGTH('a)"
  shows "unat ((f * (y XOR mt_rshift k y) + of_nat i) AND engine_max w) = (unat f * (unat y XOR unat y div 2 ^ k) + i) mod 2 ^ w"
proof -
  define v where "v = y XOR mt_rshift k y"
  have v: "unat v = unat y XOR unat y div 2 ^ k" by (simp add: v_def unsigned_xor_eq unat_mt_rshift)
  have "unat (f * v + of_nat i) = (unat f * unat v + i) mod 2 ^ LENGTH('a)"
    by (simp add: unat_word_ariths unsigned_of_nat take_bit_eq_mod mod_add_eq)
  then show ?thesis using assms by (simp add: unat_and_max mod_pow2_mod flip: v v_def)
qed

lemma mt_seed_words_spec:
  fixes p :: "'a::len word mt"
  assumes "mt_w p \<le> LENGTH('a)"
  shows "mt_seed_words p sd k = Some xs \<Longrightarrow> length xs = Suc k \<and> (\<forall>v\<in>set xs. fits (mt_w p) v) \<and> mt_seed_spec p sd xs"
proof (induction k arbitrary: xs)
  case 0
  then show ?case using assms by (auto simp: mt_seed_spec_def unat_and_max fits_and2 fits_max)
next
  case (Suc k)
  then obtain ys where ys: "mt_seed_words p sd k = Some ys"
      and xs: "xs = ys @ [(mt_f p * (ys ! k XOR mt_rshift (mt_w p - 2) (ys ! k)) + of_nat (Suc k)) AND engine_max (mt_w p)]"
    by (auto simp: bind_eq_Some_conv Let_def mt_product_def split: if_splits)
  have "unat (xs ! Suc k) = (unat (mt_f p) * (unat (xs ! k) XOR unat (xs ! k) div 2 ^ (mt_w p - 2)) + Suc k) mod 2 ^ mt_w p"
    using Suc.IH [OF ys] mt_seed_word [OF assms, of "mt_f p" "ys ! k" "mt_w p - 2" "Suc k"] by (simp add: xs nth_append)
  with Suc.IH [OF ys] show ?case
    by (auto simp: xs mt_seed_spec_def nth_append less_Suc_eq fits_and2 fits_max)
qed

lemma mt_seed_words_defined: "32 \<le> LENGTH('a) \<Longrightarrow> \<exists>xs. mt_seed_words (p :: 'a::len word mt) sd k = Some xs"
  by (induction k) (auto simp: mt_product_def Let_def)

lemma mt_seed_defined: "32 \<le> LENGTH('a) \<Longrightarrow> \<exists>st. mt_seed (p :: 'a::len word mt) sd = Some st"
  using mt_seed_words_defined [of p sd "mt_n p - 1"] by (auto simp: mt_seed_def)

lemma mt_seed_words_none: "k \<le> l \<Longrightarrow> mt_seed_words p sd k = None \<Longrightarrow> mt_seed_words p sd l = None"
  by (induction l) (auto simp: le_Suc_eq)

lemma mt_seed_undefined:
  fixes p :: "'a::len word mt"
  assumes "mt_params p" and "LENGTH('a) < 32" and "1 < mt_n p"
    and "2 ^ 31 \<le> unat (mt_f p) * (unat sd mod 2 ^ mt_w p XOR unat sd mod 2 ^ mt_w p div 2 ^ (mt_w p - 2))"
  shows "mt_seed p sd = None"
proof -
  define y where "y = sd AND engine_max (mt_w p)"
  have "unat y = unat sd mod 2 ^ mt_w p" using assms(1) by (simp add: y_def unat_and_max mt_params_def)
  then have "unat (y XOR mt_rshift (mt_w p - 2) y) = unat sd mod 2 ^ mt_w p XOR unat sd mod 2 ^ mt_w p div 2 ^ (mt_w p - 2)"
    by (simp add: unsigned_xor_eq unat_mt_rshift)
  then have none: "mt_product (mt_f p) (y XOR mt_rshift (mt_w p - 2) y) = None" using assms(2,4) unfolding mt_product_def
    by (simp only: simp_thms if_True)
  have "mt_seed_words p sd (Suc 0) = None"
    by (simp only: mt_seed_words.simps bind.bind_lunit Let_def nth_Cons_0 none bind.bind_lzero flip: y_def)
  then have "mt_seed_words p sd (mt_n p - 1) = None" by (rule mt_seed_words_none [rotated]) (use assms(3) in simp)
  then show ?thesis by (simp add: mt_seed_def)
qed

lemma mt_inv_seed: "mt_params p \<Longrightarrow> mt_seed p sd = Some st \<Longrightarrow> mt_inv p st \<and> mt_seed_spec p sd (ring_x st) \<and> ring_i st = 0"
  using mt_seed_words_spec [of p sd "mt_n p - 1"] by (auto simp: mt_inv_def ring_inv_def mt_seed_def mt_params_def)

lemma length_seq_words [simp]: "length (seq_words w n g) = n"
  by (simp add: seq_words_def Let_def)

lemma fits_seq_words: "v \<in> set (seq_words w n g) \<Longrightarrow> fits w v"
  by (auto simp: seq_words_def Let_def fits_and2 fits_max)

lemma bit_two_power: "bit (2 ^ k :: 'a::len word) i \<longleftrightarrow> i = k \<and> k < LENGTH('a)"
  by (auto simp: bit_exp_iff)

lemma mt_inv_seed_seq: "mt_params p \<Longrightarrow> mt_inv p (mt_seed_seq p g)"
proof -
  assume p: "mt_params p"
  define x :: "'a word list" where "x = seq_words (mt_w p) (mt_n p) g"
  have x: "length x = mt_n p" "\<forall>v\<in>set x. fits (mt_w p) v" by (simp_all add: x_def fits_seq_words)
  have "fits (mt_w p) (push_bit (mt_w p - 1) 1 :: 'a word)"
    using p by (auto simp: fits_def bit_two_power mt_params_def)
  with x have "\<forall>v\<in>set (x[0 := push_bit (mt_w p - 1) 1]). fits (mt_w p) v"
    using set_update_subset_insert [of x 0 "push_bit (mt_w p - 1) 1"] by auto
  with x p show ?thesis by (auto simp: mt_inv_def ring_inv_def mt_seed_seq_def Let_def x_def [symmetric] mt_params_def)
qed

text \<open>
  The states in which the w - r upper bits of the oldest word and all the other words are zero:
  from such a state the recurrence only produces zeros.
\<close>

definition mt_stuck :: "'a::len word mt \<Rightarrow> 'a word ring \<Rightarrow> bool" where
  "mt_stuck p st \<longleftrightarrow> take_bit (mt_w p - mt_r p) (drop_bit (mt_r p) (mt_reg st ! 0)) = 0 \<and> (\<forall>v\<in>set (tl (mt_reg st)). v = 0)"

lemma mt_seed_seq_live:
  fixes p :: "'a::len word mt"
  assumes "mt_params p" and "mt_r p < mt_w p"
  shows "\<not> mt_stuck p (mt_seed_seq p g)"
proof
  define x :: "'a word list" where "x = seq_words (mt_w p) (mt_n p) g"
  define w r where "w = mt_w p" and "r = mt_r p"
  have x: "length x = mt_n p" "\<forall>v\<in>set x. fits w v" by (simp_all add: x_def w_def fits_seq_words)
  have len: "0 < length x" "r < w" "w \<le> LENGTH('a)" using assms x(1) by (simp_all add: mt_params_def w_def r_def)
  have upper: "take_bit (w - r) (drop_bit r v) \<noteq> 0" if "bit v i" "r \<le> i" "i < w" for v :: "'a word" and i
  proof
    assume "take_bit (w - r) (drop_bit r v) = 0"
    then have "\<not> bit (take_bit (w - r) (drop_bit r v)) (i - r)" by simp
    with that show False by (simp add: bit_take_bit_iff bit_drop_bit_eq)
  qed
  have reg: "mt_reg (mt_seed_seq p g) = ring_x (mt_seed_seq p g)" by (simp add: mt_reg_def mt_seed_seq_def Let_def ring_reg_def)
  assume stuck: "mt_stuck p (mt_seed_seq p g)"
  show False
  proof (cases "x ! 0 AND NOT (mt_mask p) = 0 \<and> \<not> list_ex (\<lambda>v. v \<noteq> 0) (drop 1 x)")
    case True
    then have "mt_reg (mt_seed_seq p g) ! 0 = push_bit (w - 1) 1"
      unfolding reg using len(1) by (simp add: mt_seed_seq_def Let_def x_def [symmetric] w_def)
    moreover have "r \<le> w - 1" using len by simp
    ultimately show False using stuck upper [of "push_bit (w - 1) 1" "w - 1"] len
      by (auto simp add: mt_stuck_def bit_two_power w_def r_def)
  next
    case False
    then have rx: "mt_reg (mt_seed_seq p g) = x"
      unfolding reg by (simp only: mt_seed_seq_def Let_def x_def [symmetric] if_False ring.select_convs)
    from stuck have "\<not> list_ex (\<lambda>v. v \<noteq> 0) (drop 1 x)" by (simp add: mt_stuck_def rx drop_Suc list_ex_iff)
    with False have "x ! 0 AND NOT (mt_mask p) \<noteq> 0" by blast
    then obtain i where "bit (x ! 0 AND NOT (mt_mask p)) i" by (metis bit_eqI bit_0_eq bot_apply bot_bool_def)
    then have "bit (x ! 0) i" "r \<le> i" by (auto simp: mt_mask_mask bit_and_iff bit_not_iff bit_mask_iff r_def dest: bit_imp_le_length)
    moreover from this(1) have "i < w" using x len(1) by (auto simp: fits_def)
    ultimately show False using stuck upper [of "x ! 0" i] by (simp add: mt_stuck_def rx w_def r_def)
  qed
qed

section \<open>The shift register of subtraction with carry\<close>

text \<open>The recurrence on integers: the carry says whether the difference was negative.\<close>

definition swc_shift :: "swc \<Rightarrow> int list \<times> int \<Rightarrow> int \<times> (int list \<times> int)" where
  "swc_shift p s =
     (let reg = fst s;
          y = reg ! (swc_r p - swc_s p) - reg ! 0 - snd s
      in (y mod 2 ^ swc_w p, (tl reg @ [y mod 2 ^ swc_w p], if y < 0 then 1 else 0)))"

definition swc_abs :: "'a::len word swc_ring \<Rightarrow> int list \<times> int" where
  "swc_abs st = (map uint (ring_reg (ring_x st) (ring_i st)), uint (swc_carry st))"

definition swc_inv :: "swc \<Rightarrow> 'a::len word swc_ring \<Rightarrow> bool" where
  "swc_inv p st \<longleftrightarrow> ring_inv (swc_w p) (swc_r p) (ring_x st) (ring_i st) \<and> (swc_carry st = 0 \<or> swc_carry st = 1)"

lemma uint_and_max:
  assumes "w \<le> LENGTH('a)"
  shows "uint ((a - b - c) AND engine_max w :: 'a::len word) = (uint a - uint b - uint c) mod 2 ^ w"
proof -
  have d: "(2::int) ^ w dvd 2 ^ LENGTH('a)" using assms by (simp add: le_imp_power_dvd)
  have "uint ((a - b - c) AND engine_max w) = uint (a - b - c) mod 2 ^ w"
    by (simp add: engine_max_mask take_bit_eq_mask [symmetric] unsigned_take_bit_eq) (simp add: take_bit_eq_mod)
  also have "\<dots> = (uint a - uint b - uint c) mod 2 ^ w"
    using d by (simp add: uint_word_ariths mod_mod_cancel mod_diff_left_eq)
  finally show ?thesis .
qed

lemma swc_next_shift:
  fixes st :: "'a::len word swc_ring"
  assumes p: "swc_params LENGTH('a) p" and inv: "swc_inv p st"
  shows "swc_shift p (swc_abs st) = (uint (fst (swc_next p st)), swc_abs (snd (swc_next p st)))"
proof -
  define x i r c where "x = ring_x st" and "i = ring_i st" and "r = swc_r p" and "c = swc_carry st"
  have r: "length x = r" "i < r" "c = 0 \<or> c = 1" "r - swc_s p < r" "swc_w p \<le> LENGTH('a)"
    using p inv by (auto simp: swc_inv_def ring_inv_def swc_params_def x_def i_def r_def c_def)
  define a b where "a = x ! ((i + (r - swc_s p)) mod r)" and "b = x ! i"
  define y where "y = (a - b - c) AND engine_max (swc_w p)"
  have reg: "fst (swc_abs st) ! (r - swc_s p) = uint a" "fst (swc_abs st) ! 0 = uint b"
    using r ring_reg_nth [of "r - swc_s p" x i] ring_reg_nth [of 0 x i]
    by (simp_all add: swc_abs_def x_def [symmetric] i_def [symmetric] a_def b_def ring_reg_def)
  have y: "uint y = (uint a - uint b - uint c) mod 2 ^ swc_w p" unfolding y_def using r(5) by (rule uint_and_max)
  have carry: "(if c = 0 then a < b else if a \<noteq> 0 then a \<le> b else True) \<longleftrightarrow> uint a - uint b - uint c < 0"
    using r(3) less_le_trans [OF _ uint_ge_0, of "- 1" b] by (auto simp: word_less_def word_le_def)
  have "swc_next p st = (y, \<lparr>ring_x = x[i := y], ring_i = Suc i mod r,
      swc_carry = if uint a - uint b - uint c < 0 then 1 else 0\<rparr>)"
    unfolding swc_next_def Let_def x_def [symmetric] i_def [symmetric] r_def [symmetric] c_def [symmetric]
      a_def [symmetric] b_def [symmetric] y_def [symmetric] carry by simp
  moreover have "ring_reg (x[i := y]) (Suc i mod r) = tl (ring_reg x i) @ [y]"
    using r ring_reg_push [of i x y] by simp
  moreover have "snd (swc_abs st) = uint c" "fst (swc_abs st) = map uint (ring_reg x i)"
    by (simp_all add: swc_abs_def x_def i_def c_def)
  ultimately show ?thesis
    unfolding swc_shift_def Let_def r_def [symmetric] reg using y by (simp add: swc_abs_def map_tl)
qed

lemma swc_inv_next: "swc_inv p st \<Longrightarrow> swc_inv p (snd (swc_next p st)) \<and> fits (swc_w p) (fst (swc_next p st))"
  using ring_inv_update [of "swc_w p" "swc_r p" "ring_x st" "ring_i st"]
  by (auto simp: swc_inv_def swc_next_def Let_def fits_and2 fits_max)

lemma swc_start_inv:
  "0 < swc_r p \<Longrightarrow> length x = swc_r p \<Longrightarrow> (\<And>v. v \<in> set x \<Longrightarrow> fits (swc_w p) v) \<Longrightarrow> swc_inv p (swc_start p x)"
  by (simp add: swc_inv_def swc_start_def ring_inv_def)

lemma length_swc_seed_words [simp]: "length (swc_seed_words p n e) = n"
  by (induction n arbitrary: e) (simp_all add: Let_def split: prod.splits)

lemma fits_swc_seed_words: "v \<in> set (swc_seed_words p n e) \<Longrightarrow> fits (swc_w p) v"
  by (induction n arbitrary: e) (auto simp: Let_def fits_and2 fits_max split: prod.splits if_splits)

section \<open>Properties\<close>


definition mt19937 :: "64 word mt" where
  "mt19937 = \<lparr>mt_w = 32, mt_n = 624, mt_m = 397, mt_r = 31, mt_a = 0x9908b0df, mt_u = 11, mt_d = 0xffffffff,
     mt_s = 7, mt_b = 0x9d2c5680, mt_t = 15, mt_c = 0xefc60000, mt_l = 18, mt_f = 1812433253\<rparr>"

definition mt19937_64 :: "64 word mt" where
  "mt19937_64 = \<lparr>mt_w = 64, mt_n = 312, mt_m = 156, mt_r = 31, mt_a = 0xb5026f5aa96619e9, mt_u = 29,
     mt_d = 0x5555555555555555, mt_s = 17, mt_b = 0x71d67fffeda60000, mt_t = 37, mt_c = 0xfff7eee000000000,
     mt_l = 43, mt_f = 6364136223846793005\<rparr>"

lemma mt19937_params: "mt_params mt19937" "mt_params mt19937_64"
  by (simp_all add: mt_params_def mt19937_def mt19937_64_def engine_max_def push_bit_eq_mult word_gt_0)


text \<open>
  C19. Subtraction with carry, for all parameters the class accepts: every way of seeding
  establishes the invariant, a call keeps it, and a call is a step of the recurrence on integers:
  the new word is the difference of the two lagged words and the carry, modulo 2 ^ w, and the new
  carry says whether the difference was negative. The carry test of the code, on wrapping
  unsigned values, never misjudges the sign.
\<close>

theorem swc_refines_recurrence:
  fixes st :: "'a::len word swc_ring"
  assumes "swc_params LENGTH('a) p"
  shows "swc_inv p (swc_seed p sd :: 'a word swc_ring) \<and> swc_inv p (swc_seed_seq p generate :: 'a word swc_ring) \<and>
    (swc_inv p st \<longrightarrow>
      swc_inv p (snd (swc_next p st)) \<and>
      swc_shift p (swc_abs st) = (uint (fst (swc_next p st)), swc_abs (snd (swc_next p st))))"
proof -
  have "0 < swc_r p" using assms by (simp add: swc_params_def)
  then have "swc_inv p (swc_start p (swc_seed_words p (swc_r p) e) :: 'a word swc_ring)" for e
    using fits_swc_seed_words by (intro swc_start_inv) simp_all
  moreover have "swc_inv p (swc_start p (seq_words (swc_w p) (swc_r p) generate) :: 'a word swc_ring)"
    using \<open>0 < swc_r p\<close> fits_seq_words by (intro swc_start_inv) simp_all
  ultimately show ?thesis
    using swc_inv_next [of p st] swc_next_shift [OF assms, of st] by (simp add: swc_seed_def swc_seed_seq_def Let_def)
qed

definition ranlux24_base :: swc where
  "ranlux24_base = \<lparr>swc_w = 24, swc_s = 10, swc_r = 24\<rparr>"

definition ranlux48_base :: swc where
  "ranlux48_base = \<lparr>swc_w = 48, swc_s = 5, swc_r = 12\<rparr>"

theorem swc_refines_recurrence_witness: "swc_inv ranlux24_base (swc_seed ranlux24_base 1 :: 64 word swc_ring)"
proof -
  have "swc_params LENGTH(64) ranlux24_base" by (simp add: swc_params_def ranlux24_base_def)
  then show ?thesis using swc_refines_recurrence [where 'a = 64] by blast
qed

text \<open>
  C20. The comparison of two engines decides whether their shift registers (and, with a carry, the
  carries) are equal, so engines that produce the same sequence compare equal although their
  rings start at different indices; it reads no element outside the two arrays.
\<close>

theorem engine_equality_correct:
  fixes u v :: "'b::len word swc_ring"
  assumes "mt_inv p s" and "mt_inv p t" and "swc_inv q u" and "swc_inv q v"
  shows "mt_equal p s t = Some (mt_reg s = mt_reg t) \<and> swc_equal q u v = Some (swc_abs u = swc_abs v)"
proof -
  have "mt_equal p s t = Some (mt_reg s = mt_reg t)"
    using assms(1,2) by (simp add: mt_equal_def mt_inv_def ring_inv_def mt_reg_def ring_reg_def ring_equal_rotate)
  moreover have "swc_equal q u v = Some (swc_abs u = swc_abs v)"
    using assms(3,4) inj_map_eq_map [OF injI, of "uint :: 'b word \<Rightarrow> int"]
    by (auto simp: swc_equal_def swc_inv_def ring_inv_def swc_abs_def ring_reg_def ring_equal_rotate)
  ultimately show ?thesis by simp
qed

theorem engine_equality_correct_witness:
  "\<exists>s. mt_seed mt19937 1 = Some s \<and> mt_equal mt19937 s s = Some True"
proof -
  have "swc_params LENGTH(64) ranlux24_base" by (simp add: swc_params_def ranlux24_base_def)
  then have c: "swc_inv ranlux24_base (swc_seed_seq ranlux24_base (\<lambda>n. replicate n 0) :: 64 word swc_ring)"
    unfolding swc_seed_seq_def by (intro swc_start_inv) (auto simp: swc_params_def fits_seq_words)
  obtain s where s: "mt_seed mt19937 1 = Some s" using mt_seed_defined [of mt19937 1] by auto
  then have i: "mt_inv mt19937 s" using mt_inv_seed [OF mt19937_params(1)] by blast
  have "mt_equal mt19937 s s = Some True" using engine_equality_correct [OF i i c c] by (simp only: simp_thms)
  with s show ?thesis by blast
qed

end
