(* ===== verification/CxxAdaptors.thy ===== *)
theory CxxAdaptors
  imports CxxEngines DeviceFloat "HOL-Library.Multiset"
begin

text \<open>
  The engine adaptors of the C++ library: \<open>discard_block_engine.h\<close>, \<open>shuffle_order_engine.h\<close>,
  ranlux.h and \<open>knuth_b.h\<close> in include/linux/c++/v1/__random. The adapted engine is a parameter,
  its call operator and the least and greatest value it returns, as the template parameter
  \<open>_Engine\<close> is in the code. Results are of an unsigned type of at most 64 bits and are integers
  here. The stream operators are not modelled.
\<close>

section \<open>\<open>discard_block_engine.h\<close>\<close>

record 's discard_block =
  db_e :: 's
  db_n :: int

text \<open>The constructors and the seed functions: the engine they construct or seed, and no value used yet.\<close>

definition discard_block_start :: "'s \<Rightarrow> 's discard_block" where
  "discard_block_start e = \<lparr>db_e = e, db_n = 0\<rparr>"

definition discard_block_next :: "('s \<Rightarrow> 'v \<times> 's) \<Rightarrow> nat \<Rightarrow> nat \<Rightarrow> 's discard_block \<Rightarrow> 'v \<times> 's discard_block" where
  "discard_block_next gen p r st =
     (let st = (if int r \<le> db_n st then \<lparr>db_e = engine_discard gen (p - r) (db_e st), db_n = 0\<rparr> else st);
          st = st\<lparr>db_n := db_n st + 1\<rparr>;
          (v, e) = gen (db_e st)
      in (v, st\<lparr>db_e := e\<rparr>))"

definition discard_block_discard :: "('s \<Rightarrow> 'v \<times> 's) \<Rightarrow> nat \<Rightarrow> nat \<Rightarrow> nat \<Rightarrow> 's discard_block \<Rightarrow> 's discard_block" where
  "discard_block_discard gen p r = engine_discard (discard_block_next gen p r)"

definition discard_block_equal :: "('s \<Rightarrow> 's \<Rightarrow> bool) \<Rightarrow> 's discard_block \<Rightarrow> 's discard_block \<Rightarrow> bool" where
  "discard_block_equal eq x y \<longleftrightarrow> db_n x = db_n y \<and> eq (db_e x) (db_e y)"

text \<open>ranlux.h: the block and the values used of each block.\<close>

definition ranlux24_next :: "64 word swc_ring discard_block \<Rightarrow> 64 word \<times> 64 word swc_ring discard_block" where
  "ranlux24_next = discard_block_next (swc_next ranlux24_base) 223 23"

definition ranlux48_next :: "64 word swc_ring discard_block \<Rightarrow> 64 word \<times> 64 word swc_ring discard_block" where
  "ranlux48_next = discard_block_next (swc_next ranlux48_base) 389 11"

section \<open>\<open>shuffle_order_engine.h\<close>\<close>

fun ugcd :: "nat \<Rightarrow> nat \<Rightarrow> nat" where
  "ugcd x y = (if y = 0 then x else ugcd y (x mod y))"

definition uratio_num :: "nat \<Rightarrow> nat \<Rightarrow> nat" where
  "uratio_num n d = n div ugcd n d"

definition uratio_den :: "nat \<Rightarrow> nat \<Rightarrow> nat" where
  "uratio_den n d = d div ugcd n d"

record 's shuffle_order =
  so_e :: 's
  so_v :: "int list"
  so_y :: int

definition so_R :: "int \<Rightarrow> int \<Rightarrow> nat" where
  "so_R lo hi = nat ((hi - lo + 1) mod 2 ^ 64)"

text \<open>The conversion of a nonnegative double to an integer, which truncates.\<close>

fun fp_to_size :: "fp \<Rightarrow> nat" where
  "fp_to_size (FFin s m e) = (if 0 \<le> e then m * 2 ^ nat e else m div 2 ^ nat (- e))"
| "fp_to_size x = 0"

text \<open>The index j of \<open>__evalf\<close>, computed in double.\<close>

definition so_evalf :: "int \<Rightarrow> nat \<Rightarrow> nat \<Rightarrow> int \<Rightarrow> nat" where
  "so_evalf lo n d y =
     (let f = (if d = 0
               then fp_div binary64 (fp_of_int binary64 (int n))
                 (fp_mul binary64 (fp_of_int binary64 2) (fp_of_int binary64 0x8000000000000000))
               else fp_div binary64 (fp_of_int binary64 (int n)) (fp_of_int binary64 (int d)))
      in fp_to_size (fp_mul binary64 f (fp_of_int binary64 (y - lo))))"

text \<open>The index of the overloads of \<open>__eval\<close> for a ratio: in 64-bit integers when nothing overflows.\<close>

definition so_ratio_integral :: "int \<Rightarrow> int \<Rightarrow> nat \<Rightarrow> nat \<Rightarrow> bool" where
  "so_ratio_integral lo hi n d \<longleftrightarrow> int (uratio_num n d) \<le> 0xFFFFFFFFFFFFFFFF div (hi - lo)"

definition so_eval_ratio :: "int \<Rightarrow> int \<Rightarrow> nat \<Rightarrow> nat \<Rightarrow> int \<Rightarrow> nat" where
  "so_eval_ratio lo hi n d y =
     (if so_ratio_integral lo hi n d
      then nat ((int (uratio_num n d) * (y - lo)) mod 2 ^ 64) div uratio_den n d
      else so_evalf lo (uratio_num n d) (uratio_den n d) y)"

definition so_index :: "int \<Rightarrow> int \<Rightarrow> nat \<Rightarrow> int \<Rightarrow> nat" where
  "so_index lo hi k y =
     (if so_R lo hi \<noteq> 0 then so_eval_ratio lo hi k (so_R lo hi) y
      else if odd k then so_evalf lo k 0 y
      else so_eval_ratio lo hi (k div 2) 0x8000000000000000 y)"

text \<open>The array is filled from the engine in order, and one more value is drawn for y.\<close>

primrec engine_outputs :: "('s \<Rightarrow> 'v \<times> 's) \<Rightarrow> nat \<Rightarrow> 's \<Rightarrow> 'v list \<times> 's" where
  "engine_outputs gen 0 e = ([], e)"
| "engine_outputs gen (Suc n) e =
     (let (v, e) = gen e; (vs, e) = engine_outputs gen n e in (v # vs, e))"

definition shuffle_order_init :: "('s \<Rightarrow> int \<times> 's) \<Rightarrow> nat \<Rightarrow> 's \<Rightarrow> 's shuffle_order" where
  "shuffle_order_init gen k e =
     (let (vs, e) = engine_outputs gen k e; (y, e) = gen e
      in \<lparr>so_e = e, so_v = vs, so_y = y\<rparr>)"

text \<open>One call; None is an access outside of the array.\<close>

definition shuffle_order_next ::
  "('s \<Rightarrow> int \<times> 's) \<Rightarrow> int \<Rightarrow> int \<Rightarrow> nat \<Rightarrow> 's shuffle_order \<Rightarrow> (int \<times> 's shuffle_order) option" where
  "shuffle_order_next gen lo hi k st =
     (let j = so_index lo hi k (so_y st)
      in if k \<le> j then None
         else let y = so_v st ! j; (x, e) = gen (so_e st)
              in Some (y, \<lparr>so_e = e, so_v = (so_v st)[j := x], so_y = y\<rparr>))"

primrec shuffle_order_run ::
  "('s \<Rightarrow> int \<times> 's) \<Rightarrow> int \<Rightarrow> int \<Rightarrow> nat \<Rightarrow> nat \<Rightarrow> 's shuffle_order \<Rightarrow> (int list \<times> 's shuffle_order) option" where
  "shuffle_order_run gen lo hi k 0 st = Some ([], st)"
| "shuffle_order_run gen lo hi k (Suc z) st =
     (case shuffle_order_next gen lo hi k st of None \<Rightarrow> None
      | Some (y, st) \<Rightarrow> map_option (\<lambda>(ys, st). (y # ys, st)) (shuffle_order_run gen lo hi k z st))"

definition shuffle_order_discard ::
  "('s \<Rightarrow> int \<times> 's) \<Rightarrow> int \<Rightarrow> int \<Rightarrow> nat \<Rightarrow> nat \<Rightarrow> 's shuffle_order \<Rightarrow> 's shuffle_order option" where
  "shuffle_order_discard gen lo hi k z st = map_option snd (shuffle_order_run gen lo hi k z st)"

definition shuffle_order_equal :: "('s \<Rightarrow> 's \<Rightarrow> bool) \<Rightarrow> 's shuffle_order \<Rightarrow> 's shuffle_order \<Rightarrow> bool" where
  "shuffle_order_equal eq x y \<longleftrightarrow> so_y x = so_y y \<and> so_v x = so_v y \<and> eq (so_e x) (so_e y)"

text \<open>\<open>knuth_b.h\<close>.\<close>

definition knuth_b_next :: "int shuffle_order \<Rightarrow> (int \<times> int shuffle_order) option" where
  "knuth_b_next = shuffle_order_next (lcg_next minstd_rand0) (lcg_min minstd_rand0) (lcg_max minstd_rand0) 256"

section \<open>Discarding blocks\<close>

lemma engine_discard_add: "engine_discard gen (a + b) e = engine_discard gen b (engine_discard gen a e)"
  by (induction a arbitrary: e) simp_all

lemma engine_discard_Suc: "engine_discard gen (Suc a) e = snd (gen (engine_discard gen a e))"
  using engine_discard_add [of gen a 1 e] by simp

text \<open>The number of base values drawn before the value number k, and the state in which it is drawn.\<close>

definition block_position :: "nat \<Rightarrow> nat \<Rightarrow> nat \<Rightarrow> nat" where
  "block_position p r k = (k div r) * p + k mod r"

definition block_state :: "('s \<Rightarrow> 'v \<times> 's) \<Rightarrow> nat \<Rightarrow> nat \<Rightarrow> 's \<Rightarrow> nat \<Rightarrow> 's discard_block" where
  "block_state gen p r e k =
     (case k of 0 \<Rightarrow> discard_block_start e
      | Suc k \<Rightarrow> \<lparr>db_e = engine_discard gen (Suc (block_position p r k)) e, db_n = int (k mod r) + 1\<rparr>)"

lemma discard_block_step:
  assumes "0 < r" and "r \<le> p"
  shows "discard_block_next gen p r (block_state gen p r e k) =
    (fst (gen (engine_discard gen (block_position p r k) e)), block_state gen p r e (Suc k))"
proof (cases k)
  case 0
  with assms show ?thesis
    by (simp add: block_state_def discard_block_start_def discard_block_next_def block_position_def split_beta)
next
  case (Suc n)
  show ?thesis
  proof (cases "Suc (n mod r) = r")
    case True
    then have m: "Suc n mod r = 0" "Suc n div r = Suc (n div r)" by (simp_all add: mod_Suc div_Suc)
    have "block_position p r (Suc n) = Suc (block_position p r n) + (p - r)"
      using True assms by (simp add: block_position_def m)
    then have pos: "engine_discard gen (block_position p r (Suc n)) e =
        engine_discard gen (p - r) (engine_discard gen (Suc (block_position p r n)) e)"
      by (simp only: engine_discard_add)
    have "engine_discard gen (Suc (block_position p r (Suc n))) e = snd (gen (engine_discard gen (block_position p r (Suc n)) e))"
      by (rule engine_discard_Suc)
    with True m Suc pos show ?thesis
      by (simp add: block_state_def discard_block_next_def split_beta del: engine_discard.simps(2))
  next
    case False
    then have m: "Suc n mod r = Suc (n mod r)" "Suc n div r = n div r" "Suc (n mod r) < r"
      using assms mod_less_divisor [of r n] by (simp_all add: mod_Suc div_Suc Suc_lessI del: mod_less_divisor)
    then have "block_position p r (Suc n) = Suc (block_position p r n)" by (simp add: block_position_def)
    with m Suc show ?thesis
      by (simp add: block_state_def discard_block_next_def engine_discard_Suc [of gen] split_beta
        del: engine_discard.simps(2))
  qed
qed

lemma discard_block_states:
  assumes "0 < r" and "r \<le> p"
  shows "discard_block_discard gen p r k (discard_block_start e) = block_state gen p r e k"
  unfolding discard_block_discard_def
proof (induction k)
  case (Suc k)
  then show ?case by (simp only: engine_discard_Suc discard_block_step [OF assms] snd_conv)
qed (simp add: block_state_def)


section \<open>Shuffling\<close>

lemma ugcd_gcd: "ugcd x y = gcd x y"
  by (induction x y rule: ugcd.induct) (simp add: gcd_red_nat [symmetric] ugcd.simps)

declare ugcd.simps [simp del]

lemma uratio_cross:
  assumes "0 < n" and "0 < d"
  shows "0 < uratio_den n d" and "uratio_num n d * x div uratio_den n d = n * x div d"
proof -
  define g where "g = gcd n d"
  obtain a b where ab: "n = g * a" "d = g * b" using gcd_dvd1 [of n d] gcd_dvd2 [of n d] unfolding g_def dvd_def by blast
  have g: "0 < g" using assms by (simp add: g_def)
  have r: "uratio_num n d = a" "uratio_den n d = b"
    unfolding uratio_num_def uratio_den_def ugcd_gcd g_def [symmetric] using g ab by simp_all
  show "0 < uratio_den n d" using assms ab r by auto
  show "uratio_num n d * x div uratio_den n d = n * x div d"
    unfolding r using g by (simp add: ab mult.assoc)
qed

text \<open>The ratio whose product is taken in integers, and when it is.\<close>

definition so_integral :: "int \<Rightarrow> int \<Rightarrow> nat \<Rightarrow> bool" where
  "so_integral lo hi k \<longleftrightarrow>
     (if so_R lo hi \<noteq> 0 then so_ratio_integral lo hi k (so_R lo hi)
      else even k \<and> so_ratio_integral lo hi (k div 2) 0x8000000000000000)"

definition in_range :: "int \<Rightarrow> int \<Rightarrow> int \<Rightarrow> bool" where
  "in_range lo hi y \<longleftrightarrow> lo \<le> y \<and> y \<le> hi"

lemma so_eval_ratio_integral:
  assumes "so_ratio_integral lo hi n d" and "0 < n" "0 < d" and "lo < hi" and "in_range lo hi y"
  shows "so_eval_ratio lo hi n d y = n * nat (y - lo) div d"
proof -
  define c x where "c = uratio_num n d" and "x = nat (y - lo)"
  have x: "int x = y - lo" "int x \<le> hi - lo" using assms(5) by (simp_all add: x_def in_range_def)
  have "int c * int x \<le> int c * (hi - lo)" using x(2) by (intro mult_left_mono) simp_all
  also have "\<dots> \<le> 0xFFFFFFFFFFFFFFFF div (hi - lo) * (hi - lo)"
    using assms(1,4) by (intro mult_right_mono) (simp_all add: so_ratio_integral_def c_def)
  also have "\<dots> \<le> 0xFFFFFFFFFFFFFFFF" using div_mult_mod_eq [of "0xFFFFFFFFFFFFFFFF" "hi - lo"] pos_mod_sign [of "hi - lo" "0xFFFFFFFFFFFFFFFF"] assms(4)
    by linarith
  finally have "int c * int x < 2 ^ 64" by simp
  moreover have "0 \<le> int c * int x" by simp
  ultimately have "(int c * int x) mod 2 ^ 64 = int (c * x)" by simp
  then have "nat ((int c * int x) mod 2 ^ 64) = c * x" by (simp only: nat_int)
  then show ?thesis
    using assms(1) uratio_cross(2) [OF assms(2,3), of x]
    unfolding so_eval_ratio_def c_def [symmetric] x(1) [symmetric] x_def [symmetric] by simp
qed

lemma so_index_integral:
  assumes int: "so_integral lo hi k" and k: "0 < k" and range: "0 \<le> lo" "lo < hi" "hi < 2 ^ 64" and y: "in_range lo hi y"
  shows "so_index lo hi k y = k * nat (y - lo) div nat (hi - lo + 1)" and "so_index lo hi k y < k"
proof -
  define R where "R = nat (hi - lo + 1)"
  have R: "so_R lo hi = (if hi - lo + 1 = 2 ^ 64 then 0 else R)" "0 < R"
    using range unfolding so_R_def R_def by auto
  show index: "so_index lo hi k y = k * nat (y - lo) div nat (hi - lo + 1)"
  proof (cases "so_R lo hi = 0")
    case False
    with R(1) have "so_R lo hi = R" by (simp split: if_splits)
    with int False so_eval_ratio_integral [of lo hi k R y] k R(2) range y show ?thesis
      by (simp add: so_index_def so_integral_def R_def)
  next
    case True
    with R have full: "nat (hi - lo + 1) = 2 * 0x8000000000000000" by (simp split: if_splits)
    from True int obtain l where l: "k = 2 * l" by (auto simp: so_integral_def elim: evenE)
    have "so_eval_ratio lo hi l 0x8000000000000000 y = l * nat (y - lo) div 0x8000000000000000"
      using int True l k range y by (intro so_eval_ratio_integral) (simp_all add: so_integral_def)
    also have "\<dots> = (2 * (l * nat (y - lo))) div (2 * 0x8000000000000000)" by (simp only: div_mult_mult1)
    finally show ?thesis unfolding full l so_index_def using True l by (simp add: mult.assoc)
  qed
  have "nat (y - lo) < R" using y by (simp add: R_def in_range_def)
  then have "k * nat (y - lo) < k * R" using k by simp
  then show "so_index lo hi k y < k" unfolding index R_def [symmetric] by (simp add: less_mult_imp_div_less)
qed


text \<open>The invariant of a shuffled engine: that of its engine, and a full array of values in the bounds.\<close>

definition so_inv :: "('s \<Rightarrow> bool) \<Rightarrow> int \<Rightarrow> int \<Rightarrow> nat \<Rightarrow> 's shuffle_order \<Rightarrow> bool" where
  "so_inv inv_state lo hi k st \<longleftrightarrow>
     inv_state (so_e st) \<and> length (so_v st) = k \<and> list_all (in_range lo hi) (so_v st) \<and> in_range lo hi (so_y st)"

text \<open>
  What an adaptor relies on in its engine: an invariant of its states that every call keeps, and
  the bounds of its values.
\<close>

locale random_engine =
  fixes gen :: "'s \<Rightarrow> int \<times> 's" and inv_state :: "'s \<Rightarrow> bool" and lo hi :: int
  assumes gen_inv: "inv_state e \<Longrightarrow> inv_state (snd (gen e))"
    and gen_range: "inv_state e \<Longrightarrow> in_range lo hi (fst (gen e))"
    and bounds: "0 \<le> lo" "lo < hi" "hi < 2 ^ 64"
begin

lemma outputs_inv:
  assumes "inv_state e"
  shows "inv_state (snd (engine_outputs gen n e)) \<and> length (fst (engine_outputs gen n e)) = n \<and>
    list_all (in_range lo hi) (fst (engine_outputs gen n e))"
  using assms
proof (induction n arbitrary: e)
  case (Suc n)
  then show ?case using Suc.IH [OF gen_inv [OF Suc.prems]] gen_range [OF Suc.prems] by (simp add: Let_def split_beta)
qed simp

lemma init_inv: "inv_state e \<Longrightarrow> so_inv inv_state lo hi k (shuffle_order_init gen k e)"
  using outputs_inv [of e k] gen_inv [of "snd (engine_outputs gen k e)"] gen_range [of "snd (engine_outputs gen k e)"]
  by (simp add: so_inv_def shuffle_order_init_def split_beta)

lemma shuffle_step:
  assumes "so_inv inv_state lo hi k st" and "0 < k" and "so_integral lo hi k"
  defines "j \<equiv> k * nat (so_y st - lo) div nat (hi - lo + 1)"
  shows "shuffle_order_next gen lo hi k st =
      Some (so_v st ! j, \<lparr>so_e = snd (gen (so_e st)), so_v = (so_v st)[j := fst (gen (so_e st))], so_y = so_v st ! j\<rparr>)"
    and "j < k"
proof -
  have "in_range lo hi (so_y st)" using assms(1) by (simp add: so_inv_def)
  note index = so_index_integral [OF assms(3,2) bounds this]
  then show "j < k" by (simp add: j_def)
  with index show "shuffle_order_next gen lo hi k st =
      Some (so_v st ! j, \<lparr>so_e = snd (gen (so_e st)), so_v = (so_v st)[j := fst (gen (so_e st))], so_y = so_v st ! j\<rparr>)"
    by (simp add: shuffle_order_next_def j_def split_beta Let_def)
qed

lemma shuffle_step_inv:
  assumes "so_inv inv_state lo hi k st" and "0 < k" and "so_integral lo hi k"
  obtains y st' where "shuffle_order_next gen lo hi k st = Some (y, st')" and "so_inv inv_state lo hi k st'" and "in_range lo hi y"
    and "so_e st' = snd (gen (so_e st))"
    and "add_mset y (mset (so_v st')) = add_mset (fst (gen (so_e st))) (mset (so_v st))"
proof -
  define j where "j = k * nat (so_y st - lo) div nat (hi - lo + 1)"
  note step = shuffle_step [OF assms, folded j_def]
  have inv: "inv_state (so_e st)" "length (so_v st) = k" "\<forall>v\<in>set (so_v st). in_range lo hi v"
    using assms(1) by (auto simp: so_inv_def list_all_iff)
  have y: "in_range lo hi (so_v st ! j)" using inv(2,3) step(2) by simp
  have "\<forall>v\<in>set ((so_v st)[j := fst (gen (so_e st))]). in_range lo hi v"
    using inv(3) gen_range [OF inv(1)] set_update_subset_insert [of "so_v st" j] by blast
  moreover have "add_mset (so_v st ! j) (mset ((so_v st)[j := fst (gen (so_e st))])) =
      add_mset (fst (gen (so_e st))) (mset (so_v st))"
    using inv(2) step(2) by (simp add: mset_update)
  ultimately show ?thesis
    using that [OF step(1)] inv gen_inv [OF inv(1)] y by (simp add: so_inv_def list_all_iff)
qed

text \<open>A run is defined, stays in range, and the values it returns and leaves are those it was given.\<close>

lemma shuffle_run:
  assumes "so_inv inv_state lo hi k st" and "0 < k" and "so_integral lo hi k"
  shows "\<exists>ys st'. shuffle_order_run gen lo hi k z st = Some (ys, st') \<and> so_inv inv_state lo hi k st' \<and> length ys = z \<and>
    list_all (in_range lo hi) ys \<and> mset ys + mset (so_v st') = mset (so_v st) + mset (fst (engine_outputs gen z (so_e st)))"
  using assms(1)
proof (induction z arbitrary: st)
  case (Suc z)
  from shuffle_step_inv [OF Suc.prems assms(2,3)] obtain y st1 where s: "shuffle_order_next gen lo hi k st = Some (y, st1)"
    "so_inv inv_state lo hi k st1" "in_range lo hi y" "so_e st1 = snd (gen (so_e st))"
    "add_mset y (mset (so_v st1)) = add_mset (fst (gen (so_e st))) (mset (so_v st))" by blast
  from Suc.IH [OF s(2)] obtain ys st' where r: "shuffle_order_run gen lo hi k z st1 = Some (ys, st')" "so_inv inv_state lo hi k st'" "length ys = z"
    "list_all (in_range lo hi) ys" "mset ys + mset (so_v st') = mset (so_v st1) + mset (fst (engine_outputs gen z (so_e st1)))"
    by blast
  have "add_mset y (mset ys + mset (so_v st')) = add_mset y (mset (so_v st1)) + mset (fst (engine_outputs gen z (so_e st1)))"
    using r(5) by simp
  then show ?case using s r by (simp add: Let_def split_beta)
qed simp

end


section \<open>The engines of the library\<close>

lemma lcg_random_engine:
  assumes "lcg_params e" and "lcg_c e = 0 \<longrightarrow> coprime (lcg_a e) (lcg_modulus e)"
  shows "random_engine (lcg_next e) (lcg_live e) (lcg_min e) (lcg_max e)"
proof
  show "lcg_live e x \<Longrightarrow> lcg_live e (snd (lcg_next e x))"
    "lcg_live e x \<Longrightarrow> in_range (lcg_min e) (lcg_max e) (fst (lcg_next e x))" for x
    using lcg_live_next [OF assms, of x] by (simp_all add: in_range_def)
  show "0 \<le> lcg_min e" "lcg_min e < lcg_max e" using assms(1) by (simp_all add: lcg_min_def lcg_max_def lcg_params_def)
  have "lcg_max e < 2 ^ lcg_w e" by (simp add: lcg_max_def wrap_unsigned_def)
  also have "\<dots> \<le> 2 ^ 64" using assms(1) by (intro power_increasing) (auto simp: lcg_params_def)
  finally show "lcg_max e < 2 ^ 64" .
qed

text \<open>The value of a word engine, as an integer.\<close>

definition word_engine :: "('s \<Rightarrow> 'a::len word \<times> 's) \<Rightarrow> 's \<Rightarrow> int \<times> 's" where
  "word_engine gen e = map_prod uint id (gen e)"

lemma word_random_engine:
  assumes "\<And>e. inv_state e \<Longrightarrow> inv_state (snd (gen e)) \<and> fits w (fst (gen e) :: 64 word)" and "0 < w" and "w \<le> 64"
  shows "random_engine (word_engine gen) inv_state 0 (2 ^ w - 1)"
proof
  show "inv_state e \<Longrightarrow> inv_state (snd (word_engine gen e))" for e
    using assms(1) [of e] by (simp add: word_engine_def)
  show "in_range 0 (2 ^ w - 1) (fst (word_engine gen e))" if "inv_state e" for e
  proof -
    have "fits w (fst (gen e))" using assms(1) [OF that] by simp
    then have "take_bit w (fst (gen e)) = fst (gen e)"
      by (auto simp: fits_def bit_eq_iff bit_take_bit_iff)
    then have "take_bit w (uint (fst (gen e))) = uint (fst (gen e))" by (metis unsigned_take_bit_eq)
    then have "uint (fst (gen e)) < 2 ^ w" by (metis take_bit_int_less_exp)
    then show ?thesis by (simp add: word_engine_def in_range_def)
  qed
  show "0 < (2::int) ^ w - 1" using assms(2) one_less_power [of "2::int" w] by simp
  have "(2::int) ^ w \<le> 2 ^ 64" using assms(3) by (intro power_increasing) simp_all
  then show "(2::int) ^ w - 1 < 2 ^ 64" by simp
qed simp

interpretation minstd0: random_engine "lcg_next minstd_rand0" "lcg_live minstd_rand0" "lcg_min minstd_rand0" "lcg_max minstd_rand0"
  by (rule lcg_random_engine [OF minstd_params(1)]) (simp add: minstd_rand0_def lcg_modulus_def coprime_iff_gcd_eq_1 gcd_non_0_int)

interpretation mersenne64: random_engine "word_engine (mt_next mt19937_64)" "mt_inv mt19937_64" 0 "2 ^ 64 - 1"
  by (rule word_random_engine) (use mt_inv_next [OF mt19937_params(2)] in \<open>auto simp: mt19937_64_def\<close>)

lemma lux24_inv_next:
  "swc_inv ranlux24_base e \<Longrightarrow> swc_inv ranlux24_base (snd (swc_next ranlux24_base e)) \<and> fits 24 (fst (swc_next ranlux24_base e))"
  using swc_inv_next [of ranlux24_base e] by (simp add: ranlux24_base_def)

interpretation lux24: random_engine "word_engine (swc_next ranlux24_base :: 64 word swc_ring \<Rightarrow> _)" "swc_inv ranlux24_base" 0 "2 ^ 24 - 1"
  by (rule word_random_engine) (auto dest: lux24_inv_next)


section \<open>The index in double\<close>

text \<open>
  For an engine of the full 64-bit range the index is computed in double, where the greatest
  value rounds up to 2 ^ 64.
\<close>

lemma fp_full_range: "fp_of_int binary64 0xFFFFFFFFFFFFFFFF = FFin False (2 ^ 52) 12"
  by (simp add: fp_simps)

lemma fp_two_64:
  "fp_mul binary64 (fp_of_int binary64 2) (fp_of_int binary64 0x8000000000000000) = FFin False (2 ^ 52) 12"
  by (simp add: fp_simps)

lemma fp_pow2_64: "fp_pow2 binary64 64 = FFin False (2 ^ 52) 12"
  by (simp add: fp_pow2_def format_constants)

lemma so_evalf_full:
  assumes "0 < k" and "k < 2 ^ 53"
  shows "so_evalf 0 k 0 0xFFFFFFFFFFFFFFFF = k"
proof -
  have "k < 2 ^ prec binary64" "emin binary64 \<le> 1 - int (prec binary64)" "0 \<le> emax binary64"
    using assms(2) by (simp_all add: format_constants)
  then obtain m e where k: "fp_of_int binary64 (int k) = FFin False m e" "wf_fp binary64 (FFin False m e)"
    "1 - int (prec binary64) \<le> e" "e \<le> 0" "m = k * 2 ^ nat (- e)" using fp_of_int_exact [OF assms(1)] by metis
  have wf: "wf_fp binary64 (FFin False m (e - 64))" using k(2-4) by (auto simp: format_constants)
  have "fp_div binary64 (FFin False m e) (FFin False (2 ^ 52) 12) = fp_round_real binary64 False (real m * 2 powi (e - 64))"
    by (simp add: fp_round_real_eq power_int_diff)
  also have "\<dots> = FFin False m (e - 64)" using wf by (rule fp_round_real_exact)
  finally have d: "fp_div binary64 (FFin False m e) (FFin False (2 ^ 52) 12) = FFin False m (e - 64)" .
  have "fp_mul binary64 (FFin False m (e - 64)) (FFin False (2 ^ 52) 12) = FFin False m e"
    unfolding fp_pow2_64 [symmetric] fp_mul_pow2 using fp_round_real_exact [OF k(2)] by simp
  with d k(1,4,5) show ?thesis
    by (simp add: so_evalf_def fp_full_range fp_two_64 Let_def)
qed


lemma fp_of_pow2: "d \<le> 63 \<Longrightarrow> fp_of_int binary64 (int (2 ^ d)) = FFin False (2 ^ 52) (int d - 52)"
proof -
  assume "d \<le> 63"
  then have "wf_fp binary64 (FFin False (2 ^ 52) (int d - 52))" by (simp add: format_constants)
  from fp_round_real_exact [OF this, of False] show ?thesis
    by (simp add: fp_of_int_def fp_round_int_def fp_round_real_eq power_int_diff nat_power_eq)
qed

lemma so_evalf_pow2:
  assumes "0 < n" and "n < 2 ^ 53" and "d \<le> 63"
  shows "so_evalf 0 n (2 ^ d) 0xFFFFFFFFFFFFFFFF = n * 2 ^ (64 - d)"
proof -
  have "n < 2 ^ prec binary64" "emin binary64 \<le> 1 - int (prec binary64)" "0 \<le> emax binary64"
    using assms(2) by (simp_all add: format_constants)
  then obtain m e where n: "fp_of_int binary64 (int n) = FFin False m e" "wf_fp binary64 (FFin False m e)"
    "1 - int (prec binary64) \<le> e" "e \<le> 0" "m = n * 2 ^ nat (- e)" using fp_of_int_exact [OF assms(1)] by metis
  have e: "- 52 \<le> e" using n(3) by (simp add: format_constants)
  have wf: "wf_fp binary64 (FFin False m (e - int d))" "wf_fp binary64 (FFin False m (e - int d + 64))"
    using n(2-4) assms(3) by (auto simp: format_constants)
  have "fp_div binary64 (FFin False m e) (FFin False (2 ^ 52) (int d - 52)) = fp_round_real binary64 False (real m * 2 powi (e - int d))"
    by (simp add: fp_round_real_eq power_int_diff)
  also have "\<dots> = FFin False m (e - int d)" using wf(1) by (rule fp_round_real_exact)
  finally have q: "fp_div binary64 (FFin False m e) (FFin False (2 ^ 52) (int d - 52)) = FFin False m (e - int d)" .
  have p: "fp_mul binary64 (FFin False m (e - int d)) (FFin False (2 ^ 52) 12) = FFin False m (e - int d + 64)"
    unfolding fp_pow2_64 [symmetric] fp_mul_pow2 using fp_round_real_exact [OF wf(2)] by simp
  have "fp_to_size (FFin False m (e - int d + 64)) = n * 2 ^ (64 - d)"
  proof (cases "0 \<le> e - int d + 64")
    case True
    then have "nat (- e) + nat (e - int d + 64) = 64 - d" using n(4) by linarith
    with True show ?thesis by (simp add: n(5) mult.assoc flip: power_add)
  next
    case False
    then have "nat (- e) = (64 - d) + nat (- (e - int d + 64))" using assms(3) by linarith
    then have "m = n * 2 ^ (64 - d) * 2 ^ nat (- (e - int d + 64))" by (simp add: n(5) power_add mult.assoc)
    with False show ?thesis by simp
  qed
  moreover have "(2 :: nat) ^ d \<noteq> 0" by simp
  ultimately show ?thesis
    unfolding so_evalf_def fp_of_pow2 [OF assms(3)] n(1) q by (simp only: fp_full_range p Let_def diff_0_right if_False)
qed

text \<open>Table sizes: a power of two above 1 keeps to integers, every other one has an odd factor and does not.\<close>

lemma even_part: "0 < (k :: nat) \<Longrightarrow> \<exists>a b. k = 2 ^ a * b \<and> odd b"
proof (induction k rule: less_induct)
  case (less k)
  show ?case
  proof (cases "even k")
    case True
    then obtain l where l: "k = 2 * l" by (elim evenE)
    with less obtain a b where "l = 2 ^ a * b" "odd b" by (metis mult_is_0 neq0_conv nat_less_le mult_2 add_gr_0 less_add_same_cancel1)
    with l have "k = 2 ^ Suc a * b" by simp
    with \<open>odd b\<close> show ?thesis by blast
  qed (metis mult_1 power_0)
qed

lemma uratio_pow2:
  assumes "odd b" and "a \<le> 63"
  shows "uratio_num (2 ^ a * b) 0x8000000000000000 = b" "uratio_den (2 ^ a * b) 0x8000000000000000 = 2 ^ (63 - a)"
proof -
  have r: "(0x8000000000000000 :: nat) = 2 ^ a * 2 ^ (63 - a)" using assms(2) by (simp flip: power_add)
  have "coprime b (2 ^ (63 - a))" using assms(1) by simp
  then have "gcd (2 ^ a * b) (2 ^ a * 2 ^ (63 - a)) = 2 ^ a" by (simp add: gcd_mult_distrib_nat [symmetric])
  then show "uratio_num (2 ^ a * b) 0x8000000000000000 = b" "uratio_den (2 ^ a * b) 0x8000000000000000 = 2 ^ (63 - a)"
    unfolding uratio_num_def uratio_den_def ugcd_gcd r by simp_all
qed

lemma so_index_odd_factor:
  assumes "0 < k" and "k < 2 ^ 53" and "\<nexists>j. 0 < j \<and> k = 2 ^ j"
  shows "so_index 0 0xFFFFFFFFFFFFFFFF k 0xFFFFFFFFFFFFFFFF = k"
proof (cases "odd k")
  case True
  then show ?thesis using so_evalf_full [OF assms(1,2)] by (simp add: so_index_def so_R_def)
next
  case False
  obtain a b where ab: "k = 2 ^ a * b" "odd b" using even_part [OF assms(1)] by blast
  obtain c where c: "a = Suc c" using False ab by (cases a) auto
  have b: "1 < b" using ab c assms(3) by (cases "b = 1") (auto simp: nat_neq_iff)
  have "2 ^ a * 1 \<le> k" unfolding ab using ab(2) by (intro mult_left_mono) (auto simp: Suc_le_eq intro!: Nat.gr0I)
  then have "(2 :: nat) ^ a < 2 ^ 53" using assms(2) by linarith
  then have "a < 53" by (rule power_less_imp_less_exp [rotated]) simp
  then have a: "c \<le> 63" using c by simp
  have "1 * b \<le> k" unfolding ab by (intro mult_right_mono) simp_all
  then have "b < 2 ^ 53" using assms(2) by linarith
  then have e: "so_evalf 0 b (2 ^ (63 - c)) 0xFFFFFFFFFFFFFFFF = b * 2 ^ (64 - (63 - c))" using b by (intro so_evalf_pow2) simp_all
  have "64 - (63 - c) = a" using a c by simp
  moreover have "k div 2 = 2 ^ c * b" by (simp add: ab c)
  moreover have "\<not> so_ratio_integral 0 0xFFFFFFFFFFFFFFFF (2 ^ c * b) 0x8000000000000000"
    using b by (simp add: so_ratio_integral_def uratio_pow2 [OF ab(2) a])
  ultimately have "so_eval_ratio 0 0xFFFFFFFFFFFFFFFF (k div 2) 0x8000000000000000 0xFFFFFFFFFFFFFFFF = k"
    using e by (simp add: so_eval_ratio_def uratio_pow2 [OF ab(2) a] ab(1))
  then show ?thesis using False by (simp add: so_index_def so_R_def)
qed

lemma shuffle_order_next_defined: "so_index lo hi k (so_y st) < k \<Longrightarrow> shuffle_order_next gen lo hi k st \<noteq> None"
  by (simp add: shuffle_order_next_def Let_def split: prod.split)

lemma so_integral_pow2:
  assumes "0 < j" and "j \<le> 63"
  shows "so_integral 0 0xFFFFFFFFFFFFFFFF (2 ^ j)"
proof -
  obtain c where c: "j = Suc c" using assms(1) by (cases j) simp_all
  then have "uratio_num (2 ^ c) 0x8000000000000000 = 1" using uratio_pow2(1) [of 1 c] assms(2) by simp
  then show ?thesis by (simp add: so_integral_def so_R_def so_ratio_integral_def c)
qed

section \<open>Properties\<close>

text \<open>
  C26. Discarding blocks, for every engine and all parameters the class accepts: the value number k is
  the value number (k div r) p + k mod r of the adapted engine, so of each block of p values the
  first r are returned and the others skipped; discarding values of the adaptor reaches the same
  states as drawing them; and the counter stays between 0 and r, so that it never overflows.
  \<open>ranlux24\<close> uses 23 of 223 values and \<open>ranlux48\<close> 11 of 389.
\<close>

theorem discard_block_correct:
  assumes "0 < r" and "r \<le> p"
  shows "fst (discard_block_next gen p r (discard_block_discard gen p r k (discard_block_start e))) =
      fst (gen (engine_discard gen ((k div r) * p + k mod r) e)) \<and>
    0 \<le> db_n (discard_block_discard gen p r k (discard_block_start e)) \<and>
    db_n (discard_block_discard gen p r k (discard_block_start e)) \<le> int r"
proof -
  have "db_n (block_state gen p r e k) \<in> {0..int r}"
  proof (cases k)
    case (Suc n)
    then show ?thesis using mod_less_divisor [OF assms(1), of n] unfolding block_state_def by simp
  qed (simp add: block_state_def discard_block_start_def)
  then show ?thesis
    unfolding discard_block_states [OF assms] discard_block_step [OF assms] by (simp add: block_position_def)
qed

theorem discard_block_correct_witness:
  "fst (ranlux24_next (discard_block_discard (swc_next ranlux24_base) 223 23 47 (discard_block_start (swc_seed ranlux24_base 1)))) =
   fst (swc_next ranlux24_base (engine_discard (swc_next ranlux24_base) 447 (swc_seed ranlux24_base 1)))"
  using discard_block_correct [of 23 223 "swc_next ranlux24_base" 47 "swc_seed ranlux24_base 1 :: 64 word swc_ring"]
  by (simp add: ranlux24_next_def)

text \<open>
  C24. Shuffling the order, for every engine whose calls keep an invariant and return values in its
  bounds, and every table size for which the code computes the index in integers: the index is
  k (y - min) / (max - min + 1) rounded down, with no overflow, and inside the table; from a
  freshly filled table every number of calls returns, with values in the bounds of the engine;
  and the values returned, with those left in the table, are exactly the values the table was
  filled with and those drawn since: the adaptor reorders the values of its engine and loses or
  invents none, except the one drawn for y.
\<close>

theorem shuffle_order_correct:
  assumes eng: "random_engine gen inv_state lo hi" and e: "inv_state e" and k: "0 < k" "so_integral lo hi k"
  defines "st \<equiv> shuffle_order_init gen k e"
  shows "(\<forall>y. in_range lo hi y \<longrightarrow> so_index lo hi k y = k * nat (y - lo) div nat (hi - lo + 1) \<and> so_index lo hi k y < k) \<and>
    (\<exists>ys st'. shuffle_order_run gen lo hi k z st = Some (ys, st') \<and> so_inv inv_state lo hi k st' \<and>
      length ys = z \<and> list_all (in_range lo hi) ys \<and>
      mset ys + mset (so_v st') = mset (fst (engine_outputs gen k e)) + mset (fst (engine_outputs gen z (so_e st))))"
proof (intro conjI allI impI)
  show "so_index lo hi k y = k * nat (y - lo) div nat (hi - lo + 1)" "so_index lo hi k y < k" if "in_range lo hi y" for y
    using so_index_integral [OF k(2,1) random_engine.bounds [OF eng] that] .
  have "so_v st = fst (engine_outputs gen k e)" by (simp add: st_def shuffle_order_init_def split_beta)
  then show "\<exists>ys st'. shuffle_order_run gen lo hi k z st = Some (ys, st') \<and> so_inv inv_state lo hi k st' \<and>
      length ys = z \<and> list_all (in_range lo hi) ys \<and>
      mset ys + mset (so_v st') = mset (fst (engine_outputs gen k e)) + mset (fst (engine_outputs gen z (so_e st)))"
    using random_engine.shuffle_run [OF eng random_engine.init_inv [OF eng e] k] unfolding st_def by metis
qed

lemma knuth_b_integral: "so_integral (lcg_min minstd_rand0) (lcg_max minstd_rand0) 256"
  by (simp add: so_integral_def so_R_def so_ratio_integral_def uratio_num_def ugcd.simps lcg_min_def lcg_max_def
    minstd_rand0_def wrap_unsigned_def)

theorem shuffle_order_correct_witness:
  "\<exists>ys st. shuffle_order_run (lcg_next minstd_rand0) (lcg_min minstd_rand0) (lcg_max minstd_rand0) 256 1000
     (shuffle_order_init (lcg_next minstd_rand0) 256 (lcg_seed minstd_rand0 1)) = Some (ys, st) \<and> length ys = 1000"
proof -
  have "lcg_live minstd_rand0 (lcg_seed minstd_rand0 1)"
    by (simp add: lcg_live_def lcg_inv_def lcg_modulus_def lcg_seed_def lcg_min_def minstd_rand0_def)
  from shuffle_order_correct [OF minstd0.random_engine_axioms this _ knuth_b_integral, of 1000] show ?thesis by auto
qed

text \<open>
  C25. Shuffling an engine of the full 64-bit range with a table of k words, k below 2 ^ 53, error:
  unless k is a power of two above 1, the code computes the index in double, where the greatest
  value of the engine rounds up to 2 ^ 64, so that for this value the index is k, the size of the
  table, and the call reads and writes past its end; so it does for k = 1. When k is a power of
  two above 1, the index is computed in integers and is inside the table for every value.
\<close>

theorem shuffle_index_out_of_bounds:
  assumes "0 < k" and "k < 2 ^ 53"
  shows "if \<exists>j. 0 < j \<and> k = 2 ^ j
    then \<forall>y. in_range 0 0xFFFFFFFFFFFFFFFF y \<longrightarrow> so_index 0 0xFFFFFFFFFFFFFFFF k y < k \<and>
      shuffle_order_next gen 0 0xFFFFFFFFFFFFFFFF k \<lparr>so_e = e, so_v = vs, so_y = y\<rparr> \<noteq> None
    else so_index 0 0xFFFFFFFFFFFFFFFF k 0xFFFFFFFFFFFFFFFF = k \<and>
      shuffle_order_next gen 0 0xFFFFFFFFFFFFFFFF k \<lparr>so_e = e, so_v = vs, so_y = 0xFFFFFFFFFFFFFFFF\<rparr> = None"
proof (cases "\<exists>j. 0 < j \<and> k = 2 ^ j")
  case True
  then obtain j where j: "0 < j" "k = 2 ^ j" by blast
  have "(2 :: nat) ^ j < 2 ^ 53" using j(2) assms(2) by simp
  then have "j < 53" by (rule power_less_imp_less_exp [rotated]) simp
  then have "so_integral 0 0xFFFFFFFFFFFFFFFF k" using j so_integral_pow2 [of j] by simp
  then have "so_index 0 0xFFFFFFFFFFFFFFFF k y < k" if "in_range 0 0xFFFFFFFFFFFFFFFF y" for y
    using that assms(1) by (intro so_index_integral(2)) simp_all
  then have "so_index 0 0xFFFFFFFFFFFFFFFF k y < k \<and>
      shuffle_order_next gen 0 0xFFFFFFFFFFFFFFFF k \<lparr>so_e = e, so_v = vs, so_y = y\<rparr> \<noteq> None"
    if "in_range 0 0xFFFFFFFFFFFFFFFF y" for y
    using that by (metis (no_types) not_le shuffle_order_next_defined shuffle_order.select_convs(3))
  then have "\<forall>y. in_range 0 0xFFFFFFFFFFFFFFFF y \<longrightarrow> so_index 0 0xFFFFFFFFFFFFFFFF k y < k \<and>
      shuffle_order_next gen 0 0xFFFFFFFFFFFFFFFF k \<lparr>so_e = e, so_v = vs, so_y = y\<rparr> \<noteq> None" by blast
  with True show ?thesis by (simp only: if_True)
next
  case False
  note index = so_index_odd_factor [OF assms False]
  have "shuffle_order_next gen 0 0xFFFFFFFFFFFFFFFF k \<lparr>so_e = e, so_v = vs, so_y = 0xFFFFFFFFFFFFFFFF\<rparr> = None"
    by (simp add: shuffle_order_next_def index)
  with index show ?thesis unfolding if_not_P [OF False] by blast
qed

theorem shuffle_index_out_of_bounds_witness:
  "shuffle_order_next (word_engine (mt_next mt19937_64)) 0 0xFFFFFFFFFFFFFFFF 12
     \<lparr>so_e = the (mt_seed mt19937_64 1), so_v = replicate 12 7, so_y = 0xFFFFFFFFFFFFFFFF\<rparr> = None"
proof -
  have "(12 :: nat) \<noteq> 2 ^ j" for j
  proof (cases "j \<le> 3")
    case True
    then have "j = 0 \<or> j = 1 \<or> j = 2 \<or> j = 3" by linarith
    then show ?thesis by auto
  next
    case False
    then have "(2 :: nat) ^ 4 \<le> 2 ^ j" by (intro power_increasing) simp_all
    then show ?thesis by simp
  qed
  then have "\<nexists>j. 0 < j \<and> (12 :: nat) = 2 ^ j" by blast
  then show ?thesis
    using shuffle_index_out_of_bounds [of 12 "word_engine (mt_next mt19937_64)" "the (mt_seed mt19937_64 1)" "replicate 12 7"] by simp
qed

end
