(* ===== verification/CxxUniformInt.thy ===== *)
theory CxxUniformInt
  imports CxxAdaptors CxxBits CxxToChars
begin

text \<open>
  The uniform distribution of integers: \<open>uniform_int_distribution.h\<close> and log2.h in
  include/linux/c++/v1/__random. The generator is a parameter, its call operator, the number of
  bits of its result type and its bounds; the type of the distribution is given by its width and
  sign. The loops that draw until a value is accepted are partial functions; whether they return
  is the inductive predicate \<open>accepts\<close>.
\<close>

section \<open>log2.h\<close>

fun log2_imp :: "nat \<Rightarrow> nat \<Rightarrow> nat" where
  "log2_imp x r =
     (if x = 0 then r + 1 else if r = 0 then 0 else if bit x r then r else log2_imp x (r - 1))"

declare log2_imp.simps [simp del]

definition cxx_log2 :: "nat \<Rightarrow> nat \<Rightarrow> nat" where
  "cxx_log2 w x =
     (if w \<le> 64 then log2_imp x (w - 1)
      else if drop_bit 64 x \<noteq> 0 then 64 + log2_imp (drop_bit 64 x) 63 else log2_imp x 63)"

section \<open>\<open>__independent_bits_engine\<close>\<close>

text \<open>The digits of the result types of the generator and of the engine, and of the working type.\<close>

definition working_digits :: "nat \<Rightarrow> nat \<Rightarrow> nat" where
  "working_digits ew rw = (if ew \<le> rw then rw else ew)"

definition ib_R :: "nat \<Rightarrow> nat \<Rightarrow> int \<Rightarrow> int \<Rightarrow> nat" where
  "ib_R ew rw lo hi = nat ((hi - lo + 1) mod 2 ^ working_digits ew rw)"

record independent_bits =
  ib_w0 :: nat
  ib_n :: nat
  ib_n0 :: nat
  ib_y0 :: nat
  ib_y1 :: nat
  ib_mask0 :: nat
  ib_mask1 :: nat

definition ib_round :: "nat \<Rightarrow> nat \<Rightarrow> nat \<Rightarrow> nat" where
  "ib_round W R k = (if k < W then push_bit k (drop_bit k R) else 0)"

definition ib_mask :: "nat \<Rightarrow> nat \<Rightarrow> nat" where
  "ib_mask ew k = drop_bit (ew - k) (2 ^ ew - 1)"

text \<open>The constructor.\<close>

definition independent_bits_make :: "nat \<Rightarrow> nat \<Rightarrow> int \<Rightarrow> int \<Rightarrow> nat \<Rightarrow> independent_bits" where
  "independent_bits_make ew rw lo hi w =
     (let W = working_digits ew rw; R = ib_R ew rw lo hi; m = cxx_log2 W R;
          n = w div m + (if w mod m \<noteq> 0 then 1 else 0);
          w0 = w div n;
          y0 = (if R = 0 then R else ib_round W R w0);
          (n, w0, y0) = (if y0 div n < R - y0
                         then let n = n + 1; w0 = w div n in (n, w0, ib_round W R w0)
                         else (n, w0, y0))
      in \<lparr>ib_w0 = w0, ib_n = n, ib_n0 = n - w mod n, ib_y0 = y0,
          ib_y1 = (if w0 < W - 1 then ib_round W R (w0 + 1) else 0),
          ib_mask0 = (if 0 < w0 then ib_mask ew w0 else 0),
          ib_mask1 = (if w0 < ew - 1 then ib_mask ew (w0 + 1) else 2 ^ ew - 1)\<rparr>)"

text \<open>The loops of the form \<open>do u = draw (); while (u >= y)\<close>.\<close>

partial_function (option) draw_below :: "('s \<Rightarrow> (nat \<times> 's) option) \<Rightarrow> nat \<Rightarrow> 's \<Rightarrow> (nat \<times> 's) option" where
  "draw_below draw y e =
     (case draw e of None \<Rightarrow> None
      | Some (u, e') \<Rightarrow> if y \<le> u then draw_below draw y e' else Some (u, e'))"

definition gen_offset :: "('s \<Rightarrow> int \<times> 's) \<Rightarrow> int \<Rightarrow> 's \<Rightarrow> (nat \<times> 's) option" where
  "gen_offset gen lo e = (let (v, e) = gen e in Some (nat (v - lo), e))"

text \<open>One of the two loops of \<open>__eval\<close>: c fields of k bits, below y and masked, appended to sp.\<close>

primrec ib_fields ::
  "('s \<Rightarrow> int \<times> 's) \<Rightarrow> int \<Rightarrow> nat \<Rightarrow> nat \<Rightarrow> nat \<Rightarrow> nat \<Rightarrow> nat \<Rightarrow> nat \<times> 's \<Rightarrow> (nat \<times> 's) option" where
  "ib_fields gen lo rw y msk k 0 s = Some s"
| "ib_fields gen lo rw y msk k (Suc c) s =
     (case draw_below (gen_offset gen lo) y (snd s) of None \<Rightarrow> None
      | Some (u, e) \<Rightarrow>
          ib_fields gen lo rw y msk k c
            (((if k < rw then push_bit k (fst s) mod 2 ^ rw else 0) + (u AND msk)) mod 2 ^ rw, e))"

definition independent_bits_next ::
  "('s \<Rightarrow> int \<times> 's) \<Rightarrow> nat \<Rightarrow> int \<Rightarrow> int \<Rightarrow> nat \<Rightarrow> independent_bits \<Rightarrow> 's \<Rightarrow> (nat \<times> 's) option" where
  "independent_bits_next gen ew lo hi rw b e =
     (if ib_R ew rw lo hi = 0
      then let (v, e) = gen e in Some ((nat v AND ib_mask0 b) mod 2 ^ rw, e)
      else case ib_fields gen lo rw (ib_y0 b) (ib_mask0 b) (ib_w0 b) (ib_n0 b) (0, e) of None \<Rightarrow> None
        | Some s \<Rightarrow> ib_fields gen lo rw (ib_y1 b) (ib_mask1 b) (ib_w0 b + 1) (ib_n b - ib_n0 b) s)"

section \<open>\<open>uniform_int_distribution\<close>\<close>

record uniform_int =
  ui_a :: int
  ui_b :: int

definition uniform_int_equal :: "uniform_int \<Rightarrow> uniform_int \<Rightarrow> bool" where
  "uniform_int_equal x y \<longleftrightarrow> ui_a x = ui_a y \<and> ui_b x = ui_b y"

definition type_max :: "nat \<Rightarrow> bool \<Rightarrow> int" where
  "type_max tw is_signed = (if is_signed then 2 ^ (tw - 1) - 1 else 2 ^ tw - 1)"

definition uniform_int_default :: "nat \<Rightarrow> bool \<Rightarrow> uniform_int" where
  "uniform_int_default tw is_signed = \<lparr>ui_a = 0, ui_b = type_max tw is_signed\<rparr>"

definition to_type :: "nat \<Rightarrow> bool \<Rightarrow> int \<Rightarrow> int" where
  "to_type tw is_signed x = (if is_signed then wrap_signed tw x else wrap_unsigned tw x)"

definition uniform_digits :: "nat \<Rightarrow> nat" where
  "uniform_digits tw = (if tw \<le> 32 then 32 else tw)"

definition uniform_range :: "nat \<Rightarrow> uniform_int \<Rightarrow> nat" where
  "uniform_range tw p = nat ((ui_b p - ui_a p + 1) mod 2 ^ uniform_digits tw)"

definition uniform_width :: "nat \<Rightarrow> nat \<Rightarrow> nat option" where
  "uniform_width dt rp =
     (case countl_zero dt rp of None \<Rightarrow> None
      | Some z \<Rightarrow> let w = dt - z - 1
                  in Some (if rp AND drop_bit (dt - w) (2 ^ dt - 1) \<noteq> 0 then w + 1 else w))"

definition uniform_int_next ::
  "('s \<Rightarrow> int \<times> 's) \<Rightarrow> nat \<Rightarrow> int \<Rightarrow> int \<Rightarrow> nat \<Rightarrow> bool \<Rightarrow> uniform_int \<Rightarrow> 's \<Rightarrow> (int \<times> 's) option" where
  "uniform_int_next gen ew lo hi tw is_signed p e =
     (let dt = uniform_digits tw; rp = uniform_range tw p
      in if rp = 1 then Some (ui_a p, e)
         else if rp = 0
         then map_option (map_prod (\<lambda>u. to_type tw is_signed (int u)) id)
           (independent_bits_next gen ew lo hi dt (independent_bits_make ew dt lo hi dt) e)
         else case uniform_width dt rp of None \<Rightarrow> None
           | Some w \<Rightarrow>
               map_option (map_prod (\<lambda>u. to_type tw is_signed (wrap_unsigned dt (int u + ui_a p))) id)
                 (draw_below (independent_bits_next gen ew lo hi dt (independent_bits_make ew dt lo hi w)) rp e))"

section \<open>Proofs\<close>

lemma log2_imp_ilog2: "x \<noteq> 0 \<Longrightarrow> x < 2 ^ Suc r \<Longrightarrow> log2_imp x r = ilog2 x"
proof (induction r)
  case 0
  then have "x = 1" by simp
  then show ?case using ilog2_unique [of 0 1] by (simp add: log2_imp.simps)
next
  case (Suc r)
  show ?case
  proof (cases "2 ^ Suc r \<le> x")
    case True
    have "x div 2 ^ Suc r = 1" using True Suc.prems by (intro div_nat_eqI) simp_all
    then have "bit x (Suc r)" by (simp add: bit_iff_odd)
    with Suc.prems True ilog2_unique [of "Suc r" x] show ?thesis by (simp add: log2_imp.simps [of x "Suc r"])
  next
    case False
    then have "\<not> bit x (Suc r)" by (simp add: bit_iff_odd)
    with False Suc show ?thesis by (simp add: log2_imp.simps [of x "Suc r"])
  qed
qed

lemma cxx_log2_ilog2:
  assumes "0 < w" and "w \<le> 128" and "x \<noteq> 0" and "x < 2 ^ w"
  shows "cxx_log2 w x = ilog2 x"
proof -
  define h where "h = drop_bit 64 x"
  have x: "x < 2 ^ 128" using assms(4) power_increasing [OF assms(2), of "2::nat"] by linarith
  have hh: "h = x div 2 ^ 64" by (simp add: h_def drop_bit_eq_div)
  have "64 + ilog2 h = ilog2 x" if "h \<noteq> 0"
  proof -
    have "2 ^ ilog2 h * 2 ^ 64 \<le> h * 2 ^ 64" "h * 2 ^ 64 \<le> x" using that ilog2_le [of h] unfolding hh by simp_all
    moreover have "x < (h + 1) * 2 ^ 64" unfolding hh using mod_less_divisor [of "2 ^ 64" x] div_mult_mod_eq [of x "2 ^ 64"]
      by (simp add: algebra_simps)
    moreover have "(h + 1) * 2 ^ 64 \<le> 2 ^ Suc (ilog2 h) * 2 ^ 64" using that ilog2_gt [of h] by (intro mult_right_mono) simp_all
    ultimately have "ilog2 x = 64 + ilog2 h" by (intro ilog2_unique) (simp_all add: power_add)
    then show ?thesis by simp
  qed
  moreover have "log2_imp h 63 = ilog2 h" if "h \<noteq> 0" using that x by (intro log2_imp_ilog2) (simp_all add: hh less_mult_imp_div_less)
  moreover have "log2_imp x 63 = ilog2 x" if "h = 0" using that assms(3) by (intro log2_imp_ilog2) (simp_all add: hh div_eq_0_iff)
  moreover have "log2_imp x (w - 1) = ilog2 x" using assms by (intro log2_imp_ilog2) simp_all
  ultimately show ?thesis by (simp add: cxx_log2_def h_def [symmetric])
qed


lemma ib_round_div: "k < W \<Longrightarrow> ib_round W R k = R div 2 ^ k * 2 ^ k"
  by (simp add: ib_round_def push_bit_eq_mult drop_bit_eq_div)

lemma ib_round_pos: "k \<le> ilog2 R \<Longrightarrow> ilog2 R < W \<Longrightarrow> 0 < R \<Longrightarrow> 0 < ib_round W R k"
proof -
  assume *: "k \<le> ilog2 R" "ilog2 R < W" "0 < R"
  have "(2::nat) ^ k \<le> 2 ^ ilog2 R" using *(1) by (rule power_increasing) simp
  also have "\<dots> \<le> R" using *(3) by (rule ilog2_le)
  finally show ?thesis using * by (simp add: ib_round_div div_greater_zero_iff)
qed

lemma ib_mask_mask: "k \<le> ew \<Longrightarrow> ib_mask ew k = mask k"
  unfolding ib_mask_def mask_eq_exp_minus_1 [symmetric] drop_bit_mask_eq by simp

text \<open>What the constructor establishes when the range of the generator is not that of the working type.\<close>

definition ib_ok :: "nat \<Rightarrow> nat \<Rightarrow> independent_bits \<Rightarrow> bool" where
  "ib_ok w R b \<longleftrightarrow> ib_n0 b \<le> ib_n b \<and> ib_n0 b * ib_w0 b + (ib_n b - ib_n0 b) * (ib_w0 b + 1) = w \<and>
     0 < ib_y0 b \<and> ib_w0 b \<le> ilog2 R \<and> ib_y0 b = R div 2 ^ ib_w0 b * 2 ^ ib_w0 b \<and> ib_mask0 b = mask (ib_w0 b) \<and>
     (ib_n0 b < ib_n b \<longrightarrow> 0 < ib_y1 b \<and> ib_w0 b + 1 \<le> ilog2 R \<and>
        ib_y1 b = R div 2 ^ (ib_w0 b + 1) * 2 ^ (ib_w0 b + 1) \<and> ib_mask1 b = mask (ib_w0 b + 1))"

lemma ceiling_mult: "0 < m \<Longrightarrow> w \<le> (w div m + (if w mod m \<noteq> 0 then 1 else 0)) * (m::nat)"
proof -
  assume "0 < m"
  then have "w mod m \<le> m" by simp
  with div_mult_mod_eq [of w m] have "w \<le> w div m * m + m" "w mod m = 0 \<Longrightarrow> w \<le> w div m * m" by linarith+
  then show ?thesis by (simp add: distrib_right)
qed

lemma ib_fields_split: "0 < n \<Longrightarrow> (n - w mod n) * (w div n) + (n - (n - w mod n)) * (w div n + 1) = (w::nat)"
proof -
  assume n: "0 < n"
  define q r where "q = w div n" and "r = w mod n"
  have r: "r \<le> n" using n by (simp add: r_def)
  have "(n - r) * q + r * (q + 1) = (n - r + r) * q + r" by (simp only: distrib_right distrib_left)
  also have "\<dots> = w" using r by (simp add: q_def r_def mult.commute)
  finally show ?thesis using r by (simp add: q_def r_def)
qed

lemma independent_bits_make_ok:
  assumes w: "0 < w" and R: "R = ib_R ew rw lo hi" "2 \<le> R" "R \<le> 2 ^ ew" and W: "working_digits ew rw \<le> 128"
  shows "ib_ok w R (independent_bits_make ew rw lo hi w)"
proof -
  define W m where "W = working_digits ew rw" and "m = ilog2 R"
  define b where "b = independent_bits_make ew rw lo hi w"
  have RW: "R < 2 ^ W" unfolding R(1) ib_R_def W_def [symmetric] by (simp add: nat_less_iff)
  have le: "2 ^ m \<le> R" "R < 2 ^ Suc m" using R(2) ilog2_bounds [of R] by (simp_all add: m_def)
  have m: "m < W" "m \<le> ew" "0 < m"
  proof -
    show "m < W" by (rule power_less_imp_less_exp [of "2::nat"]) (use le RW in linarith)+
    show "m \<le> ew" by (rule power_le_imp_le_exp [of "2::nat"]) (use le R(3) in linarith)+
    show "0 < m" using le(2) R(2) by (cases m) simp_all
  qed
  have log: "cxx_log2 W R = m" unfolding m_def using RW R(2) W m(1) by (intro cxx_log2_ilog2) (simp_all add: W_def)
  define n where "n = ib_n b"
  have nm: "w \<le> n * m"
    using ceiling_mult [OF m(3), of w]
    unfolding n_def b_def independent_bits_make_def Let_def R(1) [symmetric] W_def [symmetric] log by simp
  have n: "ib_w0 b = w div n" "ib_n0 b = n - w mod n" "ib_y0 b = ib_round W R (w div n)"
      "ib_y1 b = (if w div n < W - 1 then ib_round W R (w div n + 1) else 0)"
      "ib_mask0 b = (if 0 < w div n then ib_mask ew (w div n) else 0)"
      "ib_mask1 b = (if w div n < ew - 1 then ib_mask ew (w div n + 1) else 2 ^ ew - 1)"
    using R(2) unfolding n_def b_def independent_bits_make_def Let_def R(1) [symmetric] W_def [symmetric] log by simp_all
  have pos: "0 < n" using nm w by (cases n) simp_all
  have w0: "w div n \<le> m"
  proof -
    have "w div n \<le> n * m div n" using nm by (rule div_le_mono)
    with pos show ?thesis by simp
  qed
  have w1: "w div n + 1 \<le> m" if "w mod n \<noteq> 0"
  proof (rule ccontr)
    assume "\<not> ?thesis"
    with w0 have "w div n = m" by simp
    with div_mult_mod_eq [of w n] nm that show False by (simp add: mult.commute)
  qed
  have y0: "0 < ib_y0 b" "ib_y0 b = R div 2 ^ (w div n) * 2 ^ (w div n)" "ib_mask0 b = mask (w div n)"
    using ib_round_pos [of "w div n" R W] ib_round_div [of "w div n" W R] ib_mask_mask [of "w div n" ew] w0 m R(2)
    unfolding n m_def [symmetric] by simp_all
  have y1: "0 < ib_y1 b" "ib_y1 b = R div 2 ^ (w div n + 1) * 2 ^ (w div n + 1)" "ib_mask1 b = mask (w div n + 1)" if "w mod n \<noteq> 0"
  proof -
    have k: "w div n + 1 < W" "w div n < W - 1" using w1 [OF that] m by linarith+
    show "0 < ib_y1 b" "ib_y1 b = R div 2 ^ (w div n + 1) * 2 ^ (w div n + 1)"
      using ib_round_pos [of "w div n + 1" R W] ib_round_div [OF k(1), of R] w1 [OF that] m R(2) k
      unfolding n m_def [symmetric] by (simp_all del: power_Suc)
    have "w div n + 1 = ew \<or> w div n < ew - 1" "w div n + 1 \<le> ew" using w1 [OF that] m by linarith+
    then show "ib_mask1 b = mask (w div n + 1)"
      using ib_mask_mask [of "w div n + 1" ew] unfolding n by (auto simp: mask_eq_exp_minus_1)
  qed
  show ?thesis
    unfolding ib_ok_def b_def [symmetric] n_def [symmetric] n(1,2)
    using y0 y1 w0 w1 ib_fields_split [OF pos, of w] unfolding m_def by auto
qed


section \<open>Drawing until a value is accepted\<close>

text \<open>Some draw, after finitely many others, is below y.\<close>

inductive accepts :: "('s \<Rightarrow> (nat \<times> 's) option) \<Rightarrow> nat \<Rightarrow> 's \<Rightarrow> bool" for draw y where
  accepted: "draw e = Some (u, e') \<Longrightarrow> u < y \<Longrightarrow> accepts draw y e"
| rejected: "draw e = Some (u, e') \<Longrightarrow> y \<le> u \<Longrightarrow> accepts draw y e' \<Longrightarrow> accepts draw y e"

lemma draw_below_returns: "accepts draw y e \<Longrightarrow> \<exists>u e'. draw_below draw y e = Some (u, e')"
proof (induction rule: accepts.induct)
  case (accepted e u e')
  then show ?case by (subst draw_below.simps) simp
next
  case (rejected e u e')
  then show ?case by (subst draw_below.simps) simp
qed

lemma draw_below_Some:
  assumes "draw_below draw y e = Some r"
    and "\<And>e u e'. inv_state e \<Longrightarrow> draw e = Some (u, e') \<Longrightarrow> inv_state e'" and "inv_state e"
  shows "inv_state (snd r) \<and> fst r < y \<and> accepts draw y e"
  using assms(2,3)
proof (induct rule: draw_below.raw_induct [OF _ assms(1)])
  case (1 f draw y e r)
  from 1(2) obtain u e' where d: "draw e = Some (u, e')" "(if y \<le> u then f draw y e' else Some (u, e')) = Some r"
    by (auto split: option.splits)
  have e': "inv_state e'" using 1(3) [OF 1(4) d(1)] .
  show ?case
  proof (cases "y \<le> u")
    case True
    then have "f draw y e' = Some r" using d(2) by simp
    from 1(1) [OF this 1(3) e'] show ?thesis using True d(1) by (auto intro: accepts.rejected)
  next
    case False
    then show ?thesis using d e' by (auto intro: accepts.accepted)
  qed
qed

lemma draw_below_iff:
  assumes "\<And>e u e'. inv_state e \<Longrightarrow> draw e = Some (u, e') \<Longrightarrow> inv_state e'" and "inv_state e"
  shows "draw_below draw y e \<noteq> None \<longleftrightarrow> accepts draw y e"
proof
  assume "draw_below draw y e \<noteq> None"
  then obtain r where "draw_below draw y e = Some r" by blast
  from draw_below_Some [of draw y e r inv_state, OF this assms] show "accepts draw y e" by simp
qed (use draw_below_returns [of draw y e] in auto)

section \<open>The bits\<close>

lemma field_value:
  fixes sp u v :: nat
  assumes "sp < 2 ^ s" and "s + k \<le> rw" and "u = (if k < rw then push_bit k sp mod 2 ^ rw else 0)"
  shows "(u + (v AND mask k)) mod 2 ^ rw = sp * 2 ^ k + v mod 2 ^ k" and "sp * 2 ^ k + v mod 2 ^ k < 2 ^ (s + k)"
proof -
  have "(sp + 1) * 2 ^ k \<le> 2 ^ s * 2 ^ k" using assms(1) by (intro mult_right_mono) simp_all
  moreover have "v mod 2 ^ k < 2 ^ k" by simp
  ultimately show small: "sp * 2 ^ k + v mod 2 ^ k < 2 ^ (s + k)" unfolding power_add distrib_right by linarith
  also have "(2::nat) ^ (s + k) \<le> 2 ^ rw" using assms(2) by (rule power_increasing) simp
  finally have fit: "sp * 2 ^ k + v mod 2 ^ k < 2 ^ rw" .
  have "u = sp * 2 ^ k"
  proof (cases "k < rw")
    case True
    with assms(3) fit show ?thesis by (simp add: push_bit_eq_mult)
  next
    case False
    with assms(2) have "s = 0" by simp
    with assms(1,3) False show ?thesis by simp
  qed
  with fit show "(u + (v AND mask k)) mod 2 ^ rw = sp * 2 ^ k + v mod 2 ^ k"
    by (simp add: take_bit_eq_mask [symmetric] take_bit_eq_mod)
qed


text \<open>The generator is never stuck above the bounds of the rejection loops.\<close>

definition live_bits :: "('s \<Rightarrow> int \<times> 's) \<Rightarrow> ('s \<Rightarrow> bool) \<Rightarrow> nat \<Rightarrow> int \<Rightarrow> int \<Rightarrow> nat \<Rightarrow> nat \<Rightarrow> bool" where
  "live_bits gen inv_state ew lo hi rw w \<longleftrightarrow> (ib_R ew rw lo hi \<noteq> 0 \<longrightarrow>
     (let b = independent_bits_make ew rw lo hi w
      in \<forall>e. inv_state e \<longrightarrow> accepts (gen_offset gen lo) (ib_y0 b) e \<and>
           (ib_n0 b < ib_n b \<longrightarrow> accepts (gen_offset gen lo) (ib_y1 b) e)))"

text \<open>From every state the generator comes to a value below any bound above half of its range.\<close>

definition reaches_lower_half :: "('s \<Rightarrow> int \<times> 's) \<Rightarrow> ('s \<Rightarrow> bool) \<Rightarrow> int \<Rightarrow> int \<Rightarrow> bool" where
  "reaches_lower_half gen inv_state lo hi \<longleftrightarrow>
     (\<forall>y e. inv_state e \<and> hi - lo + 1 < 2 * int y \<longrightarrow> accepts (gen_offset gen lo) y e)"

lemma round_down_half: "0 < y \<Longrightarrow> y = R div 2 ^ j * 2 ^ j \<Longrightarrow> R < 2 * (y :: nat)"
proof -
  assume y: "0 < y" "y = R div 2 ^ j * 2 ^ j"
  then have "1 * 2 ^ j \<le> R div 2 ^ j * 2 ^ j" by (intro mult_right_mono) simp_all
  moreover have "R mod 2 ^ j < 2 ^ j" by simp
  ultimately show ?thesis using y(2) div_mult_mod_eq [of R "2 ^ j"] by linarith
qed

text \<open>A generator for the distribution: one whose result type holds its greatest value.\<close>

locale bit_generator = random_engine +
  fixes ew :: nat
  assumes ew: "0 < ew" "ew \<le> 64" and hi_ew: "hi < 2 ^ ew"
begin

lemma offset_inv: "inv_state e \<Longrightarrow> gen_offset gen lo e = Some (u, e') \<Longrightarrow> inv_state e'"
  using gen_inv [of e] by (auto simp: gen_offset_def split_beta)

lemma fields_bound:
  assumes "ib_fields gen lo rw y (mask k) k c (sp, e) = Some r" and "inv_state e" and "sp < 2 ^ s" and "s + c * k \<le> rw"
  shows "inv_state (snd r) \<and> fst r < 2 ^ (s + c * k)"
  using assms
proof (induction c arbitrary: sp e s)
  case (Suc c)
  from Suc.prems(1) obtain u e' where d: "draw_below (gen_offset gen lo) y e = Some (u, e')"
      and f: "ib_fields gen lo rw y (mask k) k c
        (((if k < rw then push_bit k sp mod 2 ^ rw else 0) + (u AND mask k)) mod 2 ^ rw, e') = Some r"
    by (cases "draw_below (gen_offset gen lo) y e") (auto cong: if_cong)
  have e': "inv_state e'" using draw_below_Some [of _ _ _ _ inv_state, OF d offset_inv Suc.prems(2)] by simp
  note v = field_value [OF Suc.prems(3) _ refl, of k rw u]
  have "s + k \<le> rw" using Suc.prems(4) by simp
  with f e' Suc.IH [of "sp * 2 ^ k + u mod 2 ^ k" e' "s + k"] v Suc.prems(4) show ?case by (simp add: add.assoc)
qed auto

lemma fields_return:
  assumes "\<And>e. inv_state e \<Longrightarrow> accepts (gen_offset gen lo) y e" and "inv_state e"
  shows "\<exists>r. ib_fields gen lo rw y msk k c (sp, e) = Some r \<and> inv_state (snd r)"
  using assms(2)
proof (induction c arbitrary: sp e)
  case (Suc c)
  obtain u e' where d: "draw_below (gen_offset gen lo) y e = Some (u, e')"
    using draw_below_returns [OF assms(1) [OF Suc.prems]] by blast
  have e': "inv_state e'" using draw_below_Some [of _ _ _ _ inv_state, OF d offset_inv Suc.prems] by simp
  with d Suc.IH [OF e'] show ?case by simp
qed simp

text \<open>The range of the generator in the working type, and when it is 0.\<close>

lemma range_cases:
  assumes "rw \<in> {32, 64, 128}"
  obtains "ib_R ew rw lo hi = 0" and "working_digits ew rw = ew" and "rw \<le> ew"
  | "ib_R ew rw lo hi = nat (hi - lo + 1)" and "2 \<le> ib_R ew rw lo hi" and "ib_R ew rw lo hi \<le> 2 ^ ew"
proof -
  define W where "W = working_digits ew rw"
  have W: "ew \<le> W" "rw \<le> W" by (simp_all add: W_def working_digits_def)
  have le: "hi - lo + 1 \<le> 2 ^ ew" "2 \<le> hi - lo + 1" using hi_ew bounds by simp_all
  have mono: "(2::int) ^ ew \<le> 2 ^ W" using W(1) by (rule power_increasing) simp
  show ?thesis
  proof (cases "hi - lo + 1 = 2 ^ W")
    case True
    with le mono have "(2::int) ^ ew = 2 ^ W" by linarith
    then have "ew = W" by simp
    moreover have "ib_R ew rw lo hi = 0" unfolding ib_R_def W_def [symmetric] True by simp
    ultimately show ?thesis using that(1) W(2) unfolding W_def by simp
  next
    case False
    with le mono have "0 \<le> hi - lo + 1" "hi - lo + 1 < 2 ^ W" by linarith+
    then have "(hi - lo + 1) mod 2 ^ W = hi - lo + 1" by (rule mod_pos_pos_trivial)
    then have "ib_R ew rw lo hi = nat (hi - lo + 1)" unfolding ib_R_def W_def by (simp only:)
    moreover have "2 \<le> nat (hi - lo + 1)" "nat (hi - lo + 1) \<le> 2 ^ ew"
      using le by (simp_all add: nat_le_iff le_nat_iff)
    ultimately show ?thesis using that(2) by (simp only:)
  qed
qed

text \<open>The bits of one call: w of them, on both branches.\<close>

lemma mask0_full:
  assumes "ib_R ew rw lo hi = 0" and "working_digits ew rw = ew" and "0 < w" and "w \<le> ew"
  shows "ib_mask0 (independent_bits_make ew rw lo hi w) = mask w"
proof -
  have "cxx_log2 ew 0 = ew" using ew by (auto simp: cxx_log2_def log2_imp.simps)
  then show ?thesis
    unfolding independent_bits_make_def Let_def assms(1,2) using assms(3,4) ib_mask_mask [OF assms(4)]
    by (cases "w = ew") simp_all
qed

lemma bits_bound:
  assumes rw: "rw \<in> {32, 64, 128}" and w: "0 < w" "w \<le> rw" and e: "inv_state e"
    and r: "independent_bits_next gen ew lo hi rw (independent_bits_make ew rw lo hi w) e = Some r"
  shows "inv_state (snd r) \<and> fst r < 2 ^ w"
proof (rule range_cases [OF rw])
  assume z: "ib_R ew rw lo hi = 0" "working_digits ew rw = ew" "rw \<le> ew"
  have "r = ((nat (fst (gen e)) AND mask w) mod 2 ^ rw, snd (gen e))"
    using r mask0_full [OF z(1,2) w(1)] w(2) z by (simp add: independent_bits_next_def split_beta)
  moreover have "(nat (fst (gen e)) AND mask w) mod 2 ^ rw < 2 ^ w"
  proof -
    have "nat (fst (gen e)) AND mask w < 2 ^ w" by (simp add: take_bit_eq_mask [symmetric] take_bit_eq_mod)
    then show ?thesis using mod_less_eq_dividend [of "nat (fst (gen e)) AND mask w" "2 ^ rw"] by linarith
  qed
  ultimately show ?thesis using gen_inv [OF e] by simp
next
  assume R: "ib_R ew rw lo hi = nat (hi - lo + 1)" "2 \<le> ib_R ew rw lo hi" "ib_R ew rw lo hi \<le> 2 ^ ew"
  define b where "b = independent_bits_make ew rw lo hi w"
  have "working_digits ew rw \<le> 128" using rw ew by (auto simp: working_digits_def)
  then have ok: "ib_ok w (ib_R ew rw lo hi) b" unfolding b_def by (intro independent_bits_make_ok [OF w(1) refl R(2,3)])
  obtain s where s: "ib_fields gen lo rw (ib_y0 b) (ib_mask0 b) (ib_w0 b) (ib_n0 b) (0, e) = Some s"
      "ib_fields gen lo rw (ib_y1 b) (ib_mask1 b) (ib_w0 b + 1) (ib_n b - ib_n0 b) s = Some r"
    using r R(2) unfolding independent_bits_next_def b_def [symmetric] by (auto split: option.splits)
  have total: "ib_n0 b * ib_w0 b + (ib_n b - ib_n0 b) * (ib_w0 b + 1) = w" using ok unfolding ib_ok_def by blast
  then have le: "0 + ib_n0 b * ib_w0 b \<le> rw" "ib_n0 b * ib_w0 b + (ib_n b - ib_n0 b) * (ib_w0 b + 1) \<le> rw" using w(2) by linarith+
  have m: "ib_mask0 b = mask (ib_w0 b)" "ib_n0 b < ib_n b \<Longrightarrow> ib_mask1 b = mask (ib_w0 b + 1)" "ib_n0 b \<le> ib_n b"
    using ok unfolding ib_ok_def by blast+
  have s0: "inv_state (snd s) \<and> fst s < 2 ^ (ib_n0 b * ib_w0 b)"
    using fields_bound [OF s(1) [unfolded m(1)] e _ le(1)] by simp
  show ?thesis
  proof (cases "ib_n0 b < ib_n b")
    case True
    have "ib_fields gen lo rw (ib_y1 b) (mask (ib_w0 b + 1)) (ib_w0 b + 1) (ib_n b - ib_n0 b) (fst s, snd s) = Some r"
      using s(2) m(2) [OF True] by simp
    from fields_bound [OF this _ _ le(2)] s0 show ?thesis unfolding total by blast
  next
    case False
    with m(3) have "ib_n b - ib_n0 b = 0" by simp
    with s(2) s0 total show ?thesis by simp
  qed
qed

text \<open>A generator whose range is a power of two never rejects a value in the inner loops.\<close>

lemma power_of_two_live:
  assumes rw: "rw \<in> {32, 64, 128}" and w: "0 < w" and k: "hi - lo + 1 = 2 ^ k"
  shows "live_bits gen inv_state ew lo hi rw w"
proof (rule range_cases [OF rw])
  assume R: "ib_R ew rw lo hi = nat (hi - lo + 1)" "2 \<le> ib_R ew rw lo hi" "ib_R ew rw lo hi \<le> 2 ^ ew"
  define b where "b = independent_bits_make ew rw lo hi w"
  have R2: "ib_R ew rw lo hi = 2 ^ k" unfolding R(1) k by simp
  have "working_digits ew rw \<le> 128" using rw ew by (auto simp: working_digits_def)
  then have ok: "ib_ok w (2 ^ k) b" unfolding b_def R2 [symmetric] by (intro independent_bits_make_ok [OF w refl R(2,3)])
  have l: "ilog2 (2 ^ k) = k" by (rule ilog2_unique) simp_all
  have y: "(2::nat) ^ k div 2 ^ j * 2 ^ j = 2 ^ k" if "j \<le> k" for j
    using le_imp_power_dvd [OF that, of "2::nat"] by simp
  have y0: "ib_y0 b = 2 ^ k" "ib_n0 b < ib_n b \<Longrightarrow> ib_y1 b = 2 ^ k" using ok y unfolding ib_ok_def l by metis+
  have "accepts (gen_offset gen lo) (2 ^ k) e" if "inv_state e" for e
  proof (rule accepts.accepted)
    show "gen_offset gen lo e = Some (nat (fst (gen e) - lo), snd (gen e))" by (simp add: gen_offset_def split_beta)
    have "fst (gen e) - lo < 2 ^ k" using gen_range [OF that] k by (simp add: in_range_def)
    then show "nat (fst (gen e) - lo) < 2 ^ k" by (simp add: nat_less_iff)
  qed
  with y0 show ?thesis by (simp add: live_bits_def b_def [symmetric] Let_def)
qed (simp add: live_bits_def)

text \<open>A generator that comes to the lower half of its range from every state leaves the inner loops.\<close>

lemma lower_half_live:
  assumes rw: "rw \<in> {32, 64, 128}" and w: "0 < w" and half: "reaches_lower_half gen inv_state lo hi"
  shows "live_bits gen inv_state ew lo hi rw w"
proof (rule range_cases [OF rw])
  assume R: "ib_R ew rw lo hi = nat (hi - lo + 1)" "2 \<le> ib_R ew rw lo hi" "ib_R ew rw lo hi \<le> 2 ^ ew"
  define b where "b = independent_bits_make ew rw lo hi w"
  have "working_digits ew rw \<le> 128" using rw ew by (auto simp: working_digits_def)
  then have ok: "ib_ok w (ib_R ew rw lo hi) b" unfolding b_def by (intro independent_bits_make_ok [OF w refl R(2,3)])
  have "accepts (gen_offset gen lo) y e" if "inv_state e" "0 < y" "y = ib_R ew rw lo hi div 2 ^ j * 2 ^ j" for y e j
  proof -
    have "hi - lo + 1 < 2 * int y" using round_down_half [OF that(2,3)] R(1,2) by linarith
    with half that(1) show ?thesis unfolding reaches_lower_half_def by blast
  qed
  with ok show ?thesis unfolding live_bits_def b_def [symmetric] Let_def ib_ok_def by blast
qed (simp add: live_bits_def)

lemma bits_return:
  assumes "rw \<in> {32, 64, 128}" and "live_bits gen inv_state ew lo hi rw w" and "inv_state e"
  shows "\<exists>r. independent_bits_next gen ew lo hi rw (independent_bits_make ew rw lo hi w) e = Some r"
proof (cases "ib_R ew rw lo hi = 0")
  case True
  then show ?thesis by (simp add: independent_bits_next_def split_beta)
next
  case False
  define b where "b = independent_bits_make ew rw lo hi w"
  have live: "\<And>e. inv_state e \<Longrightarrow> accepts (gen_offset gen lo) (ib_y0 b) e"
      "\<And>e. ib_n0 b < ib_n b \<Longrightarrow> inv_state e \<Longrightarrow> accepts (gen_offset gen lo) (ib_y1 b) e"
    using assms(2) False unfolding live_bits_def b_def [symmetric] Let_def by blast+
  obtain s where s: "ib_fields gen lo rw (ib_y0 b) (ib_mask0 b) (ib_w0 b) (ib_n0 b) (0, e) = Some s" "inv_state (snd s)"
    using fields_return [OF live(1) assms(3)] by blast
  have "\<exists>r. ib_fields gen lo rw (ib_y1 b) (ib_mask1 b) (ib_w0 b + 1) (ib_n b - ib_n0 b) s = Some r"
  proof (cases "ib_n0 b < ib_n b")
    case True
    from fields_return [OF live(2) [OF True] s(2), of rw "ib_mask1 b" "ib_w0 b + 1" "ib_n b - ib_n0 b" "fst s"] show ?thesis by auto
  qed simp
  with s(1) False show ?thesis unfolding independent_bits_next_def b_def [symmetric] by simp
qed

end


section \<open>The distribution\<close>

lemma uniform_width_value:
  assumes "unsigned_width dt" and "2 \<le> rp" and "rp < 2 ^ dt"
  obtains w where "uniform_width dt rp = Some w" and "0 < w" and "w \<le> dt" and "rp \<le> 2 ^ w" and "2 ^ w < 2 * rp"
proof -
  define L where "L = ilog2 rp"
  have L: "2 ^ L \<le> rp" "rp < 2 ^ Suc L" using assms(2) ilog2_bounds [of rp] by (simp_all add: L_def)
  have Ldt: "L < dt" by (rule power_less_imp_less_exp [of "2::nat"]) (use L assms(3) in linarith)+
  have L0: "0 < L" using L(2) assms(2) by (cases L) simp_all
  have z: "countl_zero dt rp = Some (dt - 1 - L)"
    unfolding L_def using assms by (intro countl_zero_ilog2) simp_all
  have "dt - (dt - 1 - L) - 1 = L" using Ldt by simp
  moreover have "rp AND drop_bit (dt - L) (2 ^ dt - 1) = rp mod 2 ^ L"
    unfolding mask_eq_exp_minus_1 [symmetric] drop_bit_mask_eq using Ldt
    by (simp add: take_bit_eq_mask [symmetric] take_bit_eq_mod)
  ultimately have u: "uniform_width dt rp = Some (if rp mod 2 ^ L \<noteq> 0 then L + 1 else L)"
    unfolding uniform_width_def z by (simp add: Let_def)
  show ?thesis
  proof (cases "rp mod 2 ^ L = 0")
    case True
    then obtain q where q: "rp = 2 ^ L * q" by (auto simp: mod_eq_0_iff_dvd)
    with L have "q = 1" by (cases q; cases "q - 1") simp_all
    with q u True that [of L] L0 Ldt L show ?thesis by simp
  next
    case False
    then have "2 ^ L \<noteq> rp" by auto
    with u False that [of "L + 1"] L Ldt show ?thesis by simp
  qed
qed

lemma to_type_id:
  assumes "in_type tw is_signed x" and "0 < tw" and "tw \<le> dt"
  shows "to_type tw is_signed (wrap_unsigned dt x) = x"
proof -
  have "(2::int) ^ tw dvd 2 ^ dt" using assms(3) by (rule le_imp_power_dvd)
  then have m: "(wrap_unsigned dt x + c) mod 2 ^ tw = (x + c) mod 2 ^ tw" for c
    unfolding wrap_unsigned_def by (metis mod_add_left_eq mod_mod_cancel)
  then have "to_type tw is_signed (wrap_unsigned dt x) = to_type tw is_signed x"
    using m [of 0] by (simp add: to_type_def wrap_signed_def wrap_unsigned_def)
  also have "\<dots> = x" using assms by (simp add: to_type_def in_type_def wrap_signed_id wrap_unsigned_id split: if_splits)
  finally show ?thesis .
qed


text \<open>The number of bits a candidate has, and one candidate.\<close>

definition uniform_bits :: "nat \<Rightarrow> uniform_int \<Rightarrow> nat option" where
  "uniform_bits tw p =
     (if uniform_range tw p = 0 then Some (uniform_digits tw) else uniform_width (uniform_digits tw) (uniform_range tw p))"

definition uniform_candidate ::
  "('s \<Rightarrow> int \<times> 's) \<Rightarrow> nat \<Rightarrow> int \<Rightarrow> int \<Rightarrow> nat \<Rightarrow> uniform_int \<Rightarrow> 's \<Rightarrow> (nat \<times> 's) option" where
  "uniform_candidate gen ew lo hi tw p e =
     (case uniform_bits tw p of None \<Rightarrow> None
      | Some w \<Rightarrow> independent_bits_next gen ew lo hi (uniform_digits tw) (independent_bits_make ew (uniform_digits tw) lo hi w) e)"

definition uniform_params :: "nat \<Rightarrow> bool \<Rightarrow> uniform_int \<Rightarrow> bool" where
  "uniform_params tw is_signed p \<longleftrightarrow>
     tw \<in> {8, 16, 32, 64, 128} \<and> in_type tw is_signed (ui_a p) \<and> in_type tw is_signed (ui_b p) \<and> ui_a p \<le> ui_b p"

lemma uniform_digits_width: "tw \<in> {8, 16, 32, 64, 128} \<Longrightarrow> uniform_digits tw \<in> {32, 64, 128} \<and> tw \<le> uniform_digits tw"
  by (auto simp: uniform_digits_def)

lemma type_bounds: "0 < tw \<Longrightarrow> in_type tw is_signed x \<longleftrightarrow> type_max tw is_signed + 1 - 2 ^ tw \<le> x \<and> x \<le> type_max tw is_signed"
  by (cases tw) (auto simp: in_type_def in_signed_def type_max_def)

lemma uniform_range_cases:
  assumes "uniform_params tw is_signed p"
  obtains "uniform_range tw p = 0" and "tw = uniform_digits tw" and "ui_a p = type_max tw is_signed + 1 - 2 ^ tw" and "ui_b p = type_max tw is_signed"
  | "int (uniform_range tw p) = ui_b p - ui_a p + 1" and "1 \<le> uniform_range tw p" and "uniform_range tw p < 2 ^ uniform_digits tw"
proof -
  define dt z where "dt = uniform_digits tw" and "z = ui_b p - ui_a p + 1"
  have tw: "0 < tw" "tw \<le> dt" using assms uniform_digits_width [of tw] by (auto simp: uniform_params_def dt_def)
  have ab: "type_max tw is_signed + 1 - 2 ^ tw \<le> ui_a p" "ui_b p \<le> type_max tw is_signed" "ui_a p \<le> ui_b p"
    using assms type_bounds [OF tw(1)] by (simp_all add: uniform_params_def)
  have le: "(2::int) ^ tw \<le> 2 ^ dt" using tw(2) by (rule power_increasing) simp
  have z: "1 \<le> z" "z \<le> 2 ^ tw" using ab by (simp_all add: z_def)
  show ?thesis
  proof (cases "z = 2 ^ dt")
    case True
    with z le have e: "(2::int) ^ tw = 2 ^ dt" by linarith
    then have "tw = dt" by simp
    moreover have "uniform_range tw p = 0" unfolding uniform_range_def dt_def [symmetric] z_def [symmetric] True by simp
    moreover have "ui_a p = type_max tw is_signed + 1 - 2 ^ tw" "ui_b p = type_max tw is_signed"
      using True e ab unfolding z_def by linarith+
    ultimately show ?thesis using that(1) unfolding dt_def by blast
  next
    case False
    with z le have lt: "0 \<le> z" "z < 2 ^ dt" by linarith+
    then have "z mod 2 ^ dt = z" by (rule mod_pos_pos_trivial)
    then have r: "uniform_range tw p = nat z" unfolding uniform_range_def dt_def [symmetric] z_def [symmetric] by (simp only:)
    have "nat z < 2 ^ dt" using lt by (simp add: nat_less_iff)
    then show ?thesis using that(2) r z unfolding dt_def z_def by simp
  qed
qed

lemma to_type_range: "0 < tw \<Longrightarrow> type_max tw is_signed + 1 - 2 ^ tw \<le> to_type tw is_signed x \<and> to_type tw is_signed x \<le> type_max tw is_signed"
proof -
  assume "0 < tw"
  have "0 \<le> y mod 2 ^ tw" "y mod 2 ^ tw < 2 ^ tw" for y :: int by simp_all
  from this [of x] this [of "x + 2 ^ (tw - 1)"] \<open>0 < tw\<close> show ?thesis
    by (cases tw) (simp_all add: to_type_def type_max_def wrap_signed_def wrap_unsigned_def)
qed

context bit_generator
begin

lemma candidate:
  assumes "uniform_params tw is_signed p" and "uniform_range tw p \<noteq> 1"
  obtains w where "uniform_bits tw p = Some w" and "0 < w" and "w \<le> uniform_digits tw"
    and "uniform_range tw p \<noteq> 0 \<Longrightarrow> uniform_range tw p \<le> 2 ^ w \<and> 2 ^ w < 2 * uniform_range tw p"
    and "uniform_candidate gen ew lo hi tw p =
      independent_bits_next gen ew lo hi (uniform_digits tw) (independent_bits_make ew (uniform_digits tw) lo hi w)"
proof -
  define dt where "dt = uniform_digits tw"
  have dt: "dt \<in> {32, 64, 128}" using assms(1) uniform_digits_width by (simp add: dt_def uniform_params_def)
  have "\<exists>w. uniform_bits tw p = Some w \<and> 0 < w \<and> w \<le> dt \<and>
    (uniform_range tw p \<noteq> 0 \<longrightarrow> uniform_range tw p \<le> 2 ^ w \<and> 2 ^ w < 2 * uniform_range tw p)"
  proof (rule uniform_range_cases [OF assms(1)])
    assume "uniform_range tw p = 0"
    with dt show ?thesis by (auto simp: uniform_bits_def dt_def [symmetric])
  next
    assume r: "1 \<le> uniform_range tw p" "uniform_range tw p < 2 ^ uniform_digits tw"
    have "unsigned_width dt" using dt by (auto simp: unsigned_width_def)
    from uniform_width_value [OF this, of "uniform_range tw p"] r assms(2) show ?thesis
      unfolding uniform_bits_def dt_def [symmetric] by (metis One_nat_def Suc_leI le_neq_implies_less not_one_le_zero one_add_one plus_1_eq_Suc)
  qed
  then show ?thesis using that by (auto simp: uniform_candidate_def dt_def fun_eq_iff)
qed

lemma candidate_bound:
  assumes "uniform_params tw is_signed p" and "uniform_range tw p \<noteq> 1" and "inv_state e"
    and "uniform_candidate gen ew lo hi tw p e = Some r"
  shows "inv_state (snd r) \<and> (uniform_range tw p \<noteq> 0 \<longrightarrow> fst r < 2 * uniform_range tw p)"
proof -
  have dt: "uniform_digits tw \<in> {32, 64, 128}" using assms(1) uniform_digits_width by (simp add: uniform_params_def)
  obtain w where w: "0 < w" "w \<le> uniform_digits tw"
      "uniform_range tw p \<noteq> 0 \<Longrightarrow> 2 ^ w < 2 * uniform_range tw p"
      "uniform_candidate gen ew lo hi tw p =
        independent_bits_next gen ew lo hi (uniform_digits tw) (independent_bits_make ew (uniform_digits tw) lo hi w)"
    using candidate [OF assms(1,2)] by metis
  from bits_bound [OF dt w(1,2) assms(3) assms(4) [unfolded w(4)]] w(3) show ?thesis by fastforce
qed

lemma candidate_inv:
  assumes "uniform_params tw is_signed p" and "uniform_range tw p \<noteq> 1"
  shows "inv_state e \<Longrightarrow> uniform_candidate gen ew lo hi tw p e = Some (u, e') \<Longrightarrow> inv_state e'"
  using candidate_bound [OF assms, of e "(u, e')"] by simp

lemma candidate_returns:
  assumes "uniform_params tw is_signed p" and "uniform_range tw p \<noteq> 1" and "inv_state e"
    and "\<forall>w. uniform_bits tw p = Some w \<longrightarrow> uniform_range tw p \<noteq> 1 \<longrightarrow> live_bits gen inv_state ew lo hi (uniform_digits tw) w"
  shows "\<exists>r. uniform_candidate gen ew lo hi tw p e = Some r"
proof -
  have dt: "uniform_digits tw \<in> {32, 64, 128}" using assms(1) uniform_digits_width by (simp add: uniform_params_def)
  obtain w where w: "uniform_bits tw p = Some w" "uniform_candidate gen ew lo hi tw p =
        independent_bits_next gen ew lo hi (uniform_digits tw) (independent_bits_make ew (uniform_digits tw) lo hi w)"
    using candidate [OF assms(1,2)] by metis
  from bits_return [OF dt _ assms(3)] w assms(2,4) show ?thesis by simp
qed

lemma next_candidates:
  assumes "uniform_params tw is_signed p" and "uniform_range tw p \<noteq> 1"
  shows "uniform_int_next gen ew lo hi tw is_signed p e =
    (if uniform_range tw p = 0
     then map_option (map_prod (\<lambda>u. to_type tw is_signed (int u)) id) (uniform_candidate gen ew lo hi tw p e)
     else map_option (map_prod (\<lambda>u. to_type tw is_signed (wrap_unsigned (uniform_digits tw) (int u + ui_a p))) id)
       (draw_below (uniform_candidate gen ew lo hi tw p) (uniform_range tw p) e))"
proof -
  obtain w where w: "uniform_bits tw p = Some w" "uniform_candidate gen ew lo hi tw p =
        independent_bits_next gen ew lo hi (uniform_digits tw) (independent_bits_make ew (uniform_digits tw) lo hi w)"
    using candidate [OF assms] by metis
  from w(1) assms(2) show ?thesis unfolding uniform_int_next_def w(2) by (auto simp: uniform_bits_def Let_def split: if_splits)
qed

lemma next_range:
  assumes p: "uniform_params tw is_signed p" and e: "inv_state e"
    and r: "uniform_int_next gen ew lo hi tw is_signed p e = Some (v, e')"
  shows "ui_a p \<le> v \<and> v \<le> ui_b p \<and> inv_state e'"
proof (cases "uniform_range tw p = 1")
  case True
  with r p e show ?thesis by (simp add: uniform_int_next_def uniform_params_def)
next
  case ne: False
  note inv = candidate_inv [OF p ne]
  have tw: "0 < tw" "tw \<le> uniform_digits tw" using p uniform_digits_width [of tw] by (auto simp: uniform_params_def)
  show ?thesis
  proof (rule uniform_range_cases [OF p])
    assume z: "uniform_range tw p = 0" "ui_a p = type_max tw is_signed + 1 - 2 ^ tw" "ui_b p = type_max tw is_signed"
    with r ne obtain u where "uniform_candidate gen ew lo hi tw p e = Some (u, e')" "v = to_type tw is_signed (int u)"
      by (auto simp: next_candidates [OF p])
    with inv [OF e] to_type_range [OF tw(1)] z show ?thesis by simp
  next
    assume n: "int (uniform_range tw p) = ui_b p - ui_a p + 1" "1 \<le> uniform_range tw p"
    with r ne obtain u where u: "draw_below (uniform_candidate gen ew lo hi tw p) (uniform_range tw p) e = Some (u, e')"
        "v = to_type tw is_signed (wrap_unsigned (uniform_digits tw) (int u + ui_a p))"
      by (auto simp: next_candidates [OF p])
    from draw_below_Some [of _ _ _ _ inv_state, OF u(1) inv e] have u': "inv_state e'" "u < uniform_range tw p" by simp_all
    then have range: "ui_a p \<le> int u + ui_a p" "int u + ui_a p \<le> ui_b p" using n by linarith+
    then have "in_type tw is_signed (int u + ui_a p)" using p type_bounds [OF tw(1)] by (auto simp: uniform_params_def)
    from to_type_id [OF this tw] u(2) range u'(1) show ?thesis by simp
  qed
qed

lemma next_returns:
  assumes p: "uniform_params tw is_signed p" and e: "inv_state e"
    and live: "\<forall>w. uniform_bits tw p = Some w \<longrightarrow> uniform_range tw p \<noteq> 1 \<longrightarrow> live_bits gen inv_state ew lo hi (uniform_digits tw) w"
  shows "uniform_int_next gen ew lo hi tw is_signed p e \<noteq> None \<longleftrightarrow>
    uniform_range tw p \<in> {0, 1} \<or> accepts (uniform_candidate gen ew lo hi tw p) (uniform_range tw p) e"
proof (cases "uniform_range tw p = 1")
  case True
  then show ?thesis by (simp add: uniform_int_next_def)
next
  case ne: False
  have "draw_below (uniform_candidate gen ew lo hi tw p) (uniform_range tw p) e \<noteq> None \<longleftrightarrow>
      accepts (uniform_candidate gen ew lo hi tw p) (uniform_range tw p) e"
    by (rule draw_below_iff [of inv_state, OF candidate_inv [OF p ne] e])
  then show ?thesis
    using candidate_returns [OF p ne e live] ne
    by (auto simp: next_candidates [OF p ne])
qed

lemma uniform_live:
  assumes "uniform_params tw is_signed p" and "(\<exists>j. hi - lo + 1 = 2 ^ j) \<or> reaches_lower_half gen inv_state lo hi"
    and "uniform_bits tw p = Some w"
  shows "uniform_range tw p \<noteq> 1 \<longrightarrow> live_bits gen inv_state ew lo hi (uniform_digits tw) w"
proof
  assume ne: "uniform_range tw p \<noteq> 1"
  have dt: "uniform_digits tw \<in> {32, 64, 128}" using assms(1) uniform_digits_width by (simp add: uniform_params_def)
  have "0 < w" using candidate [OF assms(1) ne] assms(3) by (metis option.inject)
  with assms(2) show "live_bits gen inv_state ew lo hi (uniform_digits tw) w"
    using power_of_two_live [OF dt] lower_half_live [OF dt] by blast
qed

text \<open>With a power of two of values every candidate is accepted.\<close>

lemma next_power_of_two:
  assumes p: "uniform_params tw is_signed p" and e: "inv_state e" and k: "uniform_range tw p = 2 ^ k"
    and live: "\<forall>w. uniform_bits tw p = Some w \<longrightarrow> uniform_range tw p \<noteq> 1 \<longrightarrow> live_bits gen inv_state ew lo hi (uniform_digits tw) w"
  shows "uniform_int_next gen ew lo hi tw is_signed p e \<noteq> None"
proof (cases "uniform_range tw p = 1")
  case False
  have dt: "uniform_digits tw \<in> {32, 64, 128}" using p uniform_digits_width by (simp add: uniform_params_def)
  obtain w where w: "0 < w" "w \<le> uniform_digits tw" "2 ^ k \<le> (2::nat) ^ w" "(2::nat) ^ w < 2 * 2 ^ k"
      "uniform_candidate gen ew lo hi tw p =
        independent_bits_next gen ew lo hi (uniform_digits tw) (independent_bits_make ew (uniform_digits tw) lo hi w)"
    using candidate [OF p False] k by (metis power_eq_0_iff zero_neq_numeral)
  have "k \<le> w" "w < Suc k" using w(3,4) by (simp_all flip: power_Suc)
  then have wk: "w = k" by simp
  obtain r where r: "uniform_candidate gen ew lo hi tw p e = Some r" using candidate_returns [OF p False e live] by blast
  from bits_bound [OF dt w(1,2) e r [unfolded w(5)]] have "fst r < 2 ^ k" unfolding wk by simp
  then have "accepts (uniform_candidate gen ew lo hi tw p) (uniform_range tw p) e"
    using r unfolding k by (cases r) (auto intro: accepts.accepted)
  then show ?thesis using next_returns [OF p e live] by blast
qed (simp add: uniform_int_next_def)

end

interpretation minstd0_bits: bit_generator "lcg_next minstd_rand0" "lcg_live minstd_rand0" "lcg_min minstd_rand0" "lcg_max minstd_rand0" 64
  by unfold_locales (simp_all add: lcg_max_def minstd_rand0_def wrap_unsigned_def)

interpretation mersenne64_bits: bit_generator "word_engine (mt_next mt19937_64)" "mt_inv mt19937_64" 0 "2 ^ 64 - 1" 64
  by unfold_locales simp_all

interpretation lux24_bits: bit_generator "word_engine (swc_next ranlux24_base :: 64 word swc_ring \<Rightarrow> _)" "swc_inv ranlux24_base" 0 "2 ^ 24 - 1" 64
  by unfold_locales simp_all

section \<open>\<open>minstd_rand0\<close> comes to the lower half of its range\<close>

lemma accepts_later:
  assumes "nat (fst (gen (engine_discard gen n e)) - lo) < y"
  shows "accepts (gen_offset gen lo) y e"
  using assms
proof (induction n arbitrary: e)
  case 0
  show ?case by (rule accepts.accepted [of _ _ "nat (fst (gen e) - lo)" "snd (gen e)"]) (use 0 in \<open>simp_all add: gen_offset_def split_beta\<close>)
next
  case (Suc n)
  have d: "gen_offset gen lo e = Some (nat (fst (gen e) - lo), snd (gen e))" by (simp add: gen_offset_def split_beta)
  show ?case
  proof (cases "nat (fst (gen e) - lo) < y")
    case True
    with d show ?thesis using accepts.accepted by metis
  next
    case False
    then have "y \<le> nat (fst (gen e) - lo)" by simp
    moreover have "accepts (gen_offset gen lo) y (snd (gen e))" using Suc by simp
    ultimately show ?thesis using d accepts.rejected by metis
  qed
qed

text \<open>The multiplier to the power of half of the period, by repeated squaring, is -1.\<close>

primrec minstd_square :: "nat \<Rightarrow> int \<Rightarrow> int" where
  "minstd_square 0 v = v"
| "minstd_square (Suc k) v = minstd_square k (v * v mod 2147483647 * 16807 mod 2147483647)"

lemma mod_square_mult: "a * a * b mod M = (a mod M) * (a mod M) mod M * b mod (M :: int)"
  by (metis mod_mult_eq mod_mult_left_eq)

lemma minstd_square_power:
  "minstd_square k (16807 ^ (2 ^ j - 1) mod 2147483647) = 16807 ^ (2 ^ (j + k) - 1) mod (2147483647 :: int)"
proof (induction k arbitrary: j)
  case (Suc k)
  have "(1 :: nat) \<le> 2 ^ j" by simp
  then have "(2 :: nat) ^ Suc j - 1 = (2 ^ j - 1) + (2 ^ j - 1) + 1" unfolding power_Suc by linarith
  then have "(16807 :: int) ^ (2 ^ Suc j - 1) mod 2147483647 =
      (16807 ^ (2 ^ j - 1) mod 2147483647) * (16807 ^ (2 ^ j - 1) mod 2147483647) mod 2147483647 * 16807 mod 2147483647"
    using mod_square_mult [of "16807 ^ (2 ^ j - 1)" 16807] by (simp only: power_add power_one_right)
  then show ?case unfolding minstd_square.simps by (metis Suc.IH add_Suc_right add_Suc)
qed simp

lemma minstd_square_numeral:
  "minstd_square (numeral n) v = minstd_square (pred_numeral n) (v * v mod 2147483647 * 16807 mod 2147483647)"
  by (simp add: numeral_eq_Suc)

lemma minstd_half_period: "(16807 :: int) ^ (2 ^ 30 - 1) mod 2147483647 = 2147483646"
proof -
  have "minstd_square 30 1 = 2147483646" by (simp add: minstd_square_numeral)
  moreover have "minstd_square 30 1 = (16807 :: int) ^ (2 ^ (0 + 30) - 1) mod 2147483647"
  proof -
    have "(16807 :: int) ^ (2 ^ 0 - 1) mod 2147483647 = 1" by simp
    with minstd_square_power [of 30 0] show ?thesis by (simp only:)
  qed
  ultimately show ?thesis by (simp only: add_0)
qed

lemma engine_discard_lcg: "engine_discard (lcg_next e) n x = lcg_discard e n x"
  by (induction n arbitrary: x) simp_all

lemma lcg_draw: "fst (lcg_next e (engine_discard (lcg_next e) n x)) = lcg_discard e (Suc n) x"
proof -
  have "fst (lcg_next e z) = snd (lcg_next e z)" for z by (simp add: lcg_next_def Let_def)
  then show ?thesis unfolding engine_discard_lcg [symmetric] engine_discard_Suc .
qed

lemma minstd_lower_half: "reaches_lower_half (lcg_next minstd_rand0) (lcg_live minstd_rand0) (lcg_min minstd_rand0) (lcg_max minstd_rand0)"
proof -
  define M :: int where "M = 2147483647"
  have m: "lcg_min minstd_rand0 = 1" "lcg_max minstd_rand0 = M - 1" "lcg_modulus minstd_rand0 = M" "lcg_a minstd_rand0 = 16807" "lcg_c minstd_rand0 = 0"
    by (simp_all add: lcg_min_def lcg_max_def minstd_rand0_def wrap_unsigned_def lcg_modulus_def M_def)
  have "accepts (gen_offset (lcg_next minstd_rand0) 1) y x" if x: "lcg_live minstd_rand0 x" and y: "M - 1 < 2 * int y" for x y
  proof -
    have inv: "lcg_inv minstd_rand0 x" using x by (simp add: lcg_live_def)
    have v: "fst (lcg_next minstd_rand0 (engine_discard (lcg_next minstd_rand0) n x)) = 16807 ^ Suc n * x mod M" for n
      unfolding lcg_draw lcg_discard_closed [OF minstd_params(1) inv] m by simp
    define v0 where "v0 = 16807 ^ Suc 0 * x mod M"
    have v0: "v0 = fst (lcg_next minstd_rand0 x)" using v [of 0] by (simp add: v0_def)
    then have range: "1 \<le> v0" "v0 \<le> M - 1" using minstd0.gen_range [OF x] by (simp_all add: m in_range_def)
    have "16807 ^ Suc (2 ^ 30 - 1) * x mod M = ((16807 ^ (2 ^ 30 - 1) mod M) * v0) mod M"
      unfolding v0_def power_Suc by (simp only: mod_mult_eq mult_ac power_0 mult_1_left)
    also have "\<dots> = (M - 1) * v0 mod M" unfolding M_def minstd_half_period by simp
    also have "\<dots> = (M - v0 + M * (v0 - 1)) mod M" by (simp add: algebra_simps)
    also have "\<dots> = M - v0" unfolding mod_mult_self2 using range by (intro mod_pos_pos_trivial) simp_all
    finally have v1: "16807 ^ Suc (2 ^ 30 - 1) * x mod M = M - v0" .
    have small: "u \<le> 1073741823 \<Longrightarrow> nat (u - 1) < y" for u using y by (simp add: M_def)
    consider "v0 \<le> 1073741823" | "M - v0 \<le> 1073741823" unfolding M_def by linarith
    then show ?thesis
    proof cases
      case 1
      with small v0 show ?thesis by (intro accepts_later [of _ 0]) simp
    next
      case 2
      then have "nat (fst (lcg_next minstd_rand0 (engine_discard (lcg_next minstd_rand0) (2 ^ 30 - 1) x)) - 1) < y"
        unfolding v v1 by (rule small)
      then show ?thesis by (rule accepts_later)
    qed
  qed
  then show ?thesis unfolding reaches_lower_half_def m by simp
qed

section \<open>Properties\<close>

text \<open>
  C27. The uniform distribution, for every generator with a result type of at most 64 bits, every
  integer type of 8 to 128 bits and all bounds a and b of it: each value returned lies between a
  and b, the extreme bounds included, although the sizes of the ranges wrap to 0 at the width of
  the type. When the range of the generator is a power of two, or the generator comes to the lower
  half of its range from every state, as \<open>minstd_rand0\<close> does, whose range is no power of two,
  every candidate is found, and is less than twice the size of the range; the call returns if and
  only if a single value is asked for, the range is that of the type, or some candidate is
  accepted; and with a power of two of values it always returns.
\<close>

theorem uniform_int_correct:
  assumes gen: "bit_generator gen inv_state lo hi ew" and p: "uniform_params tw is_signed p" and e: "inv_state e"
  shows "(\<forall>v e'. uniform_int_next gen ew lo hi tw is_signed p e = Some (v, e') \<longrightarrow>
      ui_a p \<le> v \<and> v \<le> ui_b p \<and> inv_state e') \<and>
    ((\<exists>j. hi - lo + 1 = 2 ^ j) \<or> reaches_lower_half gen inv_state lo hi \<longrightarrow>
      (uniform_int_next gen ew lo hi tw is_signed p e \<noteq> None \<longleftrightarrow>
        uniform_range tw p \<in> {0, 1} \<or> accepts (uniform_candidate gen ew lo hi tw p) (uniform_range tw p) e) \<and>
      (uniform_range tw p \<noteq> 1 \<longrightarrow> (\<exists>u e'. uniform_candidate gen ew lo hi tw p e = Some (u, e') \<and> inv_state e' \<and>
        (uniform_range tw p \<noteq> 0 \<longrightarrow> u < 2 * uniform_range tw p))) \<and>
      (\<forall>k. uniform_range tw p = 2 ^ k \<longrightarrow> uniform_int_next gen ew lo hi tw is_signed p e \<noteq> None))"
proof (intro conjI impI)
  show "\<forall>v e'. uniform_int_next gen ew lo hi tw is_signed p e = Some (v, e') \<longrightarrow> ui_a p \<le> v \<and> v \<le> ui_b p \<and> inv_state e'"
    using bit_generator.next_range [OF gen p e] by blast
  assume "(\<exists>j. hi - lo + 1 = 2 ^ j) \<or> reaches_lower_half gen inv_state lo hi"
  then have live: "\<forall>w. uniform_bits tw p = Some w \<longrightarrow> uniform_range tw p \<noteq> 1 \<longrightarrow> live_bits gen inv_state ew lo hi (uniform_digits tw) w"
    using bit_generator.uniform_live [OF gen p] by blast
  show "uniform_int_next gen ew lo hi tw is_signed p e \<noteq> None \<longleftrightarrow>
      uniform_range tw p \<in> {0, 1} \<or> accepts (uniform_candidate gen ew lo hi tw p) (uniform_range tw p) e"
    using bit_generator.next_returns [OF gen p e live] .
  show "\<exists>u e'. uniform_candidate gen ew lo hi tw p e = Some (u, e') \<and> inv_state e' \<and> (uniform_range tw p \<noteq> 0 \<longrightarrow> u < 2 * uniform_range tw p)"
    if "uniform_range tw p \<noteq> 1"
    using bit_generator.candidate_returns [OF gen p that e live] bit_generator.candidate_bound [OF gen p that e] by fastforce
  show "\<forall>k. uniform_range tw p = 2 ^ k \<longrightarrow> uniform_int_next gen ew lo hi tw is_signed p e \<noteq> None"
    using bit_generator.next_power_of_two [OF gen p e _ live] by blast
qed

theorem uniform_int_correct_witness:
  "\<exists>v st. uniform_int_next (lcg_next minstd_rand0) 64 1 2147483646 32 True \<lparr>ui_a = - 3, ui_b = 4\<rparr> 1
     = Some (v, st) \<and> - 3 \<le> v \<and> v \<le> 4"
proof -
  define p where "p = \<lparr>ui_a = - 3, ui_b = 4\<rparr>"
  have p: "uniform_params 32 True p" by (simp add: p_def uniform_params_def in_type_def in_signed_def)
  have rp: "uniform_range 32 p = 2 ^ 3" by (simp add: p_def uniform_range_def uniform_digits_def)
  have m: "lcg_min minstd_rand0 = 1" "lcg_max minstd_rand0 = 2147483646"
    by (simp_all add: lcg_min_def lcg_max_def minstd_rand0_def wrap_unsigned_def)
  have e: "lcg_live minstd_rand0 1" by (simp add: lcg_live_def lcg_inv_def lcg_modulus_def lcg_min_def minstd_rand0_def)
  note c = uniform_int_correct [OF minstd0_bits.bit_generator_axioms p e, unfolded m]
  have "uniform_int_next (lcg_next minstd_rand0) 64 1 2147483646 32 True p 1 \<noteq> None"
    using c rp minstd_lower_half unfolding m by blast
  then obtain v st where r: "uniform_int_next (lcg_next minstd_rand0) 64 1 2147483646 32 True p 1 = Some (v, st)" by auto
  with c have "ui_a p \<le> v \<and> v \<le> ui_b p" by blast
  with r show ?thesis unfolding p_def by simp
qed

end
