(* ===== verification/Spec2Isabelle.thy ===== *)
theory Spec2Isabelle
  imports DeviceTrig DeviceWarp DeviceAtomics CudaRuntimeProps CxxSetOps CxxSearch CxxHeap CxxCalendar CxxFromCharsBase
    CxxNumeric CxxUniformInt
begin

text \<open>
  A verification library for the C and C++ sources that vcx ships.

  \<^bold>\<open>The program.\<close> vcx is a C++ compiler. Its front end and driver are written in Go; what it compiles
  programs against, and links into them, is C and C++: the device headers of CUDA and HIP
  (include/cuda, include/hip), the CUDA runtime (runtime/cuda), and the C++ library whose headers
  are under include/linux/c++/v1. A CUDA program built by vcx is put together as follows: the compiler
  wraps the device images in a container (offload/fatbin.go) and has the program register it; at run
  time \<open>vcx_cudart.cpp\<close> finds the image for the installed device in the container, loads it through
  the driver and launches kernels; the kernels call the device headers; host code calls the library.
  The theories follow these parts.

  \<^bold>\<open>Shared.\<close> Prelude holds integer types, logarithm and square root and the word lemmas. CxxInts
  holds C++ integer arithmetic: unsigned arithmetic wraps, signed arithmetic that overflows is
  undefined and is the value None, so a theorem that an operation returns Some also shows
  that nothing overflows. CxxRanges holds comparators, the locale of strict weak orders and sortedness.

  \<^bold>\<open>Device headers.\<close> DeviceFloat is IEEE 754 binary32 and binary64 arithmetic on integers; DeviceMath
  translates \<open>__vcx_devicelib_math.h\<close> over a record of that arithmetic (the locales of its laws are
  interpreted on both formats), and DeviceTrig follows the rounding errors through sin and cos; DeviceWarp translates the lane arithmetic, shuffles and votes of
  the warp headers, with the exchange between lanes a function of all lanes; DeviceAtomics has the
  atomics, and its compare-and-swap loops and reducing barriers are step relations whose runs are
  the interleavings of the threads. Shown: ldexpf is correctly rounded, the double sin and
  cos are within a stated bound of the sine and the cosine, the shuffles refine their segment-wise specification, the loops are
  linearizable and end, the barrier returns the reduction of all threads.

  \<^bold>\<open>Offloading.\<close> OffloadFatbin translates the writers of offload/fatbin.go and the runtime's reader
  \<open>findImage\<close>. CudaRuntime translates \<open>vcx_cudart.cpp\<close>: the state is one record (tables of fat
  binaries, kernels, launch configurations, the device and the last error), one definition per API
  function and one for a call of any of them; the NVIDIA driver, which is not among the sources, is a
  parameter, a value of the datatype Driver with one field per entry point. CudaRuntimeProps has
  the invariant of the tables, the errors recorded, the stack of launch configurations (a locale,
  interpreted on the runtime's own push and pop) and the loading of modules. This theory composes
  the compiler's writer with the runtime's reader and loader.

  \<^bold>\<open>The C++ library.\<close> Algorithms: CxxBinarySearch, CxxSetOps, CxxSearch and CxxHeap
  (\<open>__algorithm\<close>), on lists and positions, under the locale of strict weak orders. Calendar:
  CxxCalendarFields and CxxCalendar (\<open>__chrono\<close>), with the proleptic Gregorian calendar as the
  specification. Text: CxxToChars, CxxFromChars and CxxFromCharsBase
  (\<open>__charconv\<close>; integers in every base). Bits and numbers: CxxBits
  (\<open>__bit\<close>) and CxxNumeric (\<open>__numeric\<close>, \<open>__utility/cmp.h\<close>). Random numbers (\<open>__random\<close>): CxxLcg
  (linear congruential engine), CxxSeedSeq (seed sequence), CxxEngines (Mersenne twister and
  subtraction with carry, rings of words that refine shift registers), CxxAdaptors
  (discarded blocks and shuffled order, over any engine) and CxxUniformInt (the uniform
  distribution of integers, over any generator).
  Shown: the algorithms compute what the standard specifies, on every branch, with the
  optimised variants equal to the plain ones; conversions and dates round-trip; the engines
  produce the sequences of their recurrences although the machine arithmetic wraps.

  \<^bold>\<open>Loops.\<close> Loops with a structural or measured argument are total functions. Those that could run
  forever on some input (the word loop of \<open>countl_zero\<close>, the loop of the binary gcd, the rejection loops
  of the distribution) are partial
  functions into an option, and the theorems show that, or when, they return. The compare-and-swap loops and the
  barriers are relations; their theorems bound the steps. No definition uses fuel.

  \<^bold>\<open>Not modelled.\<close> The compiler itself (preprocessor, scanner, parser, semantic analysis, lowering,
  linking) is Go code and beyond this library, which is about the C and C++ sources; its backend is
  not part of the repository. Vendored C and kernel headers declare and define constants only. Of
  the C++ library the parts not named above (containers, streams, locales, format, threads, the
  other distributions) are not modelled, nor are the stream operators of the engines and
  the adaptor to independent bits,
  midpoint of floating point numbers, and the memcmp and memchr shortcuts of the algorithms. The HIP runtime and the glue
  of the CUDA runtime forward calls to vendor libraries whose sources are not available.
\<close>

section \<open>The compiler's containers in the runtime\<close>

lemma loadModule_first:
  assumes i: "i < length (fatbins s)" "cumodule (fatbins s ! i) = 0" "\<not> loadFailed (fatbins s ! i)"
    and ctx: "ensureContext lib s = Some (cudaSuccess, s1)"
    and cap: "attribute 0 75 (device s1) s1 = Some (major, s2)" "attribute 0 76 (device s2) s2 = Some (minor, s3)"
    and sm: "in_signed 32 (major * 10)" "in_signed 32 (major * 10 + minor)" "0 \<le> major * 10 + minor"
    and w: "wrapper (fatbins s3 ! i) = Some \<lparr>w_magic = wrapperMagic, w_data = d\<rparr>"
    and im: "findImage d (nat (major * 10 + minor)) = Some best"
  shows "loadModule lib (Some i) s =
    (case best of
       None \<Rightarrow> Some (fail cudaErrorInvalidDeviceFunction (s3\<lparr>fatbins := (fatbins s3)[i := (fatbins s3 ! i)\<lparr>loadFailed := True\<rparr>]\<rparr>))
     | Some off \<Rightarrow> call (map_option (\<lambda>f. f (drop off d)) (ModuleLoadDataEx (drv s3))) s3 \<bind> (\<lambda>((r, m), s).
         let fb = (fatbins s ! i)\<lparr>cumodule := written (cumodule (fatbins s ! i)) m\<rparr>
         in if r \<noteq> 0 then Some (check r (s\<lparr>fatbins := (fatbins s)[i := fb\<lparr>loadFailed := True\<rparr>]\<rparr>))
            else Some (cudaSuccess, s\<lparr>fatbins := (fatbins s)[i := fb]\<rparr>)))"
proof -
  have "uint32 (major * 10 + minor) = major * 10 + minor"
    using sm by (intro wrap_unsigned_id) (simp_all add: in_signed_def)
  with w im have "image_of (wrapper (fatbins s3 ! i)) (nat (uint32 (major * 10 + minor))) = Some best"
    by (simp add: image_of_def)
  then show ?thesis
    using i ctx cap w
    by (auto simp: loadModule_def checked_Some [OF sm(1)] checked_Some [OF sm(2)] Let_def split: option.split)
qed

lemma fromDriver_0 [simp]: "fromDriver 0 = cudaSuccess"
  by (simp add: fromDriver_def)

lemma attribute_keeps: "attribute old a d s = Some (v, s') \<Longrightarrow> keeps lib s cudaSuccess s'"
  by (drule attribute_call, elim exE) (rule keeps_call)

lemma keeps_wrapper: "keeps lib s e s' \<Longrightarrow> i < length (fatbins s) \<Longrightarrow> i < length (fatbins s') \<and> wrapper (fatbins s' ! i) = wrapper (fatbins s ! i)"
proof -
  assume k: "keeps lib s e s'" and i: "i < length (fatbins s)"
  then have m: "map wrapper (fatbins s') = map wrapper (fatbins s)" by (simp add: keeps_def same_tables_def)
  then have "length (fatbins s') = length (fatbins s)" by (rule map_eq_imp_length_eq)
  with arg_cong [OF m, of "\<lambda>l. l ! i"] i show ?thesis by simp
qed

text \<open>
  C1. From the compiler to the driver: when a program whose fat binary is the container that the
  compiler wrote for a list of device images loads its module on a device of compute capability
  major.minor, the driver is handed exactly the text of the newest PTX image the device can run,
  ended by a zero byte; the module of the fat binary is the one the driver returns, a driver error
  is passed on and marks the fat binary as failed, and without such an image the load fails with
  an invalid device function and is not tried again.
\<close>
theorem compiled_module_loads_newest:
  assumes images: "\<forall>im\<in>set images. image_ok im" "length (Fatbin images) < 2 ^ 64"
    and i: "i < length (fatbins s)" "cumodule (fatbins s ! i) = 0" "\<not> loadFailed (fatbins s ! i)"
    and w: "wrapper (fatbins s ! i) = Some \<lparr>w_magic = wrapperMagic, w_data = Fatbin images\<rparr>"
    and ctx: "ensureContext lib s = Some (cudaSuccess, s1)"
    and cap: "attribute 0 75 (device s1) s1 = Some (major, s2)" "attribute 0 76 (device s2) s2 = Some (minor, s3)"
    and sm: "0 \<le> major" "major \<le> 1000" "0 \<le> minor" "minor \<le> 9"
    and f: "ModuleLoadDataEx (drv s3) = Some f"
  shows "case newest (nat (major * 10 + minor)) images of
      None \<Rightarrow> \<exists>s'. loadModule lib (Some i) s = Some (cudaErrorInvalidDeviceFunction, s') \<and> loadFailed (fatbins s' ! i) \<and>
        (cumodule (fatbins s' ! i) = 0 \<longrightarrow> loadModule lib (Some i) s' = Some (cudaErrorInvalidDeviceFunction, s'))
    | Some im \<Rightarrow> \<exists>rest r m w'. f (Data im @ 0 # rest) (gpu s3) = ((r, m), w') \<and>
        (\<exists>s'. loadModule lib (Some i) s = Some (fromDriver r, s') \<and> (r = 0 \<longrightarrow> (\<forall>h. m = Some h \<longrightarrow> cumodule (fatbins s' ! i) = h)) \<and>
          (r \<noteq> 0 \<longrightarrow> loadFailed (fatbins s' ! i) \<and> lastError s' = fromDriver r))"
proof -
  define n where "n = nat (major * 10 + minor)"
  have k: "keeps lib s cudaSuccess s1" using readies_ensureContext [of lib s] ctx by (simp add: readies_def)
  have w3: "i < length (fatbins s3)" "wrapper (fatbins s3 ! i) = Some \<lparr>w_magic = wrapperMagic, w_data = Fatbin images\<rparr>"
    using keeps_wrapper [OF keeps_trans [OF keeps_trans [OF k attribute_keeps [OF cap(1)]] attribute_keeps [OF cap(2)]] i(1)] w by simp_all
  obtain best where best: "findImage (Fatbin images) n = Some best"
      "newest n images = None \<Longrightarrow> best = None"
      "\<And>im. newest n images = Some im \<Longrightarrow> \<exists>off rest. best = Some off \<and> drop off (Fatbin images) = Data im @ 0 # rest"
    using findImage_newest [of images n] images by (auto simp: located_def split: option.splits)
  have sgn: "in_signed 32 (major * 10)" "in_signed 32 (major * 10 + minor)" "0 \<le> major * 10 + minor"
    using sm by (simp_all add: in_signed_def)
  note load = loadModule_first [OF i ctx cap sgn w3(2) best(1) [unfolded n_def]]
  show ?thesis
  proof (cases "newest n images")
    case None
    with load best(2) w3(1) show ?thesis
      by (auto simp: n_def fail_def loadModule_def)
  next
    case (Some im)
    with best(3) obtain off rest where off: "best = Some off" "drop off (Fatbin images) = Data im @ 0 # rest" by blast
    obtain r m w' where d: "f (Data im @ 0 # rest) (gpu s3) = ((r, m), w')" by (metis prod.exhaust)
    with load off f w3(1) have "\<exists>s'. loadModule lib (Some i) s = Some (fromDriver r, s') \<and>
        (r = 0 \<longrightarrow> (\<forall>h. m = Some h \<longrightarrow> cumodule (fatbins s' ! i) = h)) \<and>
        (r \<noteq> 0 \<longrightarrow> loadFailed (fatbins s' ! i) \<and> lastError s' = fromDriver r)"
      by (simp add: call_def Let_def check_def fail_def written_def)
    with d show ?thesis unfolding n_def [symmetric] Some option.case by blast
  qed
qed

theorem compiled_module_loads_newest_witness:
  "\<exists>rest r m w' s'. the (ModuleLoadDataEx sample_driver) ([65] @ 0 # rest) ((), \<lambda>a. None) = ((r, m), w') \<and>
     loadModule (Some sample_driver) (Some 0)
       (sample_state\<lparr>fatbins := [\<lparr>wrapper = Some sample_wrapper, cumodule = 0, loadFailed = False\<rparr>]\<rparr>) = Some (fromDriver r, s')"
proof -
  define s where "s = sample_state\<lparr>fatbins := [\<lparr>wrapper = Some sample_wrapper, cumodule = 0, loadFailed = False\<rparr>]\<rparr>"
  have "length (Fatbin [sample_image PTX 75 [65]]) < 2 ^ 64"
    by (simp add: Fatbin_def append_image_def pad_zero_def image_payload_def sample_image_def Let_def)
  moreover have "image_ok (sample_image PTX 75 [65])" by (simp add: image_ok_def sample_image_def image_payload_def)
  moreover have "wrapper (fatbins s ! 0) = Some \<lparr>w_magic = wrapperMagic, w_data = Fatbin [sample_image PTX 75 [65]]\<rparr>"
      "ensureContext (Some sample_driver) s = Some (cudaSuccess, s)" "fatbins s \<noteq> []" "cumodule (fatbins s ! 0) = 0"
      "\<not> loadFailed (fatbins s ! 0)" "gpu s = ((), \<lambda>a. None)"
    by (simp_all add: s_def sample_wrapper_def ensureContext_def sample_state_def initial_def)
  moreover have "attribute 0 75 (device s) s = Some (8, s)" "attribute 0 76 (device s) s = Some (6, s)" "drv s = sample_driver"
    by (simp_all add: s_def attribute_def call_def sample_state_def initial_def sample_driver_def written_def)
  moreover obtain f where "ModuleLoadDataEx sample_driver = Some f" by (simp add: sample_driver_def)
  moreover have "newest 86 [sample_image PTX 75 [65]] = Some (sample_image PTX 75 [65])"
    by (simp add: newest_def candidates_def sample_image_def)
  ultimately show ?thesis
    using compiled_module_loads_newest [of "[sample_image PTX 75 [65]]" 0 s "Some sample_driver" s 8 s 6 s f]
    unfolding s_def [symmetric] by (fastforce simp: sample_image_def)
qed

end
